(* ===== verification/Chronicle_Prelude.thy ===== *)
theory Chronicle_Prelude
  imports Main "HOL-Library.Word" "HOL-Library.List_Lexorder" "HOL-Library.Char_ord"
    "HOL-Library.AList" "HOL-Library.Multiset"
begin

text \<open>
  Shared vocabulary of the development.

  \<^item> Machine integers: Go's \<open>uint64\<close> and \<open>uint32\<close> are words of that width.
  \<^item> Go strings and byte slices are both sequences of bytes, so both are
    \<^typ>\<open>string\<close>; the order of Go strings is the lexicographic order of their bytes,
    which is the order of List-Lexorder over Char-ord.
  \<^item> A Go map is an association list with distinct keys (\<open>gomap\<close>): lookups go
    through \<open>map_of\<close>, stores through \<open>AList.update\<close>, and a \<open>range\<close> loop reads the
    list in some order that the Go programs then sort away.
  \<^item> A fallible function returns a sum: \<open>Inl\<close> its error, \<open>Inr\<close> its result.
  \<^item> \<open>sort.Search\<close> of the Go library, as the binary search it is, with its
    specification.
  \<^item> Big-endian integers and length-prefixed byte strings, with the locale \<open>codec\<close>
    that every encoder/decoder pair of the development interprets.
\<close>

section \<open>Types\<close>

type_synonym u64 = "64 word"
type_synonym u32 = "32 word"
type_synonym bytes = "char list"
type_synonym ('k, 'v) gomap = "('k \<times> 'v) list"

named_theorems result_simps \<open>equations of the result monad\<close>
named_theorems codec_simps \<open>round trips of encoders and decoders\<close>

section \<open>Results\<close>

definition bindR :: "'e + 'a \<Rightarrow> ('a \<Rightarrow> 'e + 'b) \<Rightarrow> 'e + 'b" where
  "bindR m f = (case m of Inl e \<Rightarrow> Inl e | Inr x \<Rightarrow> f x)"

lemma bindR_Inl [simp, result_simps]: "bindR (Inl e) f = Inl e"
  by (simp add: bindR_def)

lemma bindR_Inr [simp, result_simps]: "bindR (Inr x) f = f x"
  by (simp add: bindR_def)

lemma bindR_eq_Inr [result_simps]:
  "bindR m f = Inr y \<longleftrightarrow> (\<exists>x. m = Inr x \<and> f x = Inr y)"
  by (cases m) auto

lemma bindR_cong [fundef_cong]:
  "m = m' \<Longrightarrow> (\<And>x. m' = Inr x \<Longrightarrow> f x = f' x) \<Longrightarrow> bindR m f = bindR m' f'"
  by (cases m') auto

section \<open>Go maps\<close>

definition mget :: "('k, 'v) gomap \<Rightarrow> 'k \<Rightarrow> 'v option" where
  "mget m k = map_of m k"

definition mput :: "'k \<Rightarrow> 'v \<Rightarrow> ('k, 'v) gomap \<Rightarrow> ('k, 'v) gomap" where
  "mput k v m = AList.update k v m"

definition mkeys :: "('k, 'v) gomap \<Rightarrow> 'k list" where
  "mkeys m = map fst m"

abbreviation mwf :: "('k, 'v) gomap \<Rightarrow> bool" where
  "mwf m \<equiv> distinct (map fst m)"

text \<open>The interface of a finite map that the components use, and its laws.\<close>

locale finite_map =
  fixes get :: "'m \<Rightarrow> 'k \<Rightarrow> 'v option"
    and put :: "'k \<Rightarrow> 'v \<Rightarrow> 'm \<Rightarrow> 'm"
    and keys :: "'m \<Rightarrow> 'k list"
    and wf :: "'m \<Rightarrow> bool"
  assumes get_put: "get (put k v m) k' = (if k' = k then Some v else get m k')"
    and wf_put: "wf m \<Longrightarrow> wf (put k v m)"
    and set_keys: "set (keys m) = {k. get m k \<noteq> None}"
    and distinct_keys: "wf m \<Longrightarrow> distinct (keys m)"
begin

lemma get_put_same: "get (put k v m) k = Some v"
  by (simp add: get_put)

lemma get_put_other: "k' \<noteq> k \<Longrightarrow> get (put k v m) k' = get m k'"
  by (simp add: get_put)

lemma put_put_get: "get (put k v (put k v' m)) = get (put k v m)"
  by (auto simp: get_put fun_eq_iff)

lemma keys_put: "set (keys (put k v m)) = insert k (set (keys m))"
  by (auto simp: set_keys get_put)

lemma keys_cong: "get m = get m' \<Longrightarrow> set (keys m) = set (keys m')"
  by (simp add: set_keys)

end

interpretation gm: finite_map mget mput mkeys "\<lambda>m. mwf m"
proof unfold_locales
  fix k k' :: 'a and v :: 'b and m :: "('a, 'b) gomap"
  show "mget (mput k v m) k' = (if k' = k then Some v else mget m k')"
    by (simp add: mget_def mput_def update_conv')
  show "mwf m \<Longrightarrow> mwf (mput k v m)"
    by (simp add: mput_def distinct_update)
  show "set (mkeys m) = {k. mget m k \<noteq> None}"
    by (auto simp: mget_def mkeys_def map_of_eq_None_iff)
  show "mwf m \<Longrightarrow> distinct (mkeys m)"
    by (simp add: mkeys_def)
qed

declare gm.get_put [simp] gm.wf_put [simp]

lemma mget_Nil [simp]: "mget [] k = None"
  by (simp add: mget_def)

lemma mget_in_set: "mwf m \<Longrightarrow> mget m k = Some v \<longleftrightarrow> (k, v) \<in> set m"
  by (simp add: mget_def)

lemma mget_cong_set: "mwf m \<Longrightarrow> mwf m' \<Longrightarrow> set m = set m' \<Longrightarrow> mget m = mget m'"
  unfolding mget_def using map_of_inject_set by blast

text \<open>\<open>delete(m, k)\<close>\<close>

definition mdel :: "'k \<Rightarrow> ('k, 'v) gomap \<Rightarrow> ('k, 'v) gomap" where
  "mdel k m = filter (\<lambda>p. fst p \<noteq> k) m"

lemma mget_mdel [simp]: "mget (mdel k m) k' = (if k' = k then None else mget m k')"
  by (induction m) (auto simp: mget_def mdel_def)

lemma mwf_mdel [simp]: "mwf m \<Longrightarrow> mwf (mdel k m)"
  by (induction m) (auto simp: mdel_def)

section \<open>\<open>sort.Search\<close>\<close>

text \<open>
  \<^verbatim>\<open>
  func Search(n int, f func(int) bool) int {
    i, j := 0, n
    for i < j {
      h := int(uint(i+j) >> 1)
      if !f(h) { i = h + 1 } else { j = h }
    }
    return i
  }
  \<close>
\<close>

function search_loop :: "(nat \<Rightarrow> bool) \<Rightarrow> nat \<Rightarrow> nat \<Rightarrow> nat" where
  "search_loop f i j =
     (if i < j
      then (let h = (i + j) div 2
            in if \<not> f h then search_loop f (h + 1) j else search_loop f i h)
      else i)"
  by pat_completeness auto
termination
  by (relation "measure (\<lambda>(f, i, j). j - i)") auto

declare search_loop.simps [simp del]

definition sort_Search :: "nat \<Rightarrow> (nat \<Rightarrow> bool) \<Rightarrow> nat" where
  "sort_Search n f = search_loop f 0 n"

definition SearchStrings :: "string list \<Rightarrow> string \<Rightarrow> nat" where
  "SearchStrings a x = sort_Search (length a) (\<lambda>i. a ! i \<ge> x)"

definition upward :: "nat \<Rightarrow> (nat \<Rightarrow> bool) \<Rightarrow> bool" where
  "upward n f \<longleftrightarrow> (\<forall>a b. a \<le> b \<longrightarrow> b < n \<longrightarrow> f a \<longrightarrow> f b)"

lemma search_loop_spec:
  assumes "i \<le> j" "j \<le> n" "upward n f"
    and "\<forall>k < i. \<not> f k" and "\<forall>k. j \<le> k \<longrightarrow> k < n \<longrightarrow> f k"
  shows "search_loop f i j \<le> n \<and> (\<forall>k < search_loop f i j. \<not> f k)
    \<and> (\<forall>k. search_loop f i j \<le> k \<longrightarrow> k < n \<longrightarrow> f k)"
  using assms
proof (induction f i j rule: search_loop.induct)
  case (1 f i j)
  let ?h = "(i + j) div 2"
  consider (stop) "\<not> i < j" | (left) "i < j" "f ?h" | (right) "i < j" "\<not> f ?h" by blast
  then show ?case
  proof cases
    case stop
    with "1.prems"(1) have "i = j" by simp
    have "search_loop f j j = j" by (subst search_loop.simps) simp
    with \<open>i = j\<close> "1.prems" show ?thesis by simp
  next
    case left
    then have "i \<le> ?h" "?h \<le> n" using "1.prems"(2) by auto
    moreover have "\<forall>k. ?h \<le> k \<longrightarrow> k < n \<longrightarrow> f k"
      using left "1.prems"(3) by (auto simp: upward_def)
    ultimately have IH: "search_loop f i ?h \<le> n \<and> (\<forall>k < search_loop f i ?h. \<not> f k)
        \<and> (\<forall>k. search_loop f i ?h \<le> k \<longrightarrow> k < n \<longrightarrow> f k)"
      using "1.IH"(2) [OF left(1) refl] left(2) "1.prems"(3,4) by blast
    have "search_loop f i j = search_loop f i ?h"
      by (subst search_loop.simps) (simp add: left)
    then show ?thesis using IH by (rule ssubst)
  next
    case right
    then have "?h + 1 \<le> j" by auto
    moreover have "\<forall>k < ?h + 1. \<not> f k"
    proof (intro allI impI notI)
      fix k assume "k < ?h + 1" "f k"
      moreover have "?h < n" using right(1) "1.prems"(2) by auto
      ultimately show False using right(2) "1.prems"(3) by (auto simp: upward_def less_Suc_eq_le)
    qed
    ultimately have IH: "search_loop f (?h + 1) j \<le> n
        \<and> (\<forall>k < search_loop f (?h + 1) j. \<not> f k)
        \<and> (\<forall>k. search_loop f (?h + 1) j \<le> k \<longrightarrow> k < n \<longrightarrow> f k)"
      using "1.IH"(1) [OF right(1) refl right(2)] "1.prems"(2,3,5) by blast
    have "search_loop f i j = search_loop f (?h + 1) j"
      by (subst search_loop.simps) (simp add: right Let_def)
    then show ?thesis using IH by (rule ssubst)
  qed
qed

lemma sort_Search_spec:
  assumes "upward n f"
  shows "sort_Search n f \<le> n" and "k < sort_Search n f \<Longrightarrow> \<not> f k"
    and "sort_Search n f \<le> k \<Longrightarrow> k < n \<Longrightarrow> f k"
  using search_loop_spec [of 0 n n f] assms by (auto simp: sort_Search_def)

lemma sort_Search_unique:
  assumes "upward n f" and "r \<le> n" "\<And>k. k < r \<Longrightarrow> \<not> f k" "r < n \<Longrightarrow> f r"
  shows "sort_Search n f = r"
proof (rule linorder_cases [of "sort_Search n f" r])
  assume lt: "sort_Search n f < r"
  then have "f (sort_Search n f)" using sort_Search_spec(3) [OF assms(1)] assms(2) by simp
  with lt assms(3) show ?thesis by blast
next
  assume gt: "r < sort_Search n f"
  then have "f r" using sort_Search_spec(1) [OF assms(1)] assms(4) by simp
  with gt sort_Search_spec(2) [OF assms(1)] show ?thesis by blast
qed

text \<open>On a list that splits into a part where the test fails and one where it holds.\<close>

lemma sort_Search_append:
  assumes "\<forall>x \<in> set xs. \<not> P x" "\<forall>y \<in> set ys. P y"
  shows "sort_Search (length (xs @ ys)) (\<lambda>i. P ((xs @ ys) ! i)) = length xs"
proof (rule sort_Search_unique)
  show "upward (length (xs @ ys)) (\<lambda>i. P ((xs @ ys) ! i))"
    using assms by (auto simp: upward_def nth_append)
next
  fix k assume "k < length xs"
  then show "\<not> P ((xs @ ys) ! k)" using assms by (simp add: nth_append)
next
  assume "length xs < length (xs @ ys)"
  then show "P ((xs @ ys) ! length xs)" using assms
    by (simp add: nth_append)
qed simp

section \<open>Sorted lists\<close>

text \<open>A list sorted by a key splits at every threshold of that key.\<close>

lemma sorted_wrt_split:
  fixes f :: "'a \<Rightarrow> 'b :: linorder"
  assumes "sorted_wrt (\<lambda>a b. f a < f b) xs"
  shows "xs = filter (\<lambda>x. f x \<le> w) xs @ filter (\<lambda>x. \<not> f x \<le> w) xs"
  using assms
proof (induction xs)
  case Nil
  then show ?case by simp
next
  case (Cons x xs)
  show ?case
  proof (cases "f x \<le> w")
    case True
    with Cons show ?thesis by simp
  next
    case False
    with Cons.prems have "\<forall>y \<in> set xs. \<not> f y \<le> w" by auto
    with False show ?thesis by (simp add: filter_empty_conv filter_id_conv)
  qed
qed

lemma sorted_wrt_split_less:
  fixes xs :: "'b :: linorder list"
  assumes "sorted_wrt (<) xs"
  shows "xs = filter (\<lambda>x. x < w) xs @ filter (\<lambda>x. \<not> x < w) xs"
  using assms
proof (induction xs)
  case Nil
  then show ?case by simp
next
  case (Cons x xs)
  show ?case
  proof (cases "x < w")
    case True
    with Cons show ?thesis by simp
  next
    case False
    with Cons.prems have "\<forall>y \<in> set xs. \<not> y < w" by auto
    with False show ?thesis by (simp add: filter_empty_conv filter_id_conv)
  qed
qed

lemma SearchStrings_split:
  assumes "sorted_wrt (<) ks"
  shows "SearchStrings ks x = length (filter (\<lambda>k. k < x) ks)"
    and "take (SearchStrings ks x) ks = filter (\<lambda>k. k < x) ks"
    and "drop (SearchStrings ks x) ks = filter (\<lambda>k. \<not> k < x) ks"
proof -
  let ?a = "filter (\<lambda>k. k < x) ks" and ?b = "filter (\<lambda>k. \<not> k < x) ks"
  have ks: "?a @ ?b = ks" using sorted_wrt_split_less [OF assms] by simp
  have "sort_Search (length (?a @ ?b)) (\<lambda>i. x \<le> (?a @ ?b) ! i) = length ?a"
    by (rule sort_Search_append) auto
  then show len: "SearchStrings ks x = length ?a"
    unfolding SearchStrings_def ks .
  have "take (length ?a) (?a @ ?b) = ?a" "drop (length ?a) (?a @ ?b) = ?b" by simp_all
  then show "take (SearchStrings ks x) ks = ?a" "drop (SearchStrings ks x) ks = ?b"
    unfolding len ks by simp_all
qed

lemma sorted_wrt_insert_at:
  fixes ks :: "'b :: linorder list"
  assumes "sorted_wrt (<) ks" "x \<notin> set ks"
  shows "sorted_wrt (<) (filter (\<lambda>k. k < x) ks @ x # filter (\<lambda>k. \<not> k < x) ks)"
  using assms by (auto simp: sorted_wrt_append sorted_wrt_filter not_less order.strict_iff_order)

lemma filter_greater_of_split:
  fixes ks :: "'b :: linorder list"
  assumes "sorted_wrt (<) ks"
  shows "filter (\<lambda>k. \<not> k < x) ks
    = (if x \<in> set ks then x # filter (\<lambda>k. x < k) ks else filter (\<lambda>k. x < k) ks)"
  using assms
proof (induction ks)
  case Nil
  then show ?case by simp
next
  case (Cons a ks)
  then show ?case
  proof (cases "a = x")
    case True
    with Cons.prems have "\<forall>k \<in> set ks. x < k" by auto
    with True show ?thesis by (auto simp: filter_id_conv intro!: filter_cong)
  next
    case False
    with Cons show ?thesis by auto
  qed
qed

section \<open>Filling a map from a list\<close>

definition mputs :: "('a \<Rightarrow> 'k) \<Rightarrow> ('a \<Rightarrow> 'v) \<Rightarrow> 'a list \<Rightarrow> ('k, 'v) gomap \<Rightarrow> ('k, 'v) gomap" where
  "mputs key val xs m = foldl (\<lambda>m x. mput (key x) (val x) m) m xs"

lemma mputs_simps [simp]:
  "mputs key val [] m = m"
  "mputs key val (x # xs) m = mputs key val xs (mput (key x) (val x) m)"
  by (simp_all add: mputs_def)

lemma mwf_mputs: "mwf m \<Longrightarrow> mwf (mputs key val xs m)"
  by (induction xs arbitrary: m) simp_all

lemma mget_mputs_other: "k \<notin> key ` set xs \<Longrightarrow> mget (mputs key val xs m) k = mget m k"
  by (induction xs arbitrary: m) auto

lemma mget_mputs_in:
  "distinct (map key xs) \<Longrightarrow> x \<in> set xs \<Longrightarrow> mget (mputs key val xs m) (key x) = Some (val x)"
proof (induction xs arbitrary: m)
  case (Cons y ys)
  show ?case
  proof (cases "x = y")
    case True
    with Cons.prems show ?thesis by (simp add: mget_mputs_other)
  next
    case False
    with Cons show ?thesis by simp
  qed
qed simp

lemma mget_mputs_map_of:
  assumes "distinct (map key xs)"
  shows "mget (mputs key val xs []) k = map_of (map (\<lambda>x. (key x, val x)) xs) k"
proof (cases "k \<in> key ` set xs")
  case True
  then obtain x where x: "x \<in> set xs" "k = key x" by auto
  have "map_of (map (\<lambda>x. (key x, val x)) xs) (key x) = Some (val x)"
    using assms x(1) by (intro map_of_is_SomeI) (auto simp: comp_def)
  with x assms show ?thesis by (simp add: mget_mputs_in)
next
  case False
  then have "map_of (map (\<lambda>x. (key x, val x)) xs) k = None"
    by (auto simp: map_of_eq_None_iff image_image)
  with False show ?thesis by (simp add: mget_mputs_other)
qed

text \<open>A list with pairwise different keys is determined by its elements once it is sorted.\<close>

lemma sort_key_unique:
  fixes key :: "'a \<Rightarrow> 'b :: linorder"
  assumes "set xs = set ys" "distinct (map key xs)" "distinct (map key ys)"
  shows "sort_key key xs = sort_key key ys"
proof (rule map_sorted_distinct_set_unique [where f = key])
  have "mset (sort_key key xs) = mset xs" "mset (sort_key key ys) = mset ys" by simp_all
  then show "distinct (map key (sort_key key xs))" "distinct (map key (sort_key key ys))"
    using assms(2,3) by (metis mset_eq_imp_distinct_iff mset_map)+
  show "inj_on key (set (sort_key key xs) \<union> set (sort_key key ys))"
    using assms by (simp add: distinct_map)
qed (use assms(1) in simp_all)

lemma distinct_map_sort_key: "distinct (map key xs) \<Longrightarrow> distinct (map key (sort_key key' xs))"
  by (metis mset_eq_imp_distinct_iff mset_map mset_sort)

lemma sorted_wrt_of_sorted_distinct:
  "sorted xs \<Longrightarrow> distinct xs \<Longrightarrow> sorted_wrt (<) xs"
  by (simp add: strict_sorted_iff)

lemma sorted_wrt_unique:
  fixes xs :: "'b :: linorder list"
  assumes "sorted_wrt (<) xs" "sorted_wrt (<) ys" "set xs = set ys"
  shows "xs = ys"
  using assms by (auto simp: strict_sorted_iff intro: sorted_distinct_set_unique)

text \<open>The decimal digits of a number, as \<^verbatim>\<open>fmt\<close> prints it under \<open>%d\<close>.\<close>

function show_nat :: "nat \<Rightarrow> string" where
  "show_nat n = (if n < 10 then [char_of (48 + n)] else show_nat (n div 10) @ [char_of (48 + n mod 10)])"
  by auto
termination
  by (relation "measure id") auto

declare show_nat.simps [simp del]

end
