(* ===== verification/Mvcc.thy ===== *)
theory Mvcc
  imports Chronicle_Prelude
begin

text \<open>
  The multi-version store of \<^verbatim>\<open>internal/mvcc/mvcc.go\<close>: version chains per key, the
  ordered key index, the garbage-collection horizon, and the operations on them. The
  Go \<open>Store\<close> takes its lock around every operation, so each operation is one atomic
  function of the store; the lock itself is not a field of the model.

  After the operations come the store invariant, the committed view \<open>read_at\<close> that a
  snapshot is entitled to see, and the laws of the operations over that view. They are
  collected in the locale \<open>versioned_store\<close>, the contract the state machine relies on,
  whose main consequence is that the view of a snapshot never changes.
\<close>

section \<open>Data\<close>

datatype mvcc_error = ErrNonMonotonicCommit | ErrSnapshotTooOld

record Version =
  ver_CommitSeq :: u64
  ver_Value :: bytes
  ver_Tombstone :: bool

record Mutation =
  mut_Key :: string
  mut_Value :: bytes
  mut_Tombstone :: bool

record KV =
  kv_Key :: string
  kv_Value :: bytes

record KeyChain =
  kc_Key :: string
  kc_Versions :: "Version list"

record Store =
  chains :: "(string, Version list) gomap"
  orderedKeys :: "string list"
  st_gcWatermark :: u64
  skipHorizonGuardForTest :: bool

section \<open>Operations\<close>

definition NewStore :: Store where
  "NewStore = \<lparr>chains = [], orderedKeys = [], st_gcWatermark = 0,
     skipHorizonGuardForTest = False\<rparr>"

definition SetSkipHorizonGuardForTest :: "bool \<Rightarrow> Store \<Rightarrow> Store" where
  "SetSkipHorizonGuardForTest skip s = s\<lparr>skipHorizonGuardForTest := skip\<rparr>"

text \<open>\<open>s.chains[key]\<close>: a missing key reads as the nil slice.\<close>

definition chain_of :: "Store \<Rightarrow> string \<Rightarrow> Version list" where
  "chain_of s key = (case mget (chains s) key of None \<Rightarrow> [] | Some c \<Rightarrow> c)"

definition insertOrderedKeyLocked :: "string \<Rightarrow> Store \<Rightarrow> Store" where
  "insertOrderedKeyLocked key s =
     (let idx = SearchStrings (orderedKeys s) key
      in s\<lparr>orderedKeys := take idx (orderedKeys s) @ [key] @ drop idx (orderedKeys s)\<rparr>)"

definition KeysFrom :: "Store \<Rightarrow> string \<Rightarrow> int \<Rightarrow> string list" where
  "KeysFrom s cursor limit =
     (if limit \<le> 0 then []
      else let ks = orderedKeys s;
               start0 = SearchStrings ks cursor;
               start = (if start0 < length ks \<and> ks ! start0 = cursor then start0 + 1 else start0)
           in if start \<ge> length ks then []
              else let end0 = start + nat limit;
                       end = (if end0 > length ks then length ks else end0)
                   in take (end - start) (drop start ks))"

text \<open>
  The index \<open>sort.Search(len(chain), chain[i].CommitSeq > seq) - 1\<close> that \<open>ReclaimKey\<close>,
  \<open>Visible\<close> and \<open>ScanVisible\<close> all compute: -1 when no version is old enough.
\<close>

definition newest_idx :: "Version list \<Rightarrow> u64 \<Rightarrow> int" where
  "newest_idx chain seq =
     int (sort_Search (length chain) (\<lambda>i. ver_CommitSeq (chain ! i) > seq)) - 1"

definition ReclaimKey :: "string \<Rightarrow> u64 \<Rightarrow> int \<Rightarrow> Store \<Rightarrow> Store \<times> int" where
  "ReclaimKey key w budget s =
     (if budget \<le> 0 then (s, 0)
      else let chain = chain_of s key
           in if length chain < 2 then (s, 0)
              else let idx = newest_idx chain w
                   in if idx \<le> 0 then (s, 0)
                      else let n = (if idx > budget then budget else idx)
                           in (s\<lparr>chains := mput key (drop (nat n) chain) (chains s)\<rparr>, n))"

definition SetGCWatermark :: "u64 \<Rightarrow> Store \<Rightarrow> Store" where
  "SetGCWatermark w s = (if w > st_gcWatermark s then s\<lparr>st_gcWatermark := w\<rparr> else s)"

definition GCWatermark :: "Store \<Rightarrow> u64" where
  "GCWatermark s = st_gcWatermark s"

text \<open>\<open>found\<close> is the option: \<open>None\<close> for a key that was never written or is deleted.\<close>

definition Visible :: "Store \<Rightarrow> string \<Rightarrow> u64 \<Rightarrow> mvcc_error + bytes option" where
  "Visible s key startSeq =
     (if startSeq < st_gcWatermark s \<and> \<not> skipHorizonGuardForTest s then Inl ErrSnapshotTooOld
      else let chain = chain_of s key; idx = newest_idx chain startSeq
           in if idx < 0 then Inr None
              else let v = chain ! nat idx
                   in if ver_Tombstone v then Inr None else Inr (Some (ver_Value v)))"

definition HasPrefix :: "string \<Rightarrow> string \<Rightarrow> bool" where
  "HasPrefix s p \<longleftrightarrow> length s \<ge> length p \<and> take (length p) s = p"

fun scan_loop :: "Store \<Rightarrow> string \<Rightarrow> u64 \<Rightarrow> string list \<Rightarrow> KV list" where
  "scan_loop s p startSeq [] = []"
| "scan_loop s p startSeq (k # ks) =
     (if \<not> HasPrefix k p then scan_loop s p startSeq ks
      else let chain = chain_of s k; idx = newest_idx chain startSeq
           in if idx < 0 then scan_loop s p startSeq ks
              else let v = chain ! nat idx
                   in if ver_Tombstone v then scan_loop s p startSeq ks
                      else \<lparr>kv_Key = k, kv_Value = ver_Value v\<rparr> # scan_loop s p startSeq ks)"

definition ScanVisible :: "Store \<Rightarrow> string \<Rightarrow> u64 \<Rightarrow> mvcc_error + KV list" where
  "ScanVisible s p startSeq =
     (if startSeq < st_gcWatermark s \<and> \<not> skipHorizonGuardForTest s then Inl ErrSnapshotTooOld
      else Inr (scan_loop s p startSeq (orderedKeys s)))"

definition LatestCommitSeq :: "Store \<Rightarrow> string \<Rightarrow> u64 option" where
  "LatestCommitSeq s key =
     (let chain = chain_of s key
      in if length chain = 0 then None else Some (ver_CommitSeq (chain ! (length chain - 1))))"

fun CheckConflicts :: "Store \<Rightarrow> u64 \<Rightarrow> Mutation list \<Rightarrow> (string \<times> u64) option" where
  "CheckConflicts s startSeq [] = None"
| "CheckConflicts s startSeq (m # ms) =
     (let chain = chain_of s (mut_Key m)
      in if length chain = 0 then CheckConflicts s startSeq ms
         else let latest = ver_CommitSeq (chain ! (length chain - 1))
              in if latest > startSeq then Some (mut_Key m, latest)
                 else CheckConflicts s startSeq ms)"

definition Export :: "Store \<Rightarrow> KeyChain list" where
  "Export s = sort_key kc_Key (map (\<lambda>(k, v). \<lparr>kc_Key = k, kc_Versions = v\<rparr>) (chains s))"

definition Stats :: "Store \<Rightarrow> nat \<times> nat" where
  "Stats s = (length (chains s), sum_list (map (\<lambda>(k, v). length v) (chains s)))"

definition RestoreStore :: "KeyChain list \<Rightarrow> u64 \<Rightarrow> Store" where
  "RestoreStore cs wm =
     \<lparr>chains = mputs kc_Key kc_Versions cs [],
      orderedKeys = sort (map kc_Key cs), st_gcWatermark = wm,
      skipHorizonGuardForTest = False\<rparr>"

fun commit_check :: "Store \<Rightarrow> u64 \<Rightarrow> Mutation list \<Rightarrow> bool" where
  "commit_check s commitSeq [] = True"
| "commit_check s commitSeq (m # ms) =
     (let chain = chain_of s (mut_Key m)
      in if length chain > 0 \<and> ver_CommitSeq (chain ! (length chain - 1)) \<ge> commitSeq then False
         else commit_check s commitSeq ms)"

definition apply_mutation :: "u64 \<Rightarrow> Mutation \<Rightarrow> Store \<Rightarrow> Store" where
  "apply_mutation commitSeq m s =
     (let s' = (if mget (chains s) (mut_Key m) = None
                then insertOrderedKeyLocked (mut_Key m) s else s);
          v = \<lparr>ver_CommitSeq = commitSeq, ver_Value = mut_Value m,
               ver_Tombstone = mut_Tombstone m\<rparr>
      in s'\<lparr>chains := mput (mut_Key m) (chain_of s' (mut_Key m) @ [v]) (chains s')\<rparr>)"

definition ApplyCommit :: "u64 \<Rightarrow> Mutation list \<Rightarrow> Store \<Rightarrow> mvcc_error + Store" where
  "ApplyCommit commitSeq ms s =
     (if length ms = 0 then Inr s
      else if \<not> commit_check s commitSeq ms then Inl ErrNonMonotonicCommit
      else Inr (foldl (\<lambda>s m. apply_mutation commitSeq m s) s ms))"

section \<open>Chains\<close>

abbreviation chain_sorted :: "Version list \<Rightarrow> bool" where
  "chain_sorted \<equiv> sorted_wrt (\<lambda>a b. ver_CommitSeq a < ver_CommitSeq b)"

text \<open>The versions a snapshot at \<open>q\<close> may see, and the newest of them.\<close>

definition vupto :: "u64 \<Rightarrow> Version list \<Rightarrow> Version list" where
  "vupto q c = filter (\<lambda>v. ver_CommitSeq v \<le> q) c"

definition value_of :: "Version list \<Rightarrow> bytes option" where
  "value_of c = (if c = [] \<or> ver_Tombstone (last c) then None else Some (ver_Value (last c)))"

lemma newest_idx_vupto:
  assumes "chain_sorted c"
  shows "newest_idx c q = int (length (vupto q c)) - 1"
proof -
  let ?a = "vupto q c" and ?b = "filter (\<lambda>v. \<not> ver_CommitSeq v \<le> q) c"
  have c: "?a @ ?b = c" using sorted_wrt_split [OF assms, of q] by (simp add: vupto_def)
  have "sort_Search (length (?a @ ?b)) (\<lambda>i. q < ver_CommitSeq ((?a @ ?b) ! i)) = length ?a"
    by (rule sort_Search_append) (auto simp: vupto_def)
  then show ?thesis unfolding newest_idx_def c by simp
qed

lemma vupto_prefix:
  assumes "chain_sorted c"
  shows "take (length (vupto q c)) c = vupto q c"
  by (metis append_eq_conv_conj sorted_wrt_split [OF assms, of q] vupto_def)

lemma vupto_nth_last:
  assumes "chain_sorted c" "vupto q c \<noteq> []"
  shows "c ! (length (vupto q c) - 1) = last (vupto q c)"
  using vupto_prefix [OF assms(1), of q] assms(2)
  by (metis diff_less last_conv_nth length_greater_0_conv nth_take zero_less_one)

text \<open>Dropping versions before the newest one at \<open>w\<close> leaves every snapshot from \<open>w\<close> on alone.\<close>

lemma vupto_mono_length:
  "w \<le> q \<Longrightarrow> length (vupto w c) \<le> length (vupto q c)"
  by (induction c) (auto simp: vupto_def)

lemma vupto_drop:
  assumes "chain_sorted c" "n < length (vupto w c)" "w \<le> q"
  shows "vupto q (drop n c) = drop n (vupto q c)"
proof -
  have n: "n \<le> length (vupto q c)" using assms(2) vupto_mono_length [OF assms(3), of c] by simp
  have "take n c = take n (vupto q c)"
    using vupto_prefix [OF assms(1), of q] n by (metis min.absorb1 take_take)
  then have "vupto q (take n c) = take n c"
    by (metis (no_types, lifting) filter_id_conv in_set_takeD mem_Collect_eq set_filter vupto_def)
  moreover have "vupto q c = vupto q (take n c) @ vupto q (drop n c)"
    by (metis append_take_drop_id filter_append vupto_def)
  moreover have "length (take n c) = n"
    using n by (metis \<open>take n c = take n (vupto q c)\<close> length_take min.absorb2)
  ultimately show ?thesis by (metis append_eq_conv_conj)
qed

lemma chain_sorted_last:
  "chain_sorted c \<Longrightarrow> v \<in> set c \<Longrightarrow> v = last c \<or> ver_CommitSeq v < ver_CommitSeq (last c)"
  by (cases c rule: rev_cases) (auto simp: sorted_wrt_append)

section \<open>The store invariant\<close>

definition store_inv :: "Store \<Rightarrow> bool" where
  "store_inv s \<longleftrightarrow> mwf (chains s) \<and> sorted_wrt (<) (orderedKeys s)
     \<and> set (orderedKeys s) = set (mkeys (chains s))
     \<and> (\<forall>k c. mget (chains s) k = Some c \<longrightarrow> c \<noteq> [] \<and> chain_sorted c)"

lemma store_inv_NewStore: "store_inv NewStore"
  by (simp add: store_inv_def NewStore_def mkeys_def)

lemma store_inv_chain: "store_inv s \<Longrightarrow> chain_sorted (chain_of s k)"
  by (auto simp: store_inv_def chain_of_def split: option.splits)

lemma store_inv_key_iff: "store_inv s \<Longrightarrow> k \<in> set (orderedKeys s) \<longleftrightarrow> chain_of s k \<noteq> []"
  by (auto simp: store_inv_def chain_of_def gm.set_keys split: option.splits)

text \<open>The committed view: what a snapshot taken at \<open>q\<close> sees of key \<open>k\<close>.\<close>

definition read_at :: "Store \<Rightarrow> string \<Rightarrow> u64 \<Rightarrow> bytes option" where
  "read_at s k q = value_of (vupto q (chain_of s k))"

definition readable :: "Store \<Rightarrow> u64 \<Rightarrow> bool" where
  "readable s q \<longleftrightarrow> \<not> (q < st_gcWatermark s \<and> \<not> skipHorizonGuardForTest s)"

lemma Visible_read_at:
  assumes "store_inv s"
  shows "Visible s k q = (if readable s q then Inr (read_at s k q) else Inl ErrSnapshotTooOld)"
proof -
  let ?c = "chain_of s k"
  note sorted = store_inv_chain [OF assms, of k]
  have idx: "newest_idx ?c q = int (length (vupto q ?c)) - 1" by (rule newest_idx_vupto [OF sorted])
  have "nat (newest_idx ?c q) = length (vupto q ?c) - 1" unfolding idx by simp
  then show ?thesis
    using vupto_nth_last [OF sorted, of q] idx
    by (auto simp: Visible_def readable_def read_at_def value_of_def Let_def)
qed

lemma LatestCommitSeq_chain:
  "LatestCommitSeq s k = (if chain_of s k = [] then None
     else Some (ver_CommitSeq (last (chain_of s k))))"
  by (simp add: LatestCommitSeq_def Let_def last_conv_nth)

section \<open>Commits\<close>

definition mk_version :: "u64 \<Rightarrow> Mutation \<Rightarrow> Version" where
  "mk_version c m = \<lparr>ver_CommitSeq = c, ver_Value = mut_Value m, ver_Tombstone = mut_Tombstone m\<rparr>"

lemma mk_version_CommitSeq [simp]: "ver_CommitSeq (mk_version c m) = c"
  by (simp add: mk_version_def)

lemma insertOrderedKeyLocked_frame [simp]:
  "chains (insertOrderedKeyLocked k s) = chains s"
  "st_gcWatermark (insertOrderedKeyLocked k s) = st_gcWatermark s"
  "skipHorizonGuardForTest (insertOrderedKeyLocked k s) = skipHorizonGuardForTest s"
  by (simp_all add: insertOrderedKeyLocked_def Let_def)

lemma apply_mutation_frame [simp]:
  "st_gcWatermark (apply_mutation c m s) = st_gcWatermark s"
  "skipHorizonGuardForTest (apply_mutation c m s) = skipHorizonGuardForTest s"
  by (simp_all add: apply_mutation_def Let_def)

lemma chain_of_insertOrderedKeyLocked [simp]:
  "chain_of (insertOrderedKeyLocked k s) = chain_of s"
  by (simp add: chain_of_def fun_eq_iff)

lemma chain_of_put:
  "chain_of (s\<lparr>chains := mput k c (chains s)\<rparr>) k' = (if k' = k then c else chain_of s k')"
  by (simp add: chain_of_def)

lemma chain_of_apply_mutation:
  "chain_of (apply_mutation c m s) k =
     (if k = mut_Key m then chain_of s k @ [mk_version c m] else chain_of s k)"
  by (auto simp: apply_mutation_def Let_def chain_of_def mk_version_def)

lemma orderedKeys_insert:
  assumes "store_inv s" "mget (chains s) k = None"
  shows "sorted_wrt (<) (orderedKeys (insertOrderedKeyLocked k s))"
    and "set (orderedKeys (insertOrderedKeyLocked k s)) = insert k (set (orderedKeys s))"
proof -
  have sorted: "sorted_wrt (<) (orderedKeys s)" and "k \<notin> set (orderedKeys s)"
    using assms by (auto simp: store_inv_def gm.set_keys)
  note split = SearchStrings_split(2,3) [OF sorted, of k]
  show "sorted_wrt (<) (orderedKeys (insertOrderedKeyLocked k s))"
    using sorted_wrt_insert_at [OF sorted \<open>k \<notin> _\<close>]
    by (simp add: insertOrderedKeyLocked_def Let_def split)
  show "set (orderedKeys (insertOrderedKeyLocked k s)) = insert k (set (orderedKeys s))"
    by (auto simp: insertOrderedKeyLocked_def Let_def split)
qed

lemma store_inv_apply_mutation:
  assumes "store_inv s"
    and "chain_of s (mut_Key m) \<noteq> [] \<Longrightarrow> ver_CommitSeq (last (chain_of s (mut_Key m))) < c"
  shows "store_inv (apply_mutation c m s)"
proof -
  let ?k = "mut_Key m" and ?t = "apply_mutation c m s"
  have "mwf (chains s)" using assms(1) by (simp add: store_inv_def)
  then have "mwf (chains ?t)" by (simp add: apply_mutation_def Let_def)
  moreover have "sorted_wrt (<) (orderedKeys ?t)
      \<and> set (orderedKeys ?t) = insert ?k (set (orderedKeys s))"
    using assms(1) orderedKeys_insert [OF assms(1), of ?k]
    by (auto simp: apply_mutation_def Let_def store_inv_def gm.set_keys)
  moreover have "set (mkeys (chains ?t)) = insert ?k (set (orderedKeys s))"
    using assms(1) by (simp add: apply_mutation_def Let_def gm.keys_put store_inv_def)
  moreover have "d \<noteq> [] \<and> chain_sorted d" if "mget (chains ?t) k = Some d" for k d
  proof (cases "k = ?k")
    case True
    then have d: "d = chain_of s ?k @ [mk_version c m]"
      using that by (auto simp: apply_mutation_def Let_def mk_version_def)
    have "ver_CommitSeq v < c" if "v \<in> set (chain_of s ?k)" for v
    proof -
      have "v = last (chain_of s ?k) \<or> ver_CommitSeq v < ver_CommitSeq (last (chain_of s ?k))"
        using chain_sorted_last [OF store_inv_chain [OF assms(1)] that] .
      with assms(2) that show ?thesis by fastforce
    qed
    with store_inv_chain [OF assms(1), of ?k] show ?thesis
      unfolding d by (simp add: sorted_wrt_append)
  next
    case False
    with that assms(1) show ?thesis
      by (auto simp: apply_mutation_def Let_def store_inv_def split: if_splits)
  qed
  ultimately show ?thesis unfolding store_inv_def by auto
qed

definition apply_all :: "u64 \<Rightarrow> Mutation list \<Rightarrow> Store \<Rightarrow> Store" where
  "apply_all c ms s = foldl (\<lambda>s m. apply_mutation c m s) s ms"

lemma apply_all_simps [simp]:
  "apply_all c [] s = s"
  "apply_all c (m # ms) s = apply_all c ms (apply_mutation c m s)"
  by (simp_all add: apply_all_def)

lemma apply_all_frame [simp]:
  "st_gcWatermark (apply_all c ms s) = st_gcWatermark s"
  "skipHorizonGuardForTest (apply_all c ms s) = skipHorizonGuardForTest s"
  by (induction ms arbitrary: s) auto

lemma chain_of_apply_all:
  "chain_of (apply_all c ms s) k
     = chain_of s k @ map (mk_version c) (filter (\<lambda>m. mut_Key m = k) ms)"
  by (induction ms arbitrary: s) (auto simp: chain_of_apply_mutation)

text \<open>The sequence number \<open>c\<close> is later than everything committed so far for key \<open>k\<close>.\<close>

definition fresh :: "Store \<Rightarrow> u64 \<Rightarrow> string \<Rightarrow> bool" where
  "fresh s c k \<longleftrightarrow> (chain_of s k \<noteq> [] \<longrightarrow> ver_CommitSeq (last (chain_of s k)) < c)"

lemma commit_check_fresh: "commit_check s c ms \<longleftrightarrow> (\<forall>m \<in> set ms. fresh s c (mut_Key m))"
  by (induction ms) (auto simp: Let_def fresh_def last_conv_nth not_le)

lemma store_inv_apply_all:
  assumes "store_inv s" "distinct (map mut_Key ms)" "\<forall>m \<in> set ms. fresh s c (mut_Key m)"
  shows "store_inv (apply_all c ms s)"
  using assms
proof (induction ms arbitrary: s)
  case Nil
  then show ?case by simp
next
  case (Cons m ms)
  have "store_inv (apply_mutation c m s)"
    using Cons.prems(1,3) by (intro store_inv_apply_mutation) (simp_all add: fresh_def)
  moreover have "\<forall>m' \<in> set ms. fresh (apply_mutation c m s) c (mut_Key m')"
    using Cons.prems(2,3) by (auto simp: fresh_def chain_of_apply_mutation image_iff)
  ultimately show ?case using Cons.IH Cons.prems(2) by simp
qed

lemma ApplyCommit_eq:
  "ApplyCommit c ms s = (if \<forall>m \<in> set ms. fresh s c (mut_Key m) then Inr (apply_all c ms s)
     else Inl ErrNonMonotonicCommit)"
  by (auto simp: ApplyCommit_def commit_check_fresh apply_all_def)

section \<open>The contract of a versioned store\<close>

text \<open>
  What the state machine relies on: a committed view \<open>view s k q\<close> per snapshot, the
  newest sequence number per key, and the effect of the three operations that change
  the store on both. \<open>commit\<close> is refused when a key already has a version as new.
\<close>

locale versioned_store =
  fixes inv :: "'s \<Rightarrow> bool"
    and view :: "'s \<Rightarrow> string \<Rightarrow> u64 \<Rightarrow> bytes option"
    and newest :: "'s \<Rightarrow> string \<Rightarrow> u64 option"
    and commit :: "u64 \<Rightarrow> Mutation list \<Rightarrow> 's \<Rightarrow> mvcc_error + 's"
    and reclaim :: "string \<Rightarrow> u64 \<Rightarrow> int \<Rightarrow> 's \<Rightarrow> 's \<times> int"
    and horizon :: "u64 \<Rightarrow> 's \<Rightarrow> 's"
  assumes commit_ok_iff:
      "(\<exists>s'. commit c ms s = Inr s')
         \<longleftrightarrow> (\<forall>m \<in> set ms. \<forall>n. newest s (mut_Key m) = Some n \<longrightarrow> n < c)"
    and commit_inv: "inv s \<Longrightarrow> distinct (map mut_Key ms) \<Longrightarrow> commit c ms s = Inr s' \<Longrightarrow> inv s'"
    and commit_newest: "inv s \<Longrightarrow> commit c ms s = Inr s' \<Longrightarrow>
         newest s' k = (if k \<in> mut_Key ` set ms then Some c else newest s k)"
    and commit_view_old: "inv s \<Longrightarrow> commit c ms s = Inr s' \<Longrightarrow> q < c \<Longrightarrow> view s' k q = view s k q"
    and commit_view_other: "inv s \<Longrightarrow> commit c ms s = Inr s' \<Longrightarrow> k \<notin> mut_Key ` set ms \<Longrightarrow>
         view s' k q = view s k q"
    and commit_view_new: "inv s \<Longrightarrow> distinct (map mut_Key ms) \<Longrightarrow> commit c ms s = Inr s' \<Longrightarrow>
         m \<in> set ms \<Longrightarrow> c \<le> q \<Longrightarrow>
         view s' (mut_Key m) q = (if mut_Tombstone m then None else Some (mut_Value m))"
    and reclaim_inv: "inv s \<Longrightarrow> inv (fst (reclaim k w b s))"
    and reclaim_newest: "inv s \<Longrightarrow> newest (fst (reclaim k w b s)) = newest s"
    and reclaim_view: "inv s \<Longrightarrow> w \<le> q \<Longrightarrow> view (fst (reclaim k w b s)) k' q = view s k' q"
    and horizon_inv: "inv s \<Longrightarrow> inv (horizon w s)"
    and horizon_newest: "newest (horizon w s) = newest s"
    and horizon_view: "view (horizon w s) = view s"

datatype store_op = Commit u64 "Mutation list" | Reclaim string u64 int | Horizon u64

text \<open>An operation is admissible for a snapshot at \<open>q\<close> when it only commits later and only
  reclaims at or below \<open>q\<close>.\<close>

fun admissible :: "u64 \<Rightarrow> store_op \<Rightarrow> bool" where
  "admissible q (Commit c ms) = (q < c \<and> distinct (map mut_Key ms))"
| "admissible q (Reclaim k w b) = (w \<le> q)"
| "admissible q (Horizon w) = True"

context versioned_store
begin

fun do_op :: "store_op \<Rightarrow> 's \<Rightarrow> 's" where
  "do_op (Commit c ms) s = (case commit c ms s of Inl e \<Rightarrow> s | Inr s' \<Rightarrow> s')"
| "do_op (Reclaim k w b) s = fst (reclaim k w b s)"
| "do_op (Horizon w) s = horizon w s"

definition do_ops :: "store_op list \<Rightarrow> 's \<Rightarrow> 's" where
  "do_ops ops s = foldl (\<lambda>s p. do_op p s) s ops"

lemma do_op_stable:
  assumes "inv s" "admissible q p"
  shows "inv (do_op p s) \<and> view (do_op p s) k q = view s k q"
proof (cases p)
  case (Commit c ms)
  then show ?thesis using assms commit_inv commit_view_old by (auto split: sum.splits)
next
  case (Reclaim k' w b)
  then show ?thesis using assms reclaim_inv reclaim_view by auto
next
  case (Horizon w)
  then show ?thesis using assms horizon_inv horizon_view by auto
qed

theorem snapshot_stable:
  assumes "inv s" "\<forall>p \<in> set ops. admissible q p"
  shows "inv (do_ops ops s) \<and> view (do_ops ops s) k q = view s k q"
  using assms
proof (induction ops arbitrary: s)
  case Nil
  then show ?case by (simp add: do_ops_def)
next
  case (Cons p ops)
  then have "inv (do_op p s)" "view (do_op p s) k q = view s k q"
    using do_op_stable by auto
  with Cons show ?case by (simp add: do_ops_def)
qed

lemma newest_mono:
  assumes "inv s" "newest s k = Some n"
  shows "\<exists>n'. newest (do_op p s) k = Some n' \<and> n \<le> n'"
proof (cases p)
  case (Commit c ms)
  show ?thesis
  proof (cases "commit c ms s")
    case (Inr s')
    then have "\<forall>m \<in> set ms. \<forall>n. newest s (mut_Key m) = Some n \<longrightarrow> n < c"
      using commit_ok_iff by blast
    then show ?thesis
      using Inr Commit assms commit_newest [OF assms(1) Inr, of k] by (auto intro: less_imp_le)
  qed (use Commit assms in auto)
next
  case (Reclaim k' w b)
  then show ?thesis using assms reclaim_newest by auto
next
  case (Horizon w)
  then show ?thesis using assms horizon_newest by auto
qed

end

section \<open>The store meets the contract\<close>

lemma fresh_LatestCommitSeq:
  "fresh s c k \<longleftrightarrow> (\<forall>n. LatestCommitSeq s k = Some n \<longrightarrow> n < c)"
  by (auto simp: fresh_def LatestCommitSeq_chain)

lemma filter_key_single:
  "distinct (map f xs) \<Longrightarrow> x \<in> set xs \<Longrightarrow> filter (\<lambda>y. f y = f x) xs = [x]"
proof (induction xs)
  case (Cons y ys)
  show ?case
  proof (cases "f y = f x")
    case True
    then have "y = x" "\<forall>z \<in> set ys. f z \<noteq> f x"
      using Cons.prems by (auto simp: image_iff)
    then show ?thesis by (simp add: filter_empty_conv)
  qed (use Cons in auto)
qed simp

lemma vupto_append: "vupto q (c @ d) = vupto q c @ vupto q d"
  by (simp add: vupto_def)

lemma vupto_new_none: "q < c \<Longrightarrow> vupto q (map (mk_version c) ms) = []"
  by (auto simp: vupto_def filter_empty_conv)

lemma vupto_new_all: "c \<le> q \<Longrightarrow> vupto q (map (mk_version c) ms) = map (mk_version c) ms"
  by (auto simp: vupto_def filter_id_conv)

lemma LatestCommitSeq_apply_all:
  "LatestCommitSeq (apply_all c ms s) k
     = (if k \<in> mut_Key ` set ms then Some c else LatestCommitSeq s k)"
proof (cases "filter (\<lambda>m. mut_Key m = k) ms" rule: rev_cases)
  case Nil
  then have "k \<notin> mut_Key ` set ms" by (auto simp: filter_empty_conv)
  with Nil show ?thesis by (simp add: LatestCommitSeq_chain chain_of_apply_all)
next
  case (snoc ms' m)
  then have "m \<in> set (filter (\<lambda>m. mut_Key m = k) ms)" by simp
  then have "k \<in> mut_Key ` set ms" by auto
  with snoc show ?thesis by (simp add: LatestCommitSeq_chain chain_of_apply_all)
qed

text \<open>How many versions \<open>ReclaimKey\<close> removes.\<close>

definition reclaim_count :: "Version list \<Rightarrow> u64 \<Rightarrow> int \<Rightarrow> nat" where
  "reclaim_count c w b = (if length c < 2 then 0 else nat (min b (int (length (vupto w c)) - 1)))"

lemma reclaim_count_less: "reclaim_count c w b = 0 \<or> reclaim_count c w b < length (vupto w c)"
  by (auto simp: reclaim_count_def)

lemma ReclaimKey_eq:
  assumes "store_inv s"
  shows "ReclaimKey k w b s =
    (if reclaim_count (chain_of s k) w b = 0 then (s, 0)
     else (s\<lparr>chains := mput k (drop (reclaim_count (chain_of s k) w b) (chain_of s k)) (chains s)\<rparr>,
           int (reclaim_count (chain_of s k) w b)))"
  using newest_idx_vupto [OF store_inv_chain [OF assms], of k w]
  by (auto simp: ReclaimKey_def reclaim_count_def Let_def)

lemma ReclaimKey_frame [simp]:
  "orderedKeys (fst (ReclaimKey k w b s)) = orderedKeys s"
  "st_gcWatermark (fst (ReclaimKey k w b s)) = st_gcWatermark s"
  "skipHorizonGuardForTest (fst (ReclaimKey k w b s)) = skipHorizonGuardForTest s"
  by (simp_all add: ReclaimKey_def Let_def)

lemma chain_of_ReclaimKey:
  assumes "store_inv s"
  shows "chain_of (fst (ReclaimKey k w b s)) k'
    = (if k' = k then drop (reclaim_count (chain_of s k) w b) (chain_of s k) else chain_of s k')"
  by (auto simp: ReclaimKey_eq [OF assms] chain_of_put)

lemma length_vupto_le: "length (vupto w c) \<le> length c"
  by (simp add: vupto_def)

lemma store_inv_ReclaimKey:
  assumes "store_inv s"
  shows "store_inv (fst (ReclaimKey k w b s))"
proof (cases "reclaim_count (chain_of s k) w b = 0")
  case True
  with assms show ?thesis by (simp add: ReclaimKey_eq [OF assms])
next
  case False
  let ?n = "reclaim_count (chain_of s k) w b"
  have n: "?n < length (chain_of s k)"
    using False reclaim_count_less [of "chain_of s k" w b] length_vupto_le [of w "chain_of s k"] by auto
  then have "chain_of s k \<noteq> []" by auto
  then have k: "mget (chains s) k \<noteq> None" by (auto simp: chain_of_def split: option.splits)
  have "chain_sorted (drop ?n (chain_of s k))"
    using store_inv_chain [OF assms] by (rule sorted_wrt_drop)
  moreover have "set (mkeys (mput k (drop ?n (chain_of s k)) (chains s))) = set (mkeys (chains s))"
    using k by (auto simp: gm.keys_put gm.set_keys)
  ultimately show ?thesis
    using assms n False by (auto simp: ReclaimKey_eq [OF assms] store_inv_def)
qed

lemma last_drop_chain: "n < length c \<Longrightarrow> last (drop n c) = last c"
  by simp

lemma LatestCommitSeq_ReclaimKey:
  assumes "store_inv s"
  shows "LatestCommitSeq (fst (ReclaimKey k w b s)) = LatestCommitSeq s"
proof
  fix k'
  have "reclaim_count (chain_of s k) w b = 0
      \<or> reclaim_count (chain_of s k) w b < length (chain_of s k)"
    using reclaim_count_less [of "chain_of s k" w b] length_vupto_le [of w "chain_of s k"] by auto
  then show "LatestCommitSeq (fst (ReclaimKey k w b s)) k' = LatestCommitSeq s k'"
    by (auto simp: LatestCommitSeq_chain chain_of_ReclaimKey [OF assms])
qed

lemma read_at_ReclaimKey:
  assumes "store_inv s" "w \<le> q"
  shows "read_at (fst (ReclaimKey k w b s)) k' q = read_at s k' q"
proof (cases "k' = k \<and> reclaim_count (chain_of s k) w b \<noteq> 0")
  case False
  then show ?thesis by (auto simp: read_at_def chain_of_ReclaimKey [OF assms(1)])
next
  case True
  let ?c = "chain_of s k" let ?n = "reclaim_count ?c w b"
  have n: "?n < length (vupto w ?c)" using True reclaim_count_less [of ?c w b] by auto
  then have "?n < length (vupto q ?c)" using vupto_mono_length [OF assms(2), of ?c] by simp
  moreover have "vupto q (drop ?n ?c) = drop ?n (vupto q ?c)"
    by (rule vupto_drop [OF store_inv_chain [OF assms(1)] n assms(2)])
  ultimately show ?thesis
    using True by (auto simp: read_at_def chain_of_ReclaimKey [OF assms(1)] value_of_def)
qed

lemma SetGCWatermark_frame [simp]:
  "chains (SetGCWatermark w s) = chains s" "orderedKeys (SetGCWatermark w s) = orderedKeys s"
  by (simp_all add: SetGCWatermark_def)

lemma chain_of_SetGCWatermark [simp]: "chain_of (SetGCWatermark w s) = chain_of s"
  by (simp add: chain_of_def fun_eq_iff)

lemma distinct_filter_key:
  assumes "distinct (map mut_Key ms)" "m \<in> set ms"
  shows "chain_of (apply_all c ms s) (mut_Key m) = chain_of s (mut_Key m) @ [mk_version c m]"
  using filter_key_single [OF assms] by (simp add: chain_of_apply_all)

interpretation vs: versioned_store store_inv read_at LatestCommitSeq ApplyCommit ReclaimKey
  SetGCWatermark
proof unfold_locales
  fix c ms s show "(\<exists>s'. ApplyCommit c ms s = Inr s')
    \<longleftrightarrow> (\<forall>m \<in> set ms. \<forall>n. LatestCommitSeq s (mut_Key m) = Some n \<longrightarrow> n < c)"
    by (auto simp: ApplyCommit_eq fresh_LatestCommitSeq)
next
  fix s ms c s' assume "store_inv s" "distinct (map mut_Key ms)" "ApplyCommit c ms s = Inr s'"
  then show "store_inv s'"
    by (auto simp: ApplyCommit_eq store_inv_apply_all split: if_splits)
next
  fix s ms c s' k assume "ApplyCommit c ms s = Inr s'"
  then show "LatestCommitSeq s' k = (if k \<in> mut_Key ` set ms then Some c else LatestCommitSeq s k)"
    by (auto simp: ApplyCommit_eq LatestCommitSeq_apply_all split: if_splits)
next
  fix s ms c s' q k assume "ApplyCommit c ms s = Inr s'" "q < c"
  then show "read_at s' k q = read_at s k q"
    by (auto simp: ApplyCommit_eq read_at_def chain_of_apply_all vupto_append vupto_new_none
        split: if_splits)
next
  fix s ms c s' q k assume "ApplyCommit c ms s = Inr s'" "k \<notin> mut_Key ` set ms"
  moreover from this have "filter (\<lambda>m. mut_Key m = k) ms = []" by (auto simp: filter_empty_conv)
  ultimately show "read_at s' k q = read_at s k q"
    by (auto simp: ApplyCommit_eq read_at_def chain_of_apply_all split: if_splits)
next
  fix s ms c s' q m
  assume "distinct (map mut_Key ms)" "ApplyCommit c ms s = Inr s'" "m \<in> set ms" "c \<le> q"
  then show "read_at s' (mut_Key m) q = (if mut_Tombstone m then None else Some (mut_Value m))"
    using vupto_new_all [of c q "[m]"]
    by (auto simp: ApplyCommit_eq read_at_def distinct_filter_key vupto_append value_of_def
        mk_version_def split: if_splits)
next
  fix s k w b assume "store_inv s"
  then show "store_inv (fst (ReclaimKey k w b s))"
    and "LatestCommitSeq (fst (ReclaimKey k w b s)) = LatestCommitSeq s"
    by (simp_all add: store_inv_ReclaimKey LatestCommitSeq_ReclaimKey)
next
  fix s :: Store and w q :: u64 and k k' :: string and b :: int assume "store_inv s" "w \<le> q"
  then show "read_at (fst (ReclaimKey k w b s)) k' q = read_at s k' q"
    by (rule read_at_ReclaimKey)
next
  fix s w assume "store_inv s"
  then show "store_inv (SetGCWatermark w s)" by (simp add: store_inv_def)
next
  fix w s show "LatestCommitSeq (SetGCWatermark w s) = LatestCommitSeq s"
    by (simp add: LatestCommitSeq_def fun_eq_iff)
next
  fix w s show "read_at (SetGCWatermark w s) = read_at s"
    by (simp add: read_at_def fun_eq_iff)
qed

section \<open>Scans, conflicts and cursors\<close>

lemma scan_loop_eq:
  assumes "store_inv s"
  shows "scan_loop s p q ks =
    [\<lparr>kv_Key = k, kv_Value = the (read_at s k q)\<rparr>. k \<leftarrow> ks, HasPrefix k p \<and> read_at s k q \<noteq> None]"
proof (induction ks)
  case Nil
  then show ?case by simp
next
  case (Cons k ks)
  let ?c = "chain_of s k"
  note sorted = store_inv_chain [OF assms, of k]
  have idx: "newest_idx ?c q = int (length (vupto q ?c)) - 1" by (rule newest_idx_vupto [OF sorted])
  have "nat (newest_idx ?c q) = length (vupto q ?c) - 1" unfolding idx by simp
  then show ?case
    using Cons idx vupto_nth_last [OF sorted, of q]
    by (auto simp: Let_def read_at_def value_of_def)
qed

lemma CheckConflicts_Cons:
  "CheckConflicts s q (m # ms) = (case LatestCommitSeq s (mut_Key m) of
       None \<Rightarrow> CheckConflicts s q ms
     | Some l \<Rightarrow> if q < l then Some (mut_Key m, l) else CheckConflicts s q ms)"
  by (simp add: Let_def LatestCommitSeq_def)

declare CheckConflicts.simps(2) [simp del]

lemma CheckConflicts_None:
  "CheckConflicts s q ms = None
     \<longleftrightarrow> (\<forall>m \<in> set ms. \<forall>n. LatestCommitSeq s (mut_Key m) = Some n \<longrightarrow> n \<le> q)"
  by (induction ms) (auto simp: CheckConflicts_Cons split: option.splits)

lemma CheckConflicts_Some:
  "CheckConflicts s q ms = Some (k, l) \<Longrightarrow>
     \<exists>pre m post. ms = pre @ m # post \<and> mut_Key m = k \<and> LatestCommitSeq s k = Some l \<and> q < l
       \<and> CheckConflicts s q pre = None"
proof (induction ms)
  case (Cons m ms)
  show ?case
  proof (cases "\<exists>n. LatestCommitSeq s (mut_Key m) = Some n \<and> q < n")
    case True
    with Cons.prems have "mut_Key m = k" "LatestCommitSeq s k = Some l" "q < l"
      by (auto simp: CheckConflicts_Cons)
    then show ?thesis by (intro exI [of _ "[]"]) auto
  next
    case False
    then have "CheckConflicts s q ms = Some (k, l)"
      using Cons.prems by (auto simp: CheckConflicts_Cons split: option.splits if_splits)
    then obtain pre m' post where "ms = pre @ m' # post" "mut_Key m' = k"
      "LatestCommitSeq s k = Some l" "q < l" "CheckConflicts s q pre = None"
      using Cons.IH by blast
    with False show ?thesis
      by (intro exI [of _ "m # pre"]) (auto simp: CheckConflicts_None)
  qed
qed simp

lemma KeysFrom_eq:
  assumes "store_inv s"
  shows "KeysFrom s cursor limit = take (nat limit) (filter (\<lambda>k. cursor < k) (orderedKeys s))"
proof (cases "limit \<le> 0")
  case True
  then show ?thesis by (simp add: KeysFrom_def)
next
  case False
  let ?ks = "orderedKeys s"
  let ?i = "SearchStrings ?ks cursor"
  define start where "start = (if ?i < length ?ks \<and> ?ks ! ?i = cursor then ?i + 1 else ?i)"
  have sorted: "sorted_wrt (<) ?ks" using assms by (simp add: store_inv_def)
  have rest: "drop ?i ?ks = (if cursor \<in> set ?ks then cursor # filter (\<lambda>k. cursor < k) ?ks
      else filter (\<lambda>k. cursor < k) ?ks)"
    using SearchStrings_split(3) [OF sorted] filter_greater_of_split [OF sorted] by simp
  have d: "drop start ?ks = filter (\<lambda>k. cursor < k) ?ks"
  proof (cases "cursor \<in> set ?ks")
    case True
    then have d: "drop ?i ?ks = cursor # filter (\<lambda>k. cursor < k) ?ks" using rest by simp
    then have "?i < length ?ks" by (metis drop_all leI list.distinct(1))
    moreover from this d have "?ks ! ?i = cursor" by (metis Cons_nth_drop_Suc list.inject)
    ultimately have "start = Suc ?i" by (simp add: start_def)
    moreover have "drop (Suc ?i) ?ks = tl (drop ?i ?ks)" by (simp add: drop_Suc tl_drop)
    ultimately show ?thesis using d by simp
  next
    case False
    then have "(?i < length ?ks \<and> ?ks ! ?i = cursor) = False" using nth_mem by metis
    then have "start = ?i" by (simp only: start_def if_False)
    with False rest show ?thesis by (simp only: if_False)
  qed
  have "KeysFrom s cursor limit = (if start \<ge> length ?ks then []
      else take ((if start + nat limit > length ?ks then length ?ks else start + nat limit) - start)
        (drop start ?ks))"
    unfolding KeysFrom_def Let_def start_def [symmetric] using False by simp
  also have "\<dots> = take (nat limit) (drop start ?ks)" by simp
  finally show ?thesis unfolding d .
qed

section \<open>Export and restore\<close>

lemma Export_keys:
  assumes "store_inv s"
  shows "map kc_Key (Export s) = orderedKeys s"
proof (rule sorted_wrt_unique)
  have d: "distinct (map kc_Key (map (\<lambda>(k, v). \<lparr>kc_Key = k, kc_Versions = v\<rparr>) (chains s)))"
    using assms by (simp add: store_inv_def comp_def case_prod_beta)
  show "sorted_wrt (<) (map kc_Key (Export s))"
    unfolding Export_def by (rule sorted_wrt_of_sorted_distinct) (use d in \<open>simp_all add: distinct_map_sort_key\<close>)
  show "sorted_wrt (<) (orderedKeys s)" using assms by (simp add: store_inv_def)
  show "set (map kc_Key (Export s)) = set (orderedKeys s)"
    using assms by (simp add: Export_def store_inv_def mkeys_def image_image case_prod_beta)
qed

lemma Export_cong:
  assumes "mwf (chains s)" "mwf (chains t)" "mget (chains s) = mget (chains t)"
  shows "Export s = Export t"
proof -
  have "set (chains s) = set (chains t)"
    using assms mget_in_set [OF assms(1)] mget_in_set [OF assms(2)] by auto
  then show ?thesis
    unfolding Export_def using assms(1,2)
    by (intro sort_key_unique) (simp_all add: comp_def case_prod_beta)
qed

lemma mget_RestoreStore_Export:
  assumes "store_inv s"
  shows "mget (chains (RestoreStore (Export s) w)) = mget (chains s)"
proof
  fix k
  let ?kc = "\<lambda>(k, v). \<lparr>kc_Key = k, kc_Versions = v\<rparr>"
  have wf: "mwf (chains s)" using assms by (simp add: store_inv_def)
  have d: "distinct (map kc_Key (Export s))"
    using assms by (simp add: Export_keys store_inv_def strict_sorted_iff)
  show "mget (chains (RestoreStore (Export s) w)) k = mget (chains s) k"
  proof (cases "mget (chains s) k")
    case None
    then have "k \<notin> set (map kc_Key (Export s))"
      using assms by (simp add: Export_keys store_inv_def gm.set_keys)
    with None show ?thesis by (simp add: RestoreStore_def mget_mputs_other)
  next
    case (Some c)
    then have "(k, c) \<in> set (chains s)" using mget_in_set [OF wf] by simp
    then have "?kc (k, c) \<in> set (Export s)" by (force simp: Export_def)
    from mget_mputs_in [OF d this, of kc_Versions "[]"] Some show ?thesis
      by (simp add: RestoreStore_def)
  qed
qed

lemma orderedKeys_RestoreStore_Export:
  assumes "store_inv s"
  shows "orderedKeys (RestoreStore (Export s) w) = orderedKeys s"
proof -
  have "sorted (orderedKeys s)" using assms by (simp add: store_inv_def strict_sorted_iff)
  then show ?thesis by (simp add: RestoreStore_def Export_keys [OF assms] sorted_sort_id)
qed

lemma store_inv_RestoreStore_Export:
  assumes "store_inv s"
  shows "store_inv (RestoreStore (Export s) w)"
proof -
  note get = mget_RestoreStore_Export [OF assms, of w]
  have "mwf (chains (RestoreStore (Export s) w))" by (simp add: RestoreStore_def mwf_mputs)
  moreover have "set (mkeys (chains (RestoreStore (Export s) w))) = set (mkeys (chains s))"
    by (rule gm.keys_cong [OF get])
  ultimately show ?thesis
    using assms get orderedKeys_RestoreStore_Export [OF assms, of w] by (simp add: store_inv_def)
qed

section \<open>Properties\<close>

fun run_op :: "store_op \<Rightarrow> Store \<Rightarrow> Store" where
  "run_op (Commit c ms) s = (case ApplyCommit c ms s of Inl e \<Rightarrow> s | Inr s' \<Rightarrow> s')"
| "run_op (Reclaim k w b) s = fst (ReclaimKey k w b s)"
| "run_op (Horizon w) s = SetGCWatermark w s"

definition run_ops :: "store_op list \<Rightarrow> Store \<Rightarrow> Store" where
  "run_ops ops s = foldl (\<lambda>s p. run_op p s) s ops"

lemma run_op_do_op: "run_op p s = vs.do_op p s"
  by (cases p) simp_all

lemma run_ops_do_ops: "run_ops ops s = vs.do_ops ops s"
  by (simp add: run_ops_def vs.do_ops_def run_op_do_op)

text \<open>A small store used by the witnesses: two commits, the second one overwriting \<open>a\<close>
  and deleting \<open>b\<close>.\<close>

definition put_mut :: "string \<Rightarrow> bytes \<Rightarrow> Mutation" where
  "put_mut k v = \<lparr>mut_Key = k, mut_Value = v, mut_Tombstone = False\<rparr>"

definition del_mut :: "string \<Rightarrow> Mutation" where
  "del_mut k = \<lparr>mut_Key = k, mut_Value = [], mut_Tombstone = True\<rparr>"

definition demo_store :: Store where
  "demo_store = run_ops [Commit 3 [put_mut ''a'' ''x'', put_mut ''b'' ''y''],
     Commit 5 [put_mut ''a'' ''z'', del_mut ''b'']] NewStore"

lemma store_inv_demo: "store_inv demo_store"
  unfolding demo_store_def run_ops_do_ops
  using vs.snapshot_stable [OF store_inv_NewStore, of
      "[Commit 3 [put_mut ''a'' ''x'', put_mut ''b'' ''y''],
        Commit 5 [put_mut ''a'' ''z'', del_mut ''b'']]" 2]
  by (simp add: put_mut_def del_mut_def)

lemma latest_demo_store: "LatestCommitSeq demo_store k = Some q \<Longrightarrow> q \<le> 6"
  unfolding demo_store_def run_ops_def
  by (auto simp: ApplyCommit_eq fresh_LatestCommitSeq LatestCommitSeq_apply_all
      simp del: apply_all_simps split: if_splits)
    (simp_all add: NewStore_def LatestCommitSeq_chain chain_of_def)

lemma chain_of_demo:
  "chain_of demo_store ''a'' = [mk_version 3 (put_mut ''a'' ''x''), mk_version 5 (put_mut ''a'' ''z'')]"
  by code_simp

text \<open>
  Claim C26. The read of a snapshot, \<open>Store.Visible\<close>, finds by binary search exactly the
  newest version that is not newer than the snapshot: the last element of the chain's
  versions up to \<open>q\<close>, nothing if there is none or if it is a tombstone. Below the
  garbage-collection horizon it answers \<open>ErrSnapshotTooOld\<close> instead.
\<close>

theorem Visible_newest:
  assumes "store_inv s"
  shows "Visible s k q =
    (if q < st_gcWatermark s \<and> \<not> skipHorizonGuardForTest s then Inl ErrSnapshotTooOld
     else Inr (value_of (filter (\<lambda>v. ver_CommitSeq v \<le> q) (chain_of s k))))"
  using Visible_read_at [OF assms, of k q] by (simp add: readable_def read_at_def vupto_def)

theorem Visible_newest_witness:
  "store_inv demo_store \<and> Visible demo_store ''a'' 4 = Inr (Some ''x'')"
proof -
  have "Visible demo_store ''a'' 4 =
    (if 4 < st_gcWatermark demo_store \<and> \<not> skipHorizonGuardForTest demo_store then Inl ErrSnapshotTooOld
     else Inr (value_of (filter (\<lambda>v. ver_CommitSeq v \<le> 4) (chain_of demo_store ''a''))))"
    by (rule Visible_newest [OF store_inv_demo])
  moreover have "\<not> 4 < st_gcWatermark demo_store" by code_simp
  ultimately show ?thesis
    by (simp add: store_inv_demo chain_of_demo value_of_def mk_version_def put_mut_def)
qed

text \<open>The committed view after a commit, for every snapshot and key.\<close>

lemma read_at_commit:
  assumes "store_inv s" "distinct (map mut_Key ms)" "ApplyCommit c ms s = Inr s'"
  shows "read_at s' k q = (if q < c then read_at s k q
      else case find (\<lambda>m. mut_Key m = k) ms of None \<Rightarrow> read_at s k q
        | Some m \<Rightarrow> if mut_Tombstone m then None else Some (mut_Value m))"
proof (cases "find (\<lambda>m. mut_Key m = k) ms")
  case None
  then have "k \<notin> mut_Key ` set ms" by (auto simp: find_None_iff)
  with None show ?thesis using vs.commit_view_other [OF assms(1,3)] by simp
next
  case (Some m)
  then have "m \<in> set ms" "mut_Key m = k" by (auto simp: find_Some_iff)
  with Some show ?thesis
    using vs.commit_view_old [OF assms(1,3)] vs.commit_view_new [OF assms] by auto
qed

text \<open>
  Claim C27. \<open>Store.ApplyCommit\<close> is all or nothing. It refuses exactly when some key of the
  mutation set already has a version as new as \<open>c\<close>; otherwise every mutation becomes
  visible to exactly the snapshots from \<open>c\<close> on, no other key changes, and the store
  invariant is kept.
\<close>

theorem ApplyCommit_atomic:
  assumes "store_inv s" "distinct (map mut_Key ms)"
  shows "case ApplyCommit c ms s of
      Inl e \<Rightarrow> e = ErrNonMonotonicCommit
        \<and> (\<exists>m \<in> set ms. \<exists>n. LatestCommitSeq s (mut_Key m) = Some n \<and> c \<le> n)
    | Inr s' \<Rightarrow> store_inv s'
        \<and> (\<forall>m \<in> set ms. \<forall>n. LatestCommitSeq s (mut_Key m) = Some n \<longrightarrow> n < c)
        \<and> (\<forall>k q. read_at s' k q =
             (if q < c then read_at s k q
              else case find (\<lambda>m. mut_Key m = k) ms of
                None \<Rightarrow> read_at s k q
              | Some m \<Rightarrow> if mut_Tombstone m then None else Some (mut_Value m)))"
proof (cases "ApplyCommit c ms s")
  case (Inl e)
  then show ?thesis
    by (auto simp: ApplyCommit_eq fresh_LatestCommitSeq not_less split: if_splits)
next
  case (Inr s')
  with read_at_commit [OF assms Inr] show ?thesis
    using vs.commit_inv [OF assms Inr] vs.commit_ok_iff [of c ms s] by auto
qed

theorem ApplyCommit_atomic_witness:
  "\<exists>s'. ApplyCommit 7 [del_mut ''a''] demo_store = Inr s'
     \<and> read_at s' ''a'' 7 = None \<and> read_at s' ''a'' 6 = Some ''z''"
proof -
  have d: "distinct (map mut_Key [del_mut ''a''])" by simp
  have "\<exists>s'. ApplyCommit 7 [del_mut ''a''] demo_store = Inr s'"
    by (simp add: ApplyCommit_eq fresh_def chain_of_demo del_mut_def)
  then obtain s' where s': "ApplyCommit 7 [del_mut ''a''] demo_store = Inr s'" ..
  have "read_at demo_store ''a'' 6 = Some ''z''" by code_simp
  with ApplyCommit_atomic [OF store_inv_demo d, of 7] s' show ?thesis
    by (auto simp: del_mut_def)
qed

text \<open>
  Snapshot isolation of reads: whatever commits later than \<open>q\<close>, reclamations at
  or below \<open>q\<close> and horizon moves the store goes through, a read at \<open>q\<close> returns the value
  it returned before, or is refused because the horizon has passed it.
\<close>

theorem Visible_stable:
  assumes "store_inv s" "\<forall>p \<in> set ops. admissible q p" "Visible s k q = Inr v"
  shows "Visible (run_ops ops s) k q = Inr v \<or> Visible (run_ops ops s) k q = Inl ErrSnapshotTooOld"
proof -
  have "store_inv (run_ops ops s)" "read_at (run_ops ops s) k q = read_at s k q"
    using vs.snapshot_stable [OF assms(1,2), of k] by (auto simp: run_ops_do_ops)
  with assms(1,3) show ?thesis by (auto simp: Visible_read_at split: if_splits)
qed

theorem Visible_stable_witness:
  "Visible (run_ops [Commit 9 [put_mut ''a'' ''w''], Reclaim ''a'' 6 10, Horizon 6] demo_store) ''a'' 6
     = Inr (Some ''z'')"
proof -
  let ?ops = "[Commit 9 [put_mut ''a'' ''w''], Reclaim ''a'' 6 10, Horizon 6]"
  have "\<forall>p \<in> set ?ops. admissible 6 p" by simp
  moreover have "Visible demo_store ''a'' 6 = Inr (Some ''z'')" by code_simp
  ultimately have "Visible (run_ops ?ops demo_store) ''a'' 6 = Inr (Some ''z'')
      \<or> Visible (run_ops ?ops demo_store) ''a'' 6 = Inl ErrSnapshotTooOld"
    by (rule Visible_stable [OF store_inv_demo])
  moreover have "Visible (run_ops ?ops demo_store) ''a'' 6 \<noteq> Inl ErrSnapshotTooOld" by code_simp
  ultimately show ?thesis by blast
qed

definition superseded :: "Version list \<Rightarrow> u64 \<Rightarrow> Version \<Rightarrow> bool" where
  "superseded c w v \<longleftrightarrow> (\<exists>v' \<in> set c. ver_CommitSeq v < ver_CommitSeq v' \<and> ver_CommitSeq v' \<le> w)"

lemma last_vupto_in: "vupto w c \<noteq> [] \<Longrightarrow> last (vupto w c) \<in> set c \<and> ver_CommitSeq (last (vupto w c)) \<le> w"
  using last_in_set [of "vupto w c"] by (auto simp: vupto_def)

lemma take_superseded:
  assumes "chain_sorted c" "n < length (vupto w c)" "v \<in> set (take n c)"
  shows "superseded (drop n c) w v"
proof -
  let ?l = "last (vupto w c)"
  have ne: "vupto w c \<noteq> []" using assms(2) by auto
  have "vupto w (drop n c) = drop n (vupto w c)" by (rule vupto_drop [OF assms(1,2)]) simp
  then have l: "?l \<in> set (drop n c)" "ver_CommitSeq ?l \<le> w"
    using assms(2) last_vupto_in [of w "drop n c"] by auto
  have "sorted_wrt (\<lambda>a b. ver_CommitSeq a < ver_CommitSeq b) (take n c @ drop n c)"
    using assms(1) by simp
  then have "ver_CommitSeq v < ver_CommitSeq ?l"
    using assms(3) l(1) unfolding sorted_wrt_append by blast
  with l show ?thesis by (auto simp: superseded_def)
qed

lemma drop_not_superseded:
  assumes "chain_sorted c" "n = length (vupto w c) - 1" "v \<in> set (drop n c)"
  shows "\<not> superseded c w v"
proof
  assume "superseded c w v"
  then obtain v' where v': "v' \<in> set c" "ver_CommitSeq v < ver_CommitSeq v'" "ver_CommitSeq v' \<le> w"
    by (auto simp: superseded_def)
  have s: "sorted_wrt (\<lambda>a b. ver_CommitSeq a < ver_CommitSeq b) (vupto w c)"
    using assms(1) by (simp add: vupto_def sorted_wrt_filter)
  have "v' \<in> set (vupto w c)" using v' by (simp add: vupto_def)
  then have le: "ver_CommitSeq v' \<le> ver_CommitSeq (last (vupto w c))"
    using chain_sorted_last [OF s] by (auto intro: less_imp_le)
  have c: "c = vupto w c @ filter (\<lambda>v. \<not> ver_CommitSeq v \<le> w) c"
    using sorted_wrt_split [OF assms(1), of w] by (simp add: vupto_def)
  have ne: "vupto w c \<noteq> []" using \<open>v' \<in> set (vupto w c)\<close> by auto
  have "drop n (vupto w c) = [last (vupto w c)]"
    using ne unfolding assms(2) by (metis append_butlast_last_id append_eq_conv_conj length_butlast)
  moreover have "drop n c = drop n (vupto w c) @ filter (\<lambda>v. \<not> ver_CommitSeq v \<le> w) c"
    using assms(2) by (subst c) (simp del: drop_append add: drop_append)
  ultimately have "v = last (vupto w c) \<or> \<not> ver_CommitSeq v \<le> w" using assms(3) by auto
  with le v' show False by auto
qed

text \<open>
  Claim C28. \<open>Store.ReclaimKey\<close> removes exactly superseded versions: a prefix of the chain,
  never more than the budget, every removed version followed by a surviving one that is
  still at or below the horizon \<open>w\<close>; and unless the budget ran out, no superseded version
  is left behind. The newest version is never touched and the store invariant is kept.
\<close>

theorem ReclaimKey_exact:
  assumes "store_inv s" "ReclaimKey k w budget s = (s', n)"
  shows "store_inv s' \<and> 0 \<le> n \<and> (0 < n \<longrightarrow> n \<le> budget)
    \<and> chain_of s' k = drop (nat n) (chain_of s k) \<and> (\<forall>k'. k' \<noteq> k \<longrightarrow> chain_of s' k' = chain_of s k')
    \<and> (\<forall>v \<in> set (take (nat n) (chain_of s k)). superseded (chain_of s' k) w v)
    \<and> (n < budget \<longrightarrow> (\<forall>v \<in> set (chain_of s' k). \<not> superseded (chain_of s k) w v))"
proof -
  let ?c = "chain_of s k" let ?r = "reclaim_count ?c w budget"
  note sorted = store_inv_chain [OF assms(1), of k]
  have n: "n = int ?r" and s': "s' = fst (ReclaimKey k w budget s)"
    using assms by (auto simp: ReclaimKey_eq [OF assms(1)] split: if_splits)
  have "\<forall>v \<in> set (take ?r ?c). superseded (drop ?r ?c) w v"
    using reclaim_count_less [of ?c w budget] take_superseded [OF sorted] by auto
  moreover have "\<forall>v \<in> set (drop ?r ?c). \<not> superseded ?c w v" if "n < budget"
  proof (cases "length ?c < 2")
    case True
    then show ?thesis by (cases ?c) (auto simp: superseded_def dest!: in_set_dropD)
  next
    case False
    then have "?r = nat (min budget (int (length (vupto w ?c)) - 1))" by (simp add: reclaim_count_def)
    then have "?r = length (vupto w ?c) - 1" using that n by (auto simp: min_def split: if_splits)
    then show ?thesis using drop_not_superseded [OF sorted] by blast
  qed
  moreover have "0 < n \<longrightarrow> n \<le> budget" using n by (auto simp: reclaim_count_def)
  ultimately show ?thesis
    using assms(1) n by (auto simp: s' chain_of_ReclaimKey store_inv_ReclaimKey)
qed

theorem ReclaimKey_exact_witness:
  "ReclaimKey ''a'' 6 1 demo_store = (fst (ReclaimKey ''a'' 6 1 demo_store), 1)
   \<and> chain_of (fst (ReclaimKey ''a'' 6 1 demo_store)) ''a'' = [mk_version 5 (put_mut ''a'' ''z'')]"
proof -
  have 1: "snd (ReclaimKey ''a'' 6 1 demo_store) = 1" by code_simp
  then have eq: "ReclaimKey ''a'' 6 1 demo_store = (fst (ReclaimKey ''a'' 6 1 demo_store), 1)"
    by (metis prod.collapse)
  from ReclaimKey_exact [OF store_inv_demo eq] eq show ?thesis by (simp add: chain_of_demo)
qed

lemma scan_keys:
  "map kv_Key [\<lparr>kv_Key = k, kv_Value = f k\<rparr>. k \<leftarrow> ks, P k] = filter P ks"
  by (induction ks) auto

text \<open>
  Claim C34. \<open>Store.ScanVisible\<close> returns, in strictly ascending key order, exactly the keys
  with the given prefix that a point read of the same snapshot finds, each with the value
  that read returns; and it is refused exactly when the point read is.
\<close>

theorem ScanVisible_point_reads:
  assumes "store_inv s"
  shows "case ScanVisible s p q of
      Inl e \<Rightarrow> e = ErrSnapshotTooOld \<and> (\<forall>k. Visible s k q = Inl ErrSnapshotTooOld)
    | Inr kvs \<Rightarrow> sorted_wrt (<) (map kv_Key kvs)
        \<and> (\<forall>k v. \<lparr>kv_Key = k, kv_Value = v\<rparr> \<in> set kvs
              \<longleftrightarrow> HasPrefix k p \<and> Visible s k q = Inr (Some v))"
proof (cases "readable s q")
  case False
  then show ?thesis using assms by (auto simp: ScanVisible_def Visible_read_at readable_def)
next
  case True
  let ?kvs = "scan_loop s p q (orderedKeys s)"
  have "read_at s k q \<noteq> None \<Longrightarrow> k \<in> set (orderedKeys s)" for k
    using store_inv_key_iff [OF assms, of k] by (auto simp: read_at_def vupto_def value_of_def)
  then have "\<lparr>kv_Key = k, kv_Value = v\<rparr> \<in> set ?kvs \<longleftrightarrow> HasPrefix k p \<and> read_at s k q = Some v" for k v
    unfolding scan_loop_eq [OF assms] by fastforce
  moreover have "sorted_wrt (<) (map kv_Key ?kvs)"
    unfolding scan_loop_eq [OF assms] scan_keys
    using assms by (simp add: store_inv_def sorted_wrt_filter)
  ultimately show ?thesis
    using True assms by (auto simp: ScanVisible_def Visible_read_at readable_def)
qed

theorem ScanVisible_point_reads_witness:
  "ScanVisible demo_store [] 4 = Inr [\<lparr>kv_Key = ''a'', kv_Value = ''x''\<rparr>, \<lparr>kv_Key = ''b'', kv_Value = ''y''\<rparr>]
   \<and> Visible demo_store ''b'' 4 = Inr (Some ''y'')"
proof -
  have scan: "ScanVisible demo_store [] 4
      = Inr [\<lparr>kv_Key = ''a'', kv_Value = ''x''\<rparr>, \<lparr>kv_Key = ''b'', kv_Value = ''y''\<rparr>]"
    by code_simp
  with ScanVisible_point_reads [OF store_inv_demo, where p = "[]" and q = 4] show ?thesis by auto
qed

text \<open>
  A snapshot of the store can be taken apart and put together again: restoring
  what \<open>Store.Export\<close> returns gives a store with the same chain for every key and the same
  ordered key index, and the exported list does not depend on the order in which the map
  of chains was iterated.
\<close>

theorem Export_RestoreStore:
  assumes "store_inv s"
  shows "store_inv (RestoreStore (Export s) w)
    \<and> chain_of (RestoreStore (Export s) w) = chain_of s
    \<and> orderedKeys (RestoreStore (Export s) w) = orderedKeys s
    \<and> GCWatermark (RestoreStore (Export s) w) = w
    \<and> (\<forall>cs. mset cs = mset (chains s) \<longrightarrow> Export (s\<lparr>chains := cs\<rparr>) = Export s)"
proof -
  have "Export (s\<lparr>chains := cs\<rparr>) = Export s" if "mset cs = mset (chains s)" for cs
  proof (rule Export_cong)
    have wf: "mwf (chains s)" using assms by (simp add: store_inv_def)
    have "mset (map fst cs) = mset (map fst (chains s))" using that by simp
    then show wf': "mwf (chains (s\<lparr>chains := cs\<rparr>))"
      using wf mset_eq_imp_distinct_iff by fastforce
    show "mget (chains (s\<lparr>chains := cs\<rparr>)) = mget (chains s)"
      using mget_cong_set [OF wf' wf] mset_eq_setD [OF that] by simp
  qed (use assms in \<open>simp add: store_inv_def\<close>)
  then show ?thesis
    using store_inv_RestoreStore_Export [OF assms] mget_RestoreStore_Export [OF assms, of w]
      orderedKeys_RestoreStore_Export [OF assms]
    by (simp add: chain_of_def fun_eq_iff GCWatermark_def RestoreStore_def)
qed

theorem Export_RestoreStore_witness:
  "chain_of (RestoreStore (Export demo_store) 5) ''a'' = chain_of demo_store ''a''
   \<and> Export (demo_store\<lparr>chains := rev (chains demo_store)\<rparr>) = Export demo_store"
  using Export_RestoreStore [OF store_inv_demo, of 5] by simp

end
