(* ===== verification/Codec.thy ===== *)
theory Codec
  imports Chronicle_Prelude
begin

text \<open>
  The byte-level encoding discipline the packages share: big-endian integers
  (\<^verbatim>\<open>encoding/binary\<close>) and length-prefixed byte strings, decoded with a check against
  the bytes that remain before every read. A Go decoder walks an offset through one
  slice; here it passes the rest of the input on, so \<open>len(b)-off\<close> is the length of the
  rest. The locale \<open>codec\<close> states what a decoder promises about its encoder, and proves
  once how a counted sequence of items is read back.
\<close>

section \<open>Big-endian integers\<close>

fun be_put :: "nat \<Rightarrow> nat \<Rightarrow> bytes" where
  "be_put 0 n = []"
| "be_put (Suc k) n = be_put k (n div 256) @ [char_of n]"

definition be_get :: "bytes \<Rightarrow> nat" where
  "be_get b = foldl (\<lambda>a c. a * 256 + of_char c) 0 b"

text \<open>\<open>PutUint16(b, uint16(n))\<close> and \<open>Uint16\<close>, the 16 bits as a number.\<close>

definition PutUint16 :: "nat \<Rightarrow> bytes" where
  "PutUint16 n = be_put 2 n"

definition Uint16 :: "bytes \<Rightarrow> nat" where
  "Uint16 b = be_get (take 2 b)"

definition PutUint32 :: "u32 \<Rightarrow> bytes" where
  "PutUint32 w = be_put 4 (unat w)"

definition PutUint64 :: "u64 \<Rightarrow> bytes" where
  "PutUint64 w = be_put 8 (unat w)"

definition Uint32 :: "bytes \<Rightarrow> u32" where
  "Uint32 b = word_of_nat (be_get (take 4 b))"

definition Uint64 :: "bytes \<Rightarrow> u64" where
  "Uint64 b = word_of_nat (be_get (take 8 b))"

lemma length_be_put [simp]: "length (be_put k n) = k"
  by (induction k arbitrary: n) auto

lemma length_PutUint32 [simp]: "length (PutUint32 w) = 4"
  by (simp add: PutUint32_def)

lemma length_PutUint64 [simp]: "length (PutUint64 w) = 8"
  by (simp add: PutUint64_def)

lemma be_get_snoc: "be_get (b @ [c]) = be_get b * 256 + of_char c"
  by (simp add: be_get_def)

lemma be_get_be_put: "be_get (be_put k n) = n mod 256 ^ k"
proof (induction k arbitrary: n)
  case 0
  then show ?case by (simp add: be_get_def)
next
  case (Suc k)
  have "be_get (be_put (Suc k) n) = (n div 256 mod 256 ^ k) * 256 + n mod 256"
    by (simp add: be_get_snoc Suc)
  also have "\<dots> = n mod 256 ^ Suc k"
    by (simp add: mod_mult2_eq algebra_simps)
  finally show ?case .
qed

lemma length_PutUint16 [simp]: "length (PutUint16 n) = 2"
  by (simp add: PutUint16_def)

lemma Uint16_PutUint16 [simp, codec_simps]: "n < 65536 \<Longrightarrow> Uint16 (PutUint16 n @ r) = n"
  by (simp add: Uint16_def PutUint16_def be_get_be_put)

lemma Uint32_PutUint32 [simp, codec_simps]: "Uint32 (PutUint32 w @ r) = w"
proof -
  have "unat w < 256 ^ 4" using unsigned_less [of w] by simp
  then show ?thesis by (simp add: Uint32_def PutUint32_def be_get_be_put)
qed

lemma Uint64_PutUint64 [simp, codec_simps]: "Uint64 (PutUint64 w @ r) = w"
proof -
  have "unat w < 256 ^ 8" using unsigned_less [of w] by simp
  then show ?thesis by (simp add: Uint64_def PutUint64_def be_get_be_put)
qed

section \<open>Decoding steps\<close>

text \<open>\<open>uint32(len(x))\<close>\<close>

definition len32 :: "'a list \<Rightarrow> u32" where
  "len32 xs = word_of_nat (length xs)"

lemma unat_len32 [simp]: "length xs < 2 ^ 32 \<Longrightarrow> unat (len32 xs) = length xs"
  by (simp add: len32_def unsigned_of_nat take_bit_nat_eq_self)

definition take_u16 :: "'e \<Rightarrow> bytes \<Rightarrow> 'e + nat \<times> bytes" where
  "take_u16 e b = (if length b < 2 then Inl e else Inr (Uint16 b, drop 2 b))"

definition take_u32 :: "'e \<Rightarrow> bytes \<Rightarrow> 'e + u32 \<times> bytes" where
  "take_u32 e b = (if length b < 4 then Inl e else Inr (Uint32 b, drop 4 b))"

definition take_u64 :: "'e \<Rightarrow> bytes \<Rightarrow> 'e + u64 \<times> bytes" where
  "take_u64 e b = (if length b < 8 then Inl e else Inr (Uint64 b, drop 8 b))"

definition take_byte :: "'e \<Rightarrow> bytes \<Rightarrow> 'e + char \<times> bytes" where
  "take_byte e b = (case b of [] \<Rightarrow> Inl e | c # r \<Rightarrow> Inr (c, r))"

definition take_n :: "'e \<Rightarrow> nat \<Rightarrow> bytes \<Rightarrow> 'e + bytes \<times> bytes" where
  "take_n e n b = (if n > length b then Inl e else Inr (take n b, drop n b))"

definition take_prefixed :: "'e \<Rightarrow> bytes \<Rightarrow> 'e + bytes \<times> bytes" where
  "take_prefixed e b = bindR (take_u32 e b) (\<lambda>(n, b). take_n e (unat n) b)"

definition put_prefixed :: "bytes \<Rightarrow> bytes" where
  "put_prefixed x = PutUint32 (len32 x) @ x"

text \<open>The count-controlled loop \<open>for i := uint32(0); i < n; i++\<close> over one item decoder.\<close>

fun dec_many :: "(bytes \<Rightarrow> 'e + 'a \<times> bytes) \<Rightarrow> nat \<Rightarrow> bytes \<Rightarrow> 'e + 'a list \<times> bytes" where
  "dec_many d 0 b = Inr ([], b)"
| "dec_many d (Suc n) b =
     bindR (d b) (\<lambda>(x, b). bindR (dec_many d n b) (\<lambda>(xs, b). Inr (x # xs, b)))"

lemma take_u16_put [simp, codec_simps]: "n < 65536 \<Longrightarrow> take_u16 e (PutUint16 n @ r) = Inr (n, r)"
  by (simp add: take_u16_def)

lemma take_u32_put [simp, codec_simps]: "take_u32 e (PutUint32 w @ r) = Inr (w, r)"
  by (simp add: take_u32_def)

lemma take_u64_put [simp, codec_simps]: "take_u64 e (PutUint64 w @ r) = Inr (w, r)"
  by (simp add: take_u64_def)

lemma take_byte_put [simp, codec_simps]: "take_byte e (c # r) = Inr (c, r)"
  by (simp add: take_byte_def)

lemma take_n_append [simp, codec_simps]: "n = length x \<Longrightarrow> take_n e n (x @ r) = Inr (x, r)"
  by (simp add: take_n_def)

lemma length_put_prefixed [simp]: "length (put_prefixed x) = 4 + length x"
  by (simp add: put_prefixed_def)

lemma take_prefixed_put [simp, codec_simps]:
  "length x < 2 ^ 32 \<Longrightarrow> take_prefixed e (put_prefixed x @ r) = Inr (x, r)"
  by (simp add: take_prefixed_def put_prefixed_def)

text \<open>What a decoder consumed is a prefix of its input, so a decoded sequence of items of
  at least \<open>k\<close> bytes each has at most \<open>length b div k\<close> items.\<close>

lemma take_u32_Inr: "take_u32 e b = Inr (w, r) \<Longrightarrow> length b = 4 + length r"
  by (auto simp: take_u32_def split: if_splits)

lemma take_u64_Inr: "take_u64 e b = Inr (w, r) \<Longrightarrow> length b = 8 + length r"
  by (auto simp: take_u64_def split: if_splits)

lemma take_byte_Inr: "take_byte e b = Inr (c, r) \<Longrightarrow> b = c # r"
  by (auto simp: take_byte_def split: list.splits)

lemma take_n_Inr: "take_n e n b = Inr (x, r) \<Longrightarrow> b = x @ r \<and> length x = n"
  by (auto simp: take_n_def split: if_splits)

lemma take_prefixed_Inr: "take_prefixed e b = Inr (x, r) \<Longrightarrow> length b = 4 + length x + length r"
  by (auto simp: take_prefixed_def bindR_eq_Inr dest!: take_u32_Inr take_n_Inr)

text \<open>
  The test \<open>n > uint32(remaining/k)\<close>. The division is of an \<open>int\<close>; only its result is
  narrowed.
\<close>

definition count_too_big :: "u32 \<Rightarrow> bytes \<Rightarrow> nat \<Rightarrow> bool" where
  "count_too_big n b k \<longleftrightarrow> n > word_of_nat (length b div k)"

lemma count_ok:
  assumes "length xs \<le> length b div k" "length b div k < 2 ^ 32"
  shows "\<not> count_too_big (len32 xs) b k"
  using assms by (simp add: count_too_big_def len32_def not_less word_of_nat_less_eq_iff take_bit_nat_eq_self)

text \<open>A sequence written as its count and its items, and its decoder with that test.\<close>

definition counted :: "('a \<Rightarrow> bytes) \<Rightarrow> 'a list \<Rightarrow> bytes" where
  "counted enc xs = PutUint32 (len32 xs) @ concat (map enc xs)"

definition take_counted :: "'e \<Rightarrow> nat \<Rightarrow> (bytes \<Rightarrow> 'e + 'a \<times> bytes) \<Rightarrow> bytes \<Rightarrow> 'e + 'a list \<times> bytes" where
  "take_counted e least dec b = bindR (take_u32 e b) (\<lambda>(n, b).
     if count_too_big n b least then Inl e else dec_many dec (unat n) b)"

lemma length_counted: "length (counted enc xs) = 4 + length (concat (map enc xs))"
  by (simp add: counted_def)

lemma length_enc_member: "x \<in> set xs \<Longrightarrow> length (enc x) \<le> length (concat (map enc xs))"
  by (simp add: length_concat member_le_sum_list)

section \<open>The contract of an encoder and its decoder\<close>

text \<open>
  A decoder that checks a count against \<open>uint32(remaining/k)\<close> is only faithful while the
  input is below four gigabytes, where the narrowing keeps the quotient. The locale
  \<open>bounded_codec\<close> states the contract under that bound, \<open>codec\<close> without it.
\<close>

locale bounded_codec =
  fixes enc :: "'a \<Rightarrow> bytes" and dec :: "bytes \<Rightarrow> 'e + 'a \<times> bytes" and ok :: "'a \<Rightarrow> bool"
    and least :: nat
  assumes dec_enc_below: "ok x \<Longrightarrow> length (enc x @ r) < 2 ^ 32 \<Longrightarrow> dec (enc x @ r) = Inr (x, r)"
    and least_enc: "ok x \<Longrightarrow> least \<le> length (enc x)"
    and least_pos: "0 < least"
begin

lemma dec_many_below:
  "\<forall>x \<in> set xs. ok x \<Longrightarrow> length (concat (map enc xs) @ r) < 2 ^ 32
     \<Longrightarrow> dec_many dec (length xs) (concat (map enc xs) @ r) = Inr (xs, r)"
proof (induction xs)
  case (Cons x xs)
  then have "dec (enc x @ concat (map enc xs) @ r) = Inr (x, concat (map enc xs) @ r)"
    by (intro dec_enc_below) simp_all
  with Cons show ?case by simp
qed simp

lemma length_concat_enc:
  "\<forall>x \<in> set xs. ok x \<Longrightarrow> least * length xs \<le> length (concat (map enc xs))"
  by (induction xs) (use least_enc in \<open>fastforce+\<close>)

text \<open>The bound every decoder checks before it trusts a count never rejects a real encoding.\<close>

lemma count_bound:
  assumes "\<forall>x \<in> set xs. ok x"
  shows "length xs \<le> length (concat (map enc xs) @ r) div least"
  using length_concat_enc [OF assms] least_pos
  by (simp add: less_eq_div_iff_mult_less_eq mult.commute)

lemma count_passes:
  assumes "\<forall>x \<in> set xs. ok x" "length (concat (map enc xs) @ r) < 2 ^ 32"
  shows "\<not> count_too_big (len32 xs) (concat (map enc xs) @ r) least" "length xs < 2 ^ 32"
proof -
  note bound = count_bound [OF assms(1), of r]
  have less: "length (concat (map enc xs) @ r) div least < 2 ^ 32"
    using assms(2) by (meson div_le_dividend le_less_trans)
  show "\<not> count_too_big (len32 xs) (concat (map enc xs) @ r) least"
    by (rule count_ok [OF bound less])
  show "length xs < 2 ^ 32" by (rule le_less_trans [OF bound less])
qed

lemma take_counted_counted:
  assumes "\<forall>x \<in> set xs. ok x" "length (counted enc xs @ r) < 2 ^ 32"
  shows "take_counted e least dec (counted enc xs @ r) = Inr (xs, r)"
proof -
  have l: "length (concat (map enc xs) @ r) < 2 ^ 32" using assms(2) by (simp add: length_counted)
  show ?thesis
    using count_passes [OF assms(1) l] dec_many_below [OF assms(1) l]
    by (simp add: take_counted_def counted_def)
qed

end

locale codec =
  fixes enc :: "'a \<Rightarrow> bytes" and dec :: "bytes \<Rightarrow> 'e + 'a \<times> bytes" and ok :: "'a \<Rightarrow> bool"
    and least :: nat
  assumes dec_enc: "ok x \<Longrightarrow> dec (enc x @ r) = Inr (x, r)"
    and least_enc_all: "ok x \<Longrightarrow> least \<le> length (enc x)"
    and least_pos_all: "0 < least"
begin

lemma dec_many_enc:
  "\<forall>x \<in> set xs. ok x \<Longrightarrow> dec_many dec (length xs) (concat (map enc xs) @ r) = Inr (xs, r)"
  by (induction xs) (simp_all add: dec_enc)

lemma enc_inj: "ok x \<Longrightarrow> ok y \<Longrightarrow> enc x = enc y \<Longrightarrow> x = y"
  using dec_enc [of x "[]"] dec_enc [of y "[]"] by simp

end

sublocale codec \<subseteq> bounded_codec
  by unfold_locales (simp_all add: dec_enc least_enc_all least_pos_all)

definition short :: "bytes \<Rightarrow> bool" where
  "short x \<longleftrightarrow> length x < 2 ^ 32"

interpretation prefixed: codec put_prefixed "take_prefixed e" short 4 for e
  by unfold_locales (simp_all add: short_def)

interpretation u16c: codec PutUint16 "take_u16 e" "\<lambda>n. n < 65536" 2 for e
  by unfold_locales simp_all

interpretation u32c: codec PutUint32 "take_u32 e" "\<lambda>_. True" 4 for e
  by unfold_locales simp_all

interpretation u64c: codec PutUint64 "take_u64 e" "\<lambda>_. True" 8 for e
  by unfold_locales simp_all

end
