(* ===== verification/Sha256.thy ===== *)
theory Sha256
  imports Codec
begin

text \<open>
  SHA-256 (\<^verbatim>\<open>crypto/sha256.Sum256\<close>, FIPS 180-4), the digest with which the state machine
  fingerprints a command, the snapshot manifest covers its payload, and the audit log
  chains its records. It is executable, and the library needs one fact of it: a digest has
  32 bytes. Nothing is assumed about collisions; where a result depends on two digests
  being different, its statement says so.
\<close>

unbundle bit_operations_syntax

text \<open>The constants, by their definition: the first 32 bits of the fractional parts of the
  cube roots (round constants) and the square roots (initial state) of the first primes.
  An integer root is found by binary search, and the narrowing to 32 bits drops the integer
  part.\<close>

definition primes_below :: "nat \<Rightarrow> nat list" where
  "primes_below n = filter (\<lambda>p. \<forall>d \<in> set [2..<p]. p mod d \<noteq> 0) [2..<n]"

definition int_root :: "nat \<Rightarrow> nat \<Rightarrow> nat" where
  "int_root e n = sort_Search (2 ^ 40) (\<lambda>x. n < x ^ e) - 1"

definition sha_K :: "u32 list" where
  "sha_K = map (\<lambda>p. word_of_nat (int_root 3 (p * 2 ^ 96))) (primes_below 312)"

type_synonym sha_state = "u32 \<times> u32 \<times> u32 \<times> u32 \<times> u32 \<times> u32 \<times> u32 \<times> u32"

definition sha_H0 :: sha_state where
  "sha_H0 = (let h = map (\<lambda>p. word_of_nat (int_root 2 (p * 2 ^ 64))) (primes_below 20)
     in (h ! 0, h ! 1, h ! 2, h ! 3, h ! 4, h ! 5, h ! 6, h ! 7))"

definition ror32 :: "nat \<Rightarrow> u32 \<Rightarrow> u32" where
  "ror32 n x = (drop_bit n x) OR (push_bit (32 - n) x)"

definition sha_Ch :: "u32 \<Rightarrow> u32 \<Rightarrow> u32 \<Rightarrow> u32" where
  "sha_Ch x y z = (x AND y) XOR (NOT x AND z)"

definition sha_Maj :: "u32 \<Rightarrow> u32 \<Rightarrow> u32 \<Rightarrow> u32" where
  "sha_Maj x y z = (x AND y) XOR (x AND z) XOR (y AND z)"

definition sha_Sig0 :: "u32 \<Rightarrow> u32" where
  "sha_Sig0 x = ror32 2 x XOR ror32 13 x XOR ror32 22 x"

definition sha_Sig1 :: "u32 \<Rightarrow> u32" where
  "sha_Sig1 x = ror32 6 x XOR ror32 11 x XOR ror32 25 x"

definition sha_sig0 :: "u32 \<Rightarrow> u32" where
  "sha_sig0 x = ror32 7 x XOR ror32 18 x XOR drop_bit 3 x"

definition sha_sig1 :: "u32 \<Rightarrow> u32" where
  "sha_sig1 x = ror32 17 x XOR ror32 19 x XOR drop_bit 10 x"

text \<open>The message schedule, extended one word at a time.\<close>

fun sha_schedule :: "nat \<Rightarrow> u32 list \<Rightarrow> u32 list" where
  "sha_schedule 0 w = w"
| "sha_schedule (Suc n) w =
     (let t = length w
      in sha_schedule n (w @ [sha_sig1 (w ! (t - 2)) + w ! (t - 7) + sha_sig0 (w ! (t - 15)) + w ! (t - 16)]))"

fun sha_round :: "sha_state \<Rightarrow> u32 \<times> u32 \<Rightarrow> sha_state" where
  "sha_round (a, b, c, d, e, f, g, h) (k, w) =
     (let t1 = h + sha_Sig1 e + sha_Ch e f g + k + w;
          t2 = sha_Sig0 a + sha_Maj a b c
      in (t1 + t2, a, b, c, d + t1, e, f, g))"

fun sha_add :: "sha_state \<Rightarrow> sha_state \<Rightarrow> sha_state" where
  "sha_add (a, b, c, d, e, f, g, h) (a', b', c', d', e', f', g', h') =
     (a + a', b + b', c + c', d + d', e + e', f + f', g + g', h + h')"

definition sha_block :: "sha_state \<Rightarrow> bytes \<Rightarrow> sha_state" where
  "sha_block st blk =
     (let w = sha_schedule 48 (map (\<lambda>i. Uint32 (drop (4 * i) blk)) [0..<16])
      in sha_add st (foldl sha_round st (zip sha_K w)))"

definition sha_pad :: "bytes \<Rightarrow> bytes" where
  "sha_pad b = b @ [CHR 0x80] @ replicate ((64 - (length b + 9) mod 64) mod 64) (CHR 0x00)
     @ PutUint64 (word_of_nat (8 * length b))"

fun sha_out :: "sha_state \<Rightarrow> bytes" where
  "sha_out (a, b, c, d, e, f, g, h) = concat (map PutUint32 [a, b, c, d, e, f, g, h])"

definition sha256 :: "bytes \<Rightarrow> bytes" where
  "sha256 b =
     (let p = sha_pad b
      in sha_out (foldl sha_block sha_H0
           (map (\<lambda>i. take 64 (drop (64 * i) p)) [0..<length p div 64])))"

lemma length_sha_out: "length (sha_out s) = 32"
  by (cases s rule: sha_out.cases) simp

lemma length_sha256 [simp]: "length (sha256 b) = 32"
  by (simp add: sha256_def Let_def length_sha_out)

text \<open>The message is padded to whole blocks, so every byte of it is hashed.\<close>

lemma sha_pad_blocks: "64 dvd length (sha_pad b)"
proof -
  have "(n + 9 + (64 - (n + 9) mod 64) mod 64) mod 64 = (0::nat)" for n
  proof (cases "(n + 9) mod 64 = 0")
    case False
    then have "(64 - (n + 9) mod 64) mod 64 = 64 - (n + 9) mod 64" by simp
    moreover have "(n + 9) mod 64 < 64" by simp
    ultimately show ?thesis
      by (metis (no_types, lifting) add.commute le_add_diff_inverse2 less_imp_le mod_add_left_eq mod_self)
  qed simp
  from this [of "length b"] show ?thesis
    by (simp add: sha_pad_def mod_eq_0_iff_dvd add.commute add.left_commute add.assoc)
qed

end
