(* ===== verification/Fsm_Command.thy ===== *)
theory Fsm_Command
  imports Codec Mvcc
begin

text \<open>
  The commands of the replicated state machine and their byte formats:
  \<^verbatim>\<open>internal/fsm/command.go\<close> (transaction commits), \<^verbatim>\<open>clusterversion.go\<close> (finalising an
  upgrade) and the codec half of \<^verbatim>\<open>gc.go\<close> (moving the garbage-collection horizon). An
  error value keeps the sentinel the Go code wraps; the message text is dropped.
\<close>

section \<open>Errors\<close>

datatype fsm_error =
    ErrRequestIDUnknown
  | ErrRequestIDPayloadMismatch
  | ErrMalformedCommand
  | ErrUnsupportedCommandVersion
  | ErrUnknownControlCommand
  | ErrRequestIDConflict
  | ErrApply mvcc_error

section \<open>Transaction commits\<close>

record CommitTxnCommand =
  cmd_RequestID :: string
  cmd_TxnID :: u64
  cmd_StartSeq :: u64
  cmd_Mutations :: "Mutation list"

definition commitTxnCommandVersion :: char where
  "commitTxnCommandVersion = CHR 0x02"

definition bool_byte :: "bool \<Rightarrow> char" where
  "bool_byte b = (if b then CHR 0x01 else CHR 0x00)"

definition encodeMutation :: "Mutation \<Rightarrow> bytes" where
  "encodeMutation m = PutUint32 (len32 (mut_Key m)) @ mut_Key m @ [bool_byte (mut_Tombstone m)]
     @ (if mut_Tombstone m then [] else PutUint32 (len32 (mut_Value m)) @ mut_Value m)"

definition encodeCommitBody :: "CommitTxnCommand \<Rightarrow> bytes" where
  "encodeCommitBody cmd = PutUint64 (cmd_TxnID cmd) @ PutUint64 (cmd_StartSeq cmd)
     @ PutUint32 (len32 (cmd_Mutations cmd)) @ concat (map encodeMutation (cmd_Mutations cmd))"

definition EncodeCommitTxn :: "CommitTxnCommand \<Rightarrow> bytes" where
  "EncodeCommitTxn cmd = [commitTxnCommandVersion] @ PutUint32 (len32 (cmd_RequestID cmd))
     @ cmd_RequestID cmd @ encodeCommitBody cmd"

definition decodeMutation :: "bytes \<Rightarrow> fsm_error + Mutation \<times> bytes" where
  "decodeMutation b =
     bindR (take_u32 ErrMalformedCommand b) (\<lambda>(keyLen, b).
     bindR (take_n ErrMalformedCommand (unat keyLen) b) (\<lambda>(key, b).
     bindR (take_byte ErrMalformedCommand b) (\<lambda>(flag, b).
       if flag \<noteq> CHR 0x00
       then Inr (\<lparr>mut_Key = key, mut_Value = [], mut_Tombstone = True\<rparr>, b)
       else bindR (take_u32 ErrMalformedCommand b) (\<lambda>(valLen, b).
            bindR (take_n ErrMalformedCommand (unat valLen) b) (\<lambda>(val, b).
              Inr (\<lparr>mut_Key = key, mut_Value = val, mut_Tombstone = False\<rparr>, b))))))"

definition DecodeCommitTxn :: "bytes \<Rightarrow> fsm_error + CommitTxnCommand" where
  "DecodeCommitTxn b =
     (if length b < 1 + 4 then Inl ErrMalformedCommand
      else if b ! 0 \<noteq> commitTxnCommandVersion then Inl ErrUnsupportedCommandVersion
      else bindR (take_u32 ErrMalformedCommand (drop 1 b)) (\<lambda>(reqIDLen, b).
           bindR (take_n ErrMalformedCommand (unat reqIDLen) b) (\<lambda>(reqID, b).
             if length b < 8 + 8 + 4 then Inl ErrMalformedCommand
             else bindR (take_u64 ErrMalformedCommand b) (\<lambda>(txnID, b).
                  bindR (take_u64 ErrMalformedCommand b) (\<lambda>(startSeq, b).
                  bindR (take_u32 ErrMalformedCommand b) (\<lambda>(numMutations, b).
                    if count_too_big numMutations b (4 + 1) then Inl ErrMalformedCommand
                    else bindR (dec_many decodeMutation (unat numMutations) b) (\<lambda>(mutations, b).
                      if length b \<noteq> 0 then Inl ErrMalformedCommand
                      else Inr \<lparr>cmd_RequestID = reqID, cmd_TxnID = txnID,
                        cmd_StartSeq = startSeq, cmd_Mutations = mutations\<rparr>)))))))"

section \<open>Control commands\<close>

definition ControlCommandMarker :: char where
  "ControlCommandMarker = CHR 0xF0"

definition controlKindSetClusterVersion :: char where
  "controlKindSetClusterVersion = CHR 0x01"

definition controlKindAdvanceGCWatermark :: char where
  "controlKindAdvanceGCWatermark = CHR 0x02"

definition IsControlCommand :: "bytes \<Rightarrow> bool" where
  "IsControlCommand payload \<longleftrightarrow> length payload > 0 \<and> payload ! 0 = ControlCommandMarker"

definition ControlKind :: "bytes \<Rightarrow> char option" where
  "ControlKind payload =
     (if \<not> IsControlCommand payload \<or> length payload < 2 then None else Some (payload ! 1))"

record SetClusterVersionCommand =
  scv_RequestID :: string
  scv_TargetGeneration :: u32

definition EncodeSetClusterVersion :: "SetClusterVersionCommand \<Rightarrow> bytes" where
  "EncodeSetClusterVersion cmd = [ControlCommandMarker, controlKindSetClusterVersion]
     @ PutUint32 (len32 (scv_RequestID cmd)) @ scv_RequestID cmd
     @ PutUint32 (scv_TargetGeneration cmd)"

definition DecodeSetClusterVersion :: "bytes \<Rightarrow> fsm_error + SetClusterVersionCommand" where
  "DecodeSetClusterVersion b =
     (if length b < 1 + 1 + 4 then Inl ErrMalformedCommand
      else if b ! 0 \<noteq> ControlCommandMarker then Inl ErrMalformedCommand
      else if b ! 1 \<noteq> controlKindSetClusterVersion then Inl ErrUnknownControlCommand
      else bindR (take_u32 ErrMalformedCommand (drop 2 b)) (\<lambda>(reqIDLen, b).
           bindR (take_n ErrMalformedCommand (unat reqIDLen) b) (\<lambda>(reqID, b).
             if length b \<noteq> 4 then Inl ErrMalformedCommand
             else Inr \<lparr>scv_RequestID = reqID, scv_TargetGeneration = Uint32 b\<rparr>)))"

record AdvanceGCWatermarkCommand =
  gc_RequestID :: string
  gc_Watermark :: u64
  gc_MaxVersions :: u32
  gc_MaxKeys :: u32

definition EncodeAdvanceGCWatermark :: "AdvanceGCWatermarkCommand \<Rightarrow> bytes" where
  "EncodeAdvanceGCWatermark cmd = [ControlCommandMarker, controlKindAdvanceGCWatermark]
     @ PutUint32 (len32 (gc_RequestID cmd)) @ gc_RequestID cmd
     @ PutUint64 (gc_Watermark cmd) @ PutUint32 (gc_MaxVersions cmd) @ PutUint32 (gc_MaxKeys cmd)"

definition DecodeAdvanceGCWatermark :: "bytes \<Rightarrow> fsm_error + AdvanceGCWatermarkCommand" where
  "DecodeAdvanceGCWatermark b =
     (if length b < 1 + 1 + 4 then Inl ErrMalformedCommand
      else if b ! 0 \<noteq> ControlCommandMarker then Inl ErrMalformedCommand
      else if b ! 1 \<noteq> controlKindAdvanceGCWatermark then Inl ErrUnknownControlCommand
      else bindR (take_u32 ErrMalformedCommand (drop 2 b)) (\<lambda>(reqIDLen, b).
           bindR (take_n ErrMalformedCommand (unat reqIDLen) b) (\<lambda>(reqID, b).
             if length b \<noteq> 8 + 4 + 4 then Inl ErrMalformedCommand
             else Inr \<lparr>gc_RequestID = reqID, gc_Watermark = Uint64 b,
               gc_MaxVersions = Uint32 (drop 8 b), gc_MaxKeys = Uint32 (drop 12 b)\<rparr>)))"

section \<open>Round trips\<close>

text \<open>A mutation the encoder represents faithfully: a tombstone carries no value, and the
  lengths fit their prefixes.\<close>

definition mutation_ok :: "Mutation \<Rightarrow> bool" where
  "mutation_ok m \<longleftrightarrow> short (mut_Key m) \<and> short (mut_Value m)
     \<and> (mut_Tombstone m \<longrightarrow> mut_Value m = [])"

lemma length_encodeMutation:
  "length (encodeMutation m) = 5 + length (mut_Key m)
     + (if mut_Tombstone m then 0 else 4 + length (mut_Value m))"
  by (simp add: encodeMutation_def)

interpretation mutc: codec encodeMutation decodeMutation mutation_ok 5
proof unfold_locales
  fix m :: Mutation and r assume "mutation_ok m"
  then show "decodeMutation (encodeMutation m @ r) = Inr (m, r)"
    by (cases m) (simp add: mutation_ok_def decodeMutation_def encodeMutation_def bool_byte_def short_def)
qed (simp_all add: length_encodeMutation)

lemma encodeMutation_short:
  assumes "length (concat (map encodeMutation ms)) < 2 ^ 32" "m \<in> set ms"
    "mut_Tombstone m \<longrightarrow> mut_Value m = []"
  shows "mutation_ok m"
proof -
  have "length (encodeMutation m) \<le> length (concat (map encodeMutation ms))"
    by (rule length_enc_member [OF assms(2)])
  with assms(1,3) show ?thesis
    by (auto simp: mutation_ok_def short_def length_encodeMutation split: if_splits)
qed

definition tombstones_empty :: "Mutation list \<Rightarrow> bool" where
  "tombstones_empty ms \<longleftrightarrow> (\<forall>m \<in> set ms. mut_Tombstone m \<longrightarrow> mut_Value m = [])"

lemma DecodeCommitTxn_body:
  assumes "tombstones_empty (cmd_Mutations cmd)" "length (EncodeCommitTxn cmd) < 2 ^ 32"
  shows "dec_many decodeMutation (length (cmd_Mutations cmd))
      (concat (map encodeMutation (cmd_Mutations cmd))) = Inr (cmd_Mutations cmd, [])"
    and "\<not> count_too_big (len32 (cmd_Mutations cmd))
      (concat (map encodeMutation (cmd_Mutations cmd))) 5"
    and "length (cmd_Mutations cmd) < 2 ^ 32"
proof -
  let ?ms = "cmd_Mutations cmd"
  have len: "length (concat (map encodeMutation ?ms)) < 2 ^ 32"
    using assms(2) by (simp add: EncodeCommitTxn_def encodeCommitBody_def)
  then have ok: "\<forall>m \<in> set ?ms. mutation_ok m"
    using assms(1) encodeMutation_short [OF len] by (auto simp: tombstones_empty_def)
  show "dec_many decodeMutation (length ?ms) (concat (map encodeMutation ?ms)) = Inr (?ms, [])"
    using mutc.dec_many_enc [OF ok, of "[]"] by simp
  show "\<not> count_too_big (len32 ?ms) (concat (map encodeMutation ?ms)) 5" "length ?ms < 2 ^ 32"
    using mutc.count_passes [OF ok, of "[]"] len by simp_all
qed

lemma DecodeCommitTxn_head:
  assumes "tombstones_empty (cmd_Mutations cmd)" "length (EncodeCommitTxn cmd) < 2 ^ 32"
  shows "DecodeCommitTxn (EncodeCommitTxn cmd @ r) =
      (if count_too_big (len32 (cmd_Mutations cmd))
            (concat (map encodeMutation (cmd_Mutations cmd)) @ r) 5 then Inl ErrMalformedCommand
       else bindR (dec_many decodeMutation (length (cmd_Mutations cmd))
              (concat (map encodeMutation (cmd_Mutations cmd)) @ r)) (\<lambda>(mutations, b).
            if length b \<noteq> 0 then Inl ErrMalformedCommand
            else Inr \<lparr>cmd_RequestID = cmd_RequestID cmd, cmd_TxnID = cmd_TxnID cmd,
              cmd_StartSeq = cmd_StartSeq cmd, cmd_Mutations = mutations\<rparr>))"
proof -
  have id: "length (cmd_RequestID cmd) < 2 ^ 32"
    using assms(2) by (simp add: EncodeCommitTxn_def)
  show ?thesis
    using id DecodeCommitTxn_body(3) [OF assms]
    by (simp add: DecodeCommitTxn_def EncodeCommitTxn_def encodeCommitBody_def)
qed

lemma DecodeCommitTxn_Encode:
  assumes "tombstones_empty (cmd_Mutations cmd)" "length (EncodeCommitTxn cmd) < 2 ^ 32"
  shows "DecodeCommitTxn (EncodeCommitTxn cmd) = Inr cmd"
  using DecodeCommitTxn_head [OF assms, of "[]"] DecodeCommitTxn_body [OF assms] by simp

text \<open>
  Claim C30. The commit command survives its byte encoding: whatever command the
  transaction layer builds (its tombstones carry no value) and whose encoding is below
  four gigabytes is read back unchanged by \<open>DecodeCommitTxn\<close>, and an encoding followed by
  any further byte is refused as malformed.
\<close>

theorem DecodeCommitTxn_EncodeCommitTxn:
  assumes "tombstones_empty (cmd_Mutations cmd)" "length (EncodeCommitTxn cmd) < 2 ^ 32"
  shows "DecodeCommitTxn (EncodeCommitTxn cmd) = Inr cmd
    \<and> (\<forall>x xs. DecodeCommitTxn (EncodeCommitTxn cmd @ x # xs) = Inl ErrMalformedCommand)"
proof (intro conjI allI)
  show "DecodeCommitTxn (EncodeCommitTxn cmd) = Inr cmd" by (rule DecodeCommitTxn_Encode [OF assms])
  fix x xs
  have len: "length (concat (map encodeMutation (cmd_Mutations cmd))) < 2 ^ 32"
    using assms(2) by (simp add: EncodeCommitTxn_def encodeCommitBody_def)
  then have "\<forall>m \<in> set (cmd_Mutations cmd). mutation_ok m"
    using assms(1) encodeMutation_short [OF len] by (auto simp: tombstones_empty_def)
  then show "DecodeCommitTxn (EncodeCommitTxn cmd @ x # xs) = Inl ErrMalformedCommand"
    using DecodeCommitTxn_head [OF assms, of "x # xs"] mutc.dec_many_enc [of "cmd_Mutations cmd" "x # xs"] by simp
qed

definition demo_cmd :: CommitTxnCommand where
  "demo_cmd = \<lparr>cmd_RequestID = ''r1'', cmd_TxnID = 1, cmd_StartSeq = 0,
     cmd_Mutations = [put_mut ''k'' ''v'', del_mut ''d'']\<rparr>"

theorem DecodeCommitTxn_EncodeCommitTxn_witness:
  "DecodeCommitTxn (EncodeCommitTxn demo_cmd) = Inr demo_cmd"
proof -
  have "tombstones_empty (cmd_Mutations demo_cmd)"
    by (simp add: tombstones_empty_def demo_cmd_def put_mut_def del_mut_def)
  moreover have "length (EncodeCommitTxn demo_cmd) < 2 ^ 32"
    by (simp add: EncodeCommitTxn_def encodeCommitBody_def length_encodeMutation demo_cmd_def
        put_mut_def del_mut_def)
  ultimately show ?thesis using DecodeCommitTxn_EncodeCommitTxn [of demo_cmd] by blast
qed

text \<open>
  The three command formats never mix: each control command is read back by its
  own decoder, the dispatch byte \<open>ControlKind\<close> names that decoder, and a node that takes a
  control command for a transaction commit, or a commit for a control command, fails
  closed instead of misreading it.
\<close>

theorem control_commands_separate:
  assumes "short (scv_RequestID c)" "short (gc_RequestID g)"
  shows "DecodeSetClusterVersion (EncodeSetClusterVersion c) = Inr c
    \<and> DecodeAdvanceGCWatermark (EncodeAdvanceGCWatermark g) = Inr g
    \<and> ControlKind (EncodeSetClusterVersion c) = Some controlKindSetClusterVersion
    \<and> ControlKind (EncodeAdvanceGCWatermark g) = Some controlKindAdvanceGCWatermark
    \<and> DecodeSetClusterVersion (EncodeAdvanceGCWatermark g) = Inl ErrUnknownControlCommand
    \<and> DecodeAdvanceGCWatermark (EncodeSetClusterVersion c) = Inl ErrUnknownControlCommand
    \<and> DecodeCommitTxn (EncodeSetClusterVersion c) = Inl ErrUnsupportedCommandVersion
    \<and> DecodeCommitTxn (EncodeAdvanceGCWatermark g) = Inl ErrUnsupportedCommandVersion
    \<and> (\<forall>cmd. \<not> IsControlCommand (EncodeCommitTxn cmd))"
proof -
  have [simp]: "Uint32 (PutUint32 w) = w" "Uint64 (PutUint64 x) = x" for w x
    using Uint32_PutUint32 [of w "[]"] Uint64_PutUint64 [of x "[]"] by simp_all
  show ?thesis
    using assms
    by (simp add: DecodeSetClusterVersion_def EncodeSetClusterVersion_def
        DecodeAdvanceGCWatermark_def EncodeAdvanceGCWatermark_def ControlKind_def
        IsControlCommand_def DecodeCommitTxn_def EncodeCommitTxn_def ControlCommandMarker_def
        controlKindSetClusterVersion_def controlKindAdvanceGCWatermark_def
        commitTxnCommandVersion_def short_def)
qed

theorem control_commands_separate_witness:
  "DecodeAdvanceGCWatermark (EncodeAdvanceGCWatermark
      \<lparr>gc_RequestID = ''gc'', gc_Watermark = 9, gc_MaxVersions = 2, gc_MaxKeys = 3\<rparr>)
    = Inr \<lparr>gc_RequestID = ''gc'', gc_Watermark = 9, gc_MaxVersions = 2, gc_MaxKeys = 3\<rparr>"
  using control_commands_separate [of "\<lparr>scv_RequestID = ''v'', scv_TargetGeneration = 1\<rparr>"
      "\<lparr>gc_RequestID = ''gc'', gc_Watermark = 9, gc_MaxVersions = 2, gc_MaxKeys = 3\<rparr>"]
  by (simp add: short_def)

end
