(* ===== verification/Fsm.thy ===== *)
theory Fsm
  imports Fsm_Command Sha256
begin

text \<open>
  The replicated state machine, \<^verbatim>\<open>internal/fsm\<close>: the record \<open>FSM\<close> (\<^verbatim>\<open>fsm.go\<close>), the apply
  functions for its three kinds of log entries (\<^verbatim>\<open>fsm.go\<close>, \<^verbatim>\<open>clusterversion.go\<close>, \<^verbatim>\<open>gc.go\<close>) and
  the table of membership outcomes (\<^verbatim>\<open>membership.go\<close>). The Go methods run under one lock,
  so each is one atomic function of the record. A method that changes the state returns
  the new state with its result. The two test hooks of the record (which kind of lock a
  reader takes, and a rendezvous of readers) do not change any result and have no field.

  The second half is about histories: the log entries applied one after the other with
  strictly increasing indices. The invariant \<open>fsm_inv\<close> holds along every history and
  excludes the error of \<open>Apply\<close> that Go calls an internal one; over it come the
  guarantees a client sees.
\<close>

section \<open>State\<close>

datatype Status = StatusCommitted | StatusAborted | StatusAbortedStale

record Outcome =
  out_RequestID :: string
  out_Status :: Status
  out_CommitSeq :: u64
  out_ConflictKey :: string
  out_ConflictLatestSeq :: u64

record outcomeEntry =
  oe_outcome :: Outcome
  oe_fingerprint :: bytes

record FSM =
  fsm_store :: Store
  outcomes :: "(string, outcomeEntry) gomap"
  clusterGeneration :: u32
  controlOutcomes :: "(string, Outcome) gomap"
  membershipOutcomes :: "(string, outcomeEntry) gomap"
  gcWatermark :: u64
  gcCursor :: string
  gcPasses :: u64
  gcPassSeq :: u64

definition NewFSM :: "Store \<Rightarrow> FSM" where
  "NewFSM store = \<lparr>fsm_store = store, outcomes = [], clusterGeneration = 0, controlOutcomes = [],
     membershipOutcomes = [], gcWatermark = 0, gcCursor = [], gcPasses = 0, gcPassSeq = 0\<rparr>"

definition fingerprintOf :: "CommitTxnCommand \<Rightarrow> bytes" where
  "fingerprintOf cmd = sha256 (encodeCommitBody cmd)"

section \<open>Transaction commits\<close>

definition lookupLocked :: "FSM \<Rightarrow> CommitTxnCommand \<Rightarrow> fsm_error + Outcome" where
  "lookupLocked f cmd =
     (case mget (outcomes f) (cmd_RequestID cmd) of
        None \<Rightarrow> Inl ErrRequestIDUnknown
      | Some entry \<Rightarrow>
          if oe_fingerprint entry \<noteq> fingerprintOf cmd then Inl ErrRequestIDPayloadMismatch
          else Inr (oe_outcome entry))"

definition Precheck :: "FSM \<Rightarrow> CommitTxnCommand \<Rightarrow> fsm_error + Outcome" where
  "Precheck f cmd = lookupLocked f cmd"

definition GetOutcome :: "FSM \<Rightarrow> string \<Rightarrow> Outcome option" where
  "GetOutcome f rid = map_option oe_outcome (mget (outcomes f) rid)"

definition OutcomesCount :: "FSM \<Rightarrow> nat" where
  "OutcomesCount f = length (outcomes f)"

definition committed_outcome :: "string \<Rightarrow> u64 \<Rightarrow> Outcome" where
  "committed_outcome rid index = \<lparr>out_RequestID = rid, out_Status = StatusCommitted,
     out_CommitSeq = index, out_ConflictKey = [], out_ConflictLatestSeq = 0\<rparr>"

definition aborted_outcome :: "string \<Rightarrow> string \<Rightarrow> u64 \<Rightarrow> Outcome" where
  "aborted_outcome rid key latest = \<lparr>out_RequestID = rid, out_Status = StatusAborted,
     out_CommitSeq = 0, out_ConflictKey = key, out_ConflictLatestSeq = latest\<rparr>"

definition stale_outcome :: "string \<Rightarrow> Outcome" where
  "stale_outcome rid = \<lparr>out_RequestID = rid, out_Status = StatusAbortedStale,
     out_CommitSeq = 0, out_ConflictKey = [], out_ConflictLatestSeq = 0\<rparr>"

definition record_outcome :: "CommitTxnCommand \<Rightarrow> Outcome \<Rightarrow> FSM \<Rightarrow> FSM" where
  "record_outcome cmd outcome f =
     f\<lparr>outcomes := mput (cmd_RequestID cmd)
        \<lparr>oe_outcome = outcome, oe_fingerprint = fingerprintOf cmd\<rparr> (outcomes f)\<rparr>"

definition Apply :: "u64 \<Rightarrow> CommitTxnCommand \<Rightarrow> FSM \<Rightarrow> FSM \<times> (fsm_error + Outcome)" where
  "Apply index cmd f =
     (case lookupLocked f cmd of
        Inr outcome \<Rightarrow> (f, Inr outcome)
      | Inl err \<Rightarrow>
          if err \<noteq> ErrRequestIDUnknown then (f, Inl err)
          else if cmd_StartSeq cmd < gcWatermark f
          then let outcome = stale_outcome (cmd_RequestID cmd)
               in (record_outcome cmd outcome f, Inr outcome)
          else (case CheckConflicts (fsm_store f) (cmd_StartSeq cmd) (cmd_Mutations cmd) of
                  Some (key, latest) \<Rightarrow>
                    let outcome = aborted_outcome (cmd_RequestID cmd) key latest
                    in (record_outcome cmd outcome f, Inr outcome)
                | None \<Rightarrow>
                    (case ApplyCommit index (cmd_Mutations cmd) (fsm_store f) of
                       Inl err \<Rightarrow> (f, Inl (ErrApply err))
                     | Inr store \<Rightarrow>
                         let outcome = committed_outcome (cmd_RequestID cmd) index
                         in (record_outcome cmd outcome (f\<lparr>fsm_store := store\<rparr>), Inr outcome))))"

section \<open>Control commands\<close>

definition ApplySetClusterVersion ::
    "u64 \<Rightarrow> SetClusterVersionCommand \<Rightarrow> FSM \<Rightarrow> FSM \<times> Outcome" where
  "ApplySetClusterVersion index cmd f =
     (case mget (controlOutcomes f) (scv_RequestID cmd) of
        Some entry \<Rightarrow> (f, entry)
      | None \<Rightarrow>
          let (f, outcome) =
            (if scv_TargetGeneration cmd \<noteq> clusterGeneration f + 1
             then (f, aborted_outcome (scv_RequestID cmd) [] 0)
             else (f\<lparr>clusterGeneration := scv_TargetGeneration cmd\<rparr>,
                   committed_outcome (scv_RequestID cmd) index))
          in (f\<lparr>controlOutcomes := mput (scv_RequestID cmd) outcome (controlOutcomes f)\<rparr>, outcome))"

definition ClusterGeneration :: "FSM \<Rightarrow> u32" where
  "ClusterGeneration f = clusterGeneration f"

text \<open>
  The loop of \<open>ApplyAdvanceGCWatermark\<close> over the keys of one batch. Its state is the
  store, the number of versions removed, the last key examined and whether the batch was
  fully consumed; the budget is compared at 32 bits, as the code does, and subtracted as
  an \<open>int\<close>.
\<close>

fun gc_walk :: "u64 \<Rightarrow> u32 \<Rightarrow> string list \<Rightarrow> Store \<Rightarrow> int \<Rightarrow> string \<Rightarrow> Store \<times> int \<times> string \<times> bool" where
  "gc_walk w maxVersions [] s removed lastExamined = (s, removed, lastExamined, True)"
| "gc_walk w maxVersions (k # ks) s removed lastExamined =
     (if word_of_int removed \<ge> maxVersions then (s, removed, lastExamined, False)
      else let budget = uint maxVersions - removed;
               (s', n) = ReclaimKey k w budget s
           in gc_walk w maxVersions ks s' (removed + n) k)"

definition ApplyAdvanceGCWatermark ::
    "u64 \<Rightarrow> AdvanceGCWatermarkCommand \<Rightarrow> FSM \<Rightarrow> FSM \<times> Outcome" where
  "ApplyAdvanceGCWatermark index cmd f =
     (case mget (controlOutcomes f) (gc_RequestID cmd) of
        Some entry \<Rightarrow> (f, entry)
      | None \<Rightarrow>
          let f1 = (if gc_Watermark cmd > gcWatermark f then f\<lparr>gcWatermark := gc_Watermark cmd\<rparr> else f);
              w = gcWatermark f1;
              f2 = (if gc_MaxKeys cmd > 0
                    then let keys = KeysFrom (fsm_store f1) (gcCursor f1) (uint (gc_MaxKeys cmd));
                             (s, removed, lastExamined, fullyConsumedBatch) =
                               gc_walk w (gc_MaxVersions cmd) keys (fsm_store f1) 0 [];
                             f' = f1\<lparr>fsm_store := s\<rparr>
                         in if fullyConsumedBatch \<and> int (length keys) < uint (gc_MaxKeys cmd)
                            then f'\<lparr>gcCursor := [], gcPasses := gcPasses f' + 1\<rparr>
                            else if lastExamined \<noteq> [] then f'\<lparr>gcCursor := lastExamined\<rparr>
                            else f'
                    else f1);
              f3 = f2\<lparr>gcPassSeq := gcPassSeq f2 + 1\<rparr>;
              outcome = committed_outcome (gc_RequestID cmd) index;
              f4 = f3\<lparr>controlOutcomes := mput (gc_RequestID cmd) outcome (controlOutcomes f3)\<rparr>
          in (f4\<lparr>fsm_store := SetGCWatermark w (fsm_store f4)\<rparr>, outcome))"

section \<open>Membership outcomes\<close>

datatype MembershipKind = MembershipAddLearner | MembershipPromoteVoter | MembershipRemoveServer

fun kind_byte :: "MembershipKind \<Rightarrow> char" where
  "kind_byte MembershipAddLearner = CHR 0x10"
| "kind_byte MembershipPromoteVoter = CHR 0x11"
| "kind_byte MembershipRemoveServer = CHR 0x12"

definition membershipFingerprintOf :: "MembershipKind \<Rightarrow> string \<Rightarrow> string \<Rightarrow> bytes" where
  "membershipFingerprintOf kind nodeID address =
     sha256 ([kind_byte kind] @ PutUint32 (len32 nodeID) @ nodeID
       @ PutUint32 (len32 address) @ address)"

definition RecordMembershipOutcome :: "string \<Rightarrow> MembershipKind \<Rightarrow> string \<Rightarrow> string \<Rightarrow> Outcome
    \<Rightarrow> FSM \<Rightarrow> FSM \<times> (fsm_error + Outcome)" where
  "RecordMembershipOutcome rid kind nodeID address outcome f =
     (let fp = membershipFingerprintOf kind nodeID address
      in case mget (membershipOutcomes f) rid of
           Some e \<Rightarrow>
             if oe_fingerprint e \<noteq> fp then (f, Inl ErrRequestIDConflict)
             else (f, Inr (oe_outcome e))
         | None \<Rightarrow>
             (f\<lparr>membershipOutcomes := mput rid \<lparr>oe_outcome = outcome, oe_fingerprint = fp\<rparr>
                  (membershipOutcomes f)\<rparr>, Inr outcome))"

definition GetMembershipOutcome :: "FSM \<Rightarrow> string \<Rightarrow> MembershipKind \<Rightarrow> string \<Rightarrow> string
    \<Rightarrow> fsm_error + Outcome" where
  "GetMembershipOutcome f rid kind nodeID address =
     (case mget (membershipOutcomes f) rid of
        None \<Rightarrow> Inl ErrRequestIDUnknown
      | Some e \<Rightarrow>
          if oe_fingerprint e \<noteq> membershipFingerprintOf kind nodeID address
          then Inl ErrRequestIDConflict else Inr (oe_outcome e))"

section \<open>Histories\<close>

text \<open>One applied log entry, and a run of them in log order. The index of an entry is its
  position in the replicated log. For a configuration entry the node records the committed
  outcome at the entry's index (\<^verbatim>\<open>internal/node/membership.go\<close>, \<open>applyConfigEntry\<close>).\<close>

datatype fsm_event =
    EvCommit CommitTxnCommand
  | EvSetVersion SetClusterVersionCommand
  | EvGC AdvanceGCWatermarkCommand
  | EvMembership string MembershipKind string string

fun fsm_step :: "u64 \<times> fsm_event \<Rightarrow> FSM \<Rightarrow> FSM" where
  "fsm_step (i, EvCommit cmd) f = fst (Apply i cmd f)"
| "fsm_step (i, EvSetVersion cmd) f = fst (ApplySetClusterVersion i cmd f)"
| "fsm_step (i, EvGC cmd) f = fst (ApplyAdvanceGCWatermark i cmd f)"
| "fsm_step (i, EvMembership rid kind nodeID address) f =
     fst (RecordMembershipOutcome rid kind nodeID address (committed_outcome rid i) f)"

definition fsm_run :: "(u64 \<times> fsm_event) list \<Rightarrow> FSM \<Rightarrow> FSM" where
  "fsm_run evs f = foldl (\<lambda>f e. fsm_step e f) f evs"

lemma fsm_run_simps [simp]:
  "fsm_run [] f = f"
  "fsm_run (e # evs) f = fsm_run evs (fsm_step e f)"
  by (simp_all add: fsm_run_def)

lemma fsm_run_append: "fsm_run (es @ es') f = fsm_run es' (fsm_run es f)"
  by (simp add: fsm_run_def)

text \<open>A commit writes each key once (the write set it is built from is a map), and the log
  indices grow.\<close>

fun event_ok :: "fsm_event \<Rightarrow> bool" where
  "event_ok (EvCommit cmd) = distinct (map mut_Key (cmd_Mutations cmd))"
| "event_ok e = True"

fun history :: "u64 \<Rightarrow> (u64 \<times> fsm_event) list \<Rightarrow> bool" where
  "history n [] = True"
| "history n ((i, e) # evs) = (n < i \<and> event_ok e \<and> history i evs)"

definition last_index :: "u64 \<Rightarrow> (u64 \<times> fsm_event) list \<Rightarrow> u64" where
  "last_index n evs = (if evs = [] then n else fst (last evs))"

lemma last_index_simps [simp]:
  "last_index n [] = n" "last_index n ((i, e) # evs) = last_index i evs"
  by (simp_all add: last_index_def)

lemma last_index_mono: "history n evs \<Longrightarrow> n \<le> last_index n evs"
  by (induction n evs rule: history.induct) (auto intro: order.trans less_imp_le)

section \<open>The effect of one entry\<close>

text \<open>The part of a state the garbage collector works on, in one equation.\<close>

definition gc_result :: "AdvanceGCWatermarkCommand \<Rightarrow> FSM \<Rightarrow> Store \<times> int \<times> string \<times> bool" where
  "gc_result cmd f = gc_walk (max (gcWatermark f) (gc_Watermark cmd)) (gc_MaxVersions cmd)
     (KeysFrom (fsm_store f) (gcCursor f) (uint (gc_MaxKeys cmd))) (fsm_store f) 0 []"

lemma KeysFrom_zero: "KeysFrom s c 0 = []"
  by (simp add: KeysFrom_def)

lemma gc_result_no_keys: "gc_MaxKeys cmd = 0 \<Longrightarrow> gc_result cmd f = (fsm_store f, 0, [], True)"
  by (simp add: gc_result_def KeysFrom_zero)

definition gc_next_cursor :: "AdvanceGCWatermarkCommand \<Rightarrow> FSM \<Rightarrow> string" where
  "gc_next_cursor cmd f =
     (let (s, removed, lastExamined, full) = gc_result cmd f in
      if gc_MaxKeys cmd > 0 \<and> full
           \<and> int (length (KeysFrom (fsm_store f) (gcCursor f) (uint (gc_MaxKeys cmd)))) < uint (gc_MaxKeys cmd)
      then [] else if lastExamined \<noteq> [] then lastExamined else gcCursor f)"

lemma ApplyAdvanceGCWatermark_known:
  "mget (controlOutcomes f) (gc_RequestID cmd) = Some entry
     \<Longrightarrow> ApplyAdvanceGCWatermark i cmd f = (f, entry)"
  by (simp add: ApplyAdvanceGCWatermark_def)

lemma ApplyAdvanceGCWatermark_new:
  assumes "mget (controlOutcomes f) (gc_RequestID cmd) = None"
  shows "fsm_store (fst (ApplyAdvanceGCWatermark i cmd f)) =
      SetGCWatermark (max (gcWatermark f) (gc_Watermark cmd)) (fst (gc_result cmd f))"
    and "gcWatermark (fst (ApplyAdvanceGCWatermark i cmd f)) = max (gcWatermark f) (gc_Watermark cmd)"
    and "gcCursor (fst (ApplyAdvanceGCWatermark i cmd f)) = gc_next_cursor cmd f"
    and "controlOutcomes (fst (ApplyAdvanceGCWatermark i cmd f)) =
      mput (gc_RequestID cmd) (committed_outcome (gc_RequestID cmd) i) (controlOutcomes f)"
    and "snd (ApplyAdvanceGCWatermark i cmd f) = committed_outcome (gc_RequestID cmd) i"
proof -
  obtain s r l b where g: "gc_result cmd f = (s, r, l, b)" by (cases "gc_result cmd f")
  let ?w = "max (gcWatermark f) (gc_Watermark cmd)"
  let ?f1 = "if gc_Watermark cmd > gcWatermark f then f\<lparr>gcWatermark := gc_Watermark cmd\<rparr> else f"
  have w: "gcWatermark ?f1 = ?w" by (auto simp: max_def)
  have f1: "fsm_store ?f1 = fsm_store f" "gcCursor ?f1 = gcCursor f"
    "controlOutcomes ?f1 = controlOutcomes f" by simp_all
  have g': "gc_walk ?w (gc_MaxVersions cmd) (KeysFrom (fsm_store f) (gcCursor f) (uint (gc_MaxKeys cmd)))
      (fsm_store f) 0 [] = (s, r, l, b)" using g by (simp add: gc_result_def)
  have z: "\<not> 0 < gc_MaxKeys cmd \<Longrightarrow> s = fsm_store f \<and> l = []"
    using gc_result_no_keys [of cmd f] g by (simp add: word_gt_0)
  note unf = ApplyAdvanceGCWatermark_def assms w f1 Let_def g' gc_next_cursor_def g
  show "fsm_store (fst (ApplyAdvanceGCWatermark i cmd f)) = SetGCWatermark ?w (fst (gc_result cmd f))"
    using z by (simp add: unf)
  show "gcWatermark (fst (ApplyAdvanceGCWatermark i cmd f)) = ?w"
    by (simp add: unf)
  show "gcCursor (fst (ApplyAdvanceGCWatermark i cmd f)) = gc_next_cursor cmd f"
    using z by (simp add: unf)
  show "controlOutcomes (fst (ApplyAdvanceGCWatermark i cmd f)) =
      mput (gc_RequestID cmd) (committed_outcome (gc_RequestID cmd) i) (controlOutcomes f)"
    by (simp add: unf)
  show "snd (ApplyAdvanceGCWatermark i cmd f) = committed_outcome (gc_RequestID cmd) i"
    by (simp add: unf)
qed

lemma ApplyAdvanceGCWatermark_frame [simp]:
  "outcomes (fst (ApplyAdvanceGCWatermark i cmd f)) = outcomes f"
  "membershipOutcomes (fst (ApplyAdvanceGCWatermark i cmd f)) = membershipOutcomes f"
  "clusterGeneration (fst (ApplyAdvanceGCWatermark i cmd f)) = clusterGeneration f"
  by (simp_all add: ApplyAdvanceGCWatermark_def Let_def split: option.splits prod.splits)

lemma ApplySetClusterVersion_frame [simp]:
  "fsm_store (fst (ApplySetClusterVersion i cmd f)) = fsm_store f"
  "outcomes (fst (ApplySetClusterVersion i cmd f)) = outcomes f"
  "membershipOutcomes (fst (ApplySetClusterVersion i cmd f)) = membershipOutcomes f"
  "gcWatermark (fst (ApplySetClusterVersion i cmd f)) = gcWatermark f"
  "gcCursor (fst (ApplySetClusterVersion i cmd f)) = gcCursor f"
  by (simp_all add: ApplySetClusterVersion_def split: option.splits)

lemma RecordMembershipOutcome_frame [simp]:
  "fsm_store (fst (RecordMembershipOutcome rid kd nd ad oc f)) = fsm_store f"
  "outcomes (fst (RecordMembershipOutcome rid kd nd ad oc f)) = outcomes f"
  "controlOutcomes (fst (RecordMembershipOutcome rid kd nd ad oc f)) = controlOutcomes f"
  "clusterGeneration (fst (RecordMembershipOutcome rid kd nd ad oc f)) = clusterGeneration f"
  "gcWatermark (fst (RecordMembershipOutcome rid kd nd ad oc f)) = gcWatermark f"
  "gcCursor (fst (RecordMembershipOutcome rid kd nd ad oc f)) = gcCursor f"
  by (simp_all add: RecordMembershipOutcome_def Let_def split: option.splits)

lemma Apply_frame [simp]:
  "controlOutcomes (fst (Apply i cmd f)) = controlOutcomes f"
  "membershipOutcomes (fst (Apply i cmd f)) = membershipOutcomes f"
  "clusterGeneration (fst (Apply i cmd f)) = clusterGeneration f"
  "gcWatermark (fst (Apply i cmd f)) = gcWatermark f"
  "gcCursor (fst (Apply i cmd f)) = gcCursor f"
  by (simp_all add: Apply_def record_outcome_def Let_def split: option.splits sum.splits)

section \<open>The walk of the garbage collector\<close>

lemma ReclaimKey_count:
  "0 \<le> snd (ReclaimKey k w b s) \<and> (0 < b \<longrightarrow> snd (ReclaimKey k w b s) \<le> b)"
  by (auto simp: ReclaimKey_def Let_def)

lemma budget_compare:
  assumes "0 \<le> r" "r \<le> uint (m :: u32)"
  shows "m \<le> word_of_int r \<longleftrightarrow> r = uint m"
proof -
  have "r < 2 ^ 32" using assms(2) unsigned_less [of m, where 'a = int] by simp
  then have "uint (word_of_int r :: u32) = r" using assms(1) by (simp add: uint_word_of_int)
  then show ?thesis using assms(2) by (auto simp: word_le_def)
qed

text \<open>Stored versions, counted over a list of keys.\<close>

definition versions_in :: "Store \<Rightarrow> string list \<Rightarrow> nat" where
  "versions_in s ks = sum_list (map (\<lambda>k. length (chain_of s k)) ks)"

lemma gc_walk_step:
  assumes "0 \<le> r" "r < uint mv"
  shows "gc_walk w mv (k # ks) s r l = gc_walk w mv ks (fst (ReclaimKey k w (uint mv - r) s))
      (r + snd (ReclaimKey k w (uint mv - r) s)) k"
    and "0 \<le> r + snd (ReclaimKey k w (uint mv - r) s)"
    and "r + snd (ReclaimKey k w (uint mv - r) s) \<le> uint mv"
  using assms budget_compare [of r mv] ReclaimKey_count [of k w "uint mv - r" s]
  by (auto split: prod.splits)

lemma gc_walk_stop: "gc_walk w mv (k # ks) s (uint mv) l = (s, uint mv, l, False)"
  by simp

text \<open>Rule of induction for the walk: a stopped walk, or one key reclaimed within the budget.\<close>

lemma gc_walk_induct [consumes 2, case_names finish stop step]:
  fixes mv :: u32
  assumes "0 \<le> r" "r \<le> uint mv"
    and "\<And>s r l. 0 \<le> r \<Longrightarrow> r \<le> uint mv \<Longrightarrow> P [] s r l"
    and "\<And>k ks s l. P (k # ks) s (uint mv) l"
    and "\<And>k ks s r l. 0 \<le> r \<Longrightarrow> r < uint mv
      \<Longrightarrow> P ks (fst (ReclaimKey k w (uint mv - r) s)) (r + snd (ReclaimKey k w (uint mv - r) s)) k
      \<Longrightarrow> P (k # ks) s r l"
  shows "P ks s r l"
  using assms(1,2)
proof (induction ks arbitrary: s r l)
  case Nil
  then show ?case using assms(3) by blast
next
  case (Cons k ks)
  show ?case
  proof (cases "r = uint mv")
    case True
    then show ?thesis using assms(4) by simp
  next
    case False
    with Cons.prems have r: "0 \<le> r" "r < uint mv" by auto
    from assms(5) [OF r] Cons.IH [OF gc_walk_step(2,3) [OF r]] show ?thesis by blast
  qed
qed

text \<open>What the walk keeps: the invariant, the newest versions, the view of every snapshot
  from \<open>w\<close> on, and the key index.\<close>

lemma gc_walk_keeps:
  assumes "0 \<le> r" "r \<le> uint mv" "store_inv s"
  shows "store_inv (fst (gc_walk w mv ks s r l))
    \<and> LatestCommitSeq (fst (gc_walk w mv ks s r l)) = LatestCommitSeq s
    \<and> orderedKeys (fst (gc_walk w mv ks s r l)) = orderedKeys s
    \<and> st_gcWatermark (fst (gc_walk w mv ks s r l)) = st_gcWatermark s
    \<and> skipHorizonGuardForTest (fst (gc_walk w mv ks s r l)) = skipHorizonGuardForTest s
    \<and> (\<forall>k q. w \<le> q \<longrightarrow> read_at (fst (gc_walk w mv ks s r l)) k q = read_at s k q)
    \<and> (\<forall>k. k \<notin> set ks \<longrightarrow> chain_of (fst (gc_walk w mv ks s r l)) k = chain_of s k)"
  using assms
proof (induction ks s r l rule: gc_walk_induct [where w = w])
  case (step k ks s r l)
  note inv = store_inv_ReclaimKey [OF step.prems, of k w "uint mv - r"]
  from step.IH [OF inv] show ?case
    unfolding gc_walk_step(1) [OF step.hyps]
    by (simp add: LatestCommitSeq_ReclaimKey read_at_ReclaimKey chain_of_ReclaimKey step.prems)
qed simp_all

section \<open>The invariant of a history\<close>

text \<open>An outcome as the apply functions build it: under its own RequestID, and with a commit
  sequence number only when it is a commit.\<close>

definition outcome_wf :: "u64 \<Rightarrow> string \<Rightarrow> Outcome \<Rightarrow> bool" where
  "outcome_wf n rid oc \<longleftrightarrow> out_RequestID oc = rid \<and> out_CommitSeq oc \<le> n
     \<and> (out_Status oc \<noteq> StatusCommitted \<longrightarrow> out_CommitSeq oc = 0)"

definition no_conflict_info :: "Outcome \<Rightarrow> bool" where
  "no_conflict_info oc \<longleftrightarrow> out_ConflictKey oc = [] \<and> out_ConflictLatestSeq oc = 0"

definition fsm_inv :: "u64 \<Rightarrow> FSM \<Rightarrow> bool" where
  "fsm_inv n f \<longleftrightarrow> store_inv (fsm_store f) \<and> st_gcWatermark (fsm_store f) = gcWatermark f
     \<and> \<not> skipHorizonGuardForTest (fsm_store f)
     \<and> (\<forall>k q. LatestCommitSeq (fsm_store f) k = Some q \<longrightarrow> q \<le> n)
     \<and> mwf (outcomes f) \<and> mwf (controlOutcomes f) \<and> mwf (membershipOutcomes f)
     \<and> (\<forall>rid e. mget (outcomes f) rid = Some e
          \<longrightarrow> outcome_wf n rid (oe_outcome e) \<and> length (oe_fingerprint e) = 32)
     \<and> (\<forall>rid oc. mget (controlOutcomes f) rid = Some oc
          \<longrightarrow> outcome_wf n rid oc \<and> no_conflict_info oc)
     \<and> (\<forall>rid e. mget (membershipOutcomes f) rid = Some e
          \<longrightarrow> outcome_wf n rid (oe_outcome e) \<and> no_conflict_info (oe_outcome e)
            \<and> length (oe_fingerprint e) = 32)"

lemma fsm_invD:
  assumes "fsm_inv n f"
  shows "store_inv (fsm_store f)" "st_gcWatermark (fsm_store f) = gcWatermark f"
    "\<not> skipHorizonGuardForTest (fsm_store f)"
    "LatestCommitSeq (fsm_store f) k = Some q \<Longrightarrow> q \<le> n"
    "mget (outcomes f) rid = Some e \<Longrightarrow> outcome_wf n rid (oe_outcome e)"
    "mget (outcomes f) rid = Some e \<Longrightarrow> length (oe_fingerprint e) = 32"
    "mget (controlOutcomes f) rid = Some oc \<Longrightarrow> outcome_wf n rid oc \<and> no_conflict_info oc"
    "mget (membershipOutcomes f) rid = Some e \<Longrightarrow> outcome_wf n rid (oe_outcome e)
       \<and> no_conflict_info (oe_outcome e) \<and> length (oe_fingerprint e) = 32"
    "mwf (outcomes f)" "mwf (controlOutcomes f)" "mwf (membershipOutcomes f)"
  using assms by (auto simp: fsm_inv_def)

lemma fsm_inv_NewFSM: "fsm_inv 0 (NewFSM NewStore)"
  using store_inv_NewStore
  by (simp add: fsm_inv_def NewFSM_def NewStore_def LatestCommitSeq_def chain_of_def)

lemma outcome_wf_mono: "outcome_wf n rid oc \<Longrightarrow> n \<le> m \<Longrightarrow> outcome_wf m rid oc"
  by (auto simp: outcome_wf_def)

lemma fsm_inv_mono: "fsm_inv n f \<Longrightarrow> n \<le> m \<Longrightarrow> fsm_inv m f"
  unfolding fsm_inv_def by (meson order.trans outcome_wf_mono)

lemma outcome_wf_new [simp]:
  "outcome_wf i rid (committed_outcome rid i)" "outcome_wf i rid (aborted_outcome rid k l)"
  "outcome_wf i rid (stale_outcome rid)" "no_conflict_info (committed_outcome rid i)"
  "no_conflict_info (aborted_outcome rid [] 0)"
  by (simp_all add: outcome_wf_def committed_outcome_def aborted_outcome_def stale_outcome_def
      no_conflict_info_def)

lemma outcome_distinct [simp]:
  "stale_outcome r \<noteq> committed_outcome rid i" "aborted_outcome r k l \<noteq> committed_outcome rid i"
  by (simp_all add: committed_outcome_def stale_outcome_def aborted_outcome_def)

lemma length_fingerprintOf [simp]:
  "length (fingerprintOf cmd) = 32" "length (membershipFingerprintOf kd nd ad) = 32"
  by (simp_all add: fingerprintOf_def membershipFingerprintOf_def)

lemma fsm_inv_record_outcome:
  assumes "fsm_inv i f" "outcome_wf i (cmd_RequestID cmd) oc"
  shows "fsm_inv i (record_outcome cmd oc f)"
  using assms by (auto simp: fsm_inv_def record_outcome_def split: if_splits)

text \<open>With the invariant, a commit that passes the conflict check also passes the
  monotonicity check of the store: the internal error of \<open>Apply\<close> does not arise.\<close>

lemma fsm_inv_ApplyCommit:
  assumes "fsm_inv n f" "n < i" "distinct (map mut_Key ms)"
  shows "ApplyCommit i ms (fsm_store f) = Inr (apply_all i ms (fsm_store f))"
    and "fsm_inv i (f\<lparr>fsm_store := apply_all i ms (fsm_store f)\<rparr>)"
proof -
  have fresh: "\<forall>m \<in> set ms. fresh (fsm_store f) i (mut_Key m)"
    using assms(1,2) by (auto simp: fsm_inv_def fresh_LatestCommitSeq intro: le_less_trans)
  then show "ApplyCommit i ms (fsm_store f) = Inr (apply_all i ms (fsm_store f))"
    by (simp add: ApplyCommit_eq)
  have "store_inv (apply_all i ms (fsm_store f))"
    using assms(1,3) fresh by (intro store_inv_apply_all) (auto simp: fsm_inv_def)
  then show "fsm_inv i (f\<lparr>fsm_store := apply_all i ms (fsm_store f)\<rparr>)"
    using fsm_inv_mono [OF assms(1) less_imp_le [OF assms(2)]]
    by (auto simp: fsm_inv_def LatestCommitSeq_apply_all split: if_splits)
qed

text \<open>\<open>Apply\<close> on every branch, under the invariant.\<close>

lemma Apply_cases:
  assumes "fsm_inv n f" "n < i" "distinct (map mut_Key (cmd_Mutations cmd))"
  shows "Apply i cmd f =
    (case lookupLocked f cmd of
       Inr oc \<Rightarrow> (f, Inr oc)
     | Inl err \<Rightarrow>
         if err \<noteq> ErrRequestIDUnknown then (f, Inl err)
         else if cmd_StartSeq cmd < gcWatermark f
         then (record_outcome cmd (stale_outcome (cmd_RequestID cmd)) f,
               Inr (stale_outcome (cmd_RequestID cmd)))
         else (case CheckConflicts (fsm_store f) (cmd_StartSeq cmd) (cmd_Mutations cmd) of
             Some (key, latest) \<Rightarrow>
               (record_outcome cmd (aborted_outcome (cmd_RequestID cmd) key latest) f,
                Inr (aborted_outcome (cmd_RequestID cmd) key latest))
           | None \<Rightarrow>
               (record_outcome cmd (committed_outcome (cmd_RequestID cmd) i)
                  (f\<lparr>fsm_store := apply_all i (cmd_Mutations cmd) (fsm_store f)\<rparr>),
                Inr (committed_outcome (cmd_RequestID cmd) i))))"
  using fsm_inv_ApplyCommit(1) [OF assms]
  by (simp add: Apply_def Let_def split: sum.splits option.splits)

lemma fsm_inv_Apply:
  assumes "fsm_inv n f" "n < i" "distinct (map mut_Key (cmd_Mutations cmd))"
  shows "fsm_inv i (fst (Apply i cmd f))"
  using fsm_inv_mono [OF assms(1) less_imp_le [OF assms(2)]] fsm_inv_ApplyCommit(2) [OF assms]
  by (auto simp: Apply_cases [OF assms] intro!: fsm_inv_record_outcome
      split: sum.splits option.splits)

lemma SetGCWatermark_max:
  "st_gcWatermark (SetGCWatermark w s) = max (st_gcWatermark s) w"
  "skipHorizonGuardForTest (SetGCWatermark w s) = skipHorizonGuardForTest s"
  "LatestCommitSeq (SetGCWatermark w s) = LatestCommitSeq s"
  "read_at (SetGCWatermark w s) = read_at s"
  "store_inv (SetGCWatermark w s) = store_inv s"
  by (auto simp: SetGCWatermark_def LatestCommitSeq_chain read_at_def chain_of_def store_inv_def fun_eq_iff)

lemma gc_result_keeps:
  assumes "store_inv (fsm_store f)"
  shows "store_inv (fst (gc_result cmd f))"
    and "LatestCommitSeq (fst (gc_result cmd f)) = LatestCommitSeq (fsm_store f)"
    and "orderedKeys (fst (gc_result cmd f)) = orderedKeys (fsm_store f)"
    and "st_gcWatermark (fst (gc_result cmd f)) = st_gcWatermark (fsm_store f)"
    and "skipHorizonGuardForTest (fst (gc_result cmd f)) = skipHorizonGuardForTest (fsm_store f)"
    and "max (gcWatermark f) (gc_Watermark cmd) \<le> q
      \<Longrightarrow> read_at (fst (gc_result cmd f)) k q = read_at (fsm_store f) k q"
  using gc_walk_keeps [of 0 "gc_MaxVersions cmd", OF _ _ assms] by (simp_all add: gc_result_def)

lemma fsm_inv_ApplyAdvanceGCWatermark:
  assumes "fsm_inv n f" "n < i"
  shows "fsm_inv i (fst (ApplyAdvanceGCWatermark i cmd f))"
proof (cases "mget (controlOutcomes f) (gc_RequestID cmd)")
  case None
  note inv = fsm_inv_mono [OF assms(1) less_imp_le [OF assms(2)]]
  then have s: "store_inv (fsm_store f)" by (simp add: fsm_inv_def)
  show ?thesis
    using inv unfolding fsm_inv_def
    by (simp add: ApplyAdvanceGCWatermark_new [OF None] SetGCWatermark_max gc_result_keeps [OF s])
next
  case (Some entry)
  then show ?thesis
    using fsm_inv_mono [OF assms(1) less_imp_le [OF assms(2)]]
    by (simp add: ApplyAdvanceGCWatermark_known)
qed

lemma fsm_inv_step:
  assumes "fsm_inv n f" "n < i" "event_ok e"
  shows "fsm_inv i (fsm_step (i, e) f)"
proof (cases e)
  case (EvCommit cmd)
  then show ?thesis using assms fsm_inv_Apply by simp
next
  case (EvSetVersion cmd)
  have "fsm_inv i f" using assms(1,2) fsm_inv_mono less_imp_le by blast
  then show ?thesis
    unfolding EvSetVersion fsm_inv_def
    by (auto simp: ApplySetClusterVersion_def split: option.splits if_splits)
next
  case (EvGC cmd)
  then show ?thesis using assms fsm_inv_ApplyAdvanceGCWatermark by simp
next
  case (EvMembership rid kd nd ad)
  have "fsm_inv i f" using assms(1,2) fsm_inv_mono less_imp_le by blast
  then show ?thesis
    unfolding EvMembership fsm_inv_def
    by (auto simp: RecordMembershipOutcome_def Let_def split: option.splits if_splits)
qed

lemma fsm_inv_run:
  "fsm_inv n f \<Longrightarrow> history n evs \<Longrightarrow> fsm_inv (last_index n evs) (fsm_run evs f)"
proof (induction n evs arbitrary: f rule: history.induct)
  case (2 n i e evs)
  then show ?case using fsm_inv_step [of n f i e] by (simp del: fsm_step.simps)
qed simp

section \<open>Idempotency\<close>

lemma outcomes_persist:
  "mget (outcomes f) rid = Some e \<Longrightarrow> mget (outcomes (fsm_step ev f)) rid = Some e"
  by (cases "(ev, f)" rule: fsm_step.cases)
    (auto simp: Apply_def lookupLocked_def record_outcome_def Let_def
      split: option.splits sum.splits if_splits)

lemma controlOutcomes_persist:
  assumes "mget (controlOutcomes f) rid = Some oc"
  shows "mget (controlOutcomes (fsm_step (i, e) f)) rid = Some oc"
proof (cases e)
  case (EvGC cmd)
  show ?thesis
  proof (cases "mget (controlOutcomes f) (gc_RequestID cmd)")
    case None
    then have "rid \<noteq> gc_RequestID cmd" using assms by auto
    then show ?thesis using EvGC assms by (simp add: ApplyAdvanceGCWatermark_new [OF None])
  next
    case (Some oc')
    then show ?thesis using EvGC assms by (simp add: ApplyAdvanceGCWatermark_known)
  qed
qed (use assms in \<open>auto simp: ApplySetClusterVersion_def split: option.splits\<close>)

lemma fsm_run_outcomes_persist:
  "mget (outcomes f) rid = Some e \<Longrightarrow> mget (outcomes (fsm_run evs f)) rid = Some e"
  by (induction evs arbitrary: f) (simp_all add: outcomes_persist)

lemma fsm_run_controlOutcomes_persist:
  "mget (controlOutcomes f) rid = Some oc \<Longrightarrow> mget (controlOutcomes (fsm_run evs f)) rid = Some oc"
  by (induction evs arbitrary: f) (auto simp: controlOutcomes_persist simp del: fsm_step.simps)

lemma Apply_records:
  "Apply i cmd f = (f1, Inr oc) \<Longrightarrow> mget (outcomes f1) (cmd_RequestID cmd)
     = Some \<lparr>oe_outcome = oc, oe_fingerprint = fingerprintOf cmd\<rparr>"
  by (auto simp: Apply_def lookupLocked_def record_outcome_def Let_def
      split: option.splits sum.splits if_splits)

text \<open>
  Claim C4. A commit decision is made once. After \<open>FSM.Apply\<close> has answered a command, and
  after any further log entries whatsoever, applying the same command again at any index
  returns the recorded outcome and changes nothing; \<open>Precheck\<close> and \<open>GetOutcome\<close> report the
  same outcome; and the same RequestID with a body of a different fingerprint is refused
  without any effect.
\<close>

theorem Apply_exactly_once:
  assumes "Apply i cmd f = (f1, Inr oc)"
  shows "Apply j cmd (fsm_run evs f1) = (fsm_run evs f1, Inr oc)
    \<and> Precheck (fsm_run evs f1) cmd = Inr oc
    \<and> GetOutcome (fsm_run evs f1) (cmd_RequestID cmd) = Some oc
    \<and> (\<forall>cmd'. cmd_RequestID cmd' = cmd_RequestID cmd \<longrightarrow> fingerprintOf cmd' \<noteq> fingerprintOf cmd
         \<longrightarrow> Apply j cmd' (fsm_run evs f1) = (fsm_run evs f1, Inl ErrRequestIDPayloadMismatch))"
  using fsm_run_outcomes_persist [OF Apply_records [OF assms], of evs]
  by (auto simp: Apply_def Precheck_def GetOutcome_def lookupLocked_def)

definition demo_fsm :: FSM where
  "demo_fsm = fst (Apply 3 demo_cmd (NewFSM NewStore))"

lemma Apply_demo_cmd:
  "Apply 3 demo_cmd (NewFSM NewStore) = (demo_fsm, Inr (committed_outcome ''r1'' 3))"
  by (simp add: demo_fsm_def Apply_def lookupLocked_def NewFSM_def demo_cmd_def NewStore_def Let_def
      CheckConflicts_Cons ApplyCommit_eq fresh_def chain_of_def LatestCommitSeq_chain)

theorem Apply_exactly_once_witness:
  "Apply 9 demo_cmd (fsm_run [(4, EvGC \<lparr>gc_RequestID = ''g'', gc_Watermark = 3, gc_MaxVersions = 9,
      gc_MaxKeys = 9\<rparr>)] demo_fsm)
    = (fsm_run [(4, EvGC \<lparr>gc_RequestID = ''g'', gc_Watermark = 3, gc_MaxVersions = 9,
      gc_MaxKeys = 9\<rparr>)] demo_fsm, Inr (committed_outcome ''r1'' 3))"
  using Apply_exactly_once [OF Apply_demo_cmd] by blast

section \<open>Commit decisions\<close>

text \<open>
  Claim C3. \<open>FSM.Apply\<close> decides a new command exactly by snapshot isolation. Under the
  invariant and at a later log index it never fails: it aborts a command whose snapshot
  is below the garbage-collection horizon as stale; it aborts one that writes a key
  committed after its snapshot, naming such a key and its newest commit; otherwise it
  commits, and then reads from the new index on see exactly the written keys changed while
  reads of older snapshots see no change at all.
\<close>

theorem Apply_snapshot_isolation:
  assumes "fsm_inv n f" "n < i" "distinct (map mut_Key (cmd_Mutations cmd))"
    "mget (outcomes f) (cmd_RequestID cmd) = None"
  shows "\<exists>f' oc. Apply i cmd f = (f', Inr oc) \<and> fsm_inv i f' \<and>
    (case out_Status oc of
       StatusAbortedStale \<Rightarrow> cmd_StartSeq cmd < gcWatermark f \<and> fsm_store f' = fsm_store f
     | StatusAborted \<Rightarrow> gcWatermark f \<le> cmd_StartSeq cmd \<and> fsm_store f' = fsm_store f
         \<and> out_ConflictKey oc \<in> mut_Key ` set (cmd_Mutations cmd)
         \<and> LatestCommitSeq (fsm_store f) (out_ConflictKey oc) = Some (out_ConflictLatestSeq oc)
         \<and> cmd_StartSeq cmd < out_ConflictLatestSeq oc
     | StatusCommitted \<Rightarrow> gcWatermark f \<le> cmd_StartSeq cmd \<and> out_CommitSeq oc = i
         \<and> (\<forall>m \<in> set (cmd_Mutations cmd). \<forall>q.
              LatestCommitSeq (fsm_store f) (mut_Key m) = Some q \<longrightarrow> q \<le> cmd_StartSeq cmd)
         \<and> (\<forall>k q. read_at (fsm_store f') k q =
              (if q < i then read_at (fsm_store f) k q
               else case find (\<lambda>m. mut_Key m = k) (cmd_Mutations cmd) of
                   None \<Rightarrow> read_at (fsm_store f) k q
                 | Some m \<Rightarrow> if mut_Tombstone m then None else Some (mut_Value m))))"
proof -
  note cases = Apply_cases [OF assms(1-3)] and inv = fsm_inv_Apply [OF assms(1-3)]
  have unk: "lookupLocked f cmd = Inl ErrRequestIDUnknown"
    using assms(4) by (simp add: lookupLocked_def)
  have s: "store_inv (fsm_store f)" using assms(1) by (simp add: fsm_inv_def)
  consider (stale) "cmd_StartSeq cmd < gcWatermark f"
    | (conflict) k l where "\<not> cmd_StartSeq cmd < gcWatermark f"
        "CheckConflicts (fsm_store f) (cmd_StartSeq cmd) (cmd_Mutations cmd) = Some (k, l)"
    | (commit) "\<not> cmd_StartSeq cmd < gcWatermark f"
        "CheckConflicts (fsm_store f) (cmd_StartSeq cmd) (cmd_Mutations cmd) = None"
    by (metis option.exhaust surj_pair)
  then show ?thesis
  proof cases
    case stale
    then show ?thesis using inv by (simp add: cases unk stale_outcome_def record_outcome_def)
  next
    case conflict
    from CheckConflicts_Some [OF conflict(2)] have "k \<in> mut_Key ` set (cmd_Mutations cmd)"
      "LatestCommitSeq (fsm_store f) k = Some l" "cmd_StartSeq cmd < l" by auto
    then show ?thesis
      using conflict inv by (simp add: cases unk aborted_outcome_def record_outcome_def)
  next
    case commit
    then have "\<forall>m \<in> set (cmd_Mutations cmd). \<forall>q.
        LatestCommitSeq (fsm_store f) (mut_Key m) = Some q \<longrightarrow> q \<le> cmd_StartSeq cmd"
      by (simp add: CheckConflicts_None)
    then show ?thesis
      using commit inv read_at_commit [OF s assms(3) fsm_inv_ApplyCommit(1) [OF assms(1-3)]]
      by (simp add: cases unk committed_outcome_def record_outcome_def)
  qed
qed

theorem Apply_snapshot_isolation_witness:
  "\<exists>f' oc. Apply 7 demo_cmd (NewFSM NewStore) = (f', Inr oc) \<and> fsm_inv 7 f'"
  using Apply_snapshot_isolation [OF fsm_inv_NewFSM, of 7 demo_cmd]
  by (auto simp: demo_cmd_def put_mut_def del_mut_def NewFSM_def)


section \<open>No lost updates\<close>

lemma Apply_committed_newly:
  assumes "fsm_inv n f" "n < i" "distinct (map mut_Key (cmd_Mutations cmd))"
    "Apply i cmd f = (f', Inr (committed_outcome rid i))"
  shows "fsm_store f' = apply_all i (cmd_Mutations cmd) (fsm_store f)
    \<and> (\<forall>m \<in> set (cmd_Mutations cmd). \<forall>q.
         LatestCommitSeq (fsm_store f) (mut_Key m) = Some q \<longrightarrow> q \<le> cmd_StartSeq cmd)"
proof -
  have "lookupLocked f cmd \<noteq> Inr (committed_outcome rid i)"
  proof
    assume "lookupLocked f cmd = Inr (committed_outcome rid i)"
    then obtain e where e: "mget (outcomes f) (cmd_RequestID cmd) = Some e"
      "oe_outcome e = committed_outcome rid i"
      by (auto simp: lookupLocked_def split: option.splits if_splits)
    from fsm_invD(5) [OF assms(1) e(1)] e(2) have "i \<le> n"
      by (simp add: outcome_wf_def committed_outcome_def)
    with assms(2) show False by simp
  qed
  then have "CheckConflicts (fsm_store f) (cmd_StartSeq cmd) (cmd_Mutations cmd) = None"
    "fsm_store f' = apply_all i (cmd_Mutations cmd) (fsm_store f)"
    using assms(4) unfolding Apply_cases [OF assms(1-3)]
    by (auto simp: record_outcome_def split: sum.splits option.splits if_splits)
  then show ?thesis by (simp add: CheckConflicts_None)
qed

text \<open>The newest commit of a key only ever grows along a history.\<close>

lemma fsm_step_newest:
  assumes "fsm_inv n f" "n < i" "event_ok e" "LatestCommitSeq (fsm_store f) k = Some q"
  shows "\<exists>q'. LatestCommitSeq (fsm_store (fsm_step (i, e) f)) k = Some q' \<and> q \<le> q'"
proof (cases e)
  case (EvCommit cmd)
  have d: "distinct (map mut_Key (cmd_Mutations cmd))" using EvCommit assms(3) by simp
  have "q \<le> i" using fsm_invD(4) [OF assms(1,4)] assms(2) by simp
  then show ?thesis
    using assms(4) EvCommit
    by (auto simp: Apply_cases [OF assms(1,2) d] record_outcome_def LatestCommitSeq_apply_all
        split: sum.splits option.splits)
next
  case (EvGC cmd)
  have s: "store_inv (fsm_store f)" using assms(1) by (simp add: fsm_inv_def)
  show ?thesis
    using assms(4) EvGC
    by (cases "mget (controlOutcomes f) (gc_RequestID cmd)")
      (simp_all add: ApplyAdvanceGCWatermark_new ApplyAdvanceGCWatermark_known SetGCWatermark_max
        gc_result_keeps [OF s])
qed (use assms in auto)

lemma fsm_run_newest:
  "fsm_inv n f \<Longrightarrow> history n evs \<Longrightarrow> LatestCommitSeq (fsm_store f) k = Some q
     \<Longrightarrow> \<exists>q'. LatestCommitSeq (fsm_store (fsm_run evs f)) k = Some q' \<and> q \<le> q'"
proof (induction n evs arbitrary: f q rule: history.induct)
  case (2 n i e evs)
  then obtain q' where "LatestCommitSeq (fsm_store (fsm_step (i, e) f)) k = Some q'" "q \<le> q'"
    using fsm_step_newest [of n f i e k q] by auto
  moreover have "fsm_inv i (fsm_step (i, e) f)" "history i evs"
    using 2 fsm_inv_step [of n f i e] by auto
  ultimately show ?case using 2(1) [of "fsm_step (i, e) f" q'] by (metis fsm_run_simps(2) order.trans)
qed auto

lemma history_append:
  "history n (evs @ evs') \<longleftrightarrow> history n evs \<and> history (last_index n evs) evs'"
  by (induction n evs rule: history.induct) auto

text \<open>
  Claim C16. First committer wins, over any history. If one command commits at index \<open>i\<close>
  and, after any further log entries, a second command that writes one of the same keys
  commits at index \<open>j\<close>, then the snapshot of the second command is not older than \<open>i\<close>:
  it had the first command's write in view. No committed update is ever overwritten blindly.
\<close>

theorem first_committer_wins:
  assumes "fsm_inv n f" "history n ((i, EvCommit c1) # evs @ [(j, EvCommit c2)])"
    "Apply i c1 f = (f1, Inr (committed_outcome r1 i))"
    "Apply j c2 (fsm_run evs f1) = (f2, Inr (committed_outcome r2 j))"
    "m1 \<in> set (cmd_Mutations c1)" "m2 \<in> set (cmd_Mutations c2)" "mut_Key m1 = mut_Key m2"
  shows "i \<le> cmd_StartSeq c2"
proof -
  have h: "n < i" "distinct (map mut_Key (cmd_Mutations c1))" "history i evs"
    "last_index i evs < j" "distinct (map mut_Key (cmd_Mutations c2))"
    using assms(2) by (auto simp: history_append)
  have inv1: "fsm_inv i f1" using fsm_inv_Apply [OF assms(1) h(1,2)] assms(3) by simp
  have "LatestCommitSeq (fsm_store f1) (mut_Key m2) = Some i"
    using Apply_committed_newly [OF assms(1) h(1,2) assms(3)] assms(5)
    by (simp add: LatestCommitSeq_apply_all flip: assms(7))
  from fsm_run_newest [OF inv1 h(3) this] obtain q
    where q: "LatestCommitSeq (fsm_store (fsm_run evs f1)) (mut_Key m2) = Some q" "i \<le> q" by auto
  have "q \<le> cmd_StartSeq c2"
    using Apply_committed_newly [OF fsm_inv_run [OF inv1 h(3)] h(4,5) assms(4)] assms(6) q(1) by blast
  with q(2) show ?thesis by simp
qed

definition demo_cmd2 :: CommitTxnCommand where
  "demo_cmd2 = \<lparr>cmd_RequestID = ''r2'', cmd_TxnID = 2, cmd_StartSeq = 4,
     cmd_Mutations = [put_mut ''k'' ''w'']\<rparr>"

lemma store_demo_fsm: "fsm_store demo_fsm = apply_all 3 (cmd_Mutations demo_cmd) NewStore"
  using Apply_committed_newly [OF fsm_inv_NewFSM _ _ Apply_demo_cmd]
  by (simp add: demo_cmd_def put_mut_def del_mut_def NewFSM_def)

lemma latest_demo_fsm: "LatestCommitSeq (fsm_store demo_fsm) ''k'' = Some 3"
  unfolding store_demo_fsm LatestCommitSeq_apply_all by (simp add: demo_cmd_def put_mut_def)

lemma outcomes_demo_fsm: "mget (outcomes demo_fsm) ''r2'' = None"
  by (simp add: demo_fsm_def Apply_def lookupLocked_def NewFSM_def demo_cmd_def NewStore_def Let_def
      record_outcome_def split: option.splits sum.splits)

lemma fsm_inv_demo: "fsm_inv 3 demo_fsm"
  using fsm_inv_Apply [OF fsm_inv_NewFSM, of 3 demo_cmd]
  unfolding Apply_demo_cmd by (simp add: demo_cmd_def put_mut_def del_mut_def)

lemma gcWatermark_demo: "gcWatermark demo_fsm = 0"
  by (simp add: demo_fsm_def NewFSM_def)

lemma Apply_demo_cmd2:
  "\<exists>f2. Apply 5 demo_cmd2 demo_fsm = (f2, Inr (committed_outcome ''r2'' 5))"
  by (subst Apply_cases [OF fsm_inv_demo])
    (simp_all add: demo_cmd2_def lookupLocked_def outcomes_demo_fsm gcWatermark_demo
      CheckConflicts_Cons put_mut_def latest_demo_fsm)

theorem first_committer_wins_witness: "3 \<le> cmd_StartSeq demo_cmd2"
proof -
  obtain f2 where "Apply 5 demo_cmd2 demo_fsm = (f2, Inr (committed_outcome ''r2'' 5))"
    using Apply_demo_cmd2 ..
  with first_committer_wins [OF fsm_inv_NewFSM _ Apply_demo_cmd, of "[]" 5 demo_cmd2 f2 "''r2''"
      "put_mut ''k'' ''v''" "put_mut ''k'' ''w''"]
  show ?thesis by (simp add: demo_cmd_def demo_cmd2_def put_mut_def del_mut_def)
qed


lemma vupto_above_latest:
  assumes "store_inv s" "\<And>l. LatestCommitSeq s k = Some l \<Longrightarrow> l \<le> q"
  shows "vupto q (chain_of s k) = chain_of s k"
proof -
  have "ver_CommitSeq v \<le> q" if "v \<in> set (chain_of s k)" for v
  proof -
    have "ver_CommitSeq v \<le> ver_CommitSeq (last (chain_of s k))"
      using chain_sorted_last [OF store_inv_chain [OF assms(1)] that] by auto
    moreover have "ver_CommitSeq (last (chain_of s k)) \<le> q"
      by (rule assms(2)) (use that in \<open>auto simp: LatestCommitSeq_chain\<close>)
    ultimately show ?thesis by simp
  qed
  then show ?thesis by (simp add: vupto_def filter_id_conv)
qed

text \<open>
  What a committed transaction read of the keys it writes was still current at
  its commit: when a command commits at index \<open>j\<close>, each key it writes has, at every point
  between its snapshot and the commit, exactly the value its snapshot showed.
\<close>

theorem commit_read_set_current:
  assumes "fsm_inv n f" "n < j" "distinct (map mut_Key (cmd_Mutations cmd))"
    "Apply j cmd f = (f', Inr (committed_outcome rid j))"
    "m \<in> set (cmd_Mutations cmd)" "cmd_StartSeq cmd \<le> q"
  shows "read_at (fsm_store f) (mut_Key m) q = read_at (fsm_store f) (mut_Key m) (cmd_StartSeq cmd)"
proof -
  have l: "LatestCommitSeq (fsm_store f) (mut_Key m) = Some l \<Longrightarrow> l \<le> cmd_StartSeq cmd" for l
    using Apply_committed_newly [OF assms(1-4)] assms(5) by blast
  have "vupto q' (chain_of (fsm_store f) (mut_Key m)) = chain_of (fsm_store f) (mut_Key m)"
    if "cmd_StartSeq cmd \<le> q'" for q'
    using vupto_above_latest [OF fsm_invD(1) [OF assms(1)], of "mut_Key m" q'] l that
    by (meson order.trans)
  then show ?thesis using assms(6) by (simp add: read_at_def)
qed

theorem commit_read_set_current_witness:
  "read_at (fsm_store demo_fsm) ''k'' 100 = read_at (fsm_store demo_fsm) ''k'' 4"
proof -
  obtain f2 where "Apply 5 demo_cmd2 demo_fsm = (f2, Inr (committed_outcome ''r2'' 5))"
    using Apply_demo_cmd2 ..
  with commit_read_set_current [OF fsm_inv_demo, of 5 demo_cmd2 f2 "''r2''" "put_mut ''k'' ''w''" 100]
  show ?thesis by (simp add: demo_cmd2_def put_mut_def)
qed

section \<open>Repeatable reads\<close>

lemma fsm_step_gcWatermark: "gcWatermark f \<le> gcWatermark (fsm_step (i, e) f)"
proof (cases e)
  case (EvGC cmd)
  then show ?thesis
    by (cases "mget (controlOutcomes f) (gc_RequestID cmd)")
      (simp_all add: ApplyAdvanceGCWatermark_new ApplyAdvanceGCWatermark_known)
qed auto

lemma fsm_step_read_at:
  assumes "fsm_inv n f" "n < i" "event_ok e" "q \<le> n" "gcWatermark (fsm_step (i, e) f) \<le> q"
  shows "read_at (fsm_store (fsm_step (i, e) f)) k q = read_at (fsm_store f) k q"
proof (cases e)
  case (EvCommit cmd)
  have d: "distinct (map mut_Key (cmd_Mutations cmd))" using EvCommit assms(3) by simp
  have "q < i" using assms(2,4) by simp
  with read_at_commit [OF fsm_invD(1) [OF assms(1)] d fsm_inv_ApplyCommit(1) [OF assms(1,2) d], of k q]
  show ?thesis
    using EvCommit
    by (auto simp: Apply_cases [OF assms(1,2) d] record_outcome_def split: sum.splits option.splits)
next
  case (EvGC cmd)
  show ?thesis
  proof (cases "mget (controlOutcomes f) (gc_RequestID cmd)")
    case None
    with assms(5) EvGC have "max (gcWatermark f) (gc_Watermark cmd) \<le> q"
      by (simp add: ApplyAdvanceGCWatermark_new(2))
    with None EvGC show ?thesis
      by (simp add: ApplyAdvanceGCWatermark_new(1) SetGCWatermark_max
          gc_result_keeps(6) [OF fsm_invD(1) [OF assms(1)]])
  qed (simp add: EvGC ApplyAdvanceGCWatermark_known)
qed auto

lemma fsm_run_read_at:
  assumes "fsm_inv n f" "history n evs" "q \<le> n" "gcWatermark (fsm_run evs f) \<le> q"
  shows "gcWatermark f \<le> q \<and> read_at (fsm_store (fsm_run evs f)) k q = read_at (fsm_store f) k q"
  using assms
proof (induction n evs arbitrary: f rule: history.induct)
  case (2 n i e evs)
  then have h: "n < i" "event_ok e" "history i evs" "q \<le> i" by auto
  have "fsm_inv i (fsm_step (i, e) f)" using 2 h fsm_inv_step by blast
  with 2(1) [OF this] 2(5) h
  have "gcWatermark (fsm_step (i, e) f) \<le> q"
    "read_at (fsm_store (fsm_run evs (fsm_step (i, e) f))) k q = read_at (fsm_store (fsm_step (i, e) f)) k q"
    by (simp_all del: fsm_step.simps)
  with fsm_step_read_at [OF 2(2) h(1,2) 2(4)] fsm_step_gcWatermark [of f i e] show ?case
    by (simp del: fsm_step.simps)
qed simp

lemma fsm_Visible:
  assumes "fsm_inv n f"
  shows "Visible (fsm_store f) k q =
    (if gcWatermark f \<le> q then Inr (read_at (fsm_store f) k q) else Inl ErrSnapshotTooOld)"
  using fsm_invD [OF assms] by (auto simp: Visible_read_at readable_def)

text \<open>
  Claim C17. Snapshot reads are repeatable or refused, never wrong. What a snapshot at an
  applied index shows of a key is what it shows after any further history of commits,
  garbage collections, version changes and membership changes, unless the horizon has
  passed the snapshot; then the read is refused with \<open>ErrSnapshotTooOld\<close>.
\<close>

theorem snapshot_reads_repeatable:
  assumes "fsm_inv n f" "history n evs" "q \<le> n" "Visible (fsm_store f) k q = Inr v"
  shows "Visible (fsm_store (fsm_run evs f)) k q =
    (if gcWatermark (fsm_run evs f) \<le> q then Inr v else Inl ErrSnapshotTooOld)"
  using fsm_run_read_at [OF assms(1-3), of k] fsm_Visible [OF fsm_inv_run [OF assms(1,2)], of k q]
    fsm_Visible [OF assms(1), of k q] assms(4)
  by (auto split: if_splits)

lemma Visible_demo_fsm: "Visible (fsm_store demo_fsm) ''k'' 3 = Inr (Some ''v'')"
  unfolding store_demo_fsm by code_simp

theorem snapshot_reads_repeatable_witness:
  "Visible (fsm_store (fsm_run [(5, EvCommit demo_cmd2)] demo_fsm)) ''k'' 3 = Inr (Some ''v'')"
  using snapshot_reads_repeatable [OF fsm_inv_demo _ _ Visible_demo_fsm, of "[(5, EvCommit demo_cmd2)]"]
    gcWatermark_demo
  by (simp add: demo_cmd2_def)

end
