(* ===== verification/Fsm_Gc.thy ===== *)
theory Fsm_Gc
  imports Fsm
begin

text \<open>
  Garbage collection over histories (\<^verbatim>\<open>internal/fsm/gc.go\<close> on top of \<open>Store.ReclaimKey\<close> and
  \<open>Store.KeysFrom\<close>): one command does a bounded amount of work and removes only what no
  admitted snapshot can see; a sequence of commands, however small their budgets, removes
  everything that is superseded, within an explicit number of commands; and the one
  exception, the empty key, which the walk never visits.
\<close>

section \<open>Superseded versions, counted\<close>

definition garbage :: "u64 \<Rightarrow> Version list \<Rightarrow> nat" where
  "garbage w c = length (vupto w c) - 1"

definition total :: "(Version list \<Rightarrow> nat) \<Rightarrow> Store \<Rightarrow> string list \<Rightarrow> nat" where
  "total \<mu> s ks = sum_list (map (\<lambda>k. \<mu> (chain_of s k)) ks)"

lemma reclaim_count_garbage: "reclaim_count c w b = min (nat b) (garbage w c)"
  using length_vupto_le [of w c] by (auto simp: reclaim_count_def garbage_def min_def)

lemma snd_ReclaimKey:
  "store_inv s \<Longrightarrow> snd (ReclaimKey k w b s) = int (reclaim_count (chain_of s k) w b)"
  by (simp add: ReclaimKey_eq)

lemma garbage_drop:
  assumes "chain_sorted c" "n \<le> garbage w c"
  shows "garbage w (drop n c) = garbage w c - n"
proof (cases "n = 0")
  case False
  then have "n < length (vupto w c)" using assms(2) by (simp add: garbage_def)
  from vupto_drop [OF assms(1) this order.refl] show ?thesis by (simp add: garbage_def)
qed simp

lemma garbage_zero_iff:
  assumes "chain_sorted c"
  shows "garbage w c = 0 \<longleftrightarrow> (\<forall>v \<in> set c. \<not> superseded c w v)"
proof
  assume "garbage w c = 0"
  then show "\<forall>v \<in> set c. \<not> superseded c w v"
    using drop_not_superseded [OF assms, of 0 w] by (simp add: garbage_def)
next
  assume no: "\<forall>v \<in> set c. \<not> superseded c w v"
  show "garbage w c = 0"
  proof (rule ccontr)
    assume "garbage w c \<noteq> 0"
    then have l: "1 < length (vupto w c)" by (simp add: garbage_def)
    then have "c \<noteq> []" by (auto simp: vupto_def)
    then obtain v r where c: "c = v # r" by (cases c) auto
    from take_superseded [OF assms l, of v] c have "superseded r w v" by simp
    then have "superseded c w v" by (auto simp: superseded_def c)
    with no c show False by simp
  qed
qed

text \<open>What one reclaimed key changes in a total: both the number of versions and the number
  of superseded ones fall by exactly the count that \<open>ReclaimKey\<close> returns.\<close>

lemma total_ReclaimKey:
  assumes "store_inv s" "distinct K" "k \<in> set K"
    "\<mu> (chain_of s k) = \<mu> (drop (reclaim_count (chain_of s k) w b) (chain_of s k))
       + reclaim_count (chain_of s k) w b"
  shows "int (total \<mu> s K) = int (total \<mu> (fst (ReclaimKey k w b s)) K) + snd (ReclaimKey k w b s)"
proof -
  let ?s = "fst (ReclaimKey k w b s)"
  have "total \<mu> t K = \<mu> (chain_of t k) + sum (\<lambda>k. \<mu> (chain_of t k)) (set K - {k})" for t
    unfolding total_def using assms(2,3) by (simp add: sum_list_distinct_conv_sum_set sum.remove)
  moreover have "sum (\<lambda>k. \<mu> (chain_of ?s k)) (set K - {k}) = sum (\<lambda>k. \<mu> (chain_of s k)) (set K - {k})"
    by (rule sum.cong) (simp_all add: chain_of_ReclaimKey [OF assms(1)])
  ultimately show ?thesis
    using assms(4) by (simp add: chain_of_ReclaimKey [OF assms(1)] snd_ReclaimKey [OF assms(1)])
qed

lemma reclaim_count_le: "reclaim_count c w b \<le> length c"
  using length_vupto_le [of w c] by (simp add: reclaim_count_garbage garbage_def)

lemma reclaim_measures:
  assumes "chain_sorted c"
  shows "length c = length (drop (reclaim_count c w b) c) + reclaim_count c w b"
    and "garbage w c = garbage w (drop (reclaim_count c w b) c) + reclaim_count c w b"
  using reclaim_count_le [of c w b] garbage_drop [OF assms, of "reclaim_count c w b" w]
  by (simp_all add: reclaim_count_garbage)

section \<open>One walk\<close>

lemma gc_walk_total:
  assumes "0 \<le> r" "r \<le> uint mv" "store_inv s" "distinct K" "set ks \<subseteq> set K"
    "\<And>c b. chain_sorted c \<Longrightarrow> \<mu> c = \<mu> (drop (reclaim_count c w b) c) + reclaim_count c w b"
    "gc_walk w mv ks s r l = (s', r', l', full)"
  shows "int (total \<mu> s K) = int (total \<mu> s' K) + (r' - r) \<and> r \<le> r' \<and> r' \<le> uint mv"
  using assms(1,2,3,5,7)
proof (induction ks s r l rule: gc_walk_induct [where w = w])
  case (step k ks s r l)
  let ?t = "fst (ReclaimKey k w (uint mv - r) s)" and ?n = "snd (ReclaimKey k w (uint mv - r) s)"
  have "gc_walk w mv ks ?t (r + ?n) k = (s', r', l', full)"
    using step.prems(3) unfolding gc_walk_step(1) [OF step.hyps] .
  with step.IH store_inv_ReclaimKey [OF step.prems(1)] step.prems(2)
  have "int (total \<mu> ?t K) = int (total \<mu> s' K) + (r' - (r + ?n))" "r + ?n \<le> r'" "r' \<le> uint mv"
    by auto
  moreover have "int (total \<mu> s K) = int (total \<mu> ?t K) + ?n"
    using step.prems assms(4) store_inv_chain [OF step.prems(1)]
    by (intro total_ReclaimKey assms(6)) auto
  moreover have "0 \<le> ?n" using ReclaimKey_count by blast
  ultimately show ?case by simp
qed auto

text \<open>Every chain loses a prefix, all of it superseded by what is left.\<close>

lemma gc_walk_chains:
  assumes "0 \<le> r" "r \<le> uint mv" "store_inv s" "distinct ks"
  shows "\<exists>m. chain_of (fst (gc_walk w mv ks s r l)) k = drop m (chain_of s k)
    \<and> (\<forall>v \<in> set (take m (chain_of s k)). superseded (chain_of (fst (gc_walk w mv ks s r l)) k) w v)"
  using assms
proof (induction ks s r l rule: gc_walk_induct [where w = w])
  case (step k' ks s r l)
  let ?t = "fst (ReclaimKey k' w (uint mv - r) s)" and ?m = "reclaim_count (chain_of s k') w (uint mv - r)"
  note inv = store_inv_ReclaimKey [OF step.prems(1), of k' w "uint mv - r"]
  show ?case
  proof (cases "k = k'")
    case True
    then have "chain_of (fst (gc_walk w mv (k' # ks) s r l)) k = drop ?m (chain_of s k)"
      using gc_walk_keeps [OF gc_walk_step(2,3) [OF step.hyps] inv, of w ks k'] step.prems(2)
      unfolding gc_walk_step(1) [OF step.hyps] by (simp add: chain_of_ReclaimKey step.prems(1))
    moreover have "\<forall>v \<in> set (take ?m (chain_of s k)). superseded (drop ?m (chain_of s k)) w v"
      using reclaim_count_less [of "chain_of s k" w "uint mv - r"] True
        take_superseded [OF store_inv_chain [OF step.prems(1), of k], of ?m w] by auto
    ultimately show ?thesis by metis
  next
    case False
    then have "chain_of ?t k = chain_of s k" by (simp add: chain_of_ReclaimKey step.prems(1))
    with step.IH [OF inv] step.prems(2) show ?thesis
      unfolding gc_walk_step(1) [OF step.hyps] by simp
  qed
qed (auto intro: exI [of _ 0])

text \<open>A walk that removes nothing, with a budget, went through all its keys, found nothing
  superseded in any of them, and left the store as it was.\<close>

lemma gc_walk_idle:
  assumes "0 < uint mv" "store_inv s" "gc_walk w mv ks s 0 l = (s', 0, l', full)"
  shows "full \<and> s' = s \<and> (\<forall>k \<in> set ks. garbage w (chain_of s k) = 0)
    \<and> l' = (if ks = [] then l else last ks)"
  using assms(3)
proof (induction ks arbitrary: l)
  case (Cons k ks)
  let ?n = "reclaim_count (chain_of s k) w (uint mv)"
  have walk: "gc_walk w mv ks (fst (ReclaimKey k w (uint mv) s)) (int ?n) k = (s', 0, l', full)"
    using Cons.prems gc_walk_step(1) [of 0 mv w k ks s l] assms(1)
    by (simp add: snd_ReclaimKey [OF assms(2)])
  have "int ?n \<le> 0"
    using gc_walk_total [OF _ _ store_inv_ReclaimKey [OF assms(2)] distinct_remdups _ _ walk,
        of ks length] reclaim_measures(1) gc_walk_step(2,3) [of 0 mv k w s] assms(1)
    by (simp add: snd_ReclaimKey [OF assms(2)])
  then have z: "?n = 0" by simp
  then have "ReclaimKey k w (uint mv) s = (s, 0)" by (simp add: ReclaimKey_eq [OF assms(2)])
  with walk z Cons.IH [of k] have "full \<and> s' = s \<and> (\<forall>k \<in> set ks. garbage w (chain_of s k) = 0)
      \<and> l' = (if ks = [] then k else last ks)" by simp
  moreover have "garbage w (chain_of s k) = 0" 
    using z assms(1) unfolding reclaim_count_garbage by linarith
  ultimately show ?case by simp
qed simp


section \<open>One command\<close>

lemma gc_keys:
  assumes "store_inv s"
  shows "distinct (KeysFrom s c l)" "set (KeysFrom s c l) \<subseteq> set (orderedKeys s)"
    "k \<in> set (KeysFrom s c l) \<Longrightarrow> c < k" "length (KeysFrom s c l) \<le> nat l"
proof -
  have "sorted_wrt (<) (orderedKeys s)" using assms by (simp add: store_inv_def)
  then have "distinct (orderedKeys s)" by (simp add: strict_sorted_iff)
  then show "distinct (KeysFrom s c l)" by (simp add: KeysFrom_eq [OF assms])
  show "set (KeysFrom s c l) \<subseteq> set (orderedKeys s)"
    by (auto simp: KeysFrom_eq [OF assms] dest: in_set_takeD)
  show "k \<in> set (KeysFrom s c l) \<Longrightarrow> c < k"
    by (auto simp: KeysFrom_eq [OF assms] dest: in_set_takeD)
  show "length (KeysFrom s c l) \<le> nat l" by (simp add: KeysFrom_eq [OF assms])
qed

lemma distinct_orderedKeys: "store_inv s \<Longrightarrow> distinct (orderedKeys s)"
  by (simp add: store_inv_def strict_sorted_iff)

lemma gc_result_walk:
  "gc_result cmd f = gc_walk (max (gcWatermark f) (gc_Watermark cmd)) (gc_MaxVersions cmd)
     (KeysFrom (fsm_store f) (gcCursor f) (uint (gc_MaxKeys cmd))) (fsm_store f) 0 []"
  by (simp add: gc_result_def)

text \<open>
  Claim C23. One garbage-collection command does bounded work and is invisible to every
  admitted snapshot. Applied for the first time, \<open>ApplyAdvanceGCWatermark\<close> moves the horizon
  to the larger of the two watermarks, in the state machine and in the store alike; touches
  at most \<open>MaxKeys\<close> keys and removes at most \<open>MaxVersions\<close> versions; removes from each chain
  only a prefix, each version of it superseded at the horizon by a version that stays; and
  leaves every read at or above the horizon as it was.
\<close>

theorem gc_command_safe_and_bounded:
  assumes "fsm_inv n f" "n < i" "mget (controlOutcomes f) (gc_RequestID cmd) = None"
    "f' = fst (ApplyAdvanceGCWatermark i cmd f)"
  shows "fsm_inv i f' \<and> gcWatermark f' = max (gcWatermark f) (gc_Watermark cmd)
    \<and> GCWatermark (fsm_store f') = gcWatermark f'
    \<and> card {k. chain_of (fsm_store f') k \<noteq> chain_of (fsm_store f) k} \<le> unat (gc_MaxKeys cmd)
    \<and> total length (fsm_store f) (orderedKeys (fsm_store f))
        \<le> total length (fsm_store f') (orderedKeys (fsm_store f')) + unat (gc_MaxVersions cmd)
    \<and> (\<forall>k. \<exists>m. chain_of (fsm_store f') k = drop m (chain_of (fsm_store f) k)
         \<and> (\<forall>v \<in> set (take m (chain_of (fsm_store f) k)).
              superseded (chain_of (fsm_store f') k) (gcWatermark f') v))
    \<and> (\<forall>k q. gcWatermark f' \<le> q \<longrightarrow> Visible (fsm_store f') k q
         = Inr (read_at (fsm_store f) k q))"
proof -
  let ?s = "fsm_store f" and ?K = "orderedKeys (fsm_store f)"
  let ?ks = "KeysFrom ?s (gcCursor f) (uint (gc_MaxKeys cmd))"
  let ?w = "max (gcWatermark f) (gc_Watermark cmd)"
  note s = fsm_invD(1) [OF assms(1)]
  obtain s' r l full where g: "gc_result cmd f = (s', r, l, full)" by (cases "gc_result cmd f")
  note new = ApplyAdvanceGCWatermark_new [OF assms(3), of i, folded assms(4), unfolded g, simplified]
  have inv: "fsm_inv i f'" using fsm_inv_ApplyAdvanceGCWatermark [OF assms(1,2)] assms(4) by simp
  note keeps = gc_walk_keeps [of 0 "gc_MaxVersions cmd" ?s ?w ?ks "[]", folded gc_result_walk,
      unfolded g, simplified, OF s]
  have chains: "chain_of (fsm_store f') = chain_of s'" by (simp add: new)
  have "{k. chain_of (fsm_store f') k \<noteq> chain_of ?s k} \<subseteq> set ?ks" using keeps by (auto simp: chains)
  then have "card {k. chain_of (fsm_store f') k \<noteq> chain_of ?s k} \<le> length ?ks"
    by (meson card_length card_mono finite_set order.trans)
  then have keys: "card {k. chain_of (fsm_store f') k \<noteq> chain_of ?s k} \<le> unat (gc_MaxKeys cmd)"
    using gc_keys(4) [OF s, of "gcCursor f" "uint (gc_MaxKeys cmd)"] by simp
  have "int (total length ?s ?K) = int (total length s' ?K) + (r - 0) \<and> 0 \<le> r \<and> r \<le> uint (gc_MaxVersions cmd)"
    using g reclaim_measures(1)
    by (intro gc_walk_total [OF _ _ s distinct_orderedKeys [OF s] gc_keys(2) [OF s]])
      (auto simp: gc_result_walk)
  moreover have "orderedKeys (fsm_store f') = ?K" "total length (fsm_store f') ?K = total length s' ?K"
    using keeps by (simp_all add: new total_def)
  ultimately have vers: "total length ?s ?K
      \<le> total length (fsm_store f') (orderedKeys (fsm_store f')) + unat (gc_MaxVersions cmd)"
    by (simp add: nat_le_iff flip: of_nat_le_iff [where 'a = int])
  have suff: "\<exists>m. chain_of (fsm_store f') k = drop m (chain_of ?s k)
      \<and> (\<forall>v \<in> set (take m (chain_of ?s k)). superseded (chain_of (fsm_store f') k) (gcWatermark f') v)" for k
    using gc_walk_chains [of 0 "gc_MaxVersions cmd" ?s ?ks ?w "[]" k, folded gc_result_walk,
        unfolded g, simplified, OF s gc_keys(1) [OF s]] by (simp add: chains new)
  have reads: "Visible (fsm_store f') k q = Inr (read_at ?s k q)" if "gcWatermark f' \<le> q" for k q
    using that keeps fsm_Visible [OF inv, of k q] by (simp add: new SetGCWatermark_max)
  show ?thesis
    using inv keys vers suff reads fsm_invD(2) [OF inv] by (simp add: new(2) GCWatermark_def)
qed


lemma controlOutcomes_demo: "controlOutcomes demo_fsm = []"
  by (simp add: demo_fsm_def NewFSM_def)

theorem gc_command_safe_and_bounded_witness:
  "Visible (fsm_store (fst (ApplyAdvanceGCWatermark 9 \<lparr>gc_RequestID = ''g'', gc_Watermark = 7,
      gc_MaxVersions = 5, gc_MaxKeys = 5\<rparr> demo_fsm))) ''k'' 8 = Inr (read_at (fsm_store demo_fsm) ''k'' 8)"
proof -
  let ?g = "\<lparr>gc_RequestID = ''g'', gc_Watermark = 7, gc_MaxVersions = 5, gc_MaxKeys = 5\<rparr>"
  have "mget (controlOutcomes demo_fsm) (gc_RequestID ?g) = None" by (simp add: controlOutcomes_demo)
  from gc_command_safe_and_bounded [OF fsm_inv_demo _ this refl, of 9] show ?thesis
    by (simp add: gcWatermark_demo)
qed

section \<open>All commands together\<close>

text \<open>The keys after the cursor, what is superseded in the non-empty keys, and the distance to
  the next visit of a key that has something superseded.\<close>

definition after_cursor :: "FSM \<Rightarrow> string list" where
  "after_cursor f = filter (\<lambda>k. gcCursor f < k) (orderedKeys (fsm_store f))"

text \<open>The versions of the non-empty keys that are superseded at a horizon, and at the machine's own.\<close>

definition gc_backlog :: "u64 \<Rightarrow> FSM \<Rightarrow> nat" where
  "gc_backlog w f = total (garbage w) (fsm_store f) (filter (\<lambda>k. k \<noteq> []) (orderedKeys (fsm_store f)))"

definition total_garbage :: "FSM \<Rightarrow> nat" where
  "total_garbage f = gc_backlog (gcWatermark f) f"

definition gc_pending :: "FSM \<Rightarrow> string list \<Rightarrow> bool" where
  "gc_pending f ks \<longleftrightarrow> (\<exists>k \<in> set ks. garbage (gcWatermark f) (chain_of (fsm_store f) k) \<noteq> 0)"

definition gc_distance :: "FSM \<Rightarrow> nat" where
  "gc_distance f = (if gc_pending f (after_cursor f) then length (after_cursor f)
     else length (after_cursor f) + 1 + length (orderedKeys (fsm_store f)))"

definition gc_measure :: "FSM \<Rightarrow> nat" where
  "gc_measure f = total_garbage f * (2 * length (orderedKeys (fsm_store f)) + 2) + gc_distance f"

lemma Nil_less_iff: "[] < k \<longleftrightarrow> k \<noteq> ([] :: string)"
  by (cases k) auto

lemma gc_distance_less: "gc_distance f < 2 * length (orderedKeys (fsm_store f)) + 2"
proof -
  have "length (after_cursor f) \<le> length (orderedKeys (fsm_store f))" by (simp add: after_cursor_def)
  then show ?thesis by (simp add: gc_distance_def)
qed

lemma total_garbage_pos_iff:
  "total_garbage f \<noteq> 0 \<longleftrightarrow> gc_pending f (filter (\<lambda>k. k \<noteq> []) (orderedKeys (fsm_store f)))"
  by (auto simp: total_garbage_def gc_backlog_def total_def gc_pending_def)

text \<open>A new command with budgets; and one whose watermark does not move the horizon any further.\<close>

definition gc_budgeted :: "FSM \<Rightarrow> AdvanceGCWatermarkCommand \<Rightarrow> bool" where
  "gc_budgeted f cmd \<longleftrightarrow> 0 < gc_MaxKeys cmd \<and> 0 < gc_MaxVersions cmd \<and> mget (controlOutcomes f) (gc_RequestID cmd) = None"

definition gc_useful :: "FSM \<Rightarrow> AdvanceGCWatermarkCommand \<Rightarrow> bool" where
  "gc_useful f cmd \<longleftrightarrow> gc_budgeted f cmd \<and> gc_Watermark cmd \<le> gcWatermark f"

lemma gc_useful_new:
  assumes "gc_useful f cmd" "gc_result cmd f = (s', r, l, full)" "f' = fst (ApplyAdvanceGCWatermark i cmd f)"
  shows "fsm_store f' = SetGCWatermark (gcWatermark f) s'" "gcWatermark f' = gcWatermark f"
    "gcCursor f' = gc_next_cursor cmd f"
  using ApplyAdvanceGCWatermark_new [of f cmd i] assms by (simp_all add: gc_useful_def gc_budgeted_def max_absorb1)

lemma filter_greater_nth:
  assumes "sorted_wrt (<) (xs :: 'a :: linorder list)" "0 < n" "n \<le> length (filter (\<lambda>k. c < k) xs)"
  shows "filter (\<lambda>k. last (take n (filter (\<lambda>k. c < k) xs)) < k) xs = drop n (filter (\<lambda>k. c < k) xs)"
proof -
  let ?ys = "filter (\<lambda>k. c < k) xs"
  let ?l = "last (take n ?ys)"
  have ys: "sorted_wrt (<) ?ys" using assms(1) by (rule sorted_wrt_filter)
  have ne: "take n ?ys \<noteq> []" using assms(2,3) by auto
  then have "c < ?l" using in_set_takeD [OF last_in_set [OF ne]] by simp
  then have "filter (\<lambda>k. ?l < k) xs = filter (\<lambda>k. ?l < k) ?ys"
    by (simp add: conj_commute) (metis (mono_tags, lifting) filter_cong order.strict_trans)
  also have "\<dots> = filter (\<lambda>k. ?l < k) (take n ?ys) @ filter (\<lambda>k. ?l < k) (drop n ?ys)"
    by (metis append_take_drop_id filter_append)
  also have "filter (\<lambda>k. ?l < k) (take n ?ys) = []"
  proof -
    have t: "sorted_wrt (<) (butlast (take n ?ys) @ [?l])"
      using ys ne by (metis append_butlast_last_id sorted_wrt_take)
    have "x \<le> ?l" if "x \<in> set (butlast (take n ?ys) @ [?l])" for x
      using that t by (auto simp: sorted_wrt_append less_imp_le)
    then show ?thesis using ne by (metis append_butlast_last_id filter_False leD)
  qed
  also have "filter (\<lambda>k. ?l < k) (drop n ?ys) = drop n ?ys"
  proof -
    have "sorted_wrt (<) (take n ?ys @ drop n ?ys)" using ys by simp
    then have "\<forall>x \<in> set (drop n ?ys). ?l < x"
      using last_in_set [OF ne] unfolding sorted_wrt_append by blast
    then show ?thesis by (simp add: filter_id_conv)
  qed
  finally show ?thesis by simp
qed


lemma gc_pending_append: "gc_pending f (ks @ ks') \<longleftrightarrow> gc_pending f ks \<or> gc_pending f ks'"
  by (auto simp: gc_pending_def)

text \<open>A useful command that removes something lowers the total by what it removes.\<close>

lemma total_filter_keys:
  assumes "store_inv s" "distinct K" "chain_of t [] = chain_of s []"
    "int (total \<mu> s K) = int (total \<mu> t K) + r"
  shows "int (total \<mu> s (filter (\<lambda>k. k \<noteq> []) K)) = int (total \<mu> t (filter (\<lambda>k. k \<noteq> []) K)) + r"
proof -
  have "total \<mu> u K = total \<mu> u (filter (\<lambda>k. k \<noteq> []) K) + (if [] \<in> set K then \<mu> (chain_of u []) else 0)" for u
    using assms(2) by (induction K) (auto simp: total_def)
  then show ?thesis using assms(3,4) by (auto split: if_splits)
qed

lemma gc_budgeted_step:
  assumes "fsm_inv n f" "gc_budgeted f cmd" "f' = fst (ApplyAdvanceGCWatermark i cmd f)"
  shows "orderedKeys (fsm_store f') = orderedKeys (fsm_store f)
    \<and> int (gc_backlog (max (gcWatermark f) (gc_Watermark cmd)) f) = int (total_garbage f') + fst (snd (gc_result cmd f))
    \<and> 0 \<le> fst (snd (gc_result cmd f)) \<and> gcWatermark f' = max (gcWatermark f) (gc_Watermark cmd)"
proof -
  obtain s' r l full where g: "gc_result cmd f = (s', r, l, full)" by (cases "gc_result cmd f")
  let ?s = "fsm_store f" and ?w = "max (gcWatermark f) (gc_Watermark cmd)"
  let ?ks = "KeysFrom ?s (gcCursor f) (uint (gc_MaxKeys cmd))"
  have new: "fsm_store f' = SetGCWatermark ?w s'" "gcWatermark f' = ?w"
    using ApplyAdvanceGCWatermark_new [of f cmd i] assms(2,3) g by (simp_all add: gc_budgeted_def)
  note s = fsm_invD(1) [OF assms(1)]
  note keeps = gc_walk_keeps [of 0 "gc_MaxVersions cmd" ?s ?w ?ks "[]", folded gc_result_walk,
      unfolded g, simplified, OF s]
  have "[] \<notin> set ?ks" using gc_keys(3) [OF s] by force
  then have e: "chain_of s' [] = chain_of ?s []" using keeps by simp
  have tot: "int (total (garbage ?w) ?s (orderedKeys ?s)) = int (total (garbage ?w) s' (orderedKeys ?s)) + (r - 0)
      \<and> 0 \<le> r \<and> r \<le> uint (gc_MaxVersions cmd)"
    using g reclaim_measures(2)
    by (intro gc_walk_total [OF _ _ s distinct_orderedKeys [OF s] gc_keys(2) [OF s]])
      (auto simp: gc_result_walk)
  then have "int (total (garbage ?w) ?s (filter (\<lambda>k. k \<noteq> []) (orderedKeys ?s)))
      = int (total (garbage ?w) s' (filter (\<lambda>k. k \<noteq> []) (orderedKeys ?s))) + r"
    by (intro total_filter_keys [OF s distinct_orderedKeys [OF s] e]) simp
  then show ?thesis
    using keeps e tot by (simp add: new total_garbage_def gc_backlog_def g total_def)
qed

lemma gc_useful_step:
  assumes "fsm_inv n f" "gc_useful f cmd" "f' = fst (ApplyAdvanceGCWatermark i cmd f)"
  shows "orderedKeys (fsm_store f') = orderedKeys (fsm_store f)
    \<and> int (total_garbage f) = int (total_garbage f') + fst (snd (gc_result cmd f))
    \<and> 0 \<le> fst (snd (gc_result cmd f))"
  using gc_budgeted_step [OF assms(1) _ assms(3)] assms(2) by (simp add: gc_useful_def max_absorb1 total_garbage_def [of f])

lemma total_garbage_step:
  assumes "fsm_inv n f" "gc_useful f cmd" "f' = fst (ApplyAdvanceGCWatermark i cmd f)"
  shows "total_garbage f' \<le> total_garbage f"
  using gc_useful_step [OF assms] by linarith

text \<open>While something is superseded, every useful command brings the measure down.\<close>

lemma gc_idle_distance:
  assumes "fsm_inv n f" "gc_useful f cmd" "f' = fst (ApplyAdvanceGCWatermark i cmd f)"
    "total_garbage f \<noteq> 0" "fst (snd (gc_result cmd f)) = 0"
  shows "gc_distance f' < gc_distance f"
proof -
  obtain s' l full where g: "gc_result cmd f = (s', 0, l, full)"
    using assms(5) by (cases "gc_result cmd f") auto
  let ?s = "fsm_store f" and ?w = "gcWatermark f" and ?mk = "uint (gc_MaxKeys cmd)"
  let ?ks = "KeysFrom ?s (gcCursor f) ?mk" and ?af = "after_cursor f"
  note new = gc_useful_new [OF assms(2) g assms(3)] and s = fsm_invD(1) [OF assms(1)]
  have w: "max ?w (gc_Watermark cmd) = ?w" and mk: "0 < ?mk" and mv: "0 < uint (gc_MaxVersions cmd)"
    using assms(2) by (simp_all add: gc_useful_def gc_budgeted_def max_absorb1 word_less_def)
  have idle: "full \<and> s' = ?s \<and> (\<forall>k \<in> set ?ks. garbage ?w (chain_of ?s k) = 0)
      \<and> l = (if ?ks = [] then [] else last ?ks)"
    using gc_walk_idle [OF mv s] g unfolding gc_result_walk w by blast
  define m where "m = unat (gc_MaxKeys cmd)"
  have m: "?mk = int m" by (simp add: m_def)
  have ks: "?ks = take m ?af" by (simp add: KeysFrom_eq [OF s] after_cursor_def m_def)
  have same: "gc_pending f' = gc_pending f" "orderedKeys (fsm_store f') = orderedKeys ?s"
    using idle by (simp_all add: new gc_pending_def fun_eq_iff)
  show ?thesis
  proof (cases "int (length ?ks) < ?mk")
    case True
    then have "?ks = ?af" using ks m by simp
    then have np: "\<not> gc_pending f ?af" using idle by (simp add: gc_pending_def)
    have "gcCursor f' = []"
      using True idle g assms(2) by (simp add: new gc_next_cursor_def gc_useful_def gc_budgeted_def)
    then have af': "after_cursor f' = filter (\<lambda>k. k \<noteq> []) (orderedKeys ?s)"
      by (simp add: after_cursor_def same Nil_less_iff)
    then have "gc_pending f' (after_cursor f')" 
      using assms(4) unfolding total_garbage_pos_iff by (simp add: same)
    then have "gc_distance f' = length (after_cursor f')" by (simp add: gc_distance_def)
    also have "\<dots> \<le> length (orderedKeys ?s)" by (simp add: af')
    finally show ?thesis using np by (simp add: gc_distance_def)
  next
    case False
    then have n: "m \<le> length ?af" "0 < m" using ks mk m by (auto simp: min_def split: if_splits)
    then have ne: "?ks \<noteq> []" using ks by auto
    have "gcCursor f < last ?ks" using gc_keys(3) [OF s last_in_set [OF ne]] .
    then have "last ?ks \<noteq> []" by force
    then have c: "gcCursor f' = last (take m ?af)"
      using False idle ne g ks by (simp add: new gc_next_cursor_def)
    have "after_cursor f' = drop m ?af"
      unfolding after_cursor_def [of f'] same c
      using filter_greater_nth [of "orderedKeys ?s" "m" "gcCursor f"] n s
      by (simp add: after_cursor_def store_inv_def)
    moreover have "gc_pending f ?af \<longleftrightarrow> gc_pending f (drop m ?af)"
      using gc_pending_append [of f "take m ?af" "drop m ?af"] idle ks
      by (simp add: gc_pending_def)
    ultimately show ?thesis using n by (auto simp: gc_distance_def same)
  qed
qed


lemma gc_measure_decreases:
  assumes "fsm_inv n f" "gc_useful f cmd" "f' = fst (ApplyAdvanceGCWatermark i cmd f)"
    "total_garbage f \<noteq> 0"
  shows "gc_measure f' < gc_measure f"
proof -
  let ?c = "2 * length (orderedKeys (fsm_store f)) + 2" and ?r = "fst (snd (gc_result cmd f))"
  note step = gc_useful_step [OF assms(1-3)]
  show ?thesis
  proof (cases "?r = 0")
    case True
    with step gc_idle_distance [OF assms] show ?thesis by (simp add: gc_measure_def)
  next
    case False
    with step have "total_garbage f' + 1 \<le> total_garbage f" by linarith
    then have "(total_garbage f' + 1) * ?c \<le> total_garbage f * ?c" by (rule mult_le_mono1)
    moreover have "gc_distance f' < ?c" using gc_distance_less [of f'] step by simp
    ultimately have "total_garbage f' * ?c + gc_distance f' < total_garbage f * ?c + gc_distance f"
      by (simp add: algebra_simps)
    with step show ?thesis by (simp add: gc_measure_def)
  qed
qed

definition gc_events :: "(u64 \<times> AdvanceGCWatermarkCommand) list \<Rightarrow> (u64 \<times> fsm_event) list" where
  "gc_events cs = map (\<lambda>(i, c). (i, EvGC c)) cs"

lemma gc_events_simps [simp]:
  "gc_events [] = []" "gc_events ((i, c) # cs) = (i, EvGC c) # gc_events cs"
  by (simp_all add: gc_events_def)

lemma gc_useful_later:
  assumes "fsm_inv n f" "gc_useful f cmd" "gc_useful f cmd'" "gc_RequestID cmd' \<noteq> gc_RequestID cmd"
  shows "gc_useful (fst (ApplyAdvanceGCWatermark i cmd f)) cmd'"
  using assms ApplyAdvanceGCWatermark_new [of f cmd i] by (simp add: gc_useful_def gc_budgeted_def max_absorb1)

lemma gc_run_clears:
  assumes "fsm_inv n f" "history n (gc_events cs)" "\<forall>(i, c) \<in> set cs. gc_useful f c"
    "distinct (map (gc_RequestID \<circ> snd) cs)" "total_garbage f = 0 \<or> gc_measure f \<le> length cs"
  shows "total_garbage (fsm_run (gc_events cs) f) = 0
    \<and> gcWatermark (fsm_run (gc_events cs) f) = gcWatermark f"
  using assms
proof (induction cs arbitrary: n f)
  case Nil
  then show ?case by (auto simp: gc_measure_def)
next
  case (Cons ic cs)
  obtain i c where ic: "ic = (i, c)" by (cases ic)
  let ?f = "fst (ApplyAdvanceGCWatermark i c f)"
  have u: "gc_useful f c" and h: "n < i" "history i (gc_events cs)" using Cons.prems ic by auto
  have "total_garbage ?f = 0 \<or> gc_measure ?f \<le> length cs"
    using Cons.prems(5) gc_measure_decreases [OF Cons.prems(1) u refl, of i]
      total_garbage_step [OF Cons.prems(1) u refl, of i] by fastforce
  moreover have "\<forall>(j, d) \<in> set cs. gc_useful ?f d"
  proof safe
    fix j d assume d: "(j, d) \<in> set cs"
    then have "gc_useful f d" "gc_RequestID d \<noteq> gc_RequestID c"
      using Cons.prems(3,4) ic by (auto simp: image_iff)
    then show "gc_useful ?f d" by (rule gc_useful_later [OF Cons.prems(1) u])
  qed
  ultimately have "total_garbage (fsm_run (gc_events cs) ?f) = 0
      \<and> gcWatermark (fsm_run (gc_events cs) ?f) = gcWatermark ?f"
    using Cons.IH [OF fsm_inv_ApplyAdvanceGCWatermark [OF Cons.prems(1) h(1)] h(2)] Cons.prems(4) by simp
  moreover have "gcWatermark ?f = gcWatermark f"
    using gc_useful_new(2) [OF u _ refl] by (metis prod_cases4)
  ultimately show ?case by (simp add: ic)
qed

lemma no_garbage_left:
  assumes "fsm_inv n f" "total_garbage f = 0" "k \<noteq> []"
  shows "\<forall>v \<in> set (chain_of (fsm_store f) k). \<not> superseded (chain_of (fsm_store f) k) (gcWatermark f) v"
proof -
  have s: "store_inv (fsm_store f)" by (rule fsm_invD(1) [OF assms(1)])
  have "garbage (gcWatermark f) (chain_of (fsm_store f) k) = 0"
  proof (cases "k \<in> set (orderedKeys (fsm_store f))")
    case True
    with assms(2,3) show ?thesis using total_garbage_pos_iff [of f] by (auto simp: gc_pending_def)
  next
    case False
    then show ?thesis using store_inv_key_iff [OF s] by (simp add: garbage_def vupto_def)
  qed
  then show ?thesis using garbage_zero_iff [OF store_inv_chain [OF s]] by blast
qed

text \<open>
  Claim C24. Garbage collection makes progress, whatever its budgets. From any state of the invariant, let one new
  collector command set the horizon to \<open>W\<close>, the larger of the old horizon and its own watermark, and let new
  collector commands follow it that do not move the horizon beyond \<open>W\<close>; every one of them is allowed at least
  one key and one version, and all have different request identifiers. Let the followers be as many as
  \<open>(b + 1) * (2 * k + 2)\<close>, where \<open>b\<close> is the number of versions superseded at \<open>W\<close> before and \<open>k\<close> the number of
  keys. Then the horizon is \<open>W\<close>, and no version of a non-empty key that is superseded at \<open>W\<close> is left.
\<close>

theorem gc_reclaims_everything:
  assumes "fsm_inv n f" "history n (gc_events ((i, c) # cs))" "W = max (gcWatermark f) (gc_Watermark c)"
    and "\<forall>(j, d) \<in> set ((i, c) # cs). 0 < gc_MaxKeys d \<and> 0 < gc_MaxVersions d \<and> gc_Watermark d \<le> W
           \<and> mget (controlOutcomes f) (gc_RequestID d) = None"
    and "distinct (map (gc_RequestID \<circ> snd) ((i, c) # cs))"
    and "(gc_backlog W f + 1) * (2 * length (orderedKeys (fsm_store f)) + 2) \<le> length cs"
    and "f' = fsm_run (gc_events ((i, c) # cs)) f" "k \<noteq> []"
  shows "gcWatermark f' = W \<and> (\<forall>v \<in> set (chain_of (fsm_store f') k). \<not> superseded (chain_of (fsm_store f') k) W v)"
proof -
  let ?g = "fst (ApplyAdvanceGCWatermark i c f)" and ?m = "2 * length (orderedKeys (fsm_store f)) + 2"
  have h: "n < i" "history i (gc_events cs)" using assms(2) by auto
  have b: "gc_budgeted f c" using assms(4) by (simp add: gc_budgeted_def)
  note step = gc_budgeted_step [OF assms(1) b refl, of i, folded assms(3)]
  have inv: "fsm_inv i ?g" by (rule fsm_inv_ApplyAdvanceGCWatermark [OF assms(1) h(1)])
  have "total_garbage ?g * ?m \<le> gc_backlog W f * ?m" using step by (intro mult_le_mono1) linarith
  moreover have "gc_distance ?g < ?m" using gc_distance_less [of ?g] step by simp
  ultimately have "gc_measure ?g \<le> length cs" using assms(6) step by (simp add: gc_measure_def algebra_simps)
  moreover have "\<forall>(j, d) \<in> set cs. gc_useful ?g d"
  proof safe
    fix j d assume d: "(j, d) \<in> set cs"
    then have "gc_budgeted f d" "gc_Watermark d \<le> W" "gc_RequestID d \<noteq> gc_RequestID c"
      using assms(4,5) by (force simp: gc_budgeted_def)+
    then show "gc_useful ?g d" using b step ApplyAdvanceGCWatermark_new [of f c i] by (simp add: gc_useful_def gc_budgeted_def)
  qed
  ultimately have z: "total_garbage f' = 0" "gcWatermark f' = W"
    using gc_run_clears [OF inv h(2)] assms(5,7) step by simp_all
  then show ?thesis using no_garbage_left [OF fsm_inv_run [OF assms(1,2)] _ assms(8)] assms(7) by simp
qed

definition demo_gc :: AdvanceGCWatermarkCommand where
  "demo_gc = \<lparr>gc_RequestID = ''g'', gc_Watermark = 0, gc_MaxVersions = 1, gc_MaxKeys = 1\<rparr>"

text \<open>Two keys with one superseded version each below the horizon 6, a command that moves the horizon
  there, and eighteen commands after it, of one key and one version each.\<close>

definition demo_gcs :: "(u64 \<times> AdvanceGCWatermarkCommand) list" where
  "demo_gcs = map (\<lambda>i. (word_of_nat (7 + i), demo_gc\<lparr>gc_RequestID := replicate i (CHR ''x'')\<rparr>)) [1..<19]"

lemma fsm_inv_demo_gc: "fsm_inv 6 (NewFSM demo_store)"
proof -
  have "st_gcWatermark demo_store = 0" "\<not> skipHorizonGuardForTest demo_store" by code_simp+
  then show ?thesis using store_inv_demo latest_demo_store by (simp add: fsm_inv_def NewFSM_def)
qed

theorem gc_reclaims_everything_witness:
  "gc_backlog 6 (NewFSM demo_store) = 2 \<and>
   (let f' = fsm_run (gc_events ((7, demo_gc\<lparr>gc_Watermark := 6\<rparr>) # demo_gcs)) (NewFSM demo_store) in
      gcWatermark f' = 6 \<and> filter (superseded (chain_of (fsm_store f') ''a'') 6) (chain_of (fsm_store f') ''a'') = [])"
proof -
  let ?cs = "(7, demo_gc\<lparr>gc_Watermark := 6\<rparr>) # demo_gcs"
  let ?f = "fsm_run (gc_events ?cs) (NewFSM demo_store)"
  have "gcWatermark ?f = 6 \<and> (\<forall>v \<in> set (chain_of (fsm_store ?f) ''a''). \<not> superseded (chain_of (fsm_store ?f) ''a'') 6 v)"
  proof (rule gc_reclaims_everything [OF fsm_inv_demo_gc])
    show "history 6 (gc_events ?cs)" by code_simp
    show "\<forall>(j, d) \<in> set ?cs. 0 < gc_MaxKeys d \<and> 0 < gc_MaxVersions d \<and> gc_Watermark d \<le> 6
        \<and> mget (controlOutcomes (NewFSM demo_store)) (gc_RequestID d) = None" by code_simp
    show "distinct (map (gc_RequestID \<circ> snd) ?cs)" by code_simp
    show "(gc_backlog 6 (NewFSM demo_store) + 1) * (2 * length (orderedKeys (fsm_store (NewFSM demo_store))) + 2) \<le> length demo_gcs"
      by code_simp
    show "6 = max (gcWatermark (NewFSM demo_store)) (gc_Watermark (demo_gc\<lparr>gc_Watermark := 6\<rparr>))" by code_simp
  qed simp_all
  moreover have "gc_backlog 6 (NewFSM demo_store) = 2" by code_simp
  ultimately show ?thesis by (simp add: Let_def filter_empty_conv)
qed

section \<open>The empty key\<close>

text \<open>
  The walk never visits the empty key. \<open>Store.KeysFrom\<close> returns the keys strictly
  after the cursor, and the cursor of a new pass is the empty string, so whatever commands
  are applied, the versions of the key \<open>""\<close> are never reclaimed by garbage collection.
\<close>

theorem gc_never_reclaims_empty_key:
  assumes "fsm_inv n f" "history n (gc_events cs)"
  shows "chain_of (fsm_store (fsm_run (gc_events cs) f)) [] = chain_of (fsm_store f) []"
  using assms
proof (induction cs arbitrary: n f)
  case (Cons ic cs)
  obtain i c where ic: "ic = (i, c)" by (cases ic)
  let ?f = "fst (ApplyAdvanceGCWatermark i c f)"
  have h: "n < i" "history i (gc_events cs)" using Cons.prems ic by auto
  note s = fsm_invD(1) [OF Cons.prems(1)]
  have "[] \<notin> set (KeysFrom (fsm_store f) (gcCursor f) (uint (gc_MaxKeys c)))"
    using gc_keys(3) [OF s] by force
  then have "chain_of (fst (gc_result c f)) [] = chain_of (fsm_store f) []"
    using gc_walk_keeps [of 0 "gc_MaxVersions c", OF _ _ s] by (simp add: gc_result_walk)
  then have "chain_of (fsm_store ?f) [] = chain_of (fsm_store f) []"
    by (cases "mget (controlOutcomes f) (gc_RequestID c)")
      (simp_all add: ApplyAdvanceGCWatermark_new ApplyAdvanceGCWatermark_known)
  then show ?case
    using Cons.IH [OF fsm_inv_ApplyAdvanceGCWatermark [OF Cons.prems(1) h(1)] h(2)] by (simp add: ic)
qed simp

definition empty_key_events :: "(u64 \<times> fsm_event) list" where
  "empty_key_events = [(1, EvCommit \<lparr>cmd_RequestID = ''1'', cmd_TxnID = 1, cmd_StartSeq = 0,
      cmd_Mutations = [put_mut [] ''x'']\<rparr>),
    (2, EvCommit \<lparr>cmd_RequestID = ''2'', cmd_TxnID = 2, cmd_StartSeq = 1,
      cmd_Mutations = [put_mut [] ''y'']\<rparr>)]"

theorem gc_never_reclaims_empty_key_witness:
  "chain_of (fsm_store (fsm_run (gc_events [(9, demo_gc\<lparr>gc_Watermark := 8\<rparr>)])
      (fsm_run empty_key_events (NewFSM NewStore)))) []
   = chain_of (fsm_store (fsm_run empty_key_events (NewFSM NewStore))) []"
proof (rule gc_never_reclaims_empty_key)
  show "fsm_inv 2 (fsm_run empty_key_events (NewFSM NewStore))"
    using fsm_inv_run [OF fsm_inv_NewFSM, of empty_key_events] by (simp add: empty_key_events_def)
qed simp

end
