(* ===== verification/Fsm_Snapshot.thy ===== *)
theory Fsm_Snapshot
  imports Fsm
begin

text \<open>
  The byte format of a state-machine snapshot, \<^verbatim>\<open>internal/fsm/snapshot.go\<close>. \<open>EncodeState\<close>
  writes the version chains, the outcome table and, depending on the finalised generation
  of the cluster, three further blocks; \<open>DecodeState\<close> reads them back, checking every length
  and count against the bytes that remain. A machine restored from a snapshot is shown to
  behave like the one that took it over every later history, for every state whose blocks
  the format keeps; and one case is exhibited that it does not keep.
\<close>

section \<open>Encoding\<close>

definition fsmStateVersion :: char where
  "fsmStateVersion = CHR 0x01"

fun status_byte :: "Status \<Rightarrow> char" where
  "status_byte StatusCommitted = CHR 0x00"
| "status_byte StatusAborted = CHR 0x01"
| "status_byte StatusAbortedStale = CHR 0x02"

definition encodeVersion :: "Version \<Rightarrow> bytes" where
  "encodeVersion v = PutUint64 (ver_CommitSeq v) @ [bool_byte (ver_Tombstone v)]
     @ (if ver_Tombstone v then [] else PutUint32 (len32 (ver_Value v)) @ ver_Value v)"

definition encodeChain :: "KeyChain \<Rightarrow> bytes" where
  "encodeChain kc = PutUint32 (len32 (kc_Key kc)) @ kc_Key kc @ PutUint32 (len32 (kc_Versions kc))
     @ concat (map encodeVersion (kc_Versions kc))"

definition encodeOutcome :: "string \<times> outcomeEntry \<Rightarrow> bytes" where
  "encodeOutcome = (\<lambda>(rid, e). PutUint32 (len32 rid) @ rid @ oe_fingerprint e
     @ [status_byte (out_Status (oe_outcome e))] @ PutUint64 (out_CommitSeq (oe_outcome e))
     @ PutUint32 (len32 (out_ConflictKey (oe_outcome e))) @ out_ConflictKey (oe_outcome e)
     @ PutUint64 (out_ConflictLatestSeq (oe_outcome e)))"

definition encodeControlOutcome :: "string \<times> Outcome \<Rightarrow> bytes" where
  "encodeControlOutcome = (\<lambda>(rid, oc). PutUint32 (len32 rid) @ rid
     @ [status_byte (out_Status oc)] @ PutUint64 (out_CommitSeq oc))"

definition encodeMembershipOutcome :: "string \<times> outcomeEntry \<Rightarrow> bytes" where
  "encodeMembershipOutcome = (\<lambda>(rid, e). PutUint32 (len32 rid) @ rid @ oe_fingerprint e
     @ [status_byte (out_Status (oe_outcome e))] @ PutUint64 (out_CommitSeq (oe_outcome e)))"

text \<open>The entries of a Go map in the order of its sorted keys.\<close>

definition sorted_entries :: "(string, 'v) gomap \<Rightarrow> (string \<times> 'v) list" where
  "sorted_entries m = sort_key fst m"

definition encode_trailing :: "u32 \<Rightarrow> (string, Outcome) gomap \<Rightarrow> (string, outcomeEntry) gomap
    \<Rightarrow> u64 \<Rightarrow> string \<Rightarrow> u64 \<Rightarrow> u64 \<Rightarrow> bytes" where
  "encode_trailing generation ctrl members watermark cursor passes passSeq =
     (if generation > 0
      then PutUint32 generation @ counted encodeControlOutcome (sorted_entries ctrl)
        @ (if generation \<ge> 2 then counted encodeMembershipOutcome (sorted_entries members) else [])
        @ (if generation \<ge> 3
           then PutUint64 watermark @ PutUint64 passes @ PutUint64 passSeq
             @ PutUint32 (len32 cursor) @ cursor
           else [])
      else [])"

definition encodeState :: "Store \<Rightarrow> (string, outcomeEntry) gomap \<Rightarrow> u32 \<Rightarrow> (string, Outcome) gomap
    \<Rightarrow> (string, outcomeEntry) gomap \<Rightarrow> u64 \<Rightarrow> string \<Rightarrow> u64 \<Rightarrow> u64 \<Rightarrow> bytes" where
  "encodeState store outs generation ctrl members watermark cursor passes passSeq =
     [fsmStateVersion] @ counted encodeChain (Export store)
     @ counted encodeOutcome (sorted_entries outs)
     @ encode_trailing generation ctrl members watermark cursor passes passSeq"

definition EncodeState :: "FSM \<Rightarrow> bytes" where
  "EncodeState f = encodeState (fsm_store f) (outcomes f) (clusterGeneration f) (controlOutcomes f)
     (membershipOutcomes f) (gcWatermark f) (gcCursor f) (gcPasses f) (gcPassSeq f)"

section \<open>Decoding\<close>

text \<open>\<open>Status(data[off])\<close> followed by the check of \<open>validStatus\<close>: an unknown byte is malformed.\<close>

definition validStatus :: "char \<Rightarrow> Status option" where
  "validStatus b = (if b = CHR 0x00 then Some StatusCommitted else if b = CHR 0x01 then Some StatusAborted
     else if b = CHR 0x02 then Some StatusAbortedStale else None)"

definition take_status :: "bytes \<Rightarrow> fsm_error + Status \<times> bytes" where
  "take_status b = bindR (take_byte ErrMalformedCommand b) (\<lambda>(c, b).
     case validStatus c of None \<Rightarrow> Inl ErrMalformedCommand | Some s \<Rightarrow> Inr (s, b))"

definition decodeVersion :: "bytes \<Rightarrow> fsm_error + Version \<times> bytes" where
  "decodeVersion b =
     (if length b < 8 + 1 then Inl ErrMalformedCommand
      else bindR (take_u64 ErrMalformedCommand b) (\<lambda>(seq, b).
           bindR (take_byte ErrMalformedCommand b) (\<lambda>(flag, b).
             if flag \<noteq> CHR 0x00
             then Inr (\<lparr>ver_CommitSeq = seq, ver_Value = [], ver_Tombstone = True\<rparr>, b)
             else bindR (take_u32 ErrMalformedCommand b) (\<lambda>(valLen, b).
                  bindR (take_n ErrMalformedCommand (unat valLen) b) (\<lambda>(val, b).
                    Inr (\<lparr>ver_CommitSeq = seq, ver_Value = val, ver_Tombstone = False\<rparr>, b))))))"

definition decodeChain :: "bytes \<Rightarrow> fsm_error + KeyChain \<times> bytes" where
  "decodeChain b =
     bindR (take_u32 ErrMalformedCommand b) (\<lambda>(keyLen, b).
     bindR (take_n ErrMalformedCommand (unat keyLen) b) (\<lambda>(key, b).
     bindR (take_counted ErrMalformedCommand (8 + 1) decodeVersion b) (\<lambda>(versions, b).
       Inr (\<lparr>kc_Key = key, kc_Versions = versions\<rparr>, b))))"

definition restored_outcome :: "string \<Rightarrow> Status \<Rightarrow> u64 \<Rightarrow> string \<Rightarrow> u64 \<Rightarrow> Outcome" where
  "restored_outcome rid status commitSeq key latest =
     \<lparr>out_RequestID = rid, out_Status = status,
      out_CommitSeq = (if status = StatusCommitted then commitSeq else 0),
      out_ConflictKey = key, out_ConflictLatestSeq = latest\<rparr>"

definition decodeOutcome :: "bytes \<Rightarrow> fsm_error + (string \<times> outcomeEntry) \<times> bytes" where
  "decodeOutcome b =
     bindR (take_u32 ErrMalformedCommand b) (\<lambda>(idLen, b).
     bindR (take_n ErrMalformedCommand (unat idLen) b) (\<lambda>(rid, b).
       if length b < 32 + 1 + 8 + 4 then Inl ErrMalformedCommand
       else bindR (take_n ErrMalformedCommand 32 b) (\<lambda>(fp, b).
            bindR (take_status b) (\<lambda>(status, b).
            bindR (take_u64 ErrMalformedCommand b) (\<lambda>(commitSeq, b).
            bindR (take_u32 ErrMalformedCommand b) (\<lambda>(keyLen, b).
            bindR (take_n ErrMalformedCommand (unat keyLen) b) (\<lambda>(key, b).
            bindR (take_u64 ErrMalformedCommand b) (\<lambda>(latest, b).
              Inr ((rid, \<lparr>oe_outcome = restored_outcome rid status commitSeq key latest,
                oe_fingerprint = fp\<rparr>), b)))))))))"

definition decodeControlOutcome :: "bytes \<Rightarrow> fsm_error + (string \<times> Outcome) \<times> bytes" where
  "decodeControlOutcome b =
     bindR (take_u32 ErrMalformedCommand b) (\<lambda>(idLen, b).
     bindR (take_n ErrMalformedCommand (unat idLen) b) (\<lambda>(rid, b).
       if length b < 1 + 8 then Inl ErrMalformedCommand
       else bindR (take_status b) (\<lambda>(status, b).
            bindR (take_u64 ErrMalformedCommand b) (\<lambda>(commitSeq, b).
              Inr ((rid, restored_outcome rid status commitSeq [] 0), b)))))"

definition decodeMembershipOutcome :: "bytes \<Rightarrow> fsm_error + (string \<times> outcomeEntry) \<times> bytes" where
  "decodeMembershipOutcome b =
     bindR (take_u32 ErrMalformedCommand b) (\<lambda>(idLen, b).
     bindR (take_n ErrMalformedCommand (unat idLen) b) (\<lambda>(rid, b).
       if length b < 32 + 1 + 8 then Inl ErrMalformedCommand
       else bindR (take_n ErrMalformedCommand 32 b) (\<lambda>(fp, b).
            bindR (take_status b) (\<lambda>(status, b).
            bindR (take_u64 ErrMalformedCommand b) (\<lambda>(commitSeq, b).
              Inr ((rid, \<lparr>oe_outcome = restored_outcome rid status commitSeq [] 0,
                oe_fingerprint = fp\<rparr>), b))))))"

text \<open>The trailing block: generation, control outcomes, membership outcomes, collector state.\<close>

type_synonym trailing_block =
  "u32 \<times> (string \<times> Outcome) list \<times> (string \<times> outcomeEntry) list \<times> u64 \<times> u64 \<times> u64 \<times> string"

definition decode_members_block :: "u32 \<Rightarrow> bytes \<Rightarrow> fsm_error + (string \<times> outcomeEntry) list \<times> bytes" where
  "decode_members_block generation b =
     (if generation \<ge> 2
      then take_counted ErrMalformedCommand (4 + 32 + 1 + 8) decodeMembershipOutcome b
      else Inr ([], b))"

definition decode_gc_block :: "u32 \<Rightarrow> bytes \<Rightarrow> fsm_error + (u64 \<times> u64 \<times> u64 \<times> string) \<times> bytes" where
  "decode_gc_block generation b =
     (if generation \<ge> 3
      then if length b < 8 + 8 + 8 + 4 then Inl ErrMalformedCommand
           else bindR (take_u64 ErrMalformedCommand b) (\<lambda>(watermark, b).
                bindR (take_u64 ErrMalformedCommand b) (\<lambda>(passes, b).
                bindR (take_u64 ErrMalformedCommand b) (\<lambda>(passSeq, b).
                bindR (take_u32 ErrMalformedCommand b) (\<lambda>(cursorLen, b).
                bindR (take_n ErrMalformedCommand (unat cursorLen) b) (\<lambda>(cursor, b).
                  Inr ((watermark, passes, passSeq, cursor), b))))))
      else Inr ((0, 0, 0, []), b))"

definition decode_trailing :: "bytes \<Rightarrow> fsm_error + trailing_block" where
  "decode_trailing b =
     (if length b = 0 then Inr (0, [], [], 0, 0, 0, [])
      else if length b < 8 then Inl ErrMalformedCommand
      else bindR (take_u32 ErrMalformedCommand b) (\<lambda>(generation, b).
           bindR (take_counted ErrMalformedCommand (4 + 1 + 8) decodeControlOutcome b) (\<lambda>(ctrl, b).
           bindR (decode_members_block generation b) (\<lambda>(members, b).
           bindR (decode_gc_block generation b) (\<lambda>((watermark, passes, passSeq, cursor), b).
             if length b \<noteq> 0 then Inl ErrMalformedCommand
             else Inr (generation, ctrl, members, watermark, passes, passSeq, cursor))))))"

definition bumpMax :: "u64 \<Rightarrow> u64 \<Rightarrow> u64" where
  "bumpMax maxSeq seq = (if seq > maxSeq then seq else maxSeq)"

definition committed_seqs :: "Outcome list \<Rightarrow> u64 list" where
  "committed_seqs ocs = map out_CommitSeq (filter (\<lambda>oc. out_Status oc = StatusCommitted) ocs)"

definition DecodeState :: "bytes \<Rightarrow> fsm_error + FSM \<times> u64" where
  "DecodeState data =
     (if length data < 1 + 4 then Inl ErrMalformedCommand
      else if data ! 0 \<noteq> fsmStateVersion then Inl ErrUnsupportedCommandVersion
      else bindR (take_counted ErrMalformedCommand (4 + 4) decodeChain (drop 1 data)) (\<lambda>(cs, b).
           bindR (take_counted ErrMalformedCommand (4 + 32 + 1 + 8 + 4 + 8) decodeOutcome b) (\<lambda>(outs, b).
           bindR (decode_trailing b) (\<lambda>(generation, ctrl, members, watermark, passes, passSeq, cursor).
             Inr (\<lparr>fsm_store = RestoreStore cs watermark, outcomes = mputs fst snd outs [],
                clusterGeneration = generation, controlOutcomes = mputs fst snd ctrl [],
                membershipOutcomes = mputs fst snd members [], gcWatermark = watermark,
                gcCursor = cursor, gcPasses = passes, gcPassSeq = passSeq\<rparr>,
               foldl bumpMax 0 (map ver_CommitSeq (concat (map kc_Versions cs))
                 @ committed_seqs (map (oe_outcome \<circ> snd) outs) @ committed_seqs (map snd ctrl)
                 @ committed_seqs (map (oe_outcome \<circ> snd) members)))))))"

section \<open>Reading back\<close>

lemma take_status_put [simp]: "take_status (status_byte s # r) = Inr (s, r)"
  by (cases s) (simp_all add: take_status_def validStatus_def)

definition version_ok :: "Version \<Rightarrow> bool" where
  "version_ok v \<longleftrightarrow> short (ver_Value v) \<and> (ver_Tombstone v \<longrightarrow> ver_Value v = [])"

lemma length_encodeVersion:
  "length (encodeVersion v) = 9 + (if ver_Tombstone v then 0 else 4 + length (ver_Value v))"
  by (simp add: encodeVersion_def)

interpretation verc: codec encodeVersion decodeVersion version_ok 9
proof unfold_locales
  fix v :: Version and r assume "version_ok v"
  then show "decodeVersion (encodeVersion v @ r) = Inr (v, r)"
    by (cases v) (simp add: version_ok_def decodeVersion_def encodeVersion_def bool_byte_def short_def)
qed (simp_all add: length_encodeVersion)

definition chain_ok :: "KeyChain \<Rightarrow> bool" where
  "chain_ok kc \<longleftrightarrow> short (kc_Key kc) \<and> (\<forall>v \<in> set (kc_Versions kc). version_ok v)"

lemma encodeChain_counted:
  "encodeChain kc = PutUint32 (len32 (kc_Key kc)) @ kc_Key kc @ counted encodeVersion (kc_Versions kc)"
  by (simp add: encodeChain_def counted_def)

interpretation chainc: bounded_codec encodeChain decodeChain chain_ok 8
proof unfold_locales
  fix kc :: KeyChain and r assume ok: "chain_ok kc" and l: "length (encodeChain kc @ r) < 2 ^ 32"
  have "take_counted ErrMalformedCommand 9 decodeVersion (counted encodeVersion (kc_Versions kc) @ r)
      = Inr (kc_Versions kc, r)"
    using ok l by (intro verc.take_counted_counted) (simp_all add: chain_ok_def encodeChain_counted)
  with ok show "decodeChain (encodeChain kc @ r) = Inr (kc, r)"
    by (simp add: chain_ok_def decodeChain_def encodeChain_counted short_def)
qed (simp_all add: encodeChain_def)

definition entry_ok :: "string \<times> outcomeEntry \<Rightarrow> bool" where
  "entry_ok = (\<lambda>(rid, e). short rid \<and> short (out_ConflictKey (oe_outcome e)) \<and> length (oe_fingerprint e) = 32
     \<and> out_RequestID (oe_outcome e) = rid
     \<and> (out_Status (oe_outcome e) \<noteq> StatusCommitted \<longrightarrow> out_CommitSeq (oe_outcome e) = 0))"

definition control_ok :: "string \<times> Outcome \<Rightarrow> bool" where
  "control_ok = (\<lambda>(rid, oc). short rid \<and> out_RequestID oc = rid \<and> no_conflict_info oc
     \<and> (out_Status oc \<noteq> StatusCommitted \<longrightarrow> out_CommitSeq oc = 0))"

definition member_ok :: "string \<times> outcomeEntry \<Rightarrow> bool" where
  "member_ok = (\<lambda>(rid, e). entry_ok (rid, e) \<and> no_conflict_info (oe_outcome e))"

lemma restored_outcome_same:
  assumes "out_RequestID oc = rid" "out_Status oc \<noteq> StatusCommitted \<longrightarrow> out_CommitSeq oc = 0"
  shows "restored_outcome rid (out_Status oc) (out_CommitSeq oc) (out_ConflictKey oc)
    (out_ConflictLatestSeq oc) = oc"
  using assms by (cases oc) (auto simp: restored_outcome_def)

interpretation outc: codec encodeOutcome decodeOutcome entry_ok 57
proof unfold_locales
  fix x and r assume "entry_ok x"
  then show "decodeOutcome (encodeOutcome x @ r) = Inr (x, r)"
    by (cases x) (auto simp: entry_ok_def decodeOutcome_def encodeOutcome_def short_def restored_outcome_same)
qed (auto simp: encodeOutcome_def entry_ok_def)

interpretation ctrlc: codec encodeControlOutcome decodeControlOutcome control_ok 13
proof unfold_locales
  fix x and r assume "control_ok x"
  then show "decodeControlOutcome (encodeControlOutcome x @ r) = Inr (x, r)"
    using restored_outcome_same [of "snd x" "fst x"]
    by (cases x) (auto simp: control_ok_def decodeControlOutcome_def encodeControlOutcome_def short_def
        no_conflict_info_def)
qed (auto simp: encodeControlOutcome_def)

interpretation memc: codec encodeMembershipOutcome decodeMembershipOutcome member_ok 45
proof unfold_locales
  fix x and r assume "member_ok x"
  then show "decodeMembershipOutcome (encodeMembershipOutcome x @ r) = Inr (x, r)"
    using restored_outcome_same [of "oe_outcome (snd x)" "fst x"]
    by (cases x) (auto simp: member_ok_def entry_ok_def decodeMembershipOutcome_def
        encodeMembershipOutcome_def short_def no_conflict_info_def)
qed (auto simp: encodeMembershipOutcome_def member_ok_def entry_ok_def)

section \<open>Equality of machines up to map order\<close>

definition store_equiv :: "Store \<Rightarrow> Store \<Rightarrow> bool" where
  "store_equiv s t \<longleftrightarrow> mget (chains s) = mget (chains t) \<and> orderedKeys s = orderedKeys t
     \<and> st_gcWatermark s = st_gcWatermark t \<and> skipHorizonGuardForTest s = skipHorizonGuardForTest t"

definition fsm_equiv :: "FSM \<Rightarrow> FSM \<Rightarrow> bool" where
  "fsm_equiv f g \<longleftrightarrow> store_equiv (fsm_store f) (fsm_store g) \<and> mget (outcomes f) = mget (outcomes g)
     \<and> clusterGeneration f = clusterGeneration g \<and> mget (controlOutcomes f) = mget (controlOutcomes g)
     \<and> mget (membershipOutcomes f) = mget (membershipOutcomes g) \<and> gcWatermark f = gcWatermark g
     \<and> gcCursor f = gcCursor g \<and> gcPasses f = gcPasses g \<and> gcPassSeq f = gcPassSeq g"

lemma store_equiv_chain_of: "store_equiv s t \<Longrightarrow> chain_of s = chain_of t"
  by (simp add: store_equiv_def chain_of_def fun_eq_iff)

lemma store_equiv_reads:
  assumes "store_equiv s t"
  shows "Visible s = Visible t" "CheckConflicts s q ms = CheckConflicts t q ms" "KeysFrom s = KeysFrom t"
proof -
  note c = store_equiv_chain_of [OF assms]
  show "Visible s = Visible t"
    using assms by (simp add: fun_eq_iff Visible_def c store_equiv_def)
  show "CheckConflicts s q ms = CheckConflicts t q ms"
    by (induction ms) (simp_all add: CheckConflicts_Cons LatestCommitSeq_chain c)
  show "KeysFrom s = KeysFrom t"
    using assms by (simp add: fun_eq_iff KeysFrom_def store_equiv_def)
qed

lemma store_equiv_apply_mutation:
  assumes "store_equiv s t"
  shows "store_equiv (apply_mutation c m s) (apply_mutation c m t)"
  using assms store_equiv_chain_of [OF assms]
  by (auto simp: store_equiv_def apply_mutation_def Let_def fun_eq_iff insertOrderedKeyLocked_def chain_of_def)

lemma store_equiv_ApplyCommit:
  assumes "store_equiv s t"
  shows "case ApplyCommit c ms s of Inl e \<Rightarrow> ApplyCommit c ms t = Inl e
    | Inr s' \<Rightarrow> \<exists>t'. ApplyCommit c ms t = Inr t' \<and> store_equiv s' t'"
proof -
  have "store_equiv (apply_all c ms s) (apply_all c ms t)"
    using assms by (induction ms arbitrary: s t) (simp_all add: store_equiv_apply_mutation)
  then show ?thesis
    using store_equiv_chain_of [OF assms] by (auto simp: ApplyCommit_eq fresh_def)
qed

lemma store_equiv_ReclaimKey:
  assumes "store_equiv s t"
  shows "store_equiv (fst (ReclaimKey k w b s)) (fst (ReclaimKey k w b t))"
    and "snd (ReclaimKey k w b s) = snd (ReclaimKey k w b t)"
  using assms store_equiv_chain_of [OF assms]
  by (auto simp: ReclaimKey_def Let_def store_equiv_def fun_eq_iff)

lemma store_equiv_gc_walk:
  "store_equiv s t \<Longrightarrow> store_equiv (fst (gc_walk w mv ks s r l)) (fst (gc_walk w mv ks t r l))
     \<and> snd (gc_walk w mv ks s r l) = snd (gc_walk w mv ks t r l)"
proof (induction ks arbitrary: s t r l)
  case (Cons k ks)
  let ?b = "uint mv - r"
  note eq = store_equiv_ReclaimKey [OF Cons.prems, of k w ?b]
  from Cons.IH [OF eq(1), of "r + snd (ReclaimKey k w ?b t)" k] eq(2) Cons.prems show ?case
    by (auto simp: case_prod_beta Let_def)
qed simp

lemma store_equiv_SetGCWatermark:
  "store_equiv s t \<Longrightarrow> store_equiv (SetGCWatermark w s) (SetGCWatermark w t)"
  by (simp add: store_equiv_def SetGCWatermark_max)

text \<open>Equivalent machines answer every entry alike and stay equivalent.\<close>

lemma fsm_equiv_lookup: "fsm_equiv f g \<Longrightarrow> lookupLocked f = lookupLocked g"
  by (simp add: fsm_equiv_def lookupLocked_def fun_eq_iff)

lemma fsm_equiv_Apply:
  assumes "fsm_equiv f g"
  shows "fsm_equiv (fst (Apply i cmd f)) (fst (Apply i cmd g)) \<and> snd (Apply i cmd f) = snd (Apply i cmd g)"
proof -
  have s: "store_equiv (fsm_store f) (fsm_store g)" and w: "gcWatermark f = gcWatermark g"
    using assms by (simp_all add: fsm_equiv_def)
  have rec: "fsm_equiv (record_outcome cmd oc f') (record_outcome cmd oc g')" if "fsm_equiv f' g'" for oc f' g'
    using that by (simp add: fsm_equiv_def record_outcome_def fun_eq_iff)
  have st: "fsm_equiv (f\<lparr>fsm_store := s'\<rparr>) (g\<lparr>fsm_store := t'\<rparr>)" if "store_equiv s' t'" for s' t'
    using assms that by (simp add: fsm_equiv_def)
  show ?thesis
    using store_equiv_ApplyCommit [OF s, of i "cmd_Mutations cmd"] assms
    by (auto simp: Apply_def Let_def fsm_equiv_lookup [OF assms] w store_equiv_reads [OF s] rec st
        split: sum.splits option.splits)
qed

lemma fsm_equiv_ApplySetClusterVersion:
  assumes "fsm_equiv f g"
  shows "fsm_equiv (fst (ApplySetClusterVersion i cmd f)) (fst (ApplySetClusterVersion i cmd g))
    \<and> snd (ApplySetClusterVersion i cmd f) = snd (ApplySetClusterVersion i cmd g)"
  using assms by (auto simp: ApplySetClusterVersion_def fsm_equiv_def fun_eq_iff split: option.splits)

lemma fsm_equiv_ApplyAdvanceGCWatermark:
  assumes "fsm_equiv f g"
  shows "fsm_equiv (fst (ApplyAdvanceGCWatermark i cmd f)) (fst (ApplyAdvanceGCWatermark i cmd g))
    \<and> snd (ApplyAdvanceGCWatermark i cmd f) = snd (ApplyAdvanceGCWatermark i cmd g)"
proof -
  have s: "store_equiv (fsm_store f) (fsm_store g)" using assms by (simp add: fsm_equiv_def)
  obtain s' r l b where f: "gc_walk (max (gcWatermark f) (gc_Watermark cmd)) (gc_MaxVersions cmd)
      (KeysFrom (fsm_store f) (gcCursor f) (uint (gc_MaxKeys cmd))) (fsm_store f) 0 [] = (s', r, l, b)"
    by (metis prod_cases4)
  with store_equiv_gc_walk [OF s] obtain t' where
    g: "gc_walk (max (gcWatermark f) (gc_Watermark cmd)) (gc_MaxVersions cmd)
      (KeysFrom (fsm_store f) (gcCursor f) (uint (gc_MaxKeys cmd))) (fsm_store g) 0 [] = (t', r, l, b)"
    and t: "store_equiv s' t'"
    by (metis fst_conv prod.collapse snd_conv)
  show ?thesis
    using assms f g store_equiv_SetGCWatermark [OF t] store_equiv_SetGCWatermark [OF s]
    by (auto simp: ApplyAdvanceGCWatermark_def fsm_equiv_def Let_def max_def fun_eq_iff
        store_equiv_reads [OF s] split: option.splits if_splits)
qed


lemma fsm_equiv_step: "fsm_equiv f g \<Longrightarrow> fsm_equiv (fsm_step (i, e) f) (fsm_step (i, e) g)"
  by (cases e)
    (simp_all add: fsm_equiv_Apply fsm_equiv_ApplySetClusterVersion fsm_equiv_ApplyAdvanceGCWatermark,
     auto simp: RecordMembershipOutcome_def fsm_equiv_def fun_eq_iff Let_def split: option.splits)

lemma fsm_equiv_run: "fsm_equiv f g \<Longrightarrow> fsm_equiv (fsm_run evs f) (fsm_run evs g)"
  by (induction evs arbitrary: f g) (auto simp: fsm_equiv_step simp del: fsm_step.simps)

lemma sorted_entries_cong:
  assumes "mwf m" "mwf m'" "mget m = mget m'"
  shows "sorted_entries m = sorted_entries m'"
proof -
  have "set m = set m'" using assms mget_in_set [OF assms(1)] mget_in_set [OF assms(2)] by auto
  then show ?thesis unfolding sorted_entries_def using assms(1,2) by (intro sort_key_unique) simp_all
qed

text \<open>The encoding depends on the maps, not on the order their entries happen to have.\<close>

lemma EncodeState_cong:
  assumes "fsm_equiv f g" "fsm_inv n f" "fsm_inv m g"
  shows "EncodeState f = EncodeState g"
proof -
  have "Export (fsm_store f) = Export (fsm_store g)"
    using assms by (intro Export_cong) (simp_all add: fsm_equiv_def store_equiv_def fsm_inv_def store_inv_def)
  moreover have "sorted_entries (outcomes f) = sorted_entries (outcomes g)"
    "sorted_entries (controlOutcomes f) = sorted_entries (controlOutcomes g)"
    "sorted_entries (membershipOutcomes f) = sorted_entries (membershipOutcomes g)"
    using assms by (auto simp: fsm_equiv_def fsm_inv_def intro!: sorted_entries_cong)
  ultimately show ?thesis 
    using assms(1) by (simp add: EncodeState_def encodeState_def encode_trailing_def fsm_equiv_def)
qed

lemma fsm_inv_equiv:
  assumes "fsm_equiv f g" "fsm_inv n g" "mwf (chains (fsm_store f))" "mwf (outcomes f)"
    "mwf (controlOutcomes f)" "mwf (membershipOutcomes f)"
  shows "fsm_inv n f"
proof -
  have s: "store_equiv (fsm_store f) (fsm_store g)" using assms(1) by (simp add: fsm_equiv_def)
  have "LatestCommitSeq (fsm_store f) = LatestCommitSeq (fsm_store g)"
    by (simp add: fun_eq_iff LatestCommitSeq_chain store_equiv_chain_of [OF s])
  moreover have "store_inv (fsm_store f)"
    using s assms(3) fsm_invD(1) [OF assms(2)] gm.keys_cong [of "chains (fsm_store f)" "chains (fsm_store g)"]
    by (simp add: store_equiv_def store_inv_def)
  ultimately show ?thesis using assms by (simp add: fsm_inv_def fsm_equiv_def store_equiv_def)
qed

section \<open>Restoring a snapshot\<close>

text \<open>The state the format keeps at each generation, and tombstones as commands make them.\<close>

definition snapshot_complete :: "FSM \<Rightarrow> bool" where
  "snapshot_complete f \<longleftrightarrow> (clusterGeneration f = 0 \<longrightarrow> controlOutcomes f = [])
     \<and> (clusterGeneration f < 2 \<longrightarrow> membershipOutcomes f = [])
     \<and> (clusterGeneration f < 3 \<longrightarrow> gcWatermark f = 0 \<and> gcCursor f = [] \<and> gcPasses f = 0 \<and> gcPassSeq f = 0)"

definition tombs_empty :: "Store \<Rightarrow> bool" where
  "tombs_empty s \<longleftrightarrow> (\<forall>kc \<in> set (Export s). \<forall>v \<in> set (kc_Versions kc). ver_Tombstone v \<longrightarrow> ver_Value v = [])"

lemma mputs_entries:
  assumes "mwf m"
  shows "mget (mputs fst snd (sorted_entries m) []) = mget m" "mwf (mputs fst snd (sorted_entries m) [])"
proof -
  have d: "mwf (sorted_entries m)" using assms by (simp add: sorted_entries_def distinct_map_sort_key)
  have "mget (mputs fst snd (sorted_entries m) []) k = mget (sorted_entries m) k" for k
    using mget_mputs_map_of [OF d, of snd k] by (simp add: mget_def)
  moreover have "mget (sorted_entries m) = mget m"
    by (rule mget_cong_set [OF d assms]) (simp add: sorted_entries_def)
  ultimately show "mget (mputs fst snd (sorted_entries m) []) = mget m" by (simp add: fun_eq_iff)
  show "mwf (mputs fst snd (sorted_entries m) [])" by (rule mwf_mputs) simp
qed

lemma set_sorted_entries [simp]: "set (sorted_entries m) = set m"
  by (simp add: sorted_entries_def)

text \<open>In an encoding below four gigabytes every item is one the codecs handle.\<close>

lemma entries_ok:
  assumes "fsm_inv n f"
  shows "length (concat (map encodeOutcome (sorted_entries (outcomes f)))) < 2 ^ 32
      \<Longrightarrow> \<forall>x \<in> set (sorted_entries (outcomes f)). entry_ok x"
    and "length (concat (map encodeControlOutcome (sorted_entries (controlOutcomes f)))) < 2 ^ 32
      \<Longrightarrow> \<forall>x \<in> set (sorted_entries (controlOutcomes f)). control_ok x"
    and "length (concat (map encodeMembershipOutcome (sorted_entries (membershipOutcomes f)))) < 2 ^ 32
      \<Longrightarrow> \<forall>x \<in> set (sorted_entries (membershipOutcomes f)). member_ok x"
proof -
  note inv = fsm_invD(9,10,11) [OF assms]
  show "\<forall>x \<in> set (sorted_entries (outcomes f)). entry_ok x"
    if "length (concat (map encodeOutcome (sorted_entries (outcomes f)))) < 2 ^ 32"
  proof
    fix x assume x: "x \<in> set (sorted_entries (outcomes f))"
    obtain rid e where e: "x = (rid, e)" by (cases x)
    then have "mget (outcomes f) rid = Some e" using x inv by (simp add: mget_in_set)
    note facts = fsm_invD(5,6) [OF assms this]
    have "length (encodeOutcome x) < 2 ^ 32" by (rule le_less_trans [OF length_enc_member [OF x] that])
    then show "entry_ok x"
      using facts by (simp add: e entry_ok_def encodeOutcome_def short_def outcome_wf_def)
  qed
  show "\<forall>x \<in> set (sorted_entries (controlOutcomes f)). control_ok x"
    if "length (concat (map encodeControlOutcome (sorted_entries (controlOutcomes f)))) < 2 ^ 32"
  proof
    fix x assume x: "x \<in> set (sorted_entries (controlOutcomes f))"
    obtain rid e where e: "x = (rid, e)" by (cases x)
    then have "mget (controlOutcomes f) rid = Some e" using x inv by (simp add: mget_in_set)
    note facts = fsm_invD(7) [OF assms this]
    have "length (encodeControlOutcome x) < 2 ^ 32" by (rule le_less_trans [OF length_enc_member [OF x] that])
    then show "control_ok x"
      using facts by (simp add: e control_ok_def encodeControlOutcome_def short_def outcome_wf_def)
  qed
  show "\<forall>x \<in> set (sorted_entries (membershipOutcomes f)). member_ok x"
    if "length (concat (map encodeMembershipOutcome (sorted_entries (membershipOutcomes f)))) < 2 ^ 32"
  proof
    fix x assume x: "x \<in> set (sorted_entries (membershipOutcomes f))"
    obtain rid e where e: "x = (rid, e)" by (cases x)
    then have "mget (membershipOutcomes f) rid = Some e" using x inv by (simp add: mget_in_set)
    note facts = fsm_invD(8) [OF assms this]
    have "length (encodeMembershipOutcome x) < 2 ^ 32" by (rule le_less_trans [OF length_enc_member [OF x] that])
    then show "member_ok x"
      using facts by (simp add: e member_ok_def encodeMembershipOutcome_def short_def outcome_wf_def entry_ok_def no_conflict_info_def)
  qed
qed

lemma chains_ok:
  assumes "tombs_empty s" "length (concat (map encodeChain (Export s))) < 2 ^ 32"
  shows "\<forall>kc \<in> set (Export s). chain_ok kc"
proof
  fix kc assume kc: "kc \<in> set (Export s)"
  then have l: "length (encodeChain kc) < 2 ^ 32" using le_less_trans [OF length_enc_member assms(2)] by blast
  have "version_ok v" if v: "v \<in> set (kc_Versions kc)" for v
  proof -
    have "length (encodeVersion v) \<le> length (concat (map encodeVersion (kc_Versions kc)))"
      by (rule length_enc_member [OF v])
    with l have "length (encodeVersion v) < 2 ^ 32" by (simp add: encodeChain_def)
    moreover have "ver_Tombstone v \<longrightarrow> ver_Value v = []" using assms(1) kc v by (simp add: tombs_empty_def)
    ultimately show ?thesis by (auto simp: version_ok_def length_encodeVersion short_def split: if_splits)
  qed
  with l show "chain_ok kc" by (simp add: chain_ok_def encodeChain_def short_def)
qed

text \<open>The trailing block reads back as the parts of the state that its generation keeps.\<close>

lemma decode_trailing_encode:
  assumes "fsm_inv n f" "snapshot_complete f"
    and t: "t = encode_trailing (clusterGeneration f) (controlOutcomes f) (membershipOutcomes f)
      (gcWatermark f) (gcCursor f) (gcPasses f) (gcPassSeq f)" "length t < 2 ^ 32"
  shows "decode_trailing t = Inr (clusterGeneration f, sorted_entries (controlOutcomes f),
    sorted_entries (membershipOutcomes f), gcWatermark f, gcPasses f, gcPassSeq f, gcCursor f)"
proof (cases "clusterGeneration f = 0")
  case True
  then show ?thesis
    using assms(2) t(1) by (simp add: encode_trailing_def decode_trailing_def snapshot_complete_def sorted_entries_def)
next
  case False
  let ?g = "clusterGeneration f"
  define gcb where "gcb = (if ?g \<ge> 3 then PutUint64 (gcWatermark f) @ PutUint64 (gcPasses f)
    @ PutUint64 (gcPassSeq f) @ PutUint32 (len32 (gcCursor f)) @ gcCursor f else [])"
  define memb where "memb = (if ?g \<ge> 2
    then counted encodeMembershipOutcome (sorted_entries (membershipOutcomes f)) else [])"
  have t': "t = PutUint32 ?g @ counted encodeControlOutcome (sorted_entries (controlOutcomes f)) @ memb @ gcb"
    using False t(1) by (simp add: encode_trailing_def gcb_def memb_def word_gt_0)
  have l: "length (counted encodeControlOutcome (sorted_entries (controlOutcomes f)) @ memb @ gcb) < 2 ^ 32"
    using t(2) t' by simp
  have 1: "take_counted ErrMalformedCommand 13 decodeControlOutcome
      (counted encodeControlOutcome (sorted_entries (controlOutcomes f)) @ memb @ gcb)
      = Inr (sorted_entries (controlOutcomes f), memb @ gcb)"
    using l by (intro ctrlc.take_counted_counted entries_ok(2) [OF assms(1)]) (simp_all add: length_counted)
  have 2: "decode_members_block ?g (memb @ gcb) = Inr (sorted_entries (membershipOutcomes f), gcb)"
  proof (cases "?g \<ge> 2")
    case True
    then show ?thesis
      using l memc.take_counted_counted [OF entries_ok(3) [OF assms(1)], of gcb ErrMalformedCommand]
      by (simp add: memb_def length_counted decode_members_block_def)
  next
    case False
    then have "?g < 2" by simp
    then show ?thesis
      using False assms(2)
      by (simp add: memb_def snapshot_complete_def sorted_entries_def decode_members_block_def)
  qed
  have 3: "decode_gc_block ?g gcb = Inr ((gcWatermark f, gcPasses f, gcPassSeq f, gcCursor f), [])"
  proof (cases "?g \<ge> 3")
    case True
    then have "length (gcCursor f) < 2 ^ 32" using l by (simp add: gcb_def)
    then show ?thesis
      using True take_n_append [of "length (gcCursor f)" "gcCursor f" ErrMalformedCommand "[]"]
      by (simp add: gcb_def decode_gc_block_def)
  next
    case False
    then have "?g < 3" by simp
    then show ?thesis using False assms(2) by (simp add: gcb_def snapshot_complete_def decode_gc_block_def)
  qed
  have "decode_trailing (PutUint32 ?g @ counted encodeControlOutcome (sorted_entries (controlOutcomes f)) @ memb @ gcb)
    = Inr (?g, sorted_entries (controlOutcomes f),
    sorted_entries (membershipOutcomes f), gcWatermark f, gcPasses f, gcPassSeq f, gcCursor f)"
    unfolding decode_trailing_def using 1 2 3 by (simp add: length_counted)
  then show ?thesis by (simp add: t')
qed

lemma bumpMax_le: "m \<le> n \<Longrightarrow> \<forall>q \<in> set qs. q \<le> n \<Longrightarrow> foldl bumpMax m qs \<le> n"
  by (induction qs arbitrary: m) (auto simp: bumpMax_def)

lemma Export_chain:
  assumes "store_inv s" "kc \<in> set (Export s)"
  shows "kc_Versions kc = chain_of s (kc_Key kc)"
  using assms mget_in_set [of "chains s" "kc_Key kc" "kc_Versions kc"]
  by (auto simp: Export_def chain_of_def store_inv_def)

lemma fsm_inv_seqs:
  assumes "fsm_inv n f" "kc \<in> set (Export (fsm_store f))" "v \<in> set (kc_Versions kc)"
  shows "ver_CommitSeq v \<le> n"
proof -
  note s = fsm_invD(1) [OF assms(1)]
  have v: "v \<in> set (chain_of (fsm_store f) (kc_Key kc))" using Export_chain [OF s assms(2)] assms(3) by simp
  then have "LatestCommitSeq (fsm_store f) (kc_Key kc)
      = Some (ver_CommitSeq (last (chain_of (fsm_store f) (kc_Key kc))))"
    by (auto simp: LatestCommitSeq_chain)
  from fsm_invD(4) [OF assms(1) this] chain_sorted_last [OF store_inv_chain [OF s] v]
  show ?thesis by auto
qed

lemma committed_seqs_le:
  assumes "fsm_inv n f"
  shows "q \<in> set (committed_seqs (map (oe_outcome \<circ> snd) (sorted_entries (outcomes f)))) \<Longrightarrow> q \<le> n"
    and "q \<in> set (committed_seqs (map snd (sorted_entries (controlOutcomes f)))) \<Longrightarrow> q \<le> n"
    and "q \<in> set (committed_seqs (map (oe_outcome \<circ> snd) (sorted_entries (membershipOutcomes f)))) \<Longrightarrow> q \<le> n"
proof -
  note get = mget_in_set [symmetric, OF fsm_invD(9) [OF assms]]
    mget_in_set [symmetric, OF fsm_invD(10) [OF assms]] mget_in_set [symmetric, OF fsm_invD(11) [OF assms]]
  show "q \<in> set (committed_seqs (map (oe_outcome \<circ> snd) (sorted_entries (outcomes f)))) \<Longrightarrow> q \<le> n"
    using fsm_invD(5) [OF assms] by (auto simp: committed_seqs_def get(1) outcome_wf_def)
  show "q \<in> set (committed_seqs (map snd (sorted_entries (controlOutcomes f)))) \<Longrightarrow> q \<le> n"
    using fsm_invD(7) [OF assms] by (auto simp: committed_seqs_def get(2) outcome_wf_def)
  show "q \<in> set (committed_seqs (map (oe_outcome \<circ> snd) (sorted_entries (membershipOutcomes f)))) \<Longrightarrow> q \<le> n"
    using fsm_invD(8) [OF assms] by (auto simp: committed_seqs_def get(3) outcome_wf_def)
qed

text \<open>The machine that \<open>DecodeState\<close> builds from an encoding, and what it has in common with
  the one encoded.\<close>

definition restored :: "FSM \<Rightarrow> FSM" where
  "restored f = f\<lparr>fsm_store := RestoreStore (Export (fsm_store f)) (gcWatermark f),
     outcomes := mputs fst snd (sorted_entries (outcomes f)) [],
     controlOutcomes := mputs fst snd (sorted_entries (controlOutcomes f)) [],
     membershipOutcomes := mputs fst snd (sorted_entries (membershipOutcomes f)) []\<rparr>"

lemma restored_equiv:
  assumes "fsm_inv n f"
  shows "fsm_equiv (restored f) f" "fsm_inv n (restored f)"
proof -
  note inv = fsm_invD [OF assms]
  show eq: "fsm_equiv (restored f) f"
    using inv
    by (simp add: fsm_equiv_def restored_def store_equiv_def mputs_entries mget_RestoreStore_Export
        orderedKeys_RestoreStore_Export) (simp add: RestoreStore_def)
  show "fsm_inv n (restored f)"
    using store_inv_RestoreStore_Export [OF inv(1), of "gcWatermark f"] inv
    by (intro fsm_inv_equiv [OF eq assms]) (simp_all add: restored_def mputs_entries store_inv_def)
qed

lemma DecodeState_restored:
  assumes "fsm_inv n f" "tombs_empty (fsm_store f)" "snapshot_complete f" "length (EncodeState f) < 2 ^ 32"
  shows "\<exists>m. DecodeState (EncodeState f) = Inr (restored f, m) \<and> m \<le> n"
proof -
  define t where "t = encode_trailing (clusterGeneration f) (controlOutcomes f) (membershipOutcomes f)
      (gcWatermark f) (gcCursor f) (gcPasses f) (gcPassSeq f)"
  let ?cs = "Export (fsm_store f)" and ?os = "sorted_entries (outcomes f)"
  have E: "EncodeState f = fsmStateVersion # counted encodeChain ?cs @ counted encodeOutcome ?os @ t"
    by (simp add: EncodeState_def encodeState_def t_def)
  note l = assms(4) [unfolded E]
  have 1: "take_counted ErrMalformedCommand 8 decodeChain (counted encodeChain ?cs @ counted encodeOutcome ?os @ t)
      = Inr (?cs, counted encodeOutcome ?os @ t)"
    using l by (intro chainc.take_counted_counted chains_ok assms(2)) (simp_all add: length_counted)
  have 2: "take_counted ErrMalformedCommand 57 decodeOutcome (counted encodeOutcome ?os @ t) = Inr (?os, t)"
    using l by (intro outc.take_counted_counted entries_ok(1) [OF assms(1)]) (simp_all add: length_counted)
  have 3: "decode_trailing t = Inr (clusterGeneration f, sorted_entries (controlOutcomes f),
      sorted_entries (membershipOutcomes f), gcWatermark f, gcPasses f, gcPassSeq f, gcCursor f)"
    using l by (intro decode_trailing_encode [OF assms(1,3) t_def]) simp
  let ?qs = "map ver_CommitSeq (concat (map kc_Versions ?cs))
    @ committed_seqs (map (oe_outcome \<circ> snd) ?os) @ committed_seqs (map snd (sorted_entries (controlOutcomes f)))
    @ committed_seqs (map (oe_outcome \<circ> snd) (sorted_entries (membershipOutcomes f)))"
  have "foldl bumpMax 0 ?qs \<le> n"
    by (rule bumpMax_le) (use fsm_inv_seqs [OF assms(1)] committed_seqs_le [OF assms(1)] in auto)
  moreover have "DecodeState (EncodeState f) = Inr (restored f, foldl bumpMax 0 ?qs)"
    unfolding E DecodeState_def by (simp add: length_counted 1 2 3 restored_def)
  ultimately show ?thesis by blast
qed

text \<open>
  Claim C25. A snapshot restores the state it was taken of. For a machine whose blocks its
  generation keeps and whose encoding is below four gigabytes, \<open>DecodeState\<close> accepts what
  \<open>EncodeState\<close> wrote and returns the same machine up to the order of map entries, which
  satisfies the same invariant; and the largest sequence number it reports is not beyond
  the last applied index.
\<close>

theorem DecodeState_EncodeState:
  assumes "fsm_inv n f" "tombs_empty (fsm_store f)" "snapshot_complete f" "length (EncodeState f) < 2 ^ 32"
  shows "\<exists>f' m. DecodeState (EncodeState f) = Inr (f', m) \<and> fsm_equiv f' f \<and> fsm_inv n f' \<and> m \<le> n"
  using DecodeState_restored [OF assms] restored_equiv [OF assms(1)] by blast

definition finalized_fsm :: FSM where
  "finalized_fsm = (NewFSM demo_store)\<lparr>clusterGeneration := 1,
     controlOutcomes := [(''fin'', committed_outcome ''fin'' 6)]\<rparr>"

lemma Export_demo: "Export demo_store =
    [\<lparr>kc_Key = ''a'', kc_Versions = [mk_version 3 (put_mut ''a'' ''x''), mk_version 5 (put_mut ''a'' ''z'')]\<rparr>,
     \<lparr>kc_Key = ''b'', kc_Versions = [mk_version 3 (put_mut ''b'' ''y''), mk_version 5 (del_mut ''b'')]\<rparr>]"
  by code_simp

lemma finalized_fsm_ok:
  "fsm_inv 6 finalized_fsm" "tombs_empty (fsm_store finalized_fsm)" "snapshot_complete finalized_fsm"
  "length (EncodeState finalized_fsm) < 2 ^ 32"
proof -
  have "st_gcWatermark demo_store = 0" "\<not> skipHorizonGuardForTest demo_store" by code_simp+
  then show "fsm_inv 6 finalized_fsm"
    using store_inv_demo latest_demo_store
    by (auto simp: fsm_inv_def finalized_fsm_def NewFSM_def mget_def)
  show "tombs_empty (fsm_store finalized_fsm)"
    by (simp add: tombs_empty_def finalized_fsm_def NewFSM_def Export_demo mk_version_def put_mut_def del_mut_def)
  show "snapshot_complete finalized_fsm" by (simp add: snapshot_complete_def finalized_fsm_def NewFSM_def)
  show "length (EncodeState finalized_fsm) < 2 ^ 32"
    by (simp add: EncodeState_def encodeState_def encode_trailing_def finalized_fsm_def NewFSM_def Export_demo
        length_counted encodeChain_counted length_encodeVersion mk_version_def put_mut_def del_mut_def
        sorted_entries_def encodeControlOutcome_def)
qed

theorem DecodeState_EncodeState_witness:
  "\<exists>f' m. DecodeState (EncodeState finalized_fsm) = Inr (f', m) \<and> fsm_equiv f' finalized_fsm
     \<and> fsm_inv 6 f' \<and> m \<le> 6"
  by (rule DecodeState_EncodeState [OF finalized_fsm_ok])

lemma fsm_equiv_RecordMembershipOutcome:
  "fsm_equiv f g \<Longrightarrow> snd (RecordMembershipOutcome rid kind nodeID address oc f) = snd (RecordMembershipOutcome rid kind nodeID address oc g)"
  by (auto simp: RecordMembershipOutcome_def fsm_equiv_def fun_eq_iff Let_def split: option.splits)

lemma store_equiv_scan:
  assumes "store_equiv s t"
  shows "ScanVisible s = ScanVisible t"
proof -
  have "scan_loop s p q ks = scan_loop t p q ks" for p q ks
    by (induction ks) (simp_all add: store_equiv_chain_of [OF assms] Let_def)
  then show ?thesis using assms by (simp add: fun_eq_iff ScanVisible_def store_equiv_def)
qed

text \<open>
  Claim C15. A replica restored from a complete snapshot cannot be told from one that was never restarted. The snapshot is
  of a machine of the invariant whose tombstones carry no value, whose encoding is below four gigabytes, and whose
  generation writes every block that the machine has something in (\<open>snapshot_complete\<close>: no control outcome at
  generation 0, no membership outcome below 2, no collector state below 3; at generation 3 and above it always holds). After
  any further history the two have byte-identical snapshots; the next command gets the same answer from both, be it a
  commit, a version change, a collector command or a membership change; a look-up of any request identifier
  gives the same outcome; and every read and scan of every snapshot is served alike.
\<close>

theorem restored_replica_indistinguishable:
  assumes "fsm_inv n f" "tombs_empty (fsm_store f)" "snapshot_complete f" "length (EncodeState f) < 2 ^ 32"
    "history n evs" "g = fsm_run evs f"
  shows "\<exists>f' m g'. DecodeState (EncodeState f) = Inr (f', m) \<and> g' = fsm_run evs f'
    \<and> EncodeState g' = EncodeState g
    \<and> (\<forall>i cmd. snd (Apply i cmd g') = snd (Apply i cmd g))
    \<and> (\<forall>i cmd. snd (ApplySetClusterVersion i cmd g') = snd (ApplySetClusterVersion i cmd g))
    \<and> (\<forall>i cmd. snd (ApplyAdvanceGCWatermark i cmd g') = snd (ApplyAdvanceGCWatermark i cmd g))
    \<and> (\<forall>rid kind nodeID address oc. snd (RecordMembershipOutcome rid kind nodeID address oc g')
         = snd (RecordMembershipOutcome rid kind nodeID address oc g))
    \<and> Precheck g' = Precheck g \<and> GetOutcome g' = GetOutcome g \<and> GetMembershipOutcome g' = GetMembershipOutcome g
    \<and> Visible (fsm_store g') = Visible (fsm_store g) \<and> ScanVisible (fsm_store g') = ScanVisible (fsm_store g)"
proof -
  obtain m where m: "DecodeState (EncodeState f) = Inr (restored f, m)"
    using DecodeState_restored [OF assms(1-4)] by blast
  note inv = restored_equiv [OF assms(1)]
  let ?g = "fsm_run evs (restored f)"
  have eq: "fsm_equiv ?g g" unfolding assms(6) by (rule fsm_equiv_run [OF inv(1)])
  then have s: "store_equiv (fsm_store ?g) (fsm_store g)" by (simp add: fsm_equiv_def)
  have "EncodeState ?g = EncodeState g"
    using EncodeState_cong [OF eq fsm_inv_run [OF inv(2) assms(5)]] fsm_inv_run [OF assms(1,5)] assms(6) by blast
  moreover have "Precheck ?g = Precheck g" "GetOutcome ?g = GetOutcome g" "GetMembershipOutcome ?g = GetMembershipOutcome g"
    using eq fsm_equiv_lookup [OF eq] by (simp_all add: fun_eq_iff Precheck_def GetOutcome_def GetMembershipOutcome_def fsm_equiv_def)
  ultimately show ?thesis
    using m store_equiv_reads(1) [OF s] store_equiv_scan [OF s] fsm_equiv_Apply [OF eq] fsm_equiv_ApplySetClusterVersion [OF eq]
      fsm_equiv_ApplyAdvanceGCWatermark [OF eq] fsm_equiv_RecordMembershipOutcome [OF eq]
    by (intro exI [of _ "restored f"] exI [of _ m] exI [of _ ?g]) blast
qed

theorem restored_replica_indistinguishable_witness:
  "\<exists>f' m. DecodeState (EncodeState finalized_fsm) = Inr (f', m)
    \<and> Visible (fsm_store (fsm_run [(7, EvCommit demo_cmd)] f'))
        = Visible (fsm_store (fsm_run [(7, EvCommit demo_cmd)] finalized_fsm))"
proof -
  have "history 6 [(7, EvCommit demo_cmd)]" by (simp add: demo_cmd_def put_mut_def del_mut_def)
  from restored_replica_indistinguishable [OF finalized_fsm_ok this refl] show ?thesis by blast
qed

definition early_request :: SetClusterVersionCommand where
  "early_request = \<lparr>scv_RequestID = ''early'', scv_TargetGeneration = 2\<rparr>"

definition finalize_request :: SetClusterVersionCommand where
  "finalize_request = \<lparr>scv_RequestID = ''fin'', scv_TargetGeneration = 1\<rparr>"

text \<open>
  Claim C40. A snapshot taken before the first finalisation loses rejected control commands,
  and that can make replicas diverge. A request to move to generation 2 is rejected at
  generation 0; a replica restored from a snapshot of that state does not remember it. Once
  generation 1 is finalised on both, applying the same rejected request again leaves the
  replica that kept running at generation 1 and moves the restored one to generation 2.
\<close>

theorem rejected_request_diverges_after_snapshot:
  "\<exists>f' m. DecodeState (EncodeState (fsm_run [(1, EvSetVersion early_request)] (NewFSM NewStore))) = Inr (f', m)
    \<and> clusterGeneration (fsm_run [(1, EvSetVersion early_request), (2, EvSetVersion finalize_request),
        (3, EvSetVersion early_request)] (NewFSM NewStore)) = 1
    \<and> clusterGeneration (fsm_run [(2, EvSetVersion finalize_request), (3, EvSetVersion early_request)] f') = 2"
proof -
  let ?new = "NewFSM NewStore"
  have "EncodeState (fsm_run [(1, EvSetVersion early_request)] ?new) = EncodeState ?new"
    by (simp add: EncodeState_def encodeState_def encode_trailing_def ApplySetClusterVersion_def NewFSM_def
        early_request_def)
  moreover have "restored ?new = ?new"
    by (simp add: restored_def NewFSM_def NewStore_def Export_def RestoreStore_def sorted_entries_def)
  moreover have "\<exists>m. DecodeState (EncodeState ?new) = Inr (restored ?new, m) \<and> m \<le> 0"
    by (rule DecodeState_restored [OF fsm_inv_NewFSM])
      (simp_all add: NewFSM_def NewStore_def tombs_empty_def Export_def snapshot_complete_def EncodeState_def
        encodeState_def encode_trailing_def length_counted sorted_entries_def)
  ultimately obtain m where "DecodeState (EncodeState (fsm_run [(1, EvSetVersion early_request)] ?new))
      = Inr (?new, m)" by auto
  moreover have "clusterGeneration (fsm_run [(1, EvSetVersion early_request),
      (2, EvSetVersion finalize_request), (3, EvSetVersion early_request)] ?new) = 1"
    and "clusterGeneration (fsm_run [(2, EvSetVersion finalize_request), (3, EvSetVersion early_request)] ?new) = 2"
    by (simp_all add: ApplySetClusterVersion_def NewFSM_def early_request_def finalize_request_def)
  ultimately show ?thesis by blast
qed

end
