(* ===== verification/Raft_Types.thy ===== *)
theory Raft_Types
  imports Codec
begin

text \<open>
  The data of the consensus core, \<^verbatim>\<open>internal/raft\<close>: entries, configurations, messages, inputs,
  outputs (\<^verbatim>\<open>types.go\<close>, \<^verbatim>\<open>messages.go\<close>, \<^verbatim>\<open>io.go\<close>), the static configuration of a node (\<^verbatim>\<open>config.go\<close>),
  and the durable storage a driver applies persist requests to (\<^verbatim>\<open>storage.go\<close>).

  Terms and log indices are natural numbers. In Go they are \<open>uint64\<close>; they grow by one per
  election or entry, so a wrap-around is out of reach, and a message that carries a value
  near the limit is outside what is modelled. The source of randomness of the election
  timer (\<open>Config.Rand\<close>) is a parameter of the configuration: the value of the k-th draw. The
  core counts its draws.
\<close>

section \<open>Entries and configurations\<close>

type_synonym NodeID = string
type_synonym Term = nat
type_synonym Index = nat

datatype Role = Follower | Candidate | Leader

datatype EntryType = EntryNormal | EntryConfig

record Entry =
  ent_Index :: Index
  ent_Term :: Term
  ent_Type :: EntryType
  ent_Data :: bytes

record Member =
  mem_ID :: NodeID
  mem_Address :: string

record Configuration =
  Voters :: "Member list"
  Learners :: "Member list"

definition noConfig :: Configuration where
  "noConfig = \<lparr>Voters = [], Learners = []\<rparr>"

definition Majority :: "Configuration \<Rightarrow> nat" where
  "Majority c = length (Voters c) div 2 + 1"

definition IsVoter :: "Configuration \<Rightarrow> NodeID \<Rightarrow> bool" where
  "IsVoter c i = list_ex (\<lambda>m. mem_ID m = i) (Voters c)"

definition IsLearner :: "Configuration \<Rightarrow> NodeID \<Rightarrow> bool" where
  "IsLearner c i = list_ex (\<lambda>m. mem_ID m = i) (Learners c)"

definition IsMember :: "Configuration \<Rightarrow> NodeID \<Rightarrow> bool" where
  "IsMember c i \<longleftrightarrow> IsVoter c i \<or> IsLearner c i"

definition IsZero :: "Configuration \<Rightarrow> bool" where
  "IsZero c \<longleftrightarrow> length (Voters c) = 0 \<and> length (Learners c) = 0"

fun membersEqual :: "Member list \<Rightarrow> Member list \<Rightarrow> bool" where
  "membersEqual [] [] = True"
| "membersEqual (a # as) (b # bs) = (mem_ID a = mem_ID b \<and> mem_Address a = mem_Address b \<and> membersEqual as bs)"
| "membersEqual _ _ = False"

definition ConfigurationEqual :: "Configuration \<Rightarrow> Configuration \<Rightarrow> bool" where
  "ConfigurationEqual c d \<longleftrightarrow> membersEqual (Voters c) (Voters d) \<and> membersEqual (Learners c) (Learners d)"

record HardState =
  hs_CurrentTerm :: Term
  hs_VotedFor :: NodeID

abbreviation (input) noVote :: NodeID where
  "noVote \<equiv> []"

section \<open>Messages\<close>

datatype MessageType =
    MsgRequestVoteRequest
  | MsgRequestVoteResponse
  | MsgAppendEntriesRequest
  | MsgAppendEntriesResponse
  | MsgInstallSnapshotRequest
  | MsgInstallSnapshotResponse

record Message =
  msg_Type :: MessageType
  msg_From :: NodeID
  msg_To :: NodeID
  msg_Term :: Term
  msg_LastLogIndex :: Index
  msg_LastLogTerm :: Term
  msg_VoteGranted :: bool
  msg_PrevLogIndex :: Index
  msg_PrevLogTerm :: Term
  msg_Entries :: "Entry list"
  msg_LeaderCommit :: Index
  msg_Success :: bool
  msg_MatchIndex :: Index
  msg_ConflictIndex :: Index
  msg_ConflictTerm :: Term
  msg_LastIncludedIndex :: Index
  msg_LastIncludedTerm :: Term
  msg_SnapshotData :: bytes
  msg_Configuration :: Configuration
  msg_HasConfiguration :: bool
  msg_Seq :: u64
  msg_SenderGeneration :: u32

text \<open>A message literal: the fields that are not named are zero.\<close>

definition mkMessage :: "MessageType \<Rightarrow> NodeID \<Rightarrow> NodeID \<Rightarrow> Term \<Rightarrow> Message" where
  "mkMessage t from dest trm =
     \<lparr>msg_Type = t, msg_From = from, msg_To = dest, msg_Term = trm, msg_LastLogIndex = 0, msg_LastLogTerm = 0,
      msg_VoteGranted = False, msg_PrevLogIndex = 0, msg_PrevLogTerm = 0, msg_Entries = [],
      msg_LeaderCommit = 0, msg_Success = False, msg_MatchIndex = 0, msg_ConflictIndex = 0,
      msg_ConflictTerm = 0, msg_LastIncludedIndex = 0, msg_LastIncludedTerm = 0, msg_SnapshotData = [],
      msg_Configuration = noConfig, msg_HasConfiguration = False, msg_Seq = 0, msg_SenderGeneration = 0\<rparr>"

lemma mkMessage_simps [simp]:
  "msg_Type (mkMessage t f d n) = t" "msg_From (mkMessage t f d n) = f" "msg_To (mkMessage t f d n) = d"
  "msg_Term (mkMessage t f d n) = n" "msg_VoteGranted (mkMessage t f d n) = False"
  "msg_Success (mkMessage t f d n) = False" "msg_Entries (mkMessage t f d n) = []"
  "msg_MatchIndex (mkMessage t f d n) = 0"
  by (simp_all add: mkMessage_def)

section \<open>Inputs and outputs of the core\<close>

datatype Input =
    InputElectionTimeout
  | InputHeartbeatTimeout
  | InputMessage Message
  | InputPropose bytes
  | InputPersistenceComplete nat

record PersistRequest =
  pr_Seq :: nat
  pr_HardState :: "HardState option"
  pr_TruncateFrom :: Index
  pr_Entries :: "Entry list"

record Output =
  out_Messages :: "Message list"
  out_PersistRequest :: "PersistRequest option"
  out_ResetElectionTimer :: bool
  out_ElectionTimeoutTicks :: int
  out_ResetHeartbeatTimer :: bool
  out_HeartbeatTimeoutTicks :: int
  out_CommittedEntries :: "Entry list"
  out_BecameLeader :: bool
  out_SteppedDown :: bool
  out_ProposalRejected :: bool
  out_LeaderHint :: NodeID

definition noOutput :: Output where
  "noOutput = \<lparr>out_Messages = [], out_PersistRequest = None, out_ResetElectionTimer = False,
     out_ElectionTimeoutTicks = 0, out_ResetHeartbeatTimer = False, out_HeartbeatTimeoutTicks = 0,
     out_CommittedEntries = [], out_BecameLeader = False, out_SteppedDown = False,
     out_ProposalRejected = False, out_LeaderHint = []\<rparr>"

definition emit :: "Message \<Rightarrow> Output \<Rightarrow> Output" where
  "emit m out = out\<lparr>out_Messages := out_Messages out @ [m]\<rparr>"

section \<open>Node configuration\<close>

record Config =
  cfg_ID :: NodeID
  cfg_Bootstrap :: Configuration
  cfg_ElectionTimeoutTicks :: int
  cfg_ElectionTimeoutJitterTicks :: int
  cfg_HeartbeatTimeoutTicks :: int
  cfg_Rand :: "nat \<Rightarrow> int \<Rightarrow> int"

text \<open>The check that \<open>Rand\<close> is not nil has no counterpart: the parameter is always a function.\<close>

definition validate :: "Config \<Rightarrow> bool" where
  "validate c \<longleftrightarrow> cfg_ID c \<noteq> []
     \<and> (length (Voters (cfg_Bootstrap c)) > 0 \<or> length (Learners (cfg_Bootstrap c)) > 0
          \<longrightarrow> IsMember (cfg_Bootstrap c) (cfg_ID c))
     \<and> \<not> cfg_ElectionTimeoutTicks c \<le> 0
     \<and> \<not> cfg_ElectionTimeoutJitterTicks c < 0
     \<and> \<not> cfg_HeartbeatTimeoutTicks c \<le> 0"

text \<open>The k-th draw: the ticks and the number of draws made afterwards.\<close>

definition electionTimeout :: "Config \<Rightarrow> nat \<Rightarrow> int \<times> nat" where
  "electionTimeout c k =
     (if cfg_ElectionTimeoutJitterTicks c = 0 then (cfg_ElectionTimeoutTicks c, k)
      else (cfg_ElectionTimeoutTicks c + cfg_Rand c k (cfg_ElectionTimeoutJitterTicks c + 1), k + 1))"

section \<open>Durable storage\<close>

text \<open>
  The \<open>Storage\<close> interface of \<^verbatim>\<open>storage.go\<close> as its documentation states it: a hard state and a
  log of entries; \<open>Truncate\<close> drops the entries from an index on, \<open>Append\<close> adds entries after
  the last one. An I/O error is the driver's business and has no state.
\<close>

record Storage =
  sto_HardState :: HardState
  sto_Entries :: "Entry list"

definition sto_Truncate :: "Index \<Rightarrow> Storage \<Rightarrow> Storage" where
  "sto_Truncate from s = s\<lparr>sto_Entries := filter (\<lambda>e. ent_Index e < from) (sto_Entries s)\<rparr>"

definition sto_Append :: "Entry list \<Rightarrow> Storage \<Rightarrow> Storage" where
  "sto_Append es s = s\<lparr>sto_Entries := sto_Entries s @ es\<rparr>"

definition sto_SetHardState :: "HardState \<Rightarrow> Storage \<Rightarrow> Storage" where
  "sto_SetHardState hs s = s\<lparr>sto_HardState := hs\<rparr>"

definition ApplyPersistRequest :: "PersistRequest option \<Rightarrow> Storage \<Rightarrow> Storage" where
  "ApplyPersistRequest pr s =
     (case pr of
        None \<Rightarrow> s
      | Some p \<Rightarrow>
          let s1 = (if pr_TruncateFrom p \<noteq> 0 then sto_Truncate (pr_TruncateFrom p) s else s);
              s2 = (if length (pr_Entries p) \<noteq> 0 then sto_Append (pr_Entries p) s1 else s1)
          in (case pr_HardState p of None \<Rightarrow> s2 | Some hs \<Rightarrow> sto_SetHardState hs s2))"

section \<open>Votes and majorities\<close>

definition voter_ids :: "Configuration \<Rightarrow> NodeID set" where
  "voter_ids c = mem_ID ` set (Voters c)"

lemma IsVoter_iff: "IsVoter c i \<longleftrightarrow> i \<in> voter_ids c"
  by (auto simp: IsVoter_def voter_ids_def list_ex_iff)

lemma IsZero_iff: "IsZero c \<longleftrightarrow> c = noConfig"
  by (cases c) (simp add: IsZero_def noConfig_def)

text \<open>A quorum of a configuration with pairwise different voters: a set of them as large as
  \<open>Majority\<close> asks for. Two quorums of one configuration meet.\<close>

definition wf_config :: "Configuration \<Rightarrow> bool" where
  "wf_config c \<longleftrightarrow> distinct (map mem_ID (Voters c @ Learners c))"

definition quorum :: "Configuration \<Rightarrow> NodeID set \<Rightarrow> bool" where
  "quorum c Q \<longleftrightarrow> Q \<subseteq> voter_ids c \<and> Majority c \<le> card Q"

lemma finite_voter_ids [simp]: "finite (voter_ids c)"
  by (simp add: voter_ids_def)

lemma card_voter_ids: "wf_config c \<Longrightarrow> card (voter_ids c) = length (Voters c)"
  unfolding wf_config_def voter_ids_def using distinct_card [of "map mem_ID (Voters c)"] by simp

text \<open>The counting argument behind every quorum intersection.\<close>

lemma card_inter_pos:
  assumes "finite S" "A \<subseteq> S" "B \<subseteq> S" "card S < card A + card B"
  shows "A \<inter> B \<noteq> {}"
proof
  assume "A \<inter> B = {}"
  then have "card A + card B = card (A \<union> B)"
    using assms(1-3) by (metis card_Un_disjoint finite_subset)
  also have "\<dots> \<le> card S" using assms by (intro card_mono) auto
  finally show False using assms(4) by simp
qed

lemma quorums_meet:
  assumes "wf_config c" "quorum c P" "quorum c Q"
  shows "P \<inter> Q \<noteq> {}"
  using assms by (intro card_inter_pos [of "voter_ids c"]) (auto simp: quorum_def card_voter_ids Majority_def)

end
