(* ===== verification/Raft_Membership.thy ===== *)
theory Raft_Membership
  imports Raft_Types
begin

text \<open>
  Cluster membership, \<^verbatim>\<open>internal/raft/membership.go\<close>: the payload of a configuration entry and
  its decoder, the structural check \<open>classifyTransition\<close>, and the construction of the next
  configuration. The parts of that file that work on the state of the core are in the
  theory of the core.

  Go ranges over maps in an unspecified order. \<open>oneAdded\<close> returns the first new member it
  meets; here the order is that of insertion.
\<close>

datatype raft_error =
    ErrInvalidConfig
  | ErrNotLeader
  | ErrConfigChangeInheritedSuffixUncommitted
  | ErrConfigChangeNoCurrentTermCommit
  | ErrConfigChangeInProgress
  | ErrInvalidTransition
  | ErrLastVoterRemoval
  | ErrUnknownMember
  | ErrMemberAlreadyExists
  | ErrMalformedConfigChange
  | ErrUnknownConfigChangeKind
  | ErrNotConfigEntry

section \<open>Payload of a configuration entry\<close>

definition controlCommandMarkerMirror :: char where
  "controlCommandMarkerMirror = CHR 0xF0"

definition membershipKindAddLearner :: char where
  "membershipKindAddLearner = CHR 0x10"

definition membershipKindPromoteVoter :: char where
  "membershipKindPromoteVoter = CHR 0x11"

definition membershipKindRemoveServer :: char where
  "membershipKindRemoveServer = CHR 0x12"

definition membershipKindVoided :: char where
  "membershipKindVoided = CHR 0x13"

definition getLenPrefixed :: "bytes \<Rightarrow> raft_error + bytes \<times> bytes" where
  "getLenPrefixed b = bindR (take_u32 ErrMalformedConfigChange b) (\<lambda>(n, b).
     take_n ErrMalformedConfigChange (unat n) b)"

definition putLenPrefixed :: "bytes \<Rightarrow> bytes" where
  "putLenPrefixed b = PutUint32 (len32 b) @ b"

definition encodeMember :: "Member \<Rightarrow> bytes" where
  "encodeMember m = putLenPrefixed (mem_ID m) @ putLenPrefixed (mem_Address m)"

definition decodeMember :: "bytes \<Rightarrow> raft_error + Member \<times> bytes" where
  "decodeMember b =
     bindR (getLenPrefixed b) (\<lambda>(idB, b).
     bindR (getLenPrefixed b) (\<lambda>(addrB, b).
       Inr (\<lparr>mem_ID = idB, mem_Address = addrB\<rparr>, b)))"

definition encodeConfiguration :: "Configuration \<Rightarrow> bytes" where
  "encodeConfiguration cfg = counted encodeMember (Voters cfg) @ counted encodeMember (Learners cfg)"

definition minEncodedMemberSize :: nat where
  "minEncodedMemberSize = 4 + 4"

definition decodeConfiguration :: "bytes \<Rightarrow> raft_error + Configuration" where
  "decodeConfiguration b =
     bindR (take_counted ErrMalformedConfigChange minEncodedMemberSize decodeMember b) (\<lambda>(voters, b).
     bindR (take_counted ErrMalformedConfigChange minEncodedMemberSize decodeMember b) (\<lambda>(learners, b).
       if length b \<noteq> 0 then Inl ErrMalformedConfigChange
       else Inr \<lparr>Voters = voters, Learners = learners\<rparr>))"

definition encodeConfigChange :: "char \<Rightarrow> string \<Rightarrow> string \<Rightarrow> string \<Rightarrow> Configuration \<Rightarrow> bytes" where
  "encodeConfigChange kind requestID targetID targetAddr cfg =
     [controlCommandMarkerMirror, kind] @ putLenPrefixed requestID @ putLenPrefixed targetID
     @ putLenPrefixed targetAddr @ putLenPrefixed (encodeConfiguration cfg)"

definition EncodeVoidedEntryConfigPayload :: bytes where
  "EncodeVoidedEntryConfigPayload = [controlCommandMarkerMirror, membershipKindVoided] @ replicate 16 (CHR 0x00)"

record ConfigChange =
  cc_kind :: char
  cc_requestID :: string
  cc_targetID :: string
  cc_targetAddr :: string
  cc_cfg :: Configuration
  cc_establishes :: bool

definition decodeConfigChange :: "bytes \<Rightarrow> raft_error + ConfigChange" where
  "decodeConfigChange b =
     (if length b < 2 then Inl ErrMalformedConfigChange
      else if b ! 0 \<noteq> controlCommandMarkerMirror then Inl ErrMalformedConfigChange
      else let kind = b ! 1 in
        bindR (getLenPrefixed (drop 2 b)) (\<lambda>(reqIDB, b).
        bindR (getLenPrefixed b) (\<lambda>(targetIDB, b).
        bindR (getLenPrefixed b) (\<lambda>(targetAddrB, b).
        bindR (getLenPrefixed b) (\<lambda>(cfgB, b).
          if length b \<noteq> 0 then Inl ErrMalformedConfigChange
          else if kind = membershipKindAddLearner \<or> kind = membershipKindPromoteVoter
                  \<or> kind = membershipKindRemoveServer
          then bindR (decodeConfiguration cfgB) (\<lambda>cfg.
                 if length (Voters cfg) = 0 then Inl ErrMalformedConfigChange
                 else Inr \<lparr>cc_kind = kind, cc_requestID = reqIDB, cc_targetID = targetIDB,
                   cc_targetAddr = targetAddrB, cc_cfg = cfg, cc_establishes = True\<rparr>)
          else if kind = membershipKindVoided
          then if length cfgB \<noteq> 0 \<or> length reqIDB \<noteq> 0 \<or> length targetIDB \<noteq> 0 \<or> length targetAddrB \<noteq> 0
               then Inl ErrMalformedConfigChange
               else Inr \<lparr>cc_kind = kind, cc_requestID = reqIDB, cc_targetID = targetIDB,
                 cc_targetAddr = targetAddrB, cc_cfg = noConfig, cc_establishes = False\<rparr>
          else Inl ErrUnknownConfigChangeKind)))))"

section \<open>Transitions\<close>

datatype MembershipChangeKind = AddLearnerChange | PromoteToVoterChange | RemoveServerChange

definition toMemberSet :: "Member list \<Rightarrow> (NodeID, Member) gomap" where
  "toMemberSet members = mputs mem_ID (\<lambda>m. m) members []"

definition sameMemberIDs :: "(NodeID, Member) gomap \<Rightarrow> (NodeID, Member) gomap \<Rightarrow> bool" where
  "sameMemberIDs a b \<longleftrightarrow> length a = length b \<and> list_all (\<lambda>i. mget b i \<noteq> None) (mkeys a)"

definition oneAdded :: "(NodeID, Member) gomap \<Rightarrow> (NodeID, Member) gomap \<Rightarrow> Member option" where
  "oneAdded oldSet newSet =
     (if length newSet \<noteq> length oldSet + 1 then None
      else map_option snd (find (\<lambda>(i, m). mget oldSet i = None) newSet))"

definition oneRemoved :: "(NodeID, Member) gomap \<Rightarrow> (NodeID, Member) gomap \<Rightarrow> Member option" where
  "oneRemoved oldSet newSet = oneAdded newSet oldSet"

text \<open>\<open>None\<close> is the nil error.\<close>

definition classifyTransition :: "Configuration \<Rightarrow> Configuration \<Rightarrow> raft_error option" where
  "classifyTransition old new =
     (let oldV = toMemberSet (Voters old); newV = toMemberSet (Voters new);
          oldL = toMemberSet (Learners old); newL = toMemberSet (Learners new)
      in if list_ex (\<lambda>i. mget newL i \<noteq> None) (mkeys newV) then Some ErrInvalidTransition
         else if length newV = length oldV \<and> length newL = length oldL + 1
         then if \<not> sameMemberIDs oldV newV then Some ErrInvalidTransition
              else (case oneAdded oldL newL of
                      None \<Rightarrow> Some ErrInvalidTransition
                    | Some added \<Rightarrow>
                        if mget oldV (mem_ID added) \<noteq> None then Some ErrInvalidTransition else None)
         else if length newV = length oldV + 1 \<and> length newL + 1 = length oldL
         then (case oneAdded oldV newV of
                 None \<Rightarrow> Some ErrInvalidTransition
               | Some addedV \<Rightarrow>
                   (case oneRemoved oldL newL of
                      None \<Rightarrow> Some ErrInvalidTransition
                    | Some removedL \<Rightarrow>
                        if mem_ID addedV \<noteq> mem_ID removedL then Some ErrInvalidTransition
                        else if list_ex (\<lambda>i. mget newV i = None) (mkeys oldV) then Some ErrInvalidTransition
                        else None))
         else if length newV + 1 = length oldV \<and> length newL = length oldL
         then if length newV < 1 then Some ErrInvalidTransition
              else if \<not> sameMemberIDs oldL newL then Some ErrInvalidTransition
              else if oneRemoved oldV newV = None then Some ErrInvalidTransition
              else None
         else if length newV = length oldV \<and> length newL + 1 = length oldL
         then if \<not> sameMemberIDs oldV newV then Some ErrInvalidTransition
              else if oneRemoved oldL newL = None then Some ErrInvalidTransition
              else None
         else Some ErrInvalidTransition)"

definition removeMemberByID :: "Member list \<Rightarrow> NodeID \<Rightarrow> Member list" where
  "removeMemberByID members i = filter (\<lambda>m. mem_ID m \<noteq> i) members"

definition appendMember :: "Member list \<Rightarrow> Member \<Rightarrow> Member list" where
  "appendMember members m = members @ [m]"

definition findMemberByID :: "Member list \<Rightarrow> NodeID \<Rightarrow> Member option" where
  "findMemberByID members i = find (\<lambda>m. mem_ID m = i) members"

fun buildNewConfiguration :: "Configuration \<Rightarrow> MembershipChangeKind \<Rightarrow> NodeID \<Rightarrow> string
    \<Rightarrow> raft_error + Configuration" where
  "buildNewConfiguration cur AddLearnerChange targetID targetAddr =
     (if IsMember cur targetID then Inl ErrMemberAlreadyExists
      else Inr \<lparr>Voters = Voters cur,
             Learners = appendMember (Learners cur) \<lparr>mem_ID = targetID, mem_Address = targetAddr\<rparr>\<rparr>)"
| "buildNewConfiguration cur PromoteToVoterChange targetID targetAddr =
     (case findMemberByID (Learners cur) targetID of
        None \<Rightarrow> Inl ErrUnknownMember
      | Some m \<Rightarrow> Inr \<lparr>Voters = appendMember (Voters cur) m,
                      Learners = removeMemberByID (Learners cur) targetID\<rparr>)"
| "buildNewConfiguration cur RemoveServerChange targetID targetAddr =
     (if IsVoter cur targetID
      then Inr \<lparr>Voters = removeMemberByID (Voters cur) targetID, Learners = Learners cur\<rparr>
      else if IsLearner cur targetID
      then Inr \<lparr>Voters = Voters cur, Learners = removeMemberByID (Learners cur) targetID\<rparr>
      else Inl ErrUnknownMember)"

fun wireKindFor :: "MembershipChangeKind \<Rightarrow> char" where
  "wireKindFor AddLearnerChange = membershipKindAddLearner"
| "wireKindFor PromoteToVoterChange = membershipKindPromoteVoter"
| "wireKindFor RemoveServerChange = membershipKindRemoveServer"

definition membershipChangeKindFromWire :: "char \<Rightarrow> MembershipChangeKind option" where
  "membershipChangeKindFromWire kind =
     (if kind = membershipKindAddLearner then Some AddLearnerChange
      else if kind = membershipKindPromoteVoter then Some PromoteToVoterChange
      else if kind = membershipKindRemoveServer then Some RemoveServerChange
      else None)"

text \<open>\<open>None\<close> as kind: the entry is voided and establishes nothing.\<close>

definition DecodeConfigEntry :: "Entry \<Rightarrow> raft_error + MembershipChangeKind option \<times> ConfigChange" where
  "DecodeConfigEntry e =
     (if ent_Type e \<noteq> EntryConfig then Inl ErrNotConfigEntry
      else bindR (decodeConfigChange (ent_Data e)) (\<lambda>cc.
        if \<not> cc_establishes cc then Inr (None, cc)
        else (case membershipChangeKindFromWire (cc_kind cc) of
                None \<Rightarrow> Inl ErrUnknownConfigChangeKind
              | Some k \<Rightarrow> Inr (Some k, cc))))"

section \<open>Round trip of the payload\<close>

lemma getLenPrefixed_put [simp]: "length x < 2 ^ 32 \<Longrightarrow> getLenPrefixed (putLenPrefixed x @ r) = Inr (x, r)"
  by (simp add: getLenPrefixed_def putLenPrefixed_def)

lemma getLenPrefixed_put_end [simp]: "length x < 2 ^ 32 \<Longrightarrow> getLenPrefixed (putLenPrefixed x) = Inr (x, [])"
  using getLenPrefixed_put [of x "[]"] by simp

lemma length_putLenPrefixed [simp]: "length (putLenPrefixed x) = 4 + length x"
  by (simp add: putLenPrefixed_def)

definition member_short :: "Member \<Rightarrow> bool" where
  "member_short m \<longleftrightarrow> short (mem_ID m) \<and> short (mem_Address m)"

interpretation memberc: codec encodeMember decodeMember member_short 8
  by unfold_locales (auto simp: encodeMember_def decodeMember_def member_short_def short_def)

lemma member_short_enc:
  assumes "length (counted encodeMember ms) < 2 ^ 32"
  shows "\<forall>m \<in> set ms. member_short m"
proof
  fix m assume "m \<in> set ms"
  from length_enc_member [OF this, of encodeMember] assms
  show "member_short m" by (simp add: member_short_def short_def encodeMember_def length_counted)
qed

lemma decodeConfiguration_encode:
  assumes "length (encodeConfiguration cfg) < 2 ^ 32"
  shows "decodeConfiguration (encodeConfiguration cfg) = Inr cfg"
proof -
  have l: "length (counted encodeMember (Voters cfg)) < 2 ^ 32" "length (counted encodeMember (Learners cfg)) < 2 ^ 32"
    using assms by (simp_all add: encodeConfiguration_def)
  have "take_counted ErrMalformedConfigChange 8 decodeMember (encodeConfiguration cfg)
      = Inr (Voters cfg, counted encodeMember (Learners cfg))"
    using assms unfolding encodeConfiguration_def by (rule memberc.take_counted_counted [OF member_short_enc [OF l(1)]])
  moreover have "take_counted ErrMalformedConfigChange 8 decodeMember (counted encodeMember (Learners cfg))
      = Inr (Learners cfg, [])"
    using memberc.take_counted_counted [OF member_short_enc [OF l(2)], of "[]"] l(2) by simp
  ultimately show ?thesis by (simp add: decodeConfiguration_def minEncodedMemberSize_def)
qed

lemma wireKind_facts [simp]:
  "wireKindFor k = membershipKindAddLearner \<or> wireKindFor k = membershipKindPromoteVoter
     \<or> wireKindFor k = membershipKindRemoveServer"
  "membershipChangeKindFromWire (wireKindFor k) = Some k"
  by (cases k; simp add: membershipChangeKindFromWire_def membershipKindAddLearner_def
      membershipKindPromoteVoter_def membershipKindRemoveServer_def)+

lemma decodeConfigChange_encode:
  assumes "Voters cfg \<noteq> []" "length (encodeConfigChange (wireKindFor k) rid tid addr cfg) < 2 ^ 32"
  shows "decodeConfigChange (encodeConfigChange (wireKindFor k) rid tid addr cfg) =
    Inr \<lparr>cc_kind = wireKindFor k, cc_requestID = rid, cc_targetID = tid, cc_targetAddr = addr,
      cc_cfg = cfg, cc_establishes = True\<rparr>"
proof -
  have l: "length rid < 2 ^ 32" "length tid < 2 ^ 32" "length addr < 2 ^ 32"
    "length (encodeConfiguration cfg) < 2 ^ 32"
    using assms(2) by (simp_all add: encodeConfigChange_def)
  from decodeConfiguration_encode [OF l(4)] assms(1) l wireKind_facts(1) [of k] show ?thesis
    by (simp add: decodeConfigChange_def encodeConfigChange_def Let_def)
qed

text \<open>
  A configuration entry is read back as it was proposed: kind, request, target,
  address and the complete configuration, whenever the configuration has a voter and the
  payload is below four gigabytes. The voided payload is accepted and establishes nothing.
\<close>

theorem DecodeConfigEntry_roundtrip:
  assumes "Voters cfg \<noteq> []" "length (encodeConfigChange (wireKindFor k) rid tid addr cfg) < 2 ^ 32"
    "ent_Type e = EntryConfig" "ent_Data e = encodeConfigChange (wireKindFor k) rid tid addr cfg"
    "ent_Type v = EntryConfig" "ent_Data v = EncodeVoidedEntryConfigPayload"
  shows "DecodeConfigEntry e = Inr (Some k, \<lparr>cc_kind = wireKindFor k, cc_requestID = rid, cc_targetID = tid,
      cc_targetAddr = addr, cc_cfg = cfg, cc_establishes = True\<rparr>)
    \<and> (\<exists>cc. DecodeConfigEntry v = Inr (None, cc) \<and> \<not> cc_establishes cc)"
proof -
  have "PutUint32 0 = replicate 4 (CHR 0x00)" by code_simp
  then have v: "EncodeVoidedEntryConfigPayload = [controlCommandMarkerMirror, membershipKindVoided]
      @ putLenPrefixed [] @ putLenPrefixed [] @ putLenPrefixed [] @ putLenPrefixed []"
    by (simp add: EncodeVoidedEntryConfigPayload_def putLenPrefixed_def len32_def eval_nat_numeral)
  have "\<exists>cc. decodeConfigChange EncodeVoidedEntryConfigPayload = Inr cc \<and> \<not> cc_establishes cc"
    unfolding v by (simp add: decodeConfigChange_def membershipKindAddLearner_def membershipKindPromoteVoter_def
        membershipKindRemoveServer_def membershipKindVoided_def)
  then show ?thesis
    using assms by (auto simp: DecodeConfigEntry_def decodeConfigChange_encode)
qed

section \<open>Single-server changes\<close>

lemma toMemberSet_map:
  assumes "distinct (map mem_ID ms)"
  shows "toMemberSet ms = map (\<lambda>m. (mem_ID m, m)) ms"
proof -
  have "distinct (map mem_ID (ms0 @ ms)) \<Longrightarrow>
      mputs mem_ID (\<lambda>m. m) ms (map (\<lambda>m. (mem_ID m, m)) ms0) = map (\<lambda>m. (mem_ID m, m)) (ms0 @ ms)" for ms0 ms
  proof (induction ms arbitrary: ms0)
    case (Cons m ms)
    have "mput (mem_ID m) m (map (\<lambda>m. (mem_ID m, m)) ms0) = map (\<lambda>m. (mem_ID m, m)) (ms0 @ [m])"
      using Cons.prems by (induction ms0) (auto simp: mput_def)
    with Cons.IH [of "ms0 @ [m]"] Cons.prems show ?case by simp
  qed simp
  from this [of "[]" ms] assms show ?thesis by (simp add: toMemberSet_def)
qed

lemma mget_members: "mget (map (\<lambda>m. (mem_ID m, m)) ms) i = None \<longleftrightarrow> i \<notin> mem_ID ` set ms"
  by (simp add: mget_def map_of_eq_None_iff image_image)

lemma mkeys_members: "mkeys (map (\<lambda>m. (mem_ID m, m)) ms) = map mem_ID ms"
  by (simp add: mkeys_def)


definition demo_config :: Configuration where
  "demo_config = \<lparr>Voters = [\<lparr>mem_ID = ''a'', mem_Address = ''h1''\<rparr>, \<lparr>mem_ID = ''b'', mem_Address = ''h2''\<rparr>,
     \<lparr>mem_ID = ''c'', mem_Address = ''h3''\<rparr>], Learners = [\<lparr>mem_ID = ''l'', mem_Address = ''h4''\<rparr>]\<rparr>"

theorem DecodeConfigEntry_roundtrip_witness:
  "DecodeConfigEntry \<lparr>ent_Index = 4, ent_Term = 2, ent_Type = EntryConfig,
      ent_Data = encodeConfigChange (wireKindFor AddLearnerChange) ''r'' ''l'' ''h4'' demo_config\<rparr>
    = Inr (Some AddLearnerChange, \<lparr>cc_kind = wireKindFor AddLearnerChange, cc_requestID = ''r'',
        cc_targetID = ''l'', cc_targetAddr = ''h4'', cc_cfg = demo_config, cc_establishes = True\<rparr>)"
  using DecodeConfigEntry_roundtrip [of demo_config AddLearnerChange "''r''" "''l''" "''h4''"
      "\<lparr>ent_Index = 4, ent_Term = 2, ent_Type = EntryConfig,
        ent_Data = encodeConfigChange (wireKindFor AddLearnerChange) ''r'' ''l'' ''h4'' demo_config\<rparr>"
      "\<lparr>ent_Index = 5, ent_Term = 2, ent_Type = EntryConfig, ent_Data = EncodeVoidedEntryConfigPayload\<rparr>"]
  by (simp add: demo_config_def encodeConfigChange_def encodeConfiguration_def encodeMember_def length_counted)

text \<open>How the checks see a list with one member appended, and one with a member removed.\<close>

abbreviation (input) keyed :: "Member list \<Rightarrow> (NodeID, Member) gomap" where
  "keyed ms \<equiv> map (\<lambda>m. (mem_ID m, m)) ms"

lemma oneAdded_append:
  assumes "mem_ID m \<notin> mem_ID ` set ms"
  shows "oneAdded (keyed ms) (keyed (ms @ [m])) = Some m"
proof -
  have "find (\<lambda>(i, x). mget (keyed ms) i = None) (keyed ms' @ [(mem_ID m, m)]) = Some (mem_ID m, m)"
    if "set ms' \<subseteq> set ms" for ms'
    using that assms by (induction ms') (auto simp: mget_members)
  from this [of ms] show ?thesis by (simp add: oneAdded_def)
qed

lemma length_removeMemberByID:
  assumes "distinct (map mem_ID ms)" "i \<in> mem_ID ` set ms"
  shows "length (removeMemberByID ms i) + 1 = length ms"
  using assms
proof (induction ms)
  case (Cons m ms)
  show ?case
  proof (cases "mem_ID m = i")
    case True
    then have "\<forall>x \<in> set ms. mem_ID x \<noteq> i" using Cons.prems(1) by (auto simp: image_iff)
    then have "filter (\<lambda>x. mem_ID x \<noteq> i) ms = ms" by (simp add: filter_id_conv)
    with True show ?thesis by (simp add: removeMemberByID_def)
  next
    case False
    with Cons show ?thesis by (auto simp: removeMemberByID_def)
  qed
qed simp

lemma removeMemberByID_ids: "mem_ID ` set (removeMemberByID ms i) = mem_ID ` set ms - {i}"
  by (auto simp: removeMemberByID_def)

lemma distinct_removeMemberByID: "distinct (map mem_ID ms) \<Longrightarrow> distinct (map mem_ID (removeMemberByID ms i))"
  by (simp add: removeMemberByID_def distinct_map_filter)

lemma oneRemoved_remove:
  assumes "distinct (map mem_ID ms)" "i \<in> mem_ID ` set ms"
  shows "\<exists>m. oneRemoved (keyed ms) (keyed (removeMemberByID ms i)) = Some m \<and> mem_ID m = i"
proof -
  let ?P = "\<lambda>(j, m). mget (keyed (removeMemberByID ms i)) j = None"
  have "find ?P (keyed ms) \<noteq> None"
    using assms(2) by (auto simp: find_None_iff mget_members removeMemberByID_ids)
  then obtain j m where f: "find ?P (keyed ms) = Some (j, m)" by auto
  then have "j = mem_ID m" "m \<in> set ms" "j = i"
    by (auto simp: find_Some_iff nth_map mget_members removeMemberByID_ids split_beta)
  then show ?thesis
    using f length_removeMemberByID [OF assms] by (simp add: oneRemoved_def oneAdded_def)
qed

lemma sameMemberIDs_refl: "sameMemberIDs (keyed ms) (keyed ms)"
  by (auto simp: sameMemberIDs_def mkeys_members list_all_iff mget_members)

lemma wf_configD:
  assumes "wf_config c"
  shows "distinct (map mem_ID (Voters c))" "distinct (map mem_ID (Learners c))"
    "mem_ID ` set (Voters c) \<inter> mem_ID ` set (Learners c) = {}"
  using assms by (auto simp: wf_config_def)


text \<open>What a leader builds passes the check, keeps the identifiers distinct, and moves at most
  one voter.\<close>

lemma buildNewConfiguration_cases:
  assumes "wf_config cur" "buildNewConfiguration cur kind tid addr = Inr new"
  obtains (learner) m where "Voters new = Voters cur" "Learners new = Learners cur @ [m]" "mem_ID m = tid"
      "tid \<notin> mem_ID ` set (Voters cur)" "tid \<notin> mem_ID ` set (Learners cur)"
  | (promote) m where "Voters new = Voters cur @ [m]" "Learners new = removeMemberByID (Learners cur) tid"
      "mem_ID m = tid" "tid \<notin> mem_ID ` set (Voters cur)" "tid \<in> mem_ID ` set (Learners cur)"
  | (voter) "Voters new = removeMemberByID (Voters cur) tid" "Learners new = Learners cur"
      "tid \<in> mem_ID ` set (Voters cur)"
  | (drop) "Voters new = Voters cur" "Learners new = removeMemberByID (Learners cur) tid"
      "tid \<in> mem_ID ` set (Learners cur)"
proof (cases kind)
  case AddLearnerChange
  then show thesis
    using assms(2)
    by (intro learner [of "\<lparr>mem_ID = tid, mem_Address = addr\<rparr>"])
      (auto simp: appendMember_def IsMember_def IsVoter_def IsLearner_def list_ex_iff split: if_splits)
next
  case PromoteToVoterChange
  then obtain m where m: "find (\<lambda>m. mem_ID m = tid) (Learners cur) = Some m"
    "new = \<lparr>Voters = Voters cur @ [m], Learners = removeMemberByID (Learners cur) tid\<rparr>"
    using assms(2) by (auto simp: findMemberByID_def appendMember_def split: option.splits)
  then have "m \<in> set (Learners cur)" "mem_ID m = tid" by (auto simp: find_Some_iff)
  then show thesis using m(2) wf_configD(3) [OF assms(1)] by (intro promote [of m]) auto
next
  case RemoveServerChange
  then show thesis
  proof (cases "IsVoter cur tid")
    case True
    then show thesis
      using RemoveServerChange assms(2) by (intro voter) (auto simp: IsVoter_def list_ex_iff)
  next
    case False
    then show thesis
      using RemoveServerChange assms(2) by (intro drop) (auto simp: IsLearner_def list_ex_iff split: if_splits)
  qed
qed

lemma wf_buildNewConfiguration:
  assumes "wf_config cur" "buildNewConfiguration cur kind tid addr = Inr new"
  shows "wf_config new"
  using assms
proof (cases rule: buildNewConfiguration_cases)
  case learner
  then show ?thesis using assms(1) by (auto simp: wf_config_def)
next
  case promote
  then show ?thesis
    using wf_configD [OF assms(1)]
    by (auto simp: wf_config_def distinct_removeMemberByID removeMemberByID_ids)
next
  case voter
  then show ?thesis
    using wf_configD [OF assms(1)]
    by (auto simp: wf_config_def distinct_removeMemberByID removeMemberByID_ids)
next
  case drop
  then show ?thesis
    using wf_configD [OF assms(1)]
    by (auto simp: wf_config_def distinct_removeMemberByID removeMemberByID_ids)
qed

lemma classify_buildNewConfiguration:
  assumes "wf_config cur" "buildNewConfiguration cur kind tid addr = Inr new" "Voters new \<noteq> []"
  shows "classifyTransition cur new = None"
proof -
  note wf = wf_configD [OF assms(1)] and wf' = wf_configD [OF wf_buildNewConfiguration [OF assms(1,2)]]
  note c = classifyTransition_def [of cur new, unfolded Let_def toMemberSet_map [OF wf(1)]
      toMemberSet_map [OF wf(2)] toMemberSet_map [OF wf'(1)] toMemberSet_map [OF wf'(2)]]
  have disj: "\<not> list_ex (\<lambda>i. mget (keyed (Learners new)) i \<noteq> None) (mkeys (keyed (Voters new)))"
    using wf'(3) by (auto simp: list_ex_iff mkeys_members mget_members)
  from assms(1,2) show ?thesis
  proof (cases rule: buildNewConfiguration_cases)
    case (learner m)
    then show ?thesis
      using disj oneAdded_append [of m "Learners cur"] sameMemberIDs_refl [of "Voters cur"]
      by (simp add: c mget_members)
  next
    case (promote m)
    have sub: "\<not> list_ex (\<lambda>i. mget (keyed (Voters cur @ [m])) i = None) (mkeys (keyed (Voters cur)))"
      unfolding mkeys_members list_ex_iff mget_members by auto
    show ?thesis
      using promote sub disj oneAdded_append [of m "Voters cur"] oneRemoved_remove [OF wf(2) promote(5)]
        length_removeMemberByID [OF wf(2) promote(5)]
      by (auto simp: c)
  next
    case voter
    then show ?thesis
      using disj assms(3) oneRemoved_remove [OF wf(1) voter(3)] length_removeMemberByID [OF wf(1) voter(3)]
        sameMemberIDs_refl [of "Learners cur"]
      by (auto simp: c)
  next
    case drop
    then show ?thesis
      using disj oneRemoved_remove [OF wf(2) drop(3)] length_removeMemberByID [OF wf(2) drop(3)]
        sameMemberIDs_refl [of "Voters cur"]
      by (auto simp: c)
  qed
qed

lemma quorums_meet_one_voter:
  assumes "wf_config c" "wf_config d" "quorum c P" "quorum d Q"
    and "voter_ids d = voter_ids c \<or> (\<exists>i. voter_ids d = insert i (voter_ids c))
       \<or> (\<exists>i. voter_ids c = insert i (voter_ids d))"
  shows "P \<inter> Q \<noteq> {}"
proof (rule card_inter_pos [of "voter_ids c \<union> voter_ids d"])
  let ?n = "length (Voters c)" and ?m = "length (Voters d)"
  have P: "P \<subseteq> voter_ids c" "?n div 2 + 1 \<le> card P" and Q: "Q \<subseteq> voter_ids d" "?m div 2 + 1 \<le> card Q"
    using assms(3,4) by (auto simp: quorum_def Majority_def)
  then show "P \<subseteq> voter_ids c \<union> voter_ids d" "Q \<subseteq> voter_ids c \<union> voter_ids d" by auto
  have card: "card (voter_ids c) = ?n" "card (voter_ids d) = ?m" using assms(1,2) by (simp_all add: card_voter_ids)
  from assms(5) have "card (voter_ids c \<union> voter_ids d) \<le> ?n div 2 + ?m div 2 + 1"
  proof (elim disjE exE)
    assume "voter_ids d = voter_ids c"
    then show ?thesis using card by simp
  next
    fix i assume d: "voter_ids d = insert i (voter_ids c)"
    show ?thesis
    proof (cases "i \<in> voter_ids c")
      case False
      then have "?m = ?n + 1" using card d by simp
      moreover have "voter_ids c \<union> voter_ids d = voter_ids d" using d by auto
      ultimately show ?thesis using card by simp
    qed (use card d in \<open>simp add: insert_absorb\<close>)
  next
    fix i assume c: "voter_ids c = insert i (voter_ids d)"
    show ?thesis
    proof (cases "i \<in> voter_ids d")
      case False
      then have "?n = ?m + 1" using card c by simp
      moreover have "voter_ids c \<union> voter_ids d = voter_ids c" using c by auto
      ultimately show ?thesis using card by simp
    qed (use card c in \<open>simp add: insert_absorb\<close>)
  qed
  with P(2) Q(2) show "card (voter_ids c \<union> voter_ids d) < card P + card Q" by simp
qed simp

text \<open>
  Claim C22. Every membership change a leader can propose is a single-server change: the
  configuration built from the active one passes \<open>classifyTransition\<close>, has no identifier
  twice, and each of its majorities meets each majority of the old configuration, so the two
  can never decide independently.
\<close>

theorem proposed_change_keeps_quorums:
  assumes "wf_config cur" "buildNewConfiguration cur kind tid addr = Inr new" "Voters new \<noteq> []"
  shows "classifyTransition cur new = None \<and> wf_config new
    \<and> (\<forall>P Q. quorum cur P \<longrightarrow> quorum new Q \<longrightarrow> P \<inter> Q \<noteq> {})"
proof -
  have "voter_ids new = voter_ids cur \<or> (\<exists>i. voter_ids new = insert i (voter_ids cur))
      \<or> (\<exists>i. voter_ids cur = insert i (voter_ids new))"
    using assms(1,2)
  proof (cases rule: buildNewConfiguration_cases)
    case voter
    then have "voter_ids cur = insert tid (voter_ids new)" by (auto simp: voter_ids_def removeMemberByID_ids)
    then show ?thesis by blast
  qed (auto simp: voter_ids_def)
  then show ?thesis
    using quorums_meet_one_voter [OF assms(1) wf_buildNewConfiguration [OF assms(1,2)]]
      classify_buildNewConfiguration [OF assms] wf_buildNewConfiguration [OF assms(1,2)] by blast
qed

theorem proposed_change_keeps_quorums_witness:
  "classifyTransition demo_config \<lparr>Voters = Voters demo_config @ Learners demo_config, Learners = []\<rparr> = None"
proof -
  have "wf_config demo_config" by (simp add: wf_config_def demo_config_def)
  moreover have "buildNewConfiguration demo_config PromoteToVoterChange ''l'' []
      = Inr \<lparr>Voters = Voters demo_config @ Learners demo_config, Learners = []\<rparr>" by code_simp
  ultimately show ?thesis
    using proposed_change_keeps_quorums [of demo_config PromoteToVoterChange "''l''" "[]"]
    by (simp add: demo_config_def)
qed

definition disjoint_config :: Configuration where
  "disjoint_config = \<lparr>Voters = [\<lparr>mem_ID = ''d'', mem_Address = ''h5''\<rparr>, \<lparr>mem_ID = ''e'', mem_Address = ''h6''\<rparr>],
     Learners = Learners demo_config\<rparr>"

text \<open>
  The structural check accepts more than single-server changes. Replacing the
  three voters a, b, c by the two voters d, e is accepted as the removal of one voter,
  because only the number of voters and one missing identifier are compared; the two
  configurations have majorities with no node in common.
\<close>

theorem classifyTransition_accepts_disjoint_voters:
  "classifyTransition demo_config disjoint_config = None
    \<and> quorum demo_config {''a'', ''b''} \<and> quorum disjoint_config {''d'', ''e''}
    \<and> {''a'', ''b''} \<inter> {''d'', ''e'' :: string} = {}"
proof -
  have "classifyTransition demo_config disjoint_config = None" by code_simp
  then show ?thesis
    by (simp add: quorum_def demo_config_def disjoint_config_def voter_ids_def Majority_def)
qed

end
