(* ===== verification/Raft_Core.thy ===== *)
theory Raft_Core
  imports Raft_Membership
begin

text \<open>
  The consensus core, \<^verbatim>\<open>internal/raft/core.go\<close> and the parts of \<^verbatim>\<open>membership.go\<close> that work on its
  state: the record \<open>Core\<close> and every handler of \<open>Core.Step\<close>. A handler maps the state to the new
  state and the output of the call. A Go \<open>panic\<close> is the left value of a sum: \<open>Step\<close> either panics,
  or returns.

  A nil map and an empty map are the same here. Go panics on a write to a nil map; the maps
  are written only in the roles that have made them: \<open>votesReceived\<close> as candidate, \<open>nextIndex\<close>
  and \<open>matchIndex\<close> as leader.
\<close>

section \<open>State\<close>

datatype raft_panic =
    PanicTruncateCommitted
  | PanicMalformedConfigEntry
  | PanicInvalidTransition
  | PanicLeaderConfigEntry

datatype pendingKind = pendingVoteGrant | pendingAppendAck | pendingCommitAdvance | pendingSelfMatch

record pendingItem =
  pi_kind :: pendingKind
  pi_seq :: nat
  pi_term :: Term
  pi_candidate :: NodeID
  pi_to :: NodeID
  pi_index :: Index
  pi_entryTerm :: Term

record Core =
  c_cfg :: Config
  c_draws :: nat
  role :: Role
  currentTerm :: Term
  votedFor :: NodeID
  leaderID :: NodeID
  rlog :: "Entry list"
  snapshotIndex :: Index
  snapshotTerm :: Term
  commitIndex :: Index
  appliedIndex :: Index
  nextIndex :: "(NodeID, Index) gomap"
  matchIndex :: "(NodeID, Index) gomap"
  votesReceived :: "(NodeID, bool) gomap"
  persistSeq :: nat
  persistedSeq :: nat
  pending :: "pendingItem list"
  activeConfig :: Configuration
  activeConfigIndex :: Index
  snapshotConfig :: Configuration
  snapshotHasConfig :: bool
  bootstrapConfig :: Configuration
  pendingConfIndex :: Index
  heardFromLeader :: bool
  skipP1ForTest :: bool

text \<open>Reading a map entry: a missing key reads as zero.\<close>

definition mget0 :: "(NodeID, nat) gomap \<Rightarrow> NodeID \<Rightarrow> nat" where
  "mget0 m k = (case mget m k of None \<Rightarrow> 0 | Some n \<Rightarrow> n)"

definition SetSkipP1GateForTest :: "bool \<Rightarrow> Core \<Rightarrow> Core" where
  "SetSkipP1GateForTest skip c = c\<lparr>skipP1ForTest := skip\<rparr>"

section \<open>The log\<close>

definition pos :: "Core \<Rightarrow> Index \<Rightarrow> int" where
  "pos c i = int i - int (snapshotIndex c)"

definition lastIndex :: "Core \<Rightarrow> Index" where
  "lastIndex c = snapshotIndex c + (length (rlog c) - 1)"

definition lastTerm :: "Core \<Rightarrow> Term" where
  "lastTerm c = ent_Term (rlog c ! (length (rlog c) - 1))"

definition termAt :: "Core \<Rightarrow> Index \<Rightarrow> Term" where
  "termAt c i =
     (if i < snapshotIndex c then 0
      else let p = pos c i
           in if p \<ge> int (length (rlog c)) then 0 else ent_Term (rlog c ! nat p))"

definition isLogUpToDate :: "Core \<Rightarrow> Index \<Rightarrow> Term \<Rightarrow> bool" where
  "isLogUpToDate c otherLastIndex otherLastTerm =
     (let myTerm = lastTerm c
      in if otherLastTerm \<noteq> myTerm then otherLastTerm > myTerm else otherLastIndex \<ge> lastIndex c)"

definition EntryAt :: "Core \<Rightarrow> Index \<Rightarrow> Entry option" where
  "EntryAt c i =
     (if i \<le> snapshotIndex c then None
      else let p = pos c i
           in if p < 0 \<or> p \<ge> int (length (rlog c)) then None else Some (rlog c ! nat p))"

definition Entries :: "Core \<Rightarrow> Entry list" where
  "Entries c = drop 1 (rlog c)"

definition entryStillPresent :: "Core \<Rightarrow> Index \<Rightarrow> Term \<Rightarrow> bool" where
  "entryStillPresent c i t =
     (let p = pos c i in p \<ge> 0 \<and> p < int (length (rlog c)) \<and> ent_Term (rlog c ! nat p) = t)"

text \<open>The slice \<open>c.log[c.pos(lo) : c.pos(hi)+1]\<close>.\<close>

definition log_slice :: "Core \<Rightarrow> Index \<Rightarrow> Index \<Rightarrow> Entry list" where
  "log_slice c lo hi = take (nat (pos c hi + 1 - pos c lo)) (drop (nat (pos c lo)) (rlog c))"

section \<open>Configuration in force\<close>

definition base_config :: "Core \<Rightarrow> Configuration" where
  "base_config c = (if snapshotHasConfig c then snapshotConfig c else bootstrapConfig c)"

function ConfigAt :: "Core \<Rightarrow> Index \<Rightarrow> Configuration \<times> Index" where
  "ConfigAt c idx =
     (if \<not> idx > snapshotIndex c then (base_config c, 0)
      else let p = pos c idx
           in if p < 0 \<or> p \<ge> int (length (rlog c)) then ConfigAt c (idx - 1)
              else let e = rlog c ! nat p
                   in if ent_Type e \<noteq> EntryConfig then ConfigAt c (idx - 1)
                      else (case decodeConfigChange (ent_Data e) of
                              Inl err \<Rightarrow> ConfigAt c (idx - 1)
                            | Inr cc \<Rightarrow> if \<not> cc_establishes cc then ConfigAt c (idx - 1)
                                        else (cc_cfg cc, idx)))"
  by auto
termination
  by (relation "measure snd") auto

declare ConfigAt.simps [simp del]

definition neverJoined :: "Core \<Rightarrow> bool" where
  "neverJoined c = IsZero (activeConfig c)"

definition selfRemoved :: "Core \<Rightarrow> bool" where
  "selfRemoved c \<longleftrightarrow> \<not> IsZero (activeConfig c) \<and> \<not> IsMember (activeConfig c) (cfg_ID (c_cfg c))"

definition NewCoreFromSnapshot :: "Config \<Rightarrow> HardState \<Rightarrow> Index \<Rightarrow> Term \<Rightarrow> Configuration \<Rightarrow> bool
    \<Rightarrow> Entry list \<Rightarrow> raft_error + Core" where
  "NewCoreFromSnapshot cfg hs snapIndex snapTerm snapConfig snapHasConfig entries =
     (if \<not> validate cfg then Inl ErrInvalidConfig
      else if list_ex (\<lambda>i. ent_Index (entries ! i) \<noteq> snapIndex + i + 1) [0..<length entries]
      then Inl ErrInvalidConfig
      else let c = \<lparr>c_cfg = cfg, c_draws = 0, role = Follower, currentTerm = hs_CurrentTerm hs,
                 votedFor = hs_VotedFor hs, leaderID = [],
                 rlog = \<lparr>ent_Index = snapIndex, ent_Term = snapTerm, ent_Type = EntryNormal, ent_Data = []\<rparr> # entries,
                 snapshotIndex = snapIndex, snapshotTerm = snapTerm, commitIndex = snapIndex,
                 appliedIndex = snapIndex, nextIndex = [], matchIndex = [], votesReceived = [],
                 persistSeq = 0, persistedSeq = 0, pending = [], activeConfig = noConfig,
                 activeConfigIndex = 0, snapshotConfig = snapConfig, snapshotHasConfig = snapHasConfig,
                 bootstrapConfig = cfg_Bootstrap cfg, pendingConfIndex = 0, heardFromLeader = False,
                 skipP1ForTest = False\<rparr>;
               (ac, ai) = ConfigAt c (lastIndex c)
           in Inr (c\<lparr>activeConfig := ac, activeConfigIndex := ai\<rparr>))"

definition NewCore :: "Config \<Rightarrow> HardState \<Rightarrow> Entry list \<Rightarrow> raft_error + Core" where
  "NewCore cfg hs entries = NewCoreFromSnapshot cfg hs 0 0 noConfig False entries"

definition SetApplied :: "Index \<Rightarrow> Core \<Rightarrow> Core" where
  "SetApplied idx c = (if idx > appliedIndex c then c\<lparr>appliedIndex := idx\<rparr> else c)"

definition Compact :: "Index \<Rightarrow> Core \<Rightarrow> Core \<times> bool" where
  "Compact uptoIndex c =
     (if uptoIndex \<le> snapshotIndex c \<or> uptoIndex > appliedIndex c then (c, False)
      else let cfg = fst (ConfigAt c uptoIndex);
               p = nat (pos c uptoIndex);
               trm = ent_Term (rlog c ! p);
               newLog = \<lparr>ent_Index = uptoIndex, ent_Term = trm, ent_Type = EntryNormal, ent_Data = []\<rparr>
                 # drop (p + 1) (rlog c);
               c' = c\<lparr>rlog := newLog, snapshotIndex := uptoIndex, snapshotTerm := trm,
                 snapshotConfig := cfg, snapshotHasConfig := True\<rparr>
           in (if activeConfigIndex c \<le> uptoIndex then c'\<lparr>activeConfigIndex := 0\<rparr> else c', True))"

section \<open>Shared steps\<close>

definition drawElectionTimeout :: "Core \<Rightarrow> Core \<times> int" where
  "drawElectionTimeout c =
     (let (ticks, k) = electionTimeout (c_cfg c) (c_draws c) in (c\<lparr>c_draws := k\<rparr>, ticks))"

text \<open>\<open>out.ResetElectionTimer = true; out.ElectionTimeoutTicks = c.cfg.electionTimeout()\<close>\<close>

definition resetElectionTimer :: "Core \<times> Output \<Rightarrow> Core \<times> Output" where
  "resetElectionTimer = (\<lambda>(c, out).
     let (c', ticks) = drawElectionTimeout c
     in (c', out\<lparr>out_ResetElectionTimer := True, out_ElectionTimeoutTicks := ticks\<rparr>))"

text \<open>\<open>seq := c.nextPersistSeq(); hs := HardState{...}; out.PersistRequest = ...\<close>\<close>

definition persistHardState :: "Core \<times> Output \<Rightarrow> Core \<times> Output" where
  "persistHardState = (\<lambda>(c, out).
     let seq = persistSeq c + 1
     in (c\<lparr>persistSeq := seq\<rparr>,
         out\<lparr>out_PersistRequest := Some \<lparr>pr_Seq = seq,
           pr_HardState = Some \<lparr>hs_CurrentTerm = currentTerm c, hs_VotedFor = votedFor c\<rparr>,
           pr_TruncateFrom = 0, pr_Entries = []\<rparr>\<rparr>))"

definition stepDownTo :: "Term \<Rightarrow> Core \<Rightarrow> Core \<times> bool" where
  "stepDownTo trm c =
     (c\<lparr>role := Follower, currentTerm := trm, votedFor := noVote, leaderID := [],
        votesReceived := [], heardFromLeader := False\<rparr>,
      role c = Leader \<or> role c = Candidate)"

definition invalidatePendingFrom :: "Index \<Rightarrow> Core \<Rightarrow> Core" where
  "invalidatePendingFrom from c =
     c\<lparr>pending := filter (\<lambda>p. \<not> (pi_kind p \<in> {pendingAppendAck, pendingCommitAdvance, pendingSelfMatch}
         \<and> pi_index p \<ge> from)) (pending c)\<rparr>"

definition appendEntriesMessage :: "NodeID \<Rightarrow> Core \<Rightarrow> Core \<times> Message" where
  "appendEntriesMessage peer c =
     (let next = (if mget0 (nextIndex c) peer < 1 then 1 else mget0 (nextIndex c) peer)
      in if next \<le> snapshotIndex c
         then (c, (mkMessage MsgInstallSnapshotRequest (cfg_ID (c_cfg c)) peer (currentTerm c))
                \<lparr>msg_LastIncludedIndex := snapshotIndex c, msg_LastIncludedTerm := snapshotTerm c,
                 msg_Configuration := snapshotConfig c, msg_HasConfiguration := snapshotHasConfig c\<rparr>)
         else let prevIndex = next - 1;
                  prevTerm = termAt c prevIndex;
                  entries = (if next \<le> lastIndex c then drop (nat (pos c next)) (rlog c) else []);
                  c' = c\<lparr>nextIndex := mput peer (if next \<le> lastIndex c then lastIndex c + 1 else next) (nextIndex c)\<rparr>
              in (c', (mkMessage MsgAppendEntriesRequest (cfg_ID (c_cfg c)) peer (currentTerm c))
                    \<lparr>msg_PrevLogIndex := prevIndex, msg_PrevLogTerm := prevTerm, msg_Entries := entries,
                     msg_LeaderCommit := commitIndex c\<rparr>))"

definition sendAppend :: "NodeID \<Rightarrow> Core \<times> Output \<Rightarrow> Core \<times> Output" where
  "sendAppend peer = (\<lambda>(c, out). let (c', m) = appendEntriesMessage peer c in (c', emit m out))"

text \<open>The fan-out loops: every voter but this node, then every learner.\<close>

definition broadcastAppend :: "Core \<times> Output \<Rightarrow> Core \<times> Output" where
  "broadcastAppend = (\<lambda>(c, out).
     foldl (\<lambda>s m. sendAppend (mem_ID m) s)
       (foldl (\<lambda>s m. if mem_ID m = cfg_ID (c_cfg c) then s else sendAppend (mem_ID m) s)
          (c, out) (Voters (activeConfig c)))
       (Learners (activeConfig c)))"

definition becomeLeader :: "Core \<times> Output \<Rightarrow> Core \<times> Output" where
  "becomeLeader = (\<lambda>(c, out).
     let last = lastIndex c;
         members = Voters (activeConfig c) @ Learners (activeConfig c);
         c1 = c\<lparr>role := Leader, leaderID := cfg_ID (c_cfg c), votesReceived := [],
            pendingConfIndex := last,
            nextIndex := mputs mem_ID (\<lambda>_. last + 1) members [],
            matchIndex := mput (cfg_ID (c_cfg c)) last (mputs mem_ID (\<lambda>_. 0) members [])\<rparr>;
         out1 = out\<lparr>out_BecameLeader := True, out_ResetHeartbeatTimer := True,
            out_HeartbeatTimeoutTicks := cfg_HeartbeatTimeoutTicks (c_cfg c)\<rparr>
     in broadcastAppend (c1, out1))"

definition maybeStepDownAfterSelfRemoval :: "Core \<times> Output \<Rightarrow> Core \<times> Output" where
  "maybeStepDownAfterSelfRemoval = (\<lambda>(c, out).
     if role c \<noteq> Leader \<or> IsVoter (activeConfig c) (cfg_ID (c_cfg c)) \<or> activeConfigIndex c > commitIndex c
     then (c, out)
     else (c\<lparr>role := Follower, leaderID := [], nextIndex := [], matchIndex := [], votesReceived := []\<rparr>,
           out\<lparr>out_SteppedDown := True\<rparr>))"

text \<open>The first index from \<open>n\<close> downwards, above the commit index, that has an entry of the
  current term and a majority of matching voters.\<close>

definition matching :: "Core \<Rightarrow> Index \<Rightarrow> nat" where
  "matching c n = length (filter (\<lambda>v. mget0 (matchIndex c) (mem_ID v) \<ge> n) (Voters (activeConfig c)))"

fun commit_scan :: "Core \<Rightarrow> Index \<Rightarrow> Index option" where
  "commit_scan c 0 = None"
| "commit_scan c (Suc n) =
     (if \<not> Suc n > commitIndex c then None
      else if termAt c (Suc n) \<noteq> currentTerm c then commit_scan c n
      else if matching c (Suc n) \<ge> Majority (activeConfig c) then Some (Suc n)
      else commit_scan c n)"

definition committed_slice :: "Core \<Rightarrow> Index \<Rightarrow> Entry list" where
  "committed_slice c n =
     (let start0 = commitIndex c + 1;
          start = (if start0 \<le> snapshotIndex c then snapshotIndex c + 1 else start0)
      in log_slice c start n)"

definition advanceLeaderCommit :: "Core \<times> Output \<Rightarrow> Core \<times> Output" where
  "advanceLeaderCommit = (\<lambda>(c, out).
     case commit_scan c (lastIndex c) of
       None \<Rightarrow> (c, out)
     | Some n \<Rightarrow> maybeStepDownAfterSelfRemoval
         (c\<lparr>commitIndex := n\<rparr>,
          out\<lparr>out_CommittedEntries := out_CommittedEntries out @ committed_slice c n\<rparr>))"

definition advanceFollowerCommit :: "Index \<Rightarrow> Core \<times> Output \<Rightarrow> Core \<times> Output" where
  "advanceFollowerCommit newCommit0 = (\<lambda>(c, out).
     let newCommit = (if newCommit0 > lastIndex c then lastIndex c else newCommit0)
     in if newCommit \<le> commitIndex c then (c, out)
        else (c\<lparr>commitIndex := newCommit\<rparr>,
              out\<lparr>out_CommittedEntries := out_CommittedEntries out @ committed_slice c newCommit\<rparr>))"

section \<open>Elections\<close>

definition handleElectionTimeout :: "Core \<Rightarrow> Core \<times> Output" where
  "handleElectionTimeout c =
     (if role c = Leader then (c, noOutput)
      else let c1 = c\<lparr>heardFromLeader := False\<rparr>
           in if \<not> IsVoter (activeConfig c1) (cfg_ID (c_cfg c1)) then (c1, noOutput)
              else let me = cfg_ID (c_cfg c1);
                       c2 = c1\<lparr>role := Candidate, currentTerm := currentTerm c1 + 1, votedFor := me,
                          leaderID := [], votesReceived := [(me, True)]\<rparr>;
                       (c3, out) = resetElectionTimer (persistHardState (c2, noOutput));
                       out1 = foldl (\<lambda>out m. if mem_ID m = me then out
                          else emit ((mkMessage MsgRequestVoteRequest me (mem_ID m) (currentTerm c3))
                            \<lparr>msg_LastLogIndex := lastIndex c3, msg_LastLogTerm := lastTerm c3\<rparr>) out)
                          out (Voters (activeConfig c3))
                   in if length (votesReceived c3) \<ge> Majority (activeConfig c3)
                      then becomeLeader (c3, out1) else (c3, out1))"

definition voteResponse :: "Core \<Rightarrow> NodeID \<Rightarrow> bool \<Rightarrow> Message" where
  "voteResponse c dest granted =
     (mkMessage MsgRequestVoteResponse (cfg_ID (c_cfg c)) dest (currentTerm c))\<lparr>msg_VoteGranted := granted\<rparr>"

definition handleRequestVoteRequest :: "Message \<Rightarrow> Core \<Rightarrow> Core \<times> Output" where
  "handleRequestVoteRequest msg c =
     (if \<not> IsVoter (activeConfig c) (msg_From msg) then (c, noOutput)
      else if heardFromLeader c then (c, noOutput)
      else if msg_Term msg < currentTerm c then (c, emit (voteResponse c (msg_From msg) False) noOutput)
      else let steppedDown = msg_Term msg > currentTerm c;
               (c1, was) = (if steppedDown then stepDownTo (msg_Term msg) c else (c, False));
               out1 = noOutput\<lparr>out_SteppedDown := was\<rparr>;
               canVote = ((votedFor c1 = noVote \<or> votedFor c1 = msg_From msg)
                 \<and> IsVoter (activeConfig c1) (cfg_ID (c_cfg c1)));
               logOK = isLogUpToDate c1 (msg_LastLogIndex msg) (msg_LastLogTerm msg)
           in if canVote \<and> logOK
              then let (c2, out2) = persistHardState
                         (resetElectionTimer (c1\<lparr>votedFor := msg_From msg\<rparr>, out1))
                   in (c2\<lparr>pending := pending c2 @ [\<lparr>pi_kind = pendingVoteGrant, pi_seq = persistSeq c2,
                         pi_term = currentTerm c2, pi_candidate = msg_From msg, pi_to = [],
                         pi_index = 0, pi_entryTerm = 0\<rparr>]\<rparr>, out2)
              else let out2 = emit (voteResponse c1 (msg_From msg) False) out1
                   in if steppedDown
                      then let s = persistHardState (c1, out2)
                           in if was then resetElectionTimer s else s
                      else (c1, out2))"

text \<open>What the three response handlers do with a reply from a later term.\<close>

definition stepDownOnReply :: "Message \<Rightarrow> Core \<Rightarrow> Core \<times> Output" where
  "stepDownOnReply msg c =
     (let (c1, was) = stepDownTo (msg_Term msg) c
      in persistHardState (if was then resetElectionTimer (c1, noOutput\<lparr>out_SteppedDown := True\<rparr>)
                           else (c1, noOutput)))"

definition handleRequestVoteResponse :: "Message \<Rightarrow> Core \<Rightarrow> Core \<times> Output" where
  "handleRequestVoteResponse msg c =
     (if msg_Term msg > currentTerm c then stepDownOnReply msg c
      else if role c \<noteq> Candidate \<or> msg_Term msg \<noteq> currentTerm c \<or> \<not> msg_VoteGranted msg then (c, noOutput)
      else let c1 = c\<lparr>votesReceived := mput (msg_From msg) True (votesReceived c)\<rparr>
           in if length (votesReceived c1) \<ge> Majority (activeConfig c1)
              then becomeLeader (c1, noOutput) else (c1, noOutput))"

section \<open>Replication\<close>

definition handleHeartbeatTimeout :: "Core \<Rightarrow> Core \<times> Output" where
  "handleHeartbeatTimeout c =
     (if role c \<noteq> Leader then (c, noOutput)
      else broadcastAppend (c, noOutput\<lparr>out_ResetHeartbeatTimer := True,
             out_HeartbeatTimeoutTicks := cfg_HeartbeatTimeoutTicks (c_cfg c)\<rparr>))"

definition initReplicationStateFor :: "NodeID \<Rightarrow> Index \<Rightarrow> Core \<Rightarrow> Core" where
  "initReplicationStateFor i prevLast c =
     (let c1 = (if mget (nextIndex c) i = None then c\<lparr>nextIndex := mput i (prevLast + 1) (nextIndex c)\<rparr> else c)
      in if mget (matchIndex c1) i = None then c1\<lparr>matchIndex := mput i 0 (matchIndex c1)\<rparr> else c1)"

definition activateLeaderConfig :: "Configuration \<Rightarrow> Index \<Rightarrow> Index \<Rightarrow> Core \<Rightarrow> Core" where
  "activateLeaderConfig cfg idx prevLast c =
     foldl (\<lambda>c m. initReplicationStateFor (mem_ID m) prevLast c)
       (c\<lparr>activeConfig := cfg, activeConfigIndex := idx\<rparr>) (Voters cfg @ Learners cfg)"

definition appendLeaderEntry :: "EntryType \<Rightarrow> bytes \<Rightarrow> Core \<Rightarrow> raft_panic + Core \<times> Output" where
  "appendLeaderEntry t data c =
     (let prevLast = lastIndex c;
          idx = prevLast + 1;
          entry = \<lparr>ent_Index = idx, ent_Term = currentTerm c, ent_Type = t, ent_Data = data\<rparr>;
          c1 = c\<lparr>rlog := rlog c @ [entry], matchIndex := mput (cfg_ID (c_cfg c)) idx (matchIndex c)\<rparr>
      in bindR (if t = EntryConfig
                then (case decodeConfigChange data of
                        Inl err \<Rightarrow> Inl PanicLeaderConfigEntry
                      | Inr cc \<Rightarrow> if \<not> cc_establishes cc then Inl PanicLeaderConfigEntry
                                  else Inr (activateLeaderConfig (cc_cfg cc) idx prevLast c1))
                else Inr c1) (\<lambda>c2.
           let seq = persistSeq c2 + 1;
               c3 = c2\<lparr>persistSeq := seq, pending := pending c2 @ [\<lparr>pi_kind = pendingSelfMatch, pi_seq = seq,
                 pi_term = currentTerm c2, pi_candidate = [], pi_to = [], pi_index = idx,
                 pi_entryTerm = currentTerm c2\<rparr>]\<rparr>;
               out = noOutput\<lparr>out_PersistRequest := Some \<lparr>pr_Seq = seq, pr_HardState = None,
                 pr_TruncateFrom = 0, pr_Entries = [entry]\<rparr>\<rparr>
           in Inr (broadcastAppend (c3, out))))"

definition handlePropose :: "bytes \<Rightarrow> Core \<Rightarrow> raft_panic + Core \<times> Output" where
  "handlePropose data c =
     (if role c \<noteq> Leader
      then Inr (c, noOutput\<lparr>out_ProposalRejected := True, out_LeaderHint := leaderID c\<rparr>)
      else appendLeaderEntry EntryNormal data c)"

definition ProposeConfigChange :: "MembershipChangeKind \<Rightarrow> string \<Rightarrow> NodeID \<Rightarrow> string \<Rightarrow> Core
    \<Rightarrow> raft_panic + Core \<times> (raft_error + Output)" where
  "ProposeConfigChange kind requestID targetID targetAddr c =
     (if role c \<noteq> Leader then Inr (c, Inl ErrNotLeader)
      else if commitIndex c < pendingConfIndex c then Inr (c, Inl ErrConfigChangeInheritedSuffixUncommitted)
      else if \<not> skipP1ForTest c \<and> termAt c (commitIndex c) \<noteq> currentTerm c
      then Inr (c, Inl ErrConfigChangeNoCurrentTermCommit)
      else if activeConfigIndex c > commitIndex c then Inr (c, Inl ErrConfigChangeInProgress)
      else (case buildNewConfiguration (activeConfig c) kind targetID targetAddr of
              Inl err \<Rightarrow> Inr (c, Inl err)
            | Inr newCfg \<Rightarrow>
                if length (Voters newCfg) = 0 then Inr (c, Inl ErrLastVoterRemoval)
                else (case classifyTransition (activeConfig c) newCfg of
                        Some err \<Rightarrow> Inr (c, Inl err)
                      | None \<Rightarrow>
                          bindR (appendLeaderEntry EntryConfig
                            (encodeConfigChange (wireKindFor kind) requestID targetID targetAddr newCfg) c)
                            (\<lambda>(c', out). Inr (c', Inr out)))))"

text \<open>\<open>None\<close>: ready; otherwise the reason.\<close>

definition ConfigChangeReady :: "Core \<Rightarrow> raft_error option" where
  "ConfigChangeReady c =
     (if role c \<noteq> Leader then Some ErrNotLeader
      else if commitIndex c < pendingConfIndex c then Some ErrConfigChangeInheritedSuffixUncommitted
      else if termAt c (commitIndex c) \<noteq> currentTerm c then Some ErrConfigChangeNoCurrentTermCommit
      else if activeConfigIndex c > commitIndex c then Some ErrConfigChangeInProgress
      else None)"

text \<open>The loop of \<open>activateFromAppendedEntries\<close>; its argument \<open>prior\<close> is the local variable.\<close>

fun activate_loop :: "Configuration \<Rightarrow> Entry list \<Rightarrow> Core \<Rightarrow> raft_panic + Core" where
  "activate_loop prior [] c = Inr c"
| "activate_loop prior (e # es) c =
     (if ent_Type e \<noteq> EntryConfig then activate_loop prior es c
      else (case decodeConfigChange (ent_Data e) of
              Inl err \<Rightarrow> Inl PanicMalformedConfigEntry
            | Inr cc \<Rightarrow>
                if \<not> cc_establishes cc then activate_loop prior es c
                else if \<not> IsZero prior \<and> classifyTransition prior (cc_cfg cc) \<noteq> None
                then Inl PanicInvalidTransition
                else activate_loop (cc_cfg cc) es
                       (c\<lparr>activeConfig := cc_cfg cc, activeConfigIndex := ent_Index e\<rparr>)))"

definition activateFromAppendedEntries :: "Entry list \<Rightarrow> Core \<Rightarrow> raft_panic + Core" where
  "activateFromAppendedEntries entries c = activate_loop (activeConfig c) entries c"

text \<open>The walk down to the first entry of the conflicting term.\<close>

fun conflict_walk :: "Core \<Rightarrow> Term \<Rightarrow> Index \<Rightarrow> Index" where
  "conflict_walk c t 0 = 0"
| "conflict_walk c t (Suc i) =
     (if Suc i > snapshotIndex c + 1 \<and> termAt c i = t then conflict_walk c t i else Suc i)"

definition conflictHint :: "Core \<Rightarrow> Index \<Rightarrow> Index \<times> Term" where
  "conflictHint c prevIndex =
     (if prevIndex > lastIndex c then (lastIndex c + 1, 0)
      else let t = termAt c prevIndex in (conflict_walk c t prevIndex, t))"

definition appendResponse :: "Core \<Rightarrow> NodeID \<Rightarrow> Message" where
  "appendResponse c dest = mkMessage MsgAppendEntriesResponse (cfg_ID (c_cfg c)) dest (currentTerm c)"

text \<open>The loop over the entries of the request: the first position that is not already present,
  with the log cut there if it conflicts. The result is the state, \<open>truncateFrom\<close> and
  \<open>appendStart\<close>.\<close>

fun append_scan :: "Index \<Rightarrow> nat \<Rightarrow> Entry list \<Rightarrow> Core \<Rightarrow> raft_panic + Core \<times> Index \<times> nat" where
  "append_scan prev i [] c = Inr (c, 0, i)"
| "append_scan prev i (e # es) c =
     (let idx = prev + 1 + i
      in if idx \<le> lastIndex c \<and> termAt c idx = ent_Term e then append_scan prev (i + 1) es c
         else if idx \<le> lastIndex c
         then if idx \<le> commitIndex c then Inl PanicTruncateCommitted
              else let c1 = invalidatePendingFrom idx c
                   in Inr (c1\<lparr>rlog := take (nat (pos c1 idx)) (rlog c1)\<rparr>, idx, i)
         else Inr (c, 0, i))"

text \<open>Term and role handling shared by the two requests of a leader: the new state, whether the
  term changed, and the output so far.\<close>

definition recogniseLeader :: "Message \<Rightarrow> Core \<Rightarrow> Core \<times> bool \<times> Output" where
  "recogniseLeader msg c =
     (let stateChanged = msg_Term msg > currentTerm c;
          (c1, was) = (if stateChanged \<or> role c \<noteq> Follower then stepDownTo (msg_Term msg) c else (c, False));
          (c2, out) = resetElectionTimer (c1\<lparr>leaderID := msg_From msg, heardFromLeader := True\<rparr>,
            noOutput\<lparr>out_SteppedDown := was\<rparr>)
      in (c2, stateChanged, out))"

definition acceptEntries :: "Message \<Rightarrow> bool \<Rightarrow> Core \<times> Output \<Rightarrow> raft_panic + Core \<times> Output" where
  "acceptEntries msg stateChanged = (\<lambda>(c, out).
     bindR (append_scan (msg_PrevLogIndex msg) 0 (msg_Entries msg) c) (\<lambda>(c1, truncateFrom, appendStart).
       let newEntries = drop appendStart (msg_Entries msg);
           c2 = c1\<lparr>rlog := rlog c1 @ newEntries\<rparr>
       in bindR (if truncateFrom \<noteq> 0
                 then (let (ac, ai) = ConfigAt c2 (lastIndex c2)
                       in Inr (c2\<lparr>activeConfig := ac, activeConfigIndex := ai\<rparr>))
                 else if length newEntries \<noteq> 0 then activateFromAppendedEntries newEntries c2
                 else Inr c2) (\<lambda>c3.
            let lastNew = msg_PrevLogIndex msg + length (msg_Entries msg);
                needPersist = (stateChanged \<or> truncateFrom \<noteq> 0 \<or> length newEntries \<noteq> 0);
                seq = persistSeq c3 + 1;
                (c4, out1) =
                  (if needPersist
                   then (c3\<lparr>persistSeq := seq\<rparr>,
                         out\<lparr>out_PersistRequest := Some \<lparr>pr_Seq = seq,
                           pr_HardState = (if stateChanged
                             then Some \<lparr>hs_CurrentTerm = currentTerm c3, hs_VotedFor = votedFor c3\<rparr> else None),
                           pr_TruncateFrom = truncateFrom, pr_Entries = newEntries\<rparr>\<rparr>)
                   else (c3, out));
                newCommit = min (msg_LeaderCommit msg) lastNew;
                (c5, out2) =
                  (if msg_LeaderCommit msg > commitIndex c4 \<and> newCommit > commitIndex c4
                   then if needPersist
                        then (c4\<lparr>pending := pending c4 @ [\<lparr>pi_kind = pendingCommitAdvance, pi_seq = seq,
                               pi_term = currentTerm c4, pi_candidate = [], pi_to = [], pi_index = newCommit,
                               pi_entryTerm = termAt c4 newCommit\<rparr>]\<rparr>, out1)
                        else advanceFollowerCommit newCommit (c4, out1)
                   else (c4, out1))
            in Inr (if needPersist
                    then (c5\<lparr>pending := pending c5 @ [\<lparr>pi_kind = pendingAppendAck, pi_seq = seq,
                            pi_term = currentTerm c5, pi_candidate = [], pi_to = msg_From msg,
                            pi_index = lastNew, pi_entryTerm = termAt c5 lastNew\<rparr>]\<rparr>, out2)
                    else (c5, emit ((appendResponse c5 (msg_From msg))
                            \<lparr>msg_Success := True, msg_MatchIndex := lastNew\<rparr>) out2)))))"

definition handleAppendEntriesRequest :: "Message \<Rightarrow> Core \<Rightarrow> raft_panic + Core \<times> Output" where
  "handleAppendEntriesRequest msg c =
     (if msg_Term msg < currentTerm c then Inr (c, emit (appendResponse c (msg_From msg)) noOutput)
      else let (c1, stateChanged, out) = recogniseLeader msg c
           in if msg_PrevLogIndex msg < snapshotIndex c1
              then let s = (c1, emit ((appendResponse c1 (msg_From msg))
                         \<lparr>msg_Success := True, msg_MatchIndex := snapshotIndex c1\<rparr>) out)
                   in Inr (if stateChanged then persistHardState s else s)
              else if msg_PrevLogIndex msg > lastIndex c1 \<or> termAt c1 (msg_PrevLogIndex msg) \<noteq> msg_PrevLogTerm msg
              then let (ci, ct) = conflictHint c1 (msg_PrevLogIndex msg);
                       s = (c1, emit ((appendResponse c1 (msg_From msg))
                         \<lparr>msg_ConflictIndex := ci, msg_ConflictTerm := ct\<rparr>) out)
                   in Inr (if stateChanged then persistHardState s else s)
              else acceptEntries msg stateChanged (c1, out))"

definition bumpProgress :: "Message \<Rightarrow> Core \<Rightarrow> Core" where
  "bumpProgress msg c =
     (let c1 = (if msg_MatchIndex msg > mget0 (matchIndex c) (msg_From msg)
                then c\<lparr>matchIndex := mput (msg_From msg) (msg_MatchIndex msg) (matchIndex c)\<rparr> else c)
      in if msg_MatchIndex msg + 1 > mget0 (nextIndex c1) (msg_From msg)
         then c1\<lparr>nextIndex := mput (msg_From msg) (msg_MatchIndex msg + 1) (nextIndex c1)\<rparr> else c1)"

text \<open>After a successful reply: count it, try to commit, and send what is still missing.\<close>

definition acknowledge :: "Message \<Rightarrow> Core \<Rightarrow> Core \<times> Output" where
  "acknowledge msg c =
     (let (c1, out) = advanceLeaderCommit (bumpProgress msg c, noOutput)
      in if role c1 = Leader \<and> IsMember (activeConfig c1) (msg_From msg)
            \<and> mget0 (nextIndex c1) (msg_From msg) \<le> lastIndex c1
         then sendAppend (msg_From msg) (c1, out) else (c1, out))"

text \<open>The loop \<open>for i := c.lastIndex(); i > 0; i--\<close> of the fast backup; 0 when nothing is found.\<close>

fun find_term :: "Core \<Rightarrow> Term \<Rightarrow> Index \<Rightarrow> Index" where
  "find_term c t 0 = 0"
| "find_term c t (Suc i) = (if termAt c (Suc i) = t then Suc i + 1 else find_term c t i)"

definition handleAppendEntriesResponse :: "Message \<Rightarrow> Core \<Rightarrow> Core \<times> Output" where
  "handleAppendEntriesResponse msg c =
     (if msg_Term msg > currentTerm c then stepDownOnReply msg c
      else if role c \<noteq> Leader \<or> msg_Term msg \<noteq> currentTerm c then (c, noOutput)
      else if msg_Success msg then acknowledge msg c
      else let found = (if msg_ConflictTerm msg \<noteq> 0 then find_term c (msg_ConflictTerm msg) (lastIndex c) else 0);
               next0 = (if found \<noteq> 0 then found else msg_ConflictIndex msg);
               next = (if next0 < 1 then 1 else next0);
               c1 = (if next < mget0 (nextIndex c) (msg_From msg)
                     then c\<lparr>nextIndex := mput (msg_From msg) next (nextIndex c)\<rparr> else c)
           in if IsMember (activeConfig c1) (msg_From msg) then sendAppend (msg_From msg) (c1, noOutput)
              else (c1, noOutput))"

section \<open>Snapshots from the leader\<close>

definition snapshotResponse :: "Core \<Rightarrow> NodeID \<Rightarrow> Message" where
  "snapshotResponse c dest = mkMessage MsgInstallSnapshotResponse (cfg_ID (c_cfg c)) dest (currentTerm c)"

definition handleInstallSnapshotRequest :: "Message \<Rightarrow> Core \<Rightarrow> Core \<times> Output" where
  "handleInstallSnapshotRequest msg c =
     (if msg_Term msg < currentTerm c then (c, emit (snapshotResponse c (msg_From msg)) noOutput)
      else let (c1, stateChanged, out) = recogniseLeader msg c
           in if msg_LastIncludedIndex msg \<le> snapshotIndex c1 \<or> msg_LastIncludedIndex msg \<le> commitIndex c1
              then let m = (if commitIndex c1 > snapshotIndex c1 then commitIndex c1 else snapshotIndex c1);
                       s = (c1, emit ((snapshotResponse c1 (msg_From msg))
                         \<lparr>msg_Success := True, msg_MatchIndex := m\<rparr>) out)
                   in if stateChanged then persistHardState s else s
              else let c2 = c1\<lparr>snapshotIndex := msg_LastIncludedIndex msg, snapshotTerm := msg_LastIncludedTerm msg,
                         rlog := [\<lparr>ent_Index = msg_LastIncludedIndex msg, ent_Term = msg_LastIncludedTerm msg,
                           ent_Type = EntryNormal, ent_Data = []\<rparr>],
                         pending := [],
                         commitIndex := (if commitIndex c1 < msg_LastIncludedIndex msg
                           then msg_LastIncludedIndex msg else commitIndex c1)\<rparr>;
                       c3 = SetApplied (snapshotIndex c2) c2;
                       c4 = c3\<lparr>snapshotConfig := msg_Configuration msg,
                         snapshotHasConfig := msg_HasConfiguration msg, activeConfigIndex := 0,
                         activeConfig := (if msg_HasConfiguration msg then msg_Configuration msg
                           else bootstrapConfig c3)\<rparr>;
                       (c5, out1) = (if stateChanged then persistHardState (c4, out) else (c4, out))
                   in (c5, emit ((snapshotResponse c5 (msg_From msg))
                         \<lparr>msg_Success := True, msg_MatchIndex := snapshotIndex c5\<rparr>) out1))"

definition handleInstallSnapshotResponse :: "Message \<Rightarrow> Core \<Rightarrow> Core \<times> Output" where
  "handleInstallSnapshotResponse msg c =
     (if msg_Term msg > currentTerm c then stepDownOnReply msg c
      else if role c \<noteq> Leader \<or> msg_Term msg \<noteq> currentTerm c \<or> \<not> msg_Success msg then (c, noOutput)
      else acknowledge msg c)"

section \<open>Completed persistence\<close>

definition releasePending :: "pendingItem \<Rightarrow> Core \<times> Output \<Rightarrow> Core \<times> Output" where
  "releasePending p = (\<lambda>(c, out).
     case pi_kind p of
       pendingVoteGrant \<Rightarrow>
         if currentTerm c = pi_term p \<and> votedFor c = pi_candidate p
         then (c, emit (voteResponse c (pi_candidate p) True) out) else (c, out)
     | pendingAppendAck \<Rightarrow>
         if entryStillPresent c (pi_index p) (pi_entryTerm p)
         then (c, emit ((appendResponse c (pi_to p))\<lparr>msg_Success := True, msg_MatchIndex := pi_index p\<rparr>) out)
         else (c, out)
     | pendingCommitAdvance \<Rightarrow>
         if entryStillPresent c (pi_index p) (pi_entryTerm p)
         then advanceFollowerCommit (pi_index p) (c, out) else (c, out)
     | pendingSelfMatch \<Rightarrow>
         if role c = Leader \<and> currentTerm c = pi_term p \<and> entryStillPresent c (pi_index p) (pi_entryTerm p)
         then let me = cfg_ID (c_cfg c);
                  c1 = (if pi_index p > mget0 (matchIndex c) me
                        then c\<lparr>matchIndex := mput me (pi_index p) (matchIndex c)\<rparr> else c)
              in advanceLeaderCommit (c1, out)
         else (c, out))"

definition handlePersistenceComplete :: "nat \<Rightarrow> Core \<Rightarrow> Core \<times> Output" where
  "handlePersistenceComplete seq c =
     (let c0 = (if seq > persistedSeq c then c\<lparr>persistedSeq := seq\<rparr> else c);
          ready = filter (\<lambda>p. \<not> pi_seq p > persistedSeq c0) (pending c0);
          remaining = filter (\<lambda>p. pi_seq p > persistedSeq c0) (pending c0);
          (c1, out) = foldl (\<lambda>s p. releasePending p s) (c0, noOutput) ready
      in (c1\<lparr>pending := remaining\<rparr>, out))"

section \<open>One step\<close>

fun handleMessage :: "Message \<Rightarrow> Core \<Rightarrow> raft_panic + Core \<times> Output" where
  "handleMessage msg c =
     (case msg_Type msg of
        MsgRequestVoteRequest \<Rightarrow> Inr (handleRequestVoteRequest msg c)
      | MsgRequestVoteResponse \<Rightarrow> Inr (handleRequestVoteResponse msg c)
      | MsgAppendEntriesRequest \<Rightarrow> handleAppendEntriesRequest msg c
      | MsgAppendEntriesResponse \<Rightarrow> Inr (handleAppendEntriesResponse msg c)
      | MsgInstallSnapshotRequest \<Rightarrow> Inr (handleInstallSnapshotRequest msg c)
      | MsgInstallSnapshotResponse \<Rightarrow> Inr (handleInstallSnapshotResponse msg c))"

fun Step :: "Input \<Rightarrow> Core \<Rightarrow> raft_panic + Core \<times> Output" where
  "Step InputElectionTimeout c = Inr (handleElectionTimeout c)"
| "Step InputHeartbeatTimeout c = Inr (handleHeartbeatTimeout c)"
| "Step (InputMessage msg) c = handleMessage msg c"
| "Step (InputPropose data) c = handlePropose data c"
| "Step (InputPersistenceComplete seq) c = Inr (handlePersistenceComplete seq c)"

end
