(* ===== verification/Raft_Log.thy ===== *)
theory Raft_Log
  imports Raft_Core
begin

text \<open>
  The log of one core over its steps: the invariant of the record, that every handler keeps
  it, and that committed entries never change and are delivered once, in order. The
  configuration in force is part of the invariant: it is always the one of the newest
  configuration entry in the log.
\<close>

section \<open>What the shared steps leave alone\<close>

lemma resetElectionTimer_frame:
  "\<exists>k t. resetElectionTimer (c, out) =
     (c\<lparr>c_draws := k\<rparr>, out\<lparr>out_ResetElectionTimer := True, out_ElectionTimeoutTicks := t\<rparr>)"
  by (auto simp: resetElectionTimer_def drawElectionTimeout_def split: prod.splits)

lemma persistHardState_eq:
  "persistHardState (c, out) = (c\<lparr>persistSeq := persistSeq c + 1\<rparr>,
     out\<lparr>out_PersistRequest := Some \<lparr>pr_Seq = persistSeq c + 1,
       pr_HardState = Some \<lparr>hs_CurrentTerm = currentTerm c, hs_VotedFor = votedFor c\<rparr>,
       pr_TruncateFrom = 0, pr_Entries = []\<rparr>\<rparr>)"
  by (simp add: persistHardState_def Let_def)

lemma emit_simps [simp]:
  "out_Messages (emit m out) = out_Messages out @ [m]"
  "out_PersistRequest (emit m out) = out_PersistRequest out"
  "out_CommittedEntries (emit m out) = out_CommittedEntries out"
  "out_BecameLeader (emit m out) = out_BecameLeader out"
  by (simp_all add: emit_def)

lemma noOutput_simps [simp]:
  "out_Messages noOutput = []" "out_PersistRequest noOutput = None" "out_CommittedEntries noOutput = []"
  "out_BecameLeader noOutput = False"
  by (simp_all add: noOutput_def)

text \<open>The log functions do not depend on the other fields.\<close>

lemma log_functions_frame [simp]:
  "lastIndex (c\<lparr>nextIndex := ni\<rparr>) = lastIndex c" "termAt (c\<lparr>nextIndex := ni\<rparr>) = termAt c"
  "pos (c\<lparr>nextIndex := ni\<rparr>) = pos c"
  "lastIndex (c\<lparr>role := r\<rparr>) = lastIndex c" "termAt (c\<lparr>role := r\<rparr>) = termAt c" "pos (c\<lparr>role := r\<rparr>) = pos c"
  by (simp_all add: lastIndex_def termAt_def pos_def fun_eq_iff Let_def)

text \<open>The request a leader sends to a peer from position \<open>next\<close> on.\<close>

definition request_at :: "Core \<Rightarrow> NodeID \<Rightarrow> Index \<Rightarrow> Message" where
  "request_at c peer next =
     (if next \<le> snapshotIndex c
      then (mkMessage MsgInstallSnapshotRequest (cfg_ID (c_cfg c)) peer (currentTerm c))
        \<lparr>msg_LastIncludedIndex := snapshotIndex c, msg_LastIncludedTerm := snapshotTerm c,
         msg_Configuration := snapshotConfig c, msg_HasConfiguration := snapshotHasConfig c\<rparr>
      else (mkMessage MsgAppendEntriesRequest (cfg_ID (c_cfg c)) peer (currentTerm c))
        \<lparr>msg_PrevLogIndex := next - 1, msg_PrevLogTerm := termAt c (next - 1),
         msg_Entries := (if next \<le> lastIndex c then drop (nat (pos c next)) (rlog c) else []),
         msg_LeaderCommit := commitIndex c\<rparr>)"

definition leader_request :: "Core \<Rightarrow> Message \<Rightarrow> bool" where
  "leader_request c m \<longleftrightarrow> (\<exists>peer next. 1 \<le> next \<and> m = request_at c peer next)"

lemma appendEntriesMessage_request: "leader_request c (snd (appendEntriesMessage peer c))"
  unfolding leader_request_def
  by (intro exI [of _ peer] exI [of _ "if mget0 (nextIndex c) peer < 1 then 1 else mget0 (nextIndex c) peer"])
    (simp add: appendEntriesMessage_def request_at_def Let_def)

lemma leader_request_cong:
  assumes "c_cfg c = c_cfg d" "currentTerm c = currentTerm d" "rlog c = rlog d" "snapshotIndex c = snapshotIndex d"
    "snapshotTerm c = snapshotTerm d" "snapshotConfig c = snapshotConfig d"
    "snapshotHasConfig c = snapshotHasConfig d" "commitIndex c = commitIndex d"
  shows "leader_request c = leader_request d"
proof -
  have "request_at c = request_at d"
    using assms by (simp add: fun_eq_iff request_at_def termAt_def lastIndex_def pos_def Let_def)
  then show ?thesis by (simp add: fun_eq_iff leader_request_def)
qed

lemma appendEntriesMessage_frame:
  "\<exists>ni. fst (appendEntriesMessage peer c) = c\<lparr>nextIndex := ni\<rparr>"
proof (cases "(if mget0 (nextIndex c) peer < 1 then 1 else mget0 (nextIndex c) peer) \<le> snapshotIndex c")
  case True
  then show ?thesis by (intro exI [of _ "nextIndex c"]) (simp add: appendEntriesMessage_def Let_def)
qed (auto simp: appendEntriesMessage_def Let_def)

lemma sendAppend_frame:
  "\<exists>ni m. sendAppend peer (c, out) = (c\<lparr>nextIndex := ni\<rparr>, emit m out) \<and> leader_request c m"
proof -
  obtain ni where ni: "fst (appendEntriesMessage peer c) = c\<lparr>nextIndex := ni\<rparr>"
    using appendEntriesMessage_frame by blast
  with appendEntriesMessage_request [of c peer] show ?thesis
    by (auto simp: sendAppend_def case_prod_beta)
qed

lemma leader_request_nextIndex [simp]: "leader_request (c\<lparr>nextIndex := ni\<rparr>) = leader_request c"
  by (rule leader_request_cong) simp_all

lemma fold_sendAppend:
  "\<exists>ni ms. foldl (\<lambda>s m. if P m then s else sendAppend (mem_ID m) s) (c, out) members
      = (c\<lparr>nextIndex := ni\<rparr>, out\<lparr>out_Messages := out_Messages out @ ms\<rparr>) \<and> (\<forall>m \<in> set ms. leader_request c m)"
proof (induction members arbitrary: c out)
  case Nil
  show ?case by (intro exI [of _ "nextIndex c"] exI [of _ "[]"]) simp
next
  case (Cons x xs)
  show ?case
  proof (cases "P x")
    case True
    with Cons show ?thesis by simp
  next
    case False
    obtain ni m where s: "sendAppend (mem_ID x) (c, out) = (c\<lparr>nextIndex := ni\<rparr>, emit m out)" "leader_request c m"
      using sendAppend_frame by blast
    obtain ni' ms where "foldl (\<lambda>s m. if P m then s else sendAppend (mem_ID m) s) (c\<lparr>nextIndex := ni\<rparr>, emit m out) xs
        = (c\<lparr>nextIndex := ni\<rparr>\<lparr>nextIndex := ni'\<rparr>, (emit m out)\<lparr>out_Messages := out_Messages (emit m out) @ ms\<rparr>)"
      "\<forall>m \<in> set ms. leader_request c m"
      using Cons [of "c\<lparr>nextIndex := ni\<rparr>" "emit m out"] by auto
    then show ?thesis
      using False s by (intro exI [of _ ni'] exI [of _ "m # ms"]) (simp add: emit_def)
  qed
qed

lemma broadcastAppend_frame:
  "\<exists>ni ms. broadcastAppend (c, out) = (c\<lparr>nextIndex := ni\<rparr>, out\<lparr>out_Messages := out_Messages out @ ms\<rparr>)
     \<and> (\<forall>m \<in> set ms. leader_request c m)"
proof -
  obtain ni ms where 1: "foldl (\<lambda>s m. if mem_ID m = cfg_ID (c_cfg c) then s else sendAppend (mem_ID m) s) (c, out)
      (Voters (activeConfig c)) = (c\<lparr>nextIndex := ni\<rparr>, out\<lparr>out_Messages := out_Messages out @ ms\<rparr>)"
    "\<forall>m \<in> set ms. leader_request c m"
    using fold_sendAppend [of "\<lambda>m. mem_ID m = cfg_ID (c_cfg c)"] by blast
  obtain ni' ms' where 2: "foldl (\<lambda>s m. sendAppend (mem_ID m) s)
      (c\<lparr>nextIndex := ni\<rparr>, out\<lparr>out_Messages := out_Messages out @ ms\<rparr>) (Learners (activeConfig c))
      = (c\<lparr>nextIndex := ni\<rparr>\<lparr>nextIndex := ni'\<rparr>, (out\<lparr>out_Messages := out_Messages out @ ms\<rparr>)
          \<lparr>out_Messages := out_Messages (out\<lparr>out_Messages := out_Messages out @ ms\<rparr>) @ ms'\<rparr>)"
    "\<forall>m \<in> set ms'. leader_request c m"
    using fold_sendAppend [of "\<lambda>m. False" "c\<lparr>nextIndex := ni\<rparr>"
        "out\<lparr>out_Messages := out_Messages out @ ms\<rparr>" "Learners (activeConfig c)"] by auto
  show ?thesis
    using 1 2 by (intro exI [of _ ni'] exI [of _ "ms @ ms'"]) (auto simp: broadcastAppend_def)
qed

lemma becomeLeader_frame:
  "\<exists>ni mi ms. becomeLeader (c, out) =
     (c\<lparr>role := Leader, leaderID := cfg_ID (c_cfg c), votesReceived := [], pendingConfIndex := lastIndex c,
        nextIndex := ni, matchIndex := mi\<rparr>,
      out\<lparr>out_BecameLeader := True, out_ResetHeartbeatTimer := True,
        out_HeartbeatTimeoutTicks := cfg_HeartbeatTimeoutTicks (c_cfg c),
        out_Messages := out_Messages out @ ms\<rparr>)
     \<and> (\<forall>m \<in> set ms. leader_request c m)"
proof -
  let ?members = "Voters (activeConfig c) @ Learners (activeConfig c)"
  let ?c = "c\<lparr>role := Leader, leaderID := cfg_ID (c_cfg c), votesReceived := [],
    pendingConfIndex := lastIndex c, nextIndex := mputs mem_ID (\<lambda>_. lastIndex c + 1) ?members [],
    matchIndex := mput (cfg_ID (c_cfg c)) (lastIndex c) (mputs mem_ID (\<lambda>_. 0) ?members [])\<rparr>"
  let ?out = "out\<lparr>out_BecameLeader := True, out_ResetHeartbeatTimer := True,
    out_HeartbeatTimeoutTicks := cfg_HeartbeatTimeoutTicks (c_cfg c)\<rparr>"
  obtain ni ms where b: "broadcastAppend (?c, ?out) =
      (?c\<lparr>nextIndex := ni\<rparr>, ?out\<lparr>out_Messages := out_Messages ?out @ ms\<rparr>)" "\<forall>m \<in> set ms. leader_request ?c m"
    using broadcastAppend_frame by blast
  have "leader_request ?c = leader_request c" by (rule leader_request_cong) simp_all
  with b show ?thesis
    by (intro exI [of _ ni] exI [of _ "matchIndex ?c"] exI [of _ ms]) (simp add: becomeLeader_def Let_def)
qed


section \<open>The invariant of the log\<close>

text \<open>The configuration an entry puts in force, if it does, and the newest one of a sequence of
  entries, with the index of its entry. This reads the entries forwards; \<open>ConfigAt\<close> walks the
  log backwards and \<open>activateFromAppendedEntries\<close> keeps a running value. The three agree.\<close>

definition config_of :: "Entry \<Rightarrow> Configuration option" where
  "config_of e =
     (if ent_Type e \<noteq> EntryConfig then None
      else case decodeConfigChange (ent_Data e) of
             Inl err \<Rightarrow> None
           | Inr cc \<Rightarrow> if cc_establishes cc then Some (cc_cfg cc) else None)"

definition newest_config :: "Configuration \<times> Index \<Rightarrow> Entry list \<Rightarrow> Configuration \<times> Index" where
  "newest_config = foldl (\<lambda>acc e. case config_of e of None \<Rightarrow> acc | Some cfg \<Rightarrow> (cfg, ent_Index e))"

lemma newest_config_simps [simp]:
  "newest_config acc [] = acc"
  "newest_config acc (e # es) = newest_config (case config_of e of None \<Rightarrow> acc | Some cfg \<Rightarrow> (cfg, ent_Index e)) es"
  "newest_config acc (es @ es') = newest_config (newest_config acc es) es'"
  by (simp_all add: newest_config_def)

definition contiguous :: "Index \<Rightarrow> Entry list \<Rightarrow> bool" where
  "contiguous i es \<longleftrightarrow> map ent_Index es = [i..<i + length es]"

lemma contiguous_nth: "contiguous i es \<longleftrightarrow> (\<forall>k < length es. ent_Index (es ! k) = i + k)"
  unfolding contiguous_def by (subst list_eq_iff_nth_eq) auto

lemma contiguous_Nil [simp]: "contiguous i []"
  by (simp add: contiguous_def)

lemma contiguous_Cons [simp]: "contiguous i (e # es) \<longleftrightarrow> ent_Index e = i \<and> contiguous (Suc i) es"
  unfolding contiguous_def by (simp add: upt_conv_Cons del: upt_Suc)

lemma contiguous_append [simp]: "contiguous i (xs @ ys) \<longleftrightarrow> contiguous i xs \<and> contiguous (i + length xs) ys"
  by (induction xs arbitrary: i) auto

lemma contiguous_take: "contiguous i xs \<Longrightarrow> contiguous i (take k xs)"
  by (simp add: contiguous_nth)

lemma contiguous_drop: "contiguous i xs \<Longrightarrow> contiguous (i + k) (drop k xs)"
  by (simp add: contiguous_nth)

text \<open>The log starts with the entry of the snapshot boundary; from there the indices are
  consecutive.\<close>

definition log_wf :: "Core \<Rightarrow> bool" where
  "log_wf c \<longleftrightarrow> rlog c \<noteq> [] \<and> contiguous (snapshotIndex c) (rlog c)
     \<and> ent_Term (hd (rlog c)) = snapshotTerm c \<and> ent_Type (hd (rlog c)) = EntryNormal"

definition core_inv :: "Core \<Rightarrow> bool" where
  "core_inv c \<longleftrightarrow> log_wf c \<and> snapshotIndex c \<le> appliedIndex c \<and> appliedIndex c \<le> commitIndex c
     \<and> commitIndex c \<le> lastIndex c
     \<and> (activeConfig c, activeConfigIndex c) = newest_config (base_config c, 0) (Entries c)"

text \<open>The part of the state the invariant is about.\<close>

definition log_view where
  "log_view c = (c_cfg c, rlog c, snapshotIndex c, snapshotTerm c, commitIndex c, appliedIndex c,
     activeConfig c, activeConfigIndex c, snapshotConfig c, snapshotHasConfig c, bootstrapConfig c)"

lemma log_view_frame [simp]:
  "log_view (c\<lparr>c_draws := k\<rparr>) = log_view c" "log_view (c\<lparr>role := r\<rparr>) = log_view c"
  "log_view (c\<lparr>currentTerm := n\<rparr>) = log_view c" "log_view (c\<lparr>votedFor := i\<rparr>) = log_view c"
  "log_view (c\<lparr>leaderID := i\<rparr>) = log_view c" "log_view (c\<lparr>nextIndex := m\<rparr>) = log_view c"
  "log_view (c\<lparr>matchIndex := m\<rparr>) = log_view c" "log_view (c\<lparr>votesReceived := vs\<rparr>) = log_view c"
  "log_view (c\<lparr>persistSeq := n\<rparr>) = log_view c" "log_view (c\<lparr>persistedSeq := n\<rparr>) = log_view c"
  "log_view (c\<lparr>pending := ps\<rparr>) = log_view c" "log_view (c\<lparr>pendingConfIndex := n\<rparr>) = log_view c"
  "log_view (c\<lparr>heardFromLeader := b\<rparr>) = log_view c" "log_view (c\<lparr>skipP1ForTest := b\<rparr>) = log_view c"
  by (simp_all add: log_view_def)

subsection \<open>Indices and positions\<close>

lemma lastIndex_eq: "log_wf c \<Longrightarrow> lastIndex c + 1 = snapshotIndex c + length (rlog c)"
  by (cases "rlog c") (auto simp: log_wf_def lastIndex_def)

lemma rlog_split: "log_wf c \<Longrightarrow> rlog c = hd (rlog c) # Entries c"
  by (cases "rlog c") (auto simp: log_wf_def Entries_def)

lemma contiguous_Entries: "log_wf c \<Longrightarrow> contiguous (Suc (snapshotIndex c)) (Entries c)"
  using contiguous_drop [of "snapshotIndex c" "rlog c" 1] by (simp add: log_wf_def Entries_def)

lemma length_Entries: "log_wf c \<Longrightarrow> lastIndex c = snapshotIndex c + length (Entries c)"
  by (cases "rlog c") (auto simp: log_wf_def Entries_def lastIndex_def)

lemma rlog_nth_Suc: "log_wf c \<Longrightarrow> rlog c ! Suc k = Entries c ! k"
  by (cases "rlog c") (auto simp: log_wf_def Entries_def)

subsection \<open>The configuration in force\<close>

text \<open>\<open>ConfigAt\<close> at an index of the log is the newest configuration up to there.\<close>

lemma ConfigAt_newest:
  assumes "log_wf c"
  shows "snapshotIndex c + k \<le> lastIndex c
    \<Longrightarrow> ConfigAt c (snapshotIndex c + k) = newest_config (base_config c, 0) (take k (Entries c))"
proof (induction k)
  case 0
  show ?case by (simp add: ConfigAt.simps)
next
  case (Suc k)
  have k: "k < length (Entries c)" using Suc.prems length_Entries [OF assms] by simp
  have idx: "ent_Index (Entries c ! k) = Suc (snapshotIndex c + k)"
    using contiguous_Entries [OF assms] k by (simp add: contiguous_nth)
  have nth: "rlog c ! Suc k = Entries c ! k" by (rule rlog_nth_Suc [OF assms])
  have len: "Suc k < length (rlog c)" using Suc.prems lastIndex_eq [OF assms] by simp
  have take: "take (Suc k) (Entries c) = take k (Entries c) @ [Entries c ! k]"
    using k by (simp add: take_Suc_conv_app_nth)
  have "ConfigAt c (snapshotIndex c + Suc k) =
      (case config_of (Entries c ! k) of None \<Rightarrow> ConfigAt c (snapshotIndex c + k)
         | Some cfg \<Rightarrow> (cfg, Suc (snapshotIndex c + k)))"
    using len nth by (subst ConfigAt.simps) (simp add: pos_def config_of_def Let_def nat_add_distrib split: sum.splits)
  then show ?case using Suc take idx by (simp split: option.splits)
qed

lemma ConfigAt_last:
  "log_wf c \<Longrightarrow> ConfigAt c (lastIndex c) = newest_config (base_config c, 0) (Entries c)"
  using ConfigAt_newest [of c "length (Entries c)"] by (simp add: length_Entries)

lemma activate_loop_newest:
  "activate_loop prior es c = Inr c' \<Longrightarrow> newest_config (activeConfig c, activeConfigIndex c) es = (cfg, i)
     \<Longrightarrow> c' = c\<lparr>activeConfig := cfg, activeConfigIndex := i\<rparr>"
proof (induction es arbitrary: prior c)
  case (Cons e es)
  show ?case
  proof (cases "config_of e")
    case None
    with Cons.prems have "activate_loop prior es c = Inr c'" "newest_config (activeConfig c, activeConfigIndex c) es = (cfg, i)"
      by (simp_all add: config_of_def split: if_splits sum.splits)
    then show ?thesis by (rule Cons.IH)
  next
    case (Some cfg')
    let ?c = "c\<lparr>activeConfig := cfg', activeConfigIndex := ent_Index e\<rparr>"
    from Some Cons.prems have "activate_loop cfg' es ?c = Inr c'" "newest_config (activeConfig ?c, activeConfigIndex ?c) es = (cfg, i)"
      by (auto simp: config_of_def split: if_splits sum.splits)
    then have "c' = ?c\<lparr>activeConfig := cfg, activeConfigIndex := i\<rparr>" by (rule Cons.IH)
    then show ?thesis by simp
  qed
qed simp

section \<open>Commit advances\<close>

text \<open>A step that only moves the commit index, and the entries it delivers.\<close>

definition commits :: "Core \<Rightarrow> Core \<Rightarrow> Entry list \<Rightarrow> bool" where
  "commits c c' es \<longleftrightarrow> commitIndex c \<le> commitIndex c' \<and> commitIndex c' \<le> lastIndex c
     \<and> log_view c' = log_view (c\<lparr>commitIndex := commitIndex c'\<rparr>)
     \<and> es = log_slice c (Suc (commitIndex c)) (commitIndex c')"

lemma log_slice_Suc_self [simp]: "log_slice c (Suc n) n = []"
  by (simp add: log_slice_def pos_def)

lemma log_slice_cong:
  "rlog c = rlog d \<Longrightarrow> snapshotIndex c = snapshotIndex d \<Longrightarrow> log_slice c = log_slice d"
  by (simp add: log_slice_def pos_def fun_eq_iff)

lemma log_slice_drop:
  assumes "snapshotIndex c < lo"
  shows "log_slice c lo hi = take (Suc hi - lo) (drop (lo - snapshotIndex c) (rlog c))"
proof -
  have "nat (pos c lo) = lo - snapshotIndex c" "nat (pos c hi + 1 - pos c lo) = Suc hi - lo"
    using assms by (simp_all add: pos_def nat_diff_distrib')
  then show ?thesis by (simp add: log_slice_def)
qed

lemma log_slice_append:
  assumes "snapshotIndex c < lo" "lo \<le> Suc mid" "mid \<le> hi"
  shows "log_slice c lo hi = log_slice c lo mid @ log_slice c (Suc mid) hi"
proof -
  define xs where "xs = drop (lo - snapshotIndex c) (rlog c)"
  have "take (Suc hi - lo) xs = take (Suc mid - lo) xs @ take (hi - mid) (drop (Suc mid - lo) xs)"
    using assms take_add [of "Suc mid - lo" "hi - mid" xs] by simp
  moreover have "drop (Suc mid - lo) xs = drop (Suc mid - snapshotIndex c) (rlog c)"
    using assms by (simp add: xs_def)
  ultimately show ?thesis using assms by (simp add: log_slice_drop xs_def)
qed

lemma log_wf_cong: "log_view c = log_view d \<Longrightarrow> log_wf c = log_wf d"
  by (simp add: log_view_def log_wf_def)

lemma core_inv_cong: "log_view c = log_view d \<Longrightarrow> core_inv c = core_inv d"
  by (simp add: log_view_def core_inv_def log_wf_def lastIndex_def base_config_def Entries_def)

lemma commits_refl: "core_inv c \<Longrightarrow> log_view c' = log_view c \<Longrightarrow> commits c c' []"
  by (simp add: commits_def core_inv_def log_view_def)

lemma commits_trans:
  assumes "core_inv c" "commits c d es" "commits d e fs"
  shows "commits c e (es @ fs)"
proof -
  have d: "rlog d = rlog c" "snapshotIndex d = snapshotIndex c" "lastIndex d = lastIndex c"
    "log_slice d = log_slice c"
    using assms(2) log_slice_cong [of d c] by (simp_all add: commits_def log_view_def lastIndex_def)
  have "log_slice c (Suc (commitIndex c)) (commitIndex e) = es @ fs"
    using assms d log_slice_append [of c "Suc (commitIndex c)" "commitIndex d" "commitIndex e"]
    by (simp add: commits_def core_inv_def)
  then show ?thesis
    using assms d by (simp add: commits_def log_view_def)
qed

lemma commits_core_inv: "core_inv c \<Longrightarrow> commits c c' es \<Longrightarrow> core_inv c'"
  by (simp add: commits_def core_inv_def log_view_def log_wf_def lastIndex_def base_config_def Entries_def)

lemma commits_view:
  "log_view c = log_view d \<Longrightarrow> log_view c' = log_view d' \<Longrightarrow> commits c c' es = commits d d' es"
  by (simp add: commits_def log_view_def lastIndex_def log_slice_def pos_def)

lemma committed_slice_eq: "core_inv c \<Longrightarrow> committed_slice c n = log_slice c (Suc (commitIndex c)) n"
  by (simp add: committed_slice_def core_inv_def Let_def)

lemma advanceFollowerCommit_commits:
  assumes "core_inv c"
  shows "\<exists>es. commits c (fst (advanceFollowerCommit n (c, out))) es
     \<and> snd (advanceFollowerCommit n (c, out)) = out\<lparr>out_CommittedEntries := out_CommittedEntries out @ es\<rparr>"
proof (cases "min n (lastIndex c) \<le> commitIndex c")
  case True
  then have "advanceFollowerCommit n (c, out) = (c, out)"
    by (auto simp: advanceFollowerCommit_def Let_def min_def split: if_splits)
  then show ?thesis using commits_refl [OF assms, of c] by (intro exI [of _ "[]"]) simp
next
  case False
  then have "advanceFollowerCommit n (c, out) = (c\<lparr>commitIndex := min n (lastIndex c)\<rparr>,
      out\<lparr>out_CommittedEntries := out_CommittedEntries out @ committed_slice c (min n (lastIndex c))\<rparr>)"
    by (auto simp: advanceFollowerCommit_def Let_def min_def)
  then show ?thesis using False assms by (simp add: commits_def committed_slice_eq not_le less_imp_le)
qed

lemma commit_scan_Some:
  "commit_scan c m = Some n \<Longrightarrow> commitIndex c < n \<and> n \<le> m \<and> termAt c n = currentTerm c
     \<and> matching c n \<ge> Majority (activeConfig c)"
  by (induction m) (auto split: if_splits)

lemma commit_scan_greatest:
  "n < k \<Longrightarrow> k \<le> m \<Longrightarrow> commit_scan c m = Some n \<Longrightarrow> termAt c k \<noteq> currentTerm c \<or> matching c k < Majority (activeConfig c)"
  by (induction m) (auto split: if_splits simp: le_Suc_eq)

lemma commit_scan_None:
  "commit_scan c m = None \<Longrightarrow> commitIndex c < k \<Longrightarrow> k \<le> m
     \<Longrightarrow> termAt c k \<noteq> currentTerm c \<or> matching c k < Majority (activeConfig c)"
  by (induction m) (auto split: if_splits simp: le_Suc_eq)

lemma maybeStepDown_frame:
  "log_view (fst (maybeStepDownAfterSelfRemoval (c, out))) = log_view c"
  "\<exists>b. snd (maybeStepDownAfterSelfRemoval (c, out)) = out\<lparr>out_SteppedDown := b\<rparr>"
proof -
  show "log_view (fst (maybeStepDownAfterSelfRemoval (c, out))) = log_view c"
    by (simp add: maybeStepDownAfterSelfRemoval_def log_view_def)
  have "\<exists>b. out = out\<lparr>out_SteppedDown := b\<rparr>"
    by (intro exI [of _ "out_SteppedDown out"]) simp
  then show "\<exists>b. snd (maybeStepDownAfterSelfRemoval (c, out)) = out\<lparr>out_SteppedDown := b\<rparr>"
    by (auto simp: maybeStepDownAfterSelfRemoval_def)
qed

lemma advanceLeaderCommit_commits:
  assumes "core_inv c"
  shows "\<exists>es b. commits c (fst (advanceLeaderCommit (c, out))) es
     \<and> snd (advanceLeaderCommit (c, out)) = out\<lparr>out_CommittedEntries := out_CommittedEntries out @ es, out_SteppedDown := b\<rparr>"
proof (cases "commit_scan c (lastIndex c)")
  case None
  then have "advanceLeaderCommit (c, out) = (c, out)" by (simp add: advanceLeaderCommit_def)
  then show ?thesis using commits_refl [OF assms, of c]
    by (intro exI [of _ "[]"] exI [of _ "out_SteppedDown out"]) simp
next
  case (Some n)
  let ?c = "c\<lparr>commitIndex := n\<rparr>"
  let ?out = "out\<lparr>out_CommittedEntries := out_CommittedEntries out @ committed_slice c n\<rparr>"
  have eq: "advanceLeaderCommit (c, out) = maybeStepDownAfterSelfRemoval (?c, ?out)"
    using Some by (simp add: advanceLeaderCommit_def)
  have "commits c ?c (committed_slice c n)"
    using commit_scan_Some [OF Some] assms by (simp add: commits_def committed_slice_eq)
  then have "commits c (fst (advanceLeaderCommit (c, out))) (committed_slice c n)"
    unfolding eq by (rule commits_view [OF refl maybeStepDown_frame(1), THEN iffD2])
  then show ?thesis
    unfolding eq using maybeStepDown_frame(2) [of ?c ?out] by blast
qed

end
