(* ===== verification/Raft_Step.thy ===== *)
theory Raft_Step
  imports Raft_Log
begin

text \<open>
  What one step of a core does to its log. The relation \<open>log_step\<close> has three rules: the commit
  index moves, the log is cut above the commit index and extended, or a snapshot replaces it.
  Every handler of \<open>Step\<close> and \<open>ProposeConfigChange\<close> is one of these, and what the persist request
  of the step tells the storage to write is exactly what happened to the log.
\<close>

section \<open>The effects on the log\<close>

definition writes :: "Output \<Rightarrow> Index \<times> Entry list" where
  "writes out = (case out_PersistRequest out of None \<Rightarrow> (0, []) | Some p \<Rightarrow> (pr_TruncateFrom p, pr_Entries p))"

inductive log_step :: "Core \<Rightarrow> Core \<Rightarrow> Output \<Rightarrow> bool" where
  commit: "commits c c' (out_CommittedEntries out) \<Longrightarrow> writes out = (0, []) \<Longrightarrow> log_step c c' out"
| extend: "commitIndex c < snapshotIndex c + k \<Longrightarrow> k \<le> length (rlog c)
     \<Longrightarrow> contiguous (snapshotIndex c + k) es
     \<Longrightarrow> newest_config (base_config c, 0) (drop 1 (take k (rlog c) @ es)) = (cfg, i)
     \<Longrightarrow> log_view c' = log_view (c\<lparr>rlog := take k (rlog c) @ es, activeConfig := cfg, activeConfigIndex := i\<rparr>)
     \<Longrightarrow> writes out = (if k < length (rlog c) then snapshotIndex c + k else 0, es)
     \<Longrightarrow> out_CommittedEntries out = [] \<Longrightarrow> log_step c c' out"
| install: "commitIndex c < i
     \<Longrightarrow> log_view c' = log_view (c\<lparr>snapshotIndex := i, snapshotTerm := t,
           rlog := [\<lparr>ent_Index = i, ent_Term = t, ent_Type = EntryNormal, ent_Data = []\<rparr>],
           commitIndex := i, appliedIndex := i, snapshotConfig := cfg, snapshotHasConfig := has,
           activeConfig := (if has then cfg else bootstrapConfig c), activeConfigIndex := 0\<rparr>)
     \<Longrightarrow> writes out = (0, []) \<Longrightarrow> out_CommittedEntries out = [] \<Longrightarrow> log_step c c' out"

text \<open>A step that leaves the log alone.\<close>

definition quiet :: "Core \<Rightarrow> Core \<Rightarrow> Output \<Rightarrow> bool" where
  "quiet c c' out \<longleftrightarrow> log_view c' = log_view c \<and> out_CommittedEntries out = [] \<and> writes out = (0, [])"

lemma quiet_log_step: "core_inv c \<Longrightarrow> quiet c c' out \<Longrightarrow> log_step c c' out"
  using commits_refl [of c c'] by (auto simp: quiet_def intro: log_step.commit)

lemma writes_simps [simp]:
  "writes noOutput = (0, [])" "writes (emit m out) = writes out"
  "writes (out\<lparr>out_Messages := ms\<rparr>) = writes out" "writes (out\<lparr>out_ResetElectionTimer := b\<rparr>) = writes out"
  "writes (out\<lparr>out_ElectionTimeoutTicks := t\<rparr>) = writes out" "writes (out\<lparr>out_ResetHeartbeatTimer := b\<rparr>) = writes out"
  "writes (out\<lparr>out_HeartbeatTimeoutTicks := t\<rparr>) = writes out" "writes (out\<lparr>out_CommittedEntries := es\<rparr>) = writes out"
  "writes (out\<lparr>out_BecameLeader := b\<rparr>) = writes out" "writes (out\<lparr>out_SteppedDown := b\<rparr>) = writes out"
  "writes (out\<lparr>out_ProposalRejected := b\<rparr>) = writes out" "writes (out\<lparr>out_LeaderHint := i\<rparr>) = writes out"
  "writes (out\<lparr>out_PersistRequest := Some p\<rparr>) = (pr_TruncateFrom p, pr_Entries p)"
  by (simp_all add: writes_def)

text \<open>A step of a handler that is made of shared steps: each keeps the log and adds no writes.\<close>

lemma quiet_refl: "quiet c c noOutput"
  by (simp add: quiet_def)

lemma quiet_resetElectionTimer:
  "quiet c d out \<Longrightarrow> quiet c (fst (resetElectionTimer (d, out))) (snd (resetElectionTimer (d, out)))"
  using resetElectionTimer_frame [of d out] by (auto simp: quiet_def)

lemma quiet_persistHardState:
  "quiet c d out \<Longrightarrow> quiet c (fst (persistHardState (d, out))) (snd (persistHardState (d, out)))"
  by (simp add: quiet_def persistHardState_eq)

lemma quiet_broadcastAppend:
  "quiet c d out \<Longrightarrow> quiet c (fst (broadcastAppend (d, out))) (snd (broadcastAppend (d, out)))"
  using broadcastAppend_frame [of d out] by (auto simp: quiet_def)

lemma quiet_becomeLeader:
  "quiet c d out \<Longrightarrow> quiet c (fst (becomeLeader (d, out))) (snd (becomeLeader (d, out)))"
  using becomeLeader_frame [of d out] by (auto simp: quiet_def)

lemma quiet_sendAppend:
  "quiet c d out \<Longrightarrow> quiet c (fst (sendAppend peer (d, out))) (snd (sendAppend peer (d, out)))"
  using sendAppend_frame [of peer d out] by (auto simp: quiet_def)

lemma foldl_emit:
  "foldl (\<lambda>out m. if P m then out else emit (f m) out) out ms
     = out\<lparr>out_Messages := out_Messages out @ map f (filter (\<lambda>m. \<not> P m) ms)\<rparr>"
  by (induction ms arbitrary: out) (simp_all add: emit_def)

section \<open>Handlers that leave the log alone\<close>

lemma resetElectionTimer_eq:
  "resetElectionTimer (c, out) = (c\<lparr>c_draws := snd (electionTimeout (c_cfg c) (c_draws c))\<rparr>,
     out\<lparr>out_ResetElectionTimer := True, out_ElectionTimeoutTicks := fst (electionTimeout (c_cfg c) (c_draws c))\<rparr>)"
  by (simp add: resetElectionTimer_def drawElectionTimeout_def case_prod_beta)

lemmas shared_steps = resetElectionTimer_eq persistHardState_eq stepDownTo_def foldl_emit

lemma handleElectionTimeout_quiet: "quiet c (fst (handleElectionTimeout c)) (snd (handleElectionTimeout c))"
  by (simp add: handleElectionTimeout_def Let_def shared_steps)
    (auto simp: quiet_def intro!: quiet_becomeLeader [unfolded quiet_def, simplified])

lemma handleHeartbeatTimeout_quiet: "quiet c (fst (handleHeartbeatTimeout c)) (snd (handleHeartbeatTimeout c))"
  unfolding handleHeartbeatTimeout_def
  using quiet_broadcastAppend [of c c "noOutput\<lparr>out_ResetHeartbeatTimer := True,
      out_HeartbeatTimeoutTicks := cfg_HeartbeatTimeoutTicks (c_cfg c)\<rparr>"]
  by (simp add: quiet_def)

lemma handleRequestVoteRequest_quiet:
  "quiet c (fst (handleRequestVoteRequest msg c)) (snd (handleRequestVoteRequest msg c))"
  by (simp add: handleRequestVoteRequest_def Let_def shared_steps case_prod_beta quiet_def)

lemma stepDownOnReply_quiet: "quiet c (fst (stepDownOnReply msg c)) (snd (stepDownOnReply msg c))"
  by (simp add: stepDownOnReply_def Let_def shared_steps quiet_def)

lemma handleRequestVoteResponse_quiet:
  "quiet c (fst (handleRequestVoteResponse msg c)) (snd (handleRequestVoteResponse msg c))"
  using stepDownOnReply_quiet [of c msg]
    quiet_becomeLeader [of c "c\<lparr>votesReceived := mput (msg_From msg) True (votesReceived c)\<rparr>" noOutput]
  by (simp add: handleRequestVoteResponse_def Let_def quiet_def)

section \<open>Handlers that move the commit index\<close>

lemma log_step_frame:
  assumes "log_step c d out" "log_view c' = log_view c"
  shows "log_step c' d out"
  using assms
proof cases
  case commit
  then have "commits c' d (out_CommittedEntries out)" using assms(2) commits_view [of c' c d d] by simp
  with commit show ?thesis by (intro log_step.commit)
next
  case (extend k es cfg i)
  moreover have "base_config c' = base_config c" using assms(2) by (simp add: log_view_def base_config_def)
  ultimately show ?thesis using assms(2)
    by (intro log_step.extend [of c' k es cfg i]) (simp_all add: log_view_def)
next
  case (install i t cfg has)
  then show ?thesis using assms(2)
    by (intro log_step.install [of c' i d t cfg has]) (simp_all add: log_view_def)
qed

lemma bumpProgress_view [simp]: "log_view (bumpProgress msg c) = log_view c"
  by (simp add: bumpProgress_def Let_def)

lemma acknowledge_log_step:
  assumes "core_inv c"
  shows "log_step c (fst (acknowledge msg c)) (snd (acknowledge msg c))"
proof -
  define d where "d = bumpProgress msg c"
  have "core_inv d" using assms core_inv_cong [of d c] by (simp add: d_def)
  then obtain es b where a: "commits d (fst (advanceLeaderCommit (d, noOutput))) es"
      "snd (advanceLeaderCommit (d, noOutput)) = noOutput\<lparr>out_CommittedEntries := es, out_SteppedDown := b\<rparr>"
    using advanceLeaderCommit_commits [of d noOutput] by auto
  obtain c1 out where r: "advanceLeaderCommit (d, noOutput) = (c1, out)" by (cases "advanceLeaderCommit (d, noOutput)")
  obtain ni m where s: "sendAppend (msg_From msg) (c1, out) = (c1\<lparr>nextIndex := ni\<rparr>, emit m out)"
    using sendAppend_frame by blast
  have "log_view (fst (acknowledge msg c)) = log_view c1" "writes (snd (acknowledge msg c)) = (0, [])"
    "out_CommittedEntries (snd (acknowledge msg c)) = es"
    using a r s by (simp_all add: acknowledge_def flip: d_def)
  moreover have "commits c c1 es" using a r commits_view [of c d c1 c1] by (simp add: d_def)
  ultimately show ?thesis using commits_view [OF refl, of "fst (acknowledge msg c)" c1]
    by (intro log_step.commit) simp_all
qed

lemma handleAppendEntriesResponse_log_step:
  assumes "core_inv c"
  shows "log_step c (fst (handleAppendEntriesResponse msg c)) (snd (handleAppendEntriesResponse msg c))"
proof -
  have "quiet c (fst (sendAppend p (c\<lparr>nextIndex := ni\<rparr>, noOutput))) (snd (sendAppend p (c\<lparr>nextIndex := ni\<rparr>, noOutput)))" for p ni
    by (intro quiet_sendAppend) (simp add: quiet_def)
  moreover have "quiet c (fst (sendAppend p (c, noOutput))) (snd (sendAppend p (c, noOutput)))" for p
    by (intro quiet_sendAppend) (simp add: quiet_def)
  moreover have "quiet c (c\<lparr>nextIndex := ni\<rparr>) noOutput" for ni by (simp add: quiet_def)
  ultimately show ?thesis
    using acknowledge_log_step [OF assms] stepDownOnReply_quiet quiet_refl quiet_log_step [OF assms]
    by (simp add: handleAppendEntriesResponse_def Let_def)
qed

lemma handleInstallSnapshotResponse_log_step:
  "core_inv c \<Longrightarrow> log_step c (fst (handleInstallSnapshotResponse msg c)) (snd (handleInstallSnapshotResponse msg c))"
  using acknowledge_log_step stepDownOnReply_quiet quiet_refl quiet_log_step
  by (simp add: handleInstallSnapshotResponse_def)

lemma releasePending_commits:
  assumes "core_inv c"
  shows "\<exists>es. commits c (fst (releasePending p (c, out))) es
     \<and> out_CommittedEntries (snd (releasePending p (c, out))) = out_CommittedEntries out @ es
     \<and> out_PersistRequest (snd (releasePending p (c, out))) = out_PersistRequest out"
proof (cases "pi_kind p")
  case pendingVoteGrant
  then show ?thesis using commits_refl [OF assms refl] by (intro exI [of _ "[]"]) (simp add: releasePending_def)
next
  case pendingAppendAck
  then show ?thesis using commits_refl [OF assms refl] by (intro exI [of _ "[]"]) (simp add: releasePending_def)
next
  case pendingCommitAdvance
  then show ?thesis
    using commits_refl [OF assms refl] advanceFollowerCommit_commits [OF assms, of "pi_index p" out]
    by (cases "entryStillPresent c (pi_index p) (pi_entryTerm p)") (auto simp: releasePending_def)
next
  case pendingSelfMatch
  define c1 where "c1 = (if pi_index p > mget0 (matchIndex c) (cfg_ID (c_cfg c))
    then c\<lparr>matchIndex := mput (cfg_ID (c_cfg c)) (pi_index p) (matchIndex c)\<rparr> else c)"
  have v: "log_view c1 = log_view c" by (simp add: c1_def)
  then have "core_inv c1" using assms core_inv_cong by blast
  then obtain es b where "commits c1 (fst (advanceLeaderCommit (c1, out))) es"
     "snd (advanceLeaderCommit (c1, out)) = out\<lparr>out_CommittedEntries := out_CommittedEntries out @ es, out_SteppedDown := b\<rparr>"
    using advanceLeaderCommit_commits by blast
  moreover have "releasePending p (c, out) = (if role c = Leader \<and> currentTerm c = pi_term p
      \<and> entryStillPresent c (pi_index p) (pi_entryTerm p) then advanceLeaderCommit (c1, out) else (c, out))"
    using pendingSelfMatch by (simp add: releasePending_def c1_def Let_def)
  ultimately show ?thesis
    using commits_refl [OF assms refl] commits_view [OF v refl] by auto
qed

lemma handlePersistenceComplete_log_step:
  assumes "core_inv c"
  shows "log_step c (fst (handlePersistenceComplete seq c)) (snd (handlePersistenceComplete seq c))"
proof -
  have fold: "\<exists>es. commits d (fst (foldl (\<lambda>s p. releasePending p s) (d, out) ps)) es
      \<and> out_CommittedEntries (snd (foldl (\<lambda>s p. releasePending p s) (d, out) ps)) = out_CommittedEntries out @ es
      \<and> out_PersistRequest (snd (foldl (\<lambda>s p. releasePending p s) (d, out) ps)) = out_PersistRequest out"
    if "core_inv d" for d out ps
    using that
  proof (induction ps arbitrary: d out)
    case Nil
    then show ?case using commits_refl [OF Nil refl] by (intro exI [of _ "[]"]) simp
  next
    case (Cons p ps)
    obtain e out' where r: "releasePending p (d, out) = (e, out')" by (cases "releasePending p (d, out)")
    then obtain es where e: "commits d e es" "out_CommittedEntries out' = out_CommittedEntries out @ es"
        "out_PersistRequest out' = out_PersistRequest out"
      using releasePending_commits [OF Cons.prems, of p out] by auto
    from Cons.IH [OF commits_core_inv [OF Cons.prems e(1)], of out'] show ?case
      using r e commits_trans [OF Cons.prems e(1)] by fastforce
  qed
  define c0 where "c0 = (if seq > persistedSeq c then c\<lparr>persistedSeq := seq\<rparr> else c)"
  have v: "log_view c0 = log_view c" by (simp add: c0_def)
  then have "core_inv c0" using assms core_inv_cong by blast
  then obtain es where es: "commits c0 (fst (foldl (\<lambda>s p. releasePending p s) (c0, noOutput)
      (filter (\<lambda>p. \<not> pi_seq p > persistedSeq c0) (pending c0)))) es"
    "out_CommittedEntries (snd (handlePersistenceComplete seq c)) = es"
    "writes (snd (handlePersistenceComplete seq c)) = (0, [])"
    using fold [of c0 noOutput] unfolding handlePersistenceComplete_def
    by (fastforce simp: case_prod_beta c0_def Let_def writes_def)
  show ?thesis
    using es commits_view [OF v [symmetric], of "fst (handlePersistenceComplete seq c)"]
    by (intro log_step.commit) (simp_all add: handlePersistenceComplete_def Let_def case_prod_beta c0_def)
qed

section \<open>Handlers that extend the log\<close>

text \<open>Steps that touch only the replication progress of the leader.\<close>

definition progress_only :: "Core \<Rightarrow> Core \<Rightarrow> bool" where
  "progress_only c c' \<longleftrightarrow> (\<exists>ni mi. c' = c\<lparr>nextIndex := ni, matchIndex := mi\<rparr>)"

lemma progress_only_refl: "progress_only c c"
proof -
  have "c = c\<lparr>nextIndex := nextIndex c, matchIndex := matchIndex c\<rparr>" by simp
  then show ?thesis unfolding progress_only_def by blast
qed

lemma progress_only_nextIndex:
  assumes "progress_only c d"
  shows "progress_only c (d\<lparr>nextIndex := ni\<rparr>)"
proof -
  obtain ni' mi where "d = c\<lparr>nextIndex := ni', matchIndex := mi\<rparr>" using assms by (auto simp: progress_only_def)
  then have "d\<lparr>nextIndex := ni\<rparr> = c\<lparr>nextIndex := ni, matchIndex := mi\<rparr>" by simp
  then show ?thesis unfolding progress_only_def by blast
qed

lemma progress_only_matchIndex:
  assumes "progress_only c d"
  shows "progress_only c (d\<lparr>matchIndex := mi\<rparr>)"
proof -
  obtain ni mi' where "d = c\<lparr>nextIndex := ni, matchIndex := mi'\<rparr>" using assms by (auto simp: progress_only_def)
  then have "d\<lparr>matchIndex := mi\<rparr> = c\<lparr>nextIndex := ni, matchIndex := mi\<rparr>" by simp
  then show ?thesis unfolding progress_only_def by blast
qed

lemmas progress_only_intros = progress_only_refl progress_only_nextIndex progress_only_matchIndex

lemma initReplicationStateFor_progress:
  "progress_only c d \<Longrightarrow> progress_only c (initReplicationStateFor i prevLast d)"
  by (simp add: initReplicationStateFor_def Let_def progress_only_intros)

lemma fold_initReplicationState_frame:
  "progress_only c d \<Longrightarrow> progress_only c (foldl (\<lambda>c m. initReplicationStateFor (mem_ID m) prevLast c) d ms)"
  by (induction ms arbitrary: d) (simp_all add: initReplicationStateFor_progress)

text \<open>The entry a leader appends.\<close>

definition leader_entry :: "Core \<Rightarrow> EntryType \<Rightarrow> bytes \<Rightarrow> Entry" where
  "leader_entry c t data = \<lparr>ent_Index = lastIndex c + 1, ent_Term = currentTerm c, ent_Type = t, ent_Data = data\<rparr>"

lemma appendLeaderEntry_frame:
  assumes "appendLeaderEntry t data c = Inr (c', out)"
  shows "\<exists>cfg i ni mi ms.
     (cfg, i) = newest_config (activeConfig c, activeConfigIndex c) [leader_entry c t data]
     \<and> c' = c\<lparr>rlog := rlog c @ [leader_entry c t data], activeConfig := cfg, activeConfigIndex := i,
              nextIndex := ni, matchIndex := mi, persistSeq := persistSeq c + 1,
              pending := pending c @ [\<lparr>pi_kind = pendingSelfMatch, pi_seq = persistSeq c + 1,
                 pi_term = currentTerm c, pi_candidate = [], pi_to = [], pi_index = lastIndex c + 1,
                 pi_entryTerm = currentTerm c\<rparr>]\<rparr>
     \<and> out = noOutput\<lparr>out_PersistRequest := Some \<lparr>pr_Seq = persistSeq c + 1, pr_HardState = None,
                 pr_TruncateFrom = 0, pr_Entries = [leader_entry c t data]\<rparr>, out_Messages := ms\<rparr>
     \<and> (\<forall>m \<in> set ms. leader_request (c\<lparr>rlog := rlog c @ [leader_entry c t data]\<rparr>) m)"
proof -
  define c1 where "c1 = c\<lparr>rlog := rlog c @ [leader_entry c t data],
    matchIndex := mput (cfg_ID (c_cfg c)) (lastIndex c + 1) (matchIndex c)\<rparr>"
  define c2 where "c2 = (case config_of (leader_entry c t data) of None \<Rightarrow> c1
    | Some cfg \<Rightarrow> activateLeaderConfig cfg (lastIndex c + 1) (lastIndex c) c1)"
  obtain cfg i ni mi where ci: "(cfg, i) = newest_config (activeConfig c, activeConfigIndex c) [leader_entry c t data]"
      and c2: "c2 = c\<lparr>rlog := rlog c @ [leader_entry c t data], activeConfig := cfg, activeConfigIndex := i,
        nextIndex := ni, matchIndex := mi\<rparr>"
  proof (cases "config_of (leader_entry c t data)")
    case None
    then show ?thesis using that [where cfg = "activeConfig c" and i = "activeConfigIndex c" and ni = "nextIndex c" and mi = "matchIndex c1"]
      by (simp add: c2_def c1_def)
  next
    case (Some cfg)
    obtain ni mi where "activateLeaderConfig cfg (lastIndex c + 1) (lastIndex c) c1
        = c1\<lparr>activeConfig := cfg, activeConfigIndex := lastIndex c + 1, nextIndex := ni, matchIndex := mi\<rparr>"
      using fold_initReplicationState_frame [OF progress_only_refl] unfolding activateLeaderConfig_def progress_only_def by blast
    then show ?thesis using that [where cfg = cfg and i = "lastIndex c + 1" and ni = ni and mi = mi] Some
      by (simp add: c2_def c1_def leader_entry_def)
  qed
  define c3 where "c3 = c2\<lparr>persistSeq := persistSeq c2 + 1,
    pending := pending c2 @ [\<lparr>pi_kind = pendingSelfMatch, pi_seq = persistSeq c2 + 1,
      pi_term = currentTerm c2, pi_candidate = [], pi_to = [], pi_index = lastIndex c + 1, pi_entryTerm = currentTerm c2\<rparr>]\<rparr>"
  let ?out = "noOutput\<lparr>out_PersistRequest := Some \<lparr>pr_Seq = persistSeq c2 + 1, pr_HardState = None,
    pr_TruncateFrom = 0, pr_Entries = [leader_entry c t data]\<rparr>\<rparr>"
  have app: "(c', out) = broadcastAppend (c3, ?out)"
  proof (cases "t = EntryConfig")
    case False
    then show ?thesis
      using assms by (simp add: appendLeaderEntry_def Let_def c3_def c2_def c1_def leader_entry_def config_of_def)
  next
    case True
    then obtain cc where cc: "decodeConfigChange data = Inr cc" "cc_establishes cc"
      using assms by (simp add: appendLeaderEntry_def Let_def split: sum.splits if_splits)
    then show ?thesis
      using assms True by (simp add: appendLeaderEntry_def Let_def c3_def c2_def c1_def leader_entry_def config_of_def)
  qed
  obtain ni' ms where b: "broadcastAppend (c3, ?out) = (c3\<lparr>nextIndex := ni'\<rparr>, ?out\<lparr>out_Messages := out_Messages ?out @ ms\<rparr>)"
      "\<forall>m \<in> set ms. leader_request c3 m"
    using broadcastAppend_frame by blast
  have "leader_request c3 = leader_request (c\<lparr>rlog := rlog c @ [leader_entry c t data]\<rparr>)"
    by (rule leader_request_cong) (simp_all add: c3_def c2)
  with app b ci show ?thesis
    by (intro exI [of _ cfg] exI [of _ i] exI [of _ ni'] exI [of _ mi] exI [of _ ms]) (simp add: c3_def c2)
qed

lemma appendLeaderEntry_log_step:
  assumes "core_inv c" "appendLeaderEntry t data c = Inr (c', out)"
  shows "log_step c c' out"
proof -
  obtain cfg i ni mi ms where f: "(cfg, i) = newest_config (activeConfig c, activeConfigIndex c) [leader_entry c t data]"
    "log_view c' = log_view (c\<lparr>rlog := rlog c @ [leader_entry c t data], activeConfig := cfg, activeConfigIndex := i\<rparr>)"
    "writes out = (0, [leader_entry c t data])" "out_CommittedEntries out = []"
    using appendLeaderEntry_frame [OF assms(2)] by auto
  have wf: "log_wf c" using assms(1) by (simp add: core_inv_def)
  have "rlog c \<noteq> []" using wf by (simp add: log_wf_def)
  then have d: "drop 1 (rlog c @ [leader_entry c t data]) = Entries c @ [leader_entry c t data]"
    by (cases "rlog c") (simp_all add: Entries_def)
  show ?thesis
  proof (rule log_step.extend [where k = "length (rlog c)" and es = "[leader_entry c t data]"])
    show "commitIndex c < snapshotIndex c + length (rlog c)"
      using assms(1) lastIndex_eq [OF wf] by (simp add: core_inv_def)
    show "contiguous (snapshotIndex c + length (rlog c)) [leader_entry c t data]"
      using lastIndex_eq [OF wf] by (simp add: leader_entry_def)
    show "newest_config (base_config c, 0) (drop 1 (take (length (rlog c)) (rlog c) @ [leader_entry c t data])) = (cfg, i)"
    proof -
      have "newest_config (base_config c, 0) (Entries c) = (activeConfig c, activeConfigIndex c)"
        using assms(1) by (simp add: core_inv_def)
      then have "newest_config (base_config c, 0) (Entries c @ [leader_entry c t data]) = (cfg, i)"
        by (simp only: newest_config_simps(3) f(1))
      then show ?thesis by (simp only: take_all order.refl d)
    qed
  qed (use f in simp_all)
qed

lemma handlePropose_log_step:
  "core_inv c \<Longrightarrow> handlePropose data c = Inr (c', out) \<Longrightarrow> log_step c c' out"
  using appendLeaderEntry_log_step quiet_log_step [of c c out]
  by (auto simp: handlePropose_def quiet_def split: if_splits)

lemma ProposeConfigChange_log_step:
  assumes "core_inv c" "ProposeConfigChange kind rid target addr c = Inr (c', Inr out)"
  shows "log_step c c' out"
  using assms(2) appendLeaderEntry_log_step [OF assms(1)]
  by (auto simp: ProposeConfigChange_def bindR_eq_Inr split: if_splits sum.splits option.splits)

section \<open>Entries from the leader\<close>

lemma recogniseLeader_eq:
  "recogniseLeader msg c =
     (let b = (msg_Term msg > currentTerm c \<or> role c \<noteq> Follower);
          d = (if b then fst (stepDownTo (msg_Term msg) c) else c)
      in (d\<lparr>leaderID := msg_From msg, heardFromLeader := True, c_draws := snd (electionTimeout (c_cfg c) (c_draws c))\<rparr>,
          msg_Term msg > currentTerm c,
          noOutput\<lparr>out_SteppedDown := b \<and> (role c = Leader \<or> role c = Candidate), out_ResetElectionTimer := True,
            out_ElectionTimeoutTicks := fst (electionTimeout (c_cfg c) (c_draws c))\<rparr>))"
  by (simp add: recogniseLeader_def Let_def shared_steps)

lemma recogniseLeader_quiet:
  "quiet c (fst (recogniseLeader msg c)) (snd (snd (recogniseLeader msg c)))"
  by (simp add: recogniseLeader_eq Let_def quiet_def stepDownTo_def)

text \<open>The outcome of the loop over the entries: the first \<open>j\<close> of them are in the log already; if
  there are more, the log is cut at the first that is not, unless it ends there.\<close>

lemma append_scan_cases:
  assumes "append_scan prev i es c = Inr (c1, tf, st)" "prev + i \<le> lastIndex c"
  obtains j where "st = i + j" "j \<le> length es" "prev + i + j \<le> lastIndex c"
    "\<And>x. x < j \<Longrightarrow> termAt c (prev + 1 + i + x) = ent_Term (es ! x)"
    "j = length es \<and> tf = 0 \<and> c1 = c
     \<or> j < length es \<and> prev + i + j = lastIndex c \<and> tf = 0 \<and> c1 = c
     \<or> j < length es \<and> prev + 1 + i + j \<le> lastIndex c \<and> commitIndex c < prev + 1 + i + j \<and> tf = prev + 1 + i + j
        \<and> termAt c tf \<noteq> ent_Term (es ! j)
        \<and> c1 = (invalidatePendingFrom tf c)\<lparr>rlog := take (nat (pos c tf)) (rlog c)\<rparr>"
  using assms
proof (induction es arbitrary: i thesis)
  case Nil
  then show ?case using Nil(1) [of 0] by simp
next
  case (Cons e es)
  let ?idx = "prev + 1 + i"
  show ?case
  proof (cases "?idx \<le> lastIndex c \<and> termAt c ?idx = ent_Term e")
    case True
    then have "append_scan prev (i + 1) es c = Inr (c1, tf, st)" "prev + (i + 1) \<le> lastIndex c"
      using Cons.prems by (simp_all add: Let_def)
    then obtain j where j: "st = i + 1 + j" "j \<le> length es" "prev + (i + 1) + j \<le> lastIndex c"
      "\<And>x. x < j \<Longrightarrow> termAt c (prev + 1 + (i + 1) + x) = ent_Term (es ! x)"
      "j = length es \<and> tf = 0 \<and> c1 = c
       \<or> j < length es \<and> prev + (i + 1) + j = lastIndex c \<and> tf = 0 \<and> c1 = c
       \<or> j < length es \<and> prev + 1 + (i + 1) + j \<le> lastIndex c \<and> commitIndex c < prev + 1 + (i + 1) + j
          \<and> tf = prev + 1 + (i + 1) + j \<and> termAt c tf \<noteq> ent_Term (es ! j)
          \<and> c1 = (invalidatePendingFrom tf c)\<lparr>rlog := take (nat (pos c tf)) (rlog c)\<rparr>"
      using Cons.IH [of "i + 1"] by blast
    have "termAt c (prev + 1 + i + x) = ent_Term ((e # es) ! x)" if "x < Suc j" for x
      using that True j(4) [of "x - 1"] by (cases x) simp_all
    with j show ?thesis by (intro Cons.prems(1) [of "Suc j"]) auto
  next
    case False
    show ?thesis
    proof (cases "?idx \<le> lastIndex c")
      case True
      with False Cons.prems(2) have "commitIndex c < ?idx" "tf = ?idx" "st = i"
        "c1 = (invalidatePendingFrom tf c)\<lparr>rlog := take (nat (pos c tf)) (rlog c)\<rparr>"
        by (auto simp: Let_def invalidatePendingFrom_def pos_def split: if_splits)
      with True False show ?thesis by (intro Cons.prems(1) [of 0]) simp_all
    next
      case out: False
      with Cons.prems(2,3) show ?thesis by (intro Cons.prems(1) [of 0]) (simp_all add: Let_def)
    qed
  qed
qed

text \<open>The log after the entries of an accepted request: a prefix of the old log that reaches
  beyond the commit index, and the entries of the request that were not in it.\<close>

definition accepted :: "Index \<Rightarrow> Entry list \<Rightarrow> Core \<Rightarrow> nat \<Rightarrow> nat \<Rightarrow> bool" where
  "accepted prev es c j k \<longleftrightarrow> j \<le> length es \<and> prev + j \<le> lastIndex c
     \<and> (\<forall>x < j. termAt c (prev + 1 + x) = ent_Term (es ! x))
     \<and> commitIndex c < snapshotIndex c + k \<and> k \<le> length (rlog c)
     \<and> (if j = length es then k = length (rlog c) else snapshotIndex c + k = prev + 1 + j)
     \<and> (k < length (rlog c) \<longrightarrow> termAt c (prev + 1 + j) \<noteq> ent_Term (es ! j))"

lemma append_scan_accepted:
  assumes "core_inv c" "snapshotIndex c \<le> prev" "prev \<le> lastIndex c"
    and scan: "append_scan prev 0 es c = Inr (c1, tf, j)"
  obtains k where "accepted prev es c j k" "tf = (if k < length (rlog c) then snapshotIndex c + k else 0)"
    "c1 = (if tf = 0 then c else (invalidatePendingFrom tf c)\<lparr>rlog := take k (rlog c)\<rparr>)"
proof -
  have wf: "log_wf c" and ci: "commitIndex c \<le> lastIndex c" using assms(1) by (simp_all add: core_inv_def)
  note len = lastIndex_eq [OF wf]
  obtain j' where j: "j = 0 + j'" "j' \<le> length es" "prev + 0 + j' \<le> lastIndex c"
    "\<And>x. x < j' \<Longrightarrow> termAt c (prev + 1 + 0 + x) = ent_Term (es ! x)"
    "j' = length es \<and> tf = 0 \<and> c1 = c
     \<or> j' < length es \<and> prev + 0 + j' = lastIndex c \<and> tf = 0 \<and> c1 = c
     \<or> j' < length es \<and> prev + 1 + 0 + j' \<le> lastIndex c \<and> commitIndex c < prev + 1 + 0 + j' \<and> tf = prev + 1 + 0 + j'
        \<and> termAt c tf \<noteq> ent_Term (es ! j')
        \<and> c1 = (invalidatePendingFrom tf c)\<lparr>rlog := take (nat (pos c tf)) (rlog c)\<rparr>"
    using scan assms(3) by (elim append_scan_cases) simp_all
  show ?thesis
  proof (cases "tf = 0")
    case True
    with j len ci show ?thesis
      by (intro that [of "length (rlog c)"]) (auto simp: accepted_def)
  next
    case False
    with j have tf: "j < length es" "prev + 1 + j \<le> lastIndex c" "commitIndex c < prev + 1 + j" "tf = prev + 1 + j"
       "termAt c tf \<noteq> ent_Term (es ! j)" "c1 = (invalidatePendingFrom tf c)\<lparr>rlog := take (nat (pos c tf)) (rlog c)\<rparr>"
      by auto
    have "nat (pos c tf) = tf - snapshotIndex c" by (simp add: pos_def nat_diff_distrib')
    with tf j len assms(2) show ?thesis
      by (intro that [of "tf - snapshotIndex c"]) (auto simp: accepted_def)
  qed
qed

lemma log_wf_extend:
  assumes "log_wf c" "0 < k" "k \<le> length (rlog c)" "contiguous (snapshotIndex c + k) es"
    "rlog d = take k (rlog c) @ es" "snapshotIndex d = snapshotIndex c" "snapshotTerm d = snapshotTerm c"
  shows "log_wf d"
proof -
  obtain e xs where e: "rlog c = e # xs" using assms(1) by (cases "rlog c") (auto simp: log_wf_def)
  obtain k' where "k = Suc k'" using assms(2) by (cases k) auto
  then show ?thesis
    using assms e contiguous_take [of "snapshotIndex c" "rlog c" k] by (simp add: log_wf_def)
qed

lemma accepted_contiguous:
  assumes "accepted prev es c j k" "contiguous (Suc prev) es"
  shows "contiguous (snapshotIndex c + k) (drop j es)"
  using assms contiguous_drop [of "Suc prev" es j] by (auto simp: accepted_def split: if_splits)

lemma accepted_activate:
  assumes inv: "core_inv c" and acc: "accepted prev es c j k" and es: "contiguous (Suc prev) es"
    and tf: "tf = (if k < length (rlog c) then snapshotIndex c + k else 0)"
    and c2: "c2 = c\<lparr>rlog := take k (rlog c) @ drop j es, pending := ps\<rparr>"
    and act: "(if tf \<noteq> 0 then (let (ac, ai) = ConfigAt c2 (lastIndex c2)
                 in Inr (c2\<lparr>activeConfig := ac, activeConfigIndex := ai\<rparr>))
               else if length (drop j es) \<noteq> 0 then activateFromAppendedEntries (drop j es) c2
               else Inr c2) = Inr c3"
    and cfg: "newest_config (base_config c, 0) (drop 1 (take k (rlog c) @ drop j es)) = (cfg, i)"
  shows "c3 = c2\<lparr>activeConfig := cfg, activeConfigIndex := i\<rparr>"
proof -
  have wf: "log_wf c" using inv by (simp add: core_inv_def)
  have k: "0 < k" "k \<le> length (rlog c)" using acc inv by (auto simp: accepted_def core_inv_def)
  have wf2: "log_wf c2"
    using accepted_contiguous [OF acc es] by (intro log_wf_extend [OF wf k]) (simp_all add: c2)
  have b: "base_config c2 = base_config c" by (simp add: c2 base_config_def)
  have E: "newest_config (base_config c2, 0) (Entries c2) = (cfg, i)"
    unfolding b using cfg by (simp add: Entries_def c2)
  show ?thesis
  proof (cases "tf = 0")
    case False
    then show ?thesis using act E ConfigAt_last [OF wf2] by simp
  next
    case True
    then have "k = length (rlog c)" using tf k by (auto split: if_splits)
    then have "Entries c2 = Entries c @ drop j es"
      using wf by (cases "rlog c") (auto simp: Entries_def c2 log_wf_def)
    then have new: "newest_config (activeConfig c2, activeConfigIndex c2) (drop j es) = (cfg, i)"
      using E b inv by (simp add: core_inv_def c2)
    show ?thesis
    proof (cases "drop j es = []")
      case False
      then show ?thesis
        using act True activate_loop_newest [OF _ new] by (auto simp: activateFromAppendedEntries_def)
    next
      case empty: True
      then show ?thesis using act True new by (simp add: c2)
    qed
  qed
qed

text \<open>The commit index a request of a leader calls for.\<close>

definition leader_commit :: "Message \<Rightarrow> Index" where
  "leader_commit msg = min (msg_LeaderCommit msg) (msg_PrevLogIndex msg + length (msg_Entries msg))"

text \<open>What an accepted request waits for: the commit advance, if it calls for one, and the reply.\<close>

definition accept_pending :: "Message \<Rightarrow> Core \<Rightarrow> pendingItem list" where
  "accept_pending msg c =
     (if leader_commit msg > commitIndex c
      then [\<lparr>pi_kind = pendingCommitAdvance, pi_seq = persistSeq c, pi_term = currentTerm c, pi_candidate = [],
             pi_to = [], pi_index = leader_commit msg, pi_entryTerm = termAt c (leader_commit msg)\<rparr>] else [])
     @ [\<lparr>pi_kind = pendingAppendAck, pi_seq = persistSeq c, pi_term = currentTerm c, pi_candidate = [],
         pi_to = msg_From msg, pi_index = msg_PrevLogIndex msg + length (msg_Entries msg),
         pi_entryTerm = termAt c (msg_PrevLogIndex msg + length (msg_Entries msg))\<rparr>]"

definition append_ok :: "Message \<Rightarrow> Core \<Rightarrow> Message" where
  "append_ok msg c = (appendResponse c (msg_From msg))\<lparr>msg_Success := True,
     msg_MatchIndex := msg_PrevLogIndex msg + length (msg_Entries msg)\<rparr>"

lemma termAt_frame [simp]:
  "termAt (c\<lparr>pending := ps\<rparr>) = termAt c" "termAt (c\<lparr>persistSeq := n\<rparr>) = termAt c" "termAt (c\<lparr>commitIndex := n\<rparr>) = termAt c"
  "termAt (c\<lparr>activeConfig := cfg\<rparr>) = termAt c" "termAt (c\<lparr>activeConfigIndex := n\<rparr>) = termAt c"
  by (simp_all add: termAt_def pos_def fun_eq_iff Let_def)

lemma acceptEntries_result:
  assumes inv: "core_inv c" and es: "contiguous (Suc (msg_PrevLogIndex msg)) (msg_Entries msg)"
    and prev: "snapshotIndex c \<le> msg_PrevLogIndex msg" "msg_PrevLogIndex msg \<le> lastIndex c"
    and acc: "acceptEntries msg changed (c, out) = Inr (c', out')"
  obtains j k cfg i ps d where "accepted (msg_PrevLogIndex msg) (msg_Entries msg) c j k"
    "newest_config (base_config c, 0) (drop 1 (take k (rlog c) @ drop j (msg_Entries msg))) = (cfg, i)"
    "ps = (if k < length (rlog c) then pending (invalidatePendingFrom (snapshotIndex c + k) c) else pending c)"
    "d = c\<lparr>rlog := take k (rlog c) @ drop j (msg_Entries msg), pending := ps, activeConfig := cfg, activeConfigIndex := i\<rparr>"
    "(c', out') =
       (if changed \<or> j < length (msg_Entries msg)
        then (let e = d\<lparr>persistSeq := persistSeq c + 1\<rparr>
              in (e\<lparr>pending := ps @ accept_pending msg e\<rparr>,
                  out\<lparr>out_PersistRequest := Some \<lparr>pr_Seq = persistSeq c + 1,
                    pr_HardState = (if changed then Some \<lparr>hs_CurrentTerm = currentTerm c, hs_VotedFor = votedFor c\<rparr> else None),
                    pr_TruncateFrom = (if k < length (rlog c) then snapshotIndex c + k else 0),
                    pr_Entries = drop j (msg_Entries msg)\<rparr>\<rparr>))
        else (let s = (if leader_commit msg > commitIndex c then advanceFollowerCommit (leader_commit msg) (d, out) else (d, out))
              in (fst s, emit (append_ok msg (fst s)) (snd s))))"
proof -
  obtain c1 tf j where scan: "append_scan (msg_PrevLogIndex msg) 0 (msg_Entries msg) c = Inr (c1, tf, j)"
    using acc by (auto simp: acceptEntries_def bindR_eq_Inr)
  obtain k where k: "accepted (msg_PrevLogIndex msg) (msg_Entries msg) c j k"
      "tf = (if k < length (rlog c) then snapshotIndex c + k else 0)"
      "c1 = (if tf = 0 then c else (invalidatePendingFrom tf c)\<lparr>rlog := take k (rlog c)\<rparr>)"
    using append_scan_accepted [OF inv prev scan] by blast
  obtain cfg i where ci: "newest_config (base_config c, 0) (drop 1 (take k (rlog c) @ drop j (msg_Entries msg))) = (cfg, i)"
    by (cases "newest_config (base_config c, 0) (drop 1 (take k (rlog c) @ drop j (msg_Entries msg)))")
  have k0: "0 < k" "k \<le> length (rlog c)" using k(1) inv by (auto simp: accepted_def core_inv_def)
  then have tf0: "tf = 0 \<longleftrightarrow> k = length (rlog c)" using k(2) by auto
  have jlt: "tf \<noteq> 0 \<Longrightarrow> j < length (msg_Entries msg)" using k(1) tf0 by (auto simp: accepted_def split: if_splits)
  define ps where "ps = (if k < length (rlog c) then pending (invalidatePendingFrom (snapshotIndex c + k) c) else pending c)"
  define c2 where "c2 = c\<lparr>rlog := take k (rlog c) @ drop j (msg_Entries msg), pending := ps\<rparr>"
  have c1: "c1\<lparr>rlog := rlog c1 @ drop j (msg_Entries msg)\<rparr> = c2"
    using k k0 tf0 by (simp add: c2_def ps_def invalidatePendingFrom_def)
  obtain c3 where act: "(if tf \<noteq> 0 then (let (ac, ai) = ConfigAt c2 (lastIndex c2)
                 in Inr (c2\<lparr>activeConfig := ac, activeConfigIndex := ai\<rparr>))
               else if length (drop j (msg_Entries msg)) \<noteq> 0 then activateFromAppendedEntries (drop j (msg_Entries msg)) c2
               else Inr c2) = Inr c3"
    using acc unfolding acceptEntries_def prod.case scan bindR_Inr Let_def c1 bindR_eq_Inr by blast
  define d where "d = c2\<lparr>activeConfig := cfg, activeConfigIndex := i\<rparr>"
  have c3: "c3 = d" unfolding d_def by (rule accepted_activate [OF inv k(1) es k(2) c2_def act ci])
  have need: "(changed \<or> tf \<noteq> 0 \<or> length (drop j (msg_Entries msg)) \<noteq> 0) = (changed \<or> j < length (msg_Entries msg))"
    using jlt by auto
  show ?thesis
  proof (rule that [OF k(1) ci ps_def])
    show "d = c\<lparr>rlog := take k (rlog c) @ drop j (msg_Entries msg), pending := ps, activeConfig := cfg, activeConfigIndex := i\<rparr>"
      by (simp add: d_def c2_def)
    show "(c', out') =
       (if changed \<or> j < length (msg_Entries msg)
        then (let e = d\<lparr>persistSeq := persistSeq c + 1\<rparr>
              in (e\<lparr>pending := ps @ accept_pending msg e\<rparr>,
                  out\<lparr>out_PersistRequest := Some \<lparr>pr_Seq = persistSeq c + 1,
                    pr_HardState = (if changed then Some \<lparr>hs_CurrentTerm = currentTerm c, hs_VotedFor = votedFor c\<rparr> else None),
                    pr_TruncateFrom = (if k < length (rlog c) then snapshotIndex c + k else 0),
                    pr_Entries = drop j (msg_Entries msg)\<rparr>\<rparr>))
        else (let s = (if leader_commit msg > commitIndex c then advanceFollowerCommit (leader_commit msg) (d, out) else (d, out))
              in (fst s, emit (append_ok msg (fst s)) (snd s))))"
      using acc
      unfolding acceptEntries_def prod.case scan bindR_Inr Let_def c1 act [unfolded c3 Let_def] need k(2) [symmetric]
      by (auto simp: accept_pending_def leader_commit_def append_ok_def d_def c2_def case_prod_beta)
  qed
qed

lemma acceptEntries_log_step:
  assumes inv: "core_inv c" and es: "contiguous (Suc (msg_PrevLogIndex msg)) (msg_Entries msg)"
    and prev: "snapshotIndex c \<le> msg_PrevLogIndex msg" "msg_PrevLogIndex msg \<le> lastIndex c"
    and acc: "acceptEntries msg changed (c, out) = Inr (c', out')"
    and out: "out_CommittedEntries out = []" "writes out = (0, [])"
  shows "log_step c c' out'"
proof -
  obtain j k cfg i ps d where r: "accepted (msg_PrevLogIndex msg) (msg_Entries msg) c j k"
    "newest_config (base_config c, 0) (drop 1 (take k (rlog c) @ drop j (msg_Entries msg))) = (cfg, i)"
    "d = c\<lparr>rlog := take k (rlog c) @ drop j (msg_Entries msg), pending := ps, activeConfig := cfg, activeConfigIndex := i\<rparr>"
    "(c', out') =
       (if changed \<or> j < length (msg_Entries msg)
        then (let e = d\<lparr>persistSeq := persistSeq c + 1\<rparr>
              in (e\<lparr>pending := ps @ accept_pending msg e\<rparr>,
                  out\<lparr>out_PersistRequest := Some \<lparr>pr_Seq = persistSeq c + 1,
                    pr_HardState = (if changed then Some \<lparr>hs_CurrentTerm = currentTerm c, hs_VotedFor = votedFor c\<rparr> else None),
                    pr_TruncateFrom = (if k < length (rlog c) then snapshotIndex c + k else 0),
                    pr_Entries = drop j (msg_Entries msg)\<rparr>\<rparr>))
        else (let s = (if leader_commit msg > commitIndex c then advanceFollowerCommit (leader_commit msg) (d, out) else (d, out))
              in (fst s, emit (append_ok msg (fst s)) (snd s))))"
    by (rule acceptEntries_result [OF inv es prev acc]) blast
  show ?thesis
  proof (cases "changed \<or> j < length (msg_Entries msg)")
    case True
    then have "log_view c' = log_view d" "out_CommittedEntries out' = []"
       "writes out' = (if k < length (rlog c) then snapshotIndex c + k else 0, drop j (msg_Entries msg))"
      using r(4) out by (simp_all add: Let_def)
    then show ?thesis
      using r(1-3) accepted_contiguous [OF r(1) es]
      by (intro log_step.extend [of c k "drop j (msg_Entries msg)" cfg i]) (simp_all add: accepted_def log_view_def)
  next
    case False
    then have "j = length (msg_Entries msg)" using r(1) by (simp add: accepted_def)
    then have k: "k = length (rlog c)" and nil: "drop j (msg_Entries msg) = []" using r(1) by (simp_all add: accepted_def)
    then have "(activeConfig c, activeConfigIndex c) = (cfg, i)"
      using r(2) inv by (simp add: core_inv_def Entries_def)
    then have dv: "log_view d = log_view c" using k nil r(3) by (simp add: log_view_def)
    then have dinv: "core_inv d" using inv core_inv_cong by blast
    obtain es' where "commits d c' es'" "out_CommittedEntries out' = es'" "writes out' = (0, [])"
      using False r(4) advanceFollowerCommit_commits [OF dinv, of "leader_commit msg" out] commits_refl [OF dinv refl] out
      by (cases "leader_commit msg > commitIndex c") (auto simp: Let_def)
    then show ?thesis using commits_view [OF dv refl] by (auto intro: log_step.commit)
  qed
qed

text \<open>The messages a core accepts: the entries of a request follow the position it names.\<close>

definition msg_wf :: "Message \<Rightarrow> bool" where
  "msg_wf m \<longleftrightarrow> (msg_Type m = MsgAppendEntriesRequest \<longrightarrow> contiguous (Suc (msg_PrevLogIndex m)) (msg_Entries m))"

lemma handleAppendEntriesRequest_log_step:
  assumes inv: "core_inv c" and es: "contiguous (Suc (msg_PrevLogIndex msg)) (msg_Entries msg)"
    and h: "handleAppendEntriesRequest msg c = Inr (c', out')"
  shows "log_step c c' out'"
proof -
  obtain c1 changed out where r: "recogniseLeader msg c = (c1, changed, out)" by (cases "recogniseLeader msg c")
  then have q: "quiet c c1 out" using recogniseLeader_quiet [of c msg] by simp
  then have v: "log_view c = log_view c1" by (simp add: quiet_def)
  then have inv1: "core_inv c1" using inv core_inv_cong by blast
  consider "quiet c c' out'"
    | "snapshotIndex c1 \<le> msg_PrevLogIndex msg" "msg_PrevLogIndex msg \<le> lastIndex c1"
      "acceptEntries msg changed (c1, out) = Inr (c', out')"
    using h r q unfolding handleAppendEntriesRequest_def
    by (auto simp: Let_def persistHardState_eq quiet_def not_less split: if_splits prod.splits)
  then show ?thesis
  proof cases
    case 1
    then show ?thesis by (rule quiet_log_step [OF inv])
  next
    case 2
    then have "log_step c1 c' out'"
      using q by (intro acceptEntries_log_step [OF inv1 es 2]) (simp_all add: quiet_def)
    then show ?thesis using v by (rule log_step_frame)
  qed
qed

lemma handleInstallSnapshotRequest_log_step:
  assumes inv: "core_inv c"
  shows "log_step c (fst (handleInstallSnapshotRequest msg c)) (snd (handleInstallSnapshotRequest msg c))"
proof -
  obtain c1 changed out where r: "recogniseLeader msg c = (c1, changed, out)" by (cases "recogniseLeader msg c")
  then have q: "quiet c c1 out" using recogniseLeader_quiet [of c msg] by simp
  then have v: "log_view c = log_view c1" by (simp add: quiet_def)
  then have inv1: "core_inv c1" using inv core_inv_cong by blast
  let ?i = "msg_LastIncludedIndex msg"
  let ?r = "handleInstallSnapshotRequest msg c"
  show ?thesis
  proof (cases "msg_Term msg < currentTerm c \<or> ?i \<le> snapshotIndex c1 \<or> ?i \<le> commitIndex c1")
    case True
    then have "quiet c (fst ?r) (snd ?r)"
      using q r by (auto simp: handleInstallSnapshotRequest_def Let_def persistHardState_eq quiet_def)
    then show ?thesis by (rule quiet_log_step [OF inv])
  next
    case False
    then have "log_step c1 (fst ?r) (snd ?r)"
      using q r inv1
      by (intro log_step.install [where i = ?i and t = "msg_LastIncludedTerm msg"
          and cfg = "msg_Configuration msg" and has = "msg_HasConfiguration msg"])
        (auto simp: handleInstallSnapshotRequest_def Let_def persistHardState_eq SetApplied_def quiet_def log_view_def core_inv_def)
    then show ?thesis using v by (rule log_step_frame)
  qed
qed

text \<open>Every step of a core is a step of its log.\<close>

fun input_wf :: "Input \<Rightarrow> bool" where
  "input_wf (InputMessage m) = msg_wf m"
| "input_wf _ = True"

lemma Step_log_step:
  assumes "core_inv c" "input_wf inp" "Step inp c = Inr (c', out)"
  shows "log_step c c' out"
proof (cases inp)
  case (InputMessage m)
  have "handleMessage m c = Inr (c', out)" using assms(3) InputMessage by simp
  then show ?thesis
    using assms(1,2) InputMessage quiet_log_step [OF assms(1)]
      handleRequestVoteRequest_quiet [of c m] handleRequestVoteResponse_quiet [of c m]
      handleAppendEntriesRequest_log_step [OF assms(1), of m] handleAppendEntriesResponse_log_step [OF assms(1), of m]
      handleInstallSnapshotRequest_log_step [OF assms(1), of m] handleInstallSnapshotResponse_log_step [OF assms(1), of m]
    by (cases "msg_Type m") (simp_all add: msg_wf_def)
next
  case InputElectionTimeout
  then show ?thesis
    using assms quiet_log_step [OF assms(1) handleElectionTimeout_quiet] by simp
next
  case InputHeartbeatTimeout
  then show ?thesis
    using assms quiet_log_step [OF assms(1) handleHeartbeatTimeout_quiet] by simp
next
  case (InputPropose data)
  then show ?thesis using assms handlePropose_log_step by simp
next
  case (InputPersistenceComplete seq)
  then show ?thesis using assms handlePersistenceComplete_log_step [OF assms(1), of seq] by simp
qed

section \<open>The invariant over steps\<close>

lemma log_step_core_inv:
  assumes "core_inv c" "log_step c c' out"
  shows "core_inv c'"
  using assms(2)
proof cases
  case commit
  then show ?thesis using assms(1) commits_core_inv by blast
next
  case (extend k es cfg i)
  have wf: "log_wf c" and k: "0 < k" using assms(1) extend(1) by (auto simp: core_inv_def)
  have f: "rlog c' = take k (rlog c) @ es" "snapshotIndex c' = snapshotIndex c" "snapshotTerm c' = snapshotTerm c"
      "commitIndex c' = commitIndex c" "appliedIndex c' = appliedIndex c" "activeConfig c' = cfg" "activeConfigIndex c' = i"
    using extend(5) by (simp_all add: log_view_def)
  have wf': "log_wf c'" using log_wf_extend [OF wf k extend(2,3) f(1-3)] .
  have "base_config c' = base_config c" using extend(5) by (simp add: log_view_def base_config_def)
  then have "newest_config (base_config c', 0) (Entries c') = (cfg, i)" using extend(4) f(1) by (simp add: Entries_def)
  moreover have "commitIndex c < snapshotIndex c + length (rlog c')" using extend(1,2) f(1) by simp
  then have "commitIndex c \<le> lastIndex c'" using lastIndex_eq [OF wf'] f(2) by simp
  ultimately show ?thesis using wf' f assms(1) by (simp add: core_inv_def)
next
  case (install i t cfg has)
  then show ?thesis
    by (auto simp: core_inv_def log_view_def log_wf_def lastIndex_def Entries_def base_config_def)
qed

lemma EntryAt_nth:
  "snapshotIndex c < i \<Longrightarrow> EntryAt c i = (if i - snapshotIndex c < length (rlog c) then Some (rlog c ! (i - snapshotIndex c)) else None)"
  by (auto simp: EntryAt_def Let_def pos_def nat_diff_distrib')

lemma log_slice_EntryAt:
  assumes "log_wf c" "snapshotIndex c < lo" "hi \<le> lastIndex c"
  shows "map Some (log_slice c lo hi) = map (EntryAt c) [lo..<Suc hi]"
proof (rule nth_equalityI)
  have len: "lastIndex c + 1 = snapshotIndex c + length (rlog c)" by (rule lastIndex_eq [OF assms(1)])
  show l: "length (map Some (log_slice c lo hi)) = length (map (EntryAt c) [lo..<Suc hi])"
    using assms(2,3) len by (simp add: log_slice_drop del: upt_Suc)
  fix x assume "x < length (map Some (log_slice c lo hi))"
  then have x: "x < Suc hi - lo" unfolding l by (simp del: upt_Suc)
  then have "lo + x - snapshotIndex c < length (rlog c)" using assms(2,3) len by simp
  moreover have "lo - snapshotIndex c + x = lo + x - snapshotIndex c" using assms(2) by simp
  ultimately show "map Some (log_slice c lo hi) ! x = map (EntryAt c) [lo..<Suc hi] ! x"
    using x l assms(2) \<open>x < length (map Some (log_slice c lo hi))\<close>
    by (simp add: log_slice_drop EntryAt_nth del: upt_Suc)
qed

lemma log_step_commit:
  assumes "core_inv c" "log_step c c' out"
  shows "commitIndex c \<le> commitIndex c'"
    and "snapshotIndex c' < i \<Longrightarrow> i \<le> commitIndex c \<Longrightarrow> EntryAt c' i = EntryAt c i"
    and "if snapshotIndex c' = snapshotIndex c
         then map Some (out_CommittedEntries out) = map (EntryAt c') [Suc (commitIndex c)..<Suc (commitIndex c')]
         else commitIndex c < snapshotIndex c' \<and> commitIndex c' = snapshotIndex c' \<and> out_CommittedEntries out = []"
proof -
  have inv': "core_inv c'" by (rule log_step_core_inv [OF assms])
  have "commitIndex c \<le> commitIndex c' \<and> (snapshotIndex c' < i \<longrightarrow> i \<le> commitIndex c \<longrightarrow> EntryAt c' i = EntryAt c i)
     \<and> (if snapshotIndex c' = snapshotIndex c
         then map Some (out_CommittedEntries out) = map (EntryAt c') [Suc (commitIndex c)..<Suc (commitIndex c')]
         else commitIndex c < snapshotIndex c' \<and> commitIndex c' = snapshotIndex c' \<and> out_CommittedEntries out = [])"
    using assms(2)
  proof cases
    case commit
    then have e: "EntryAt c' = EntryAt c" "snapshotIndex c' = snapshotIndex c"
      by (auto simp: commits_def log_view_def EntryAt_def pos_def fun_eq_iff Let_def)
    then show ?thesis using commit(1) assms(1) log_slice_EntryAt [of c "Suc (commitIndex c)" "commitIndex c'"]
      by (simp add: commits_def core_inv_def del: upt_Suc)
  next
    case (extend k es cfg j)
    then have "rlog c' = take k (rlog c) @ es" "snapshotIndex c' = snapshotIndex c" "commitIndex c' = commitIndex c"
      by (simp_all add: log_view_def)
    then show ?thesis using extend by (auto simp: EntryAt_nth nth_append)
  next
    case (install j t cfg has)
    then have "snapshotIndex c' = j" "commitIndex c' = j" by (simp_all add: log_view_def)
    then show ?thesis using install assms(1) by (auto simp: core_inv_def)
  qed
  then show "commitIndex c \<le> commitIndex c'"
    and "snapshotIndex c' < i \<Longrightarrow> i \<le> commitIndex c \<Longrightarrow> EntryAt c' i = EntryAt c i"
    and "if snapshotIndex c' = snapshotIndex c
         then map Some (out_CommittedEntries out) = map (EntryAt c') [Suc (commitIndex c)..<Suc (commitIndex c')]
         else commitIndex c < snapshotIndex c' \<and> commitIndex c' = snapshotIndex c' \<and> out_CommittedEntries out = []"
    by blast+
qed

lemma filter_contiguous: "contiguous i es \<Longrightarrow> filter (\<lambda>e. ent_Index e < i + k) es = take k es"
proof (induction es arbitrary: i k)
  case (Cons e es)
  show ?case
  proof (cases k)
    case 0
    have "\<not> ent_Index x < i" if "x \<in> set (e # es)" for x
      using Cons.prems that by (auto simp: contiguous_nth in_set_conv_nth nth_Cons')
    then show ?thesis using 0 by (auto simp: filter_empty_conv)
  next
    case (Suc k')
    then show ?thesis using Cons.prems Cons.IH [of "Suc i" k'] by simp
  qed
qed simp

lemma ApplyPersistRequest_entries:
  "sto_Entries (ApplyPersistRequest (out_PersistRequest out) s)
     = (if fst (writes out) = 0 then sto_Entries s else filter (\<lambda>e. ent_Index e < fst (writes out)) (sto_Entries s)) @ snd (writes out)"
  by (auto simp: writes_def ApplyPersistRequest_def Let_def sto_Truncate_def sto_Append_def sto_SetHardState_def
      split: option.splits)

lemma log_step_storage:
  assumes "core_inv c" "log_step c c' out" "snapshotIndex c' = snapshotIndex c" "sto_Entries s = Entries c"
  shows "sto_Entries (ApplyPersistRequest (out_PersistRequest out) s) = Entries c'"
  using assms(2)
proof cases
  case commit
  then show ?thesis using assms(4) by (simp add: ApplyPersistRequest_entries commits_def log_view_def Entries_def)
next
  case (extend k es cfg i)
  have wf: "log_wf c" using assms(1) by (simp add: core_inv_def)
  have "snapshotIndex c \<le> commitIndex c" using assms(1) by (simp add: core_inv_def)
  then obtain k' where k: "k = Suc k'" using extend(1) by (cases k) auto
  have "Entries c' = take k' (Entries c) @ es"
    using extend(5) k wf by (cases "rlog c") (auto simp: log_view_def Entries_def log_wf_def)
  moreover have "take k' (Entries c) = Entries c" if "\<not> k < length (rlog c)"
    using that k by (simp add: Entries_def)
  moreover have "filter (\<lambda>e. ent_Index e < snapshotIndex c + k) (Entries c) = take k' (Entries c)"
    using filter_contiguous [OF contiguous_Entries [OF wf], of k'] k by simp
  ultimately show ?thesis using extend(6) k assms(4) by (simp add: ApplyPersistRequest_entries)
next
  case (install i t cfg has)
  then show ?thesis using assms(1,3) by (simp add: log_view_def core_inv_def)
qed

section \<open>The messages a step sends\<close>

text \<open>Every message carries the identity of the node and its term after the step; a request to
  replicate is sent by a leader and describes its log as it is after the step.\<close>

definition sends :: "Core \<Rightarrow> Core \<Rightarrow> Output \<Rightarrow> bool" where
  "sends c c' out \<longleftrightarrow> c_cfg c' = c_cfg c
     \<and> (\<forall>m \<in> set (out_Messages out). msg_From m = cfg_ID (c_cfg c') \<and> msg_Term m = currentTerm c'
          \<and> (msg_Type m \<in> {MsgAppendEntriesRequest, MsgInstallSnapshotRequest} \<longrightarrow> role c' = Leader \<and> leader_request c' m))"

lemma leader_request_fields:
  "leader_request c m \<Longrightarrow> msg_From m = cfg_ID (c_cfg c)"
  "leader_request c m \<Longrightarrow> msg_Term m = currentTerm c"
  "leader_request c m \<Longrightarrow> msg_Type m \<in> {MsgAppendEntriesRequest, MsgInstallSnapshotRequest}"
  by (auto simp: leader_request_def request_at_def)

lemma sends_broadcastAppend:
  assumes "sends c d out" "role d = Leader"
  shows "sends c (fst (broadcastAppend (d, out))) (snd (broadcastAppend (d, out)))"
proof -
  obtain ni ms where "broadcastAppend (d, out) = (d\<lparr>nextIndex := ni\<rparr>, out\<lparr>out_Messages := out_Messages out @ ms\<rparr>)"
    "\<forall>m \<in> set ms. leader_request d m" using broadcastAppend_frame by blast
  then show ?thesis using assms by (auto simp: sends_def leader_request_fields)
qed

lemma sends_sendAppend:
  assumes "sends c d out" "role d = Leader"
  shows "sends c (fst (sendAppend p (d, out))) (snd (sendAppend p (d, out)))"
proof -
  obtain ni m where "sendAppend p (d, out) = (d\<lparr>nextIndex := ni\<rparr>, emit m out)" "leader_request d m"
    using sendAppend_frame by blast
  then show ?thesis using assms by (auto simp: sends_def leader_request_fields)
qed

lemma sends_becomeLeader:
  assumes "sends c d out" "\<forall>m \<in> set (out_Messages out). msg_Type m = MsgRequestVoteRequest"
  shows "sends c (fst (becomeLeader (d, out))) (snd (becomeLeader (d, out)))"
proof -
  obtain ni mi ms where b: "becomeLeader (d, out) =
     (d\<lparr>role := Leader, leaderID := cfg_ID (c_cfg d), votesReceived := [], pendingConfIndex := lastIndex d,
        nextIndex := ni, matchIndex := mi\<rparr>,
      out\<lparr>out_BecameLeader := True, out_ResetHeartbeatTimer := True,
        out_HeartbeatTimeoutTicks := cfg_HeartbeatTimeoutTicks (c_cfg d), out_Messages := out_Messages out @ ms\<rparr>)"
     "\<forall>m \<in> set ms. leader_request d m"
    using becomeLeader_frame by blast
  have "leader_request (fst (becomeLeader (d, out))) = leader_request d"
    by (rule leader_request_cong) (simp_all add: b)
  with b assms show ?thesis by (auto simp: sends_def leader_request_fields)
qed

text \<open>A node that stands for election.\<close>

definition candidate :: "Core \<Rightarrow> Core" where
  "candidate c = c\<lparr>heardFromLeader := False, role := Candidate, currentTerm := currentTerm c + 1,
     votedFor := cfg_ID (c_cfg c), leaderID := [], votesReceived := [(cfg_ID (c_cfg c), True)],
     persistSeq := persistSeq c + 1, c_draws := snd (electionTimeout (c_cfg c) (c_draws c))\<rparr>"

definition vote_request :: "Core \<Rightarrow> NodeID \<Rightarrow> Message" where
  "vote_request c peer = (mkMessage MsgRequestVoteRequest (cfg_ID (c_cfg c)) peer (currentTerm c + 1))
     \<lparr>msg_LastLogIndex := lastIndex c, msg_LastLogTerm := lastTerm c\<rparr>"

definition campaign :: "Core \<Rightarrow> Output" where
  "campaign c = noOutput\<lparr>out_PersistRequest := Some \<lparr>pr_Seq = persistSeq c + 1,
       pr_HardState = Some \<lparr>hs_CurrentTerm = currentTerm c + 1, hs_VotedFor = cfg_ID (c_cfg c)\<rparr>,
       pr_TruncateFrom = 0, pr_Entries = []\<rparr>,
     out_ResetElectionTimer := True, out_ElectionTimeoutTicks := fst (electionTimeout (c_cfg c) (c_draws c)),
     out_Messages := map (\<lambda>m. vote_request c (mem_ID m))
       (filter (\<lambda>m. mem_ID m \<noteq> cfg_ID (c_cfg c)) (Voters (activeConfig c)))\<rparr>"

lemma handleElectionTimeout_eq:
  "handleElectionTimeout c =
     (if role c = Leader then (c, noOutput)
      else if \<not> IsVoter (activeConfig c) (cfg_ID (c_cfg c)) then (c\<lparr>heardFromLeader := False\<rparr>, noOutput)
      else if Majority (activeConfig c) \<le> 1 then becomeLeader (candidate c, campaign c)
      else (candidate c, campaign c))"
  by (simp add: handleElectionTimeout_def Let_def shared_steps candidate_def campaign_def vote_request_def
      lastIndex_def lastTerm_def)

lemma handleElectionTimeout_sends: "sends c (fst (handleElectionTimeout c)) (snd (handleElectionTimeout c))"
proof -
  have "sends c (candidate c) (campaign c)"
    by (auto simp: sends_def candidate_def campaign_def vote_request_def)
  moreover from this have "sends c (fst (becomeLeader (candidate c, campaign c))) (snd (becomeLeader (candidate c, campaign c)))"
    by (rule sends_becomeLeader) (simp add: campaign_def vote_request_def)
  moreover have "sends c c noOutput" "sends c (c\<lparr>heardFromLeader := False\<rparr>) noOutput" by (simp_all add: sends_def)
  ultimately show ?thesis by (simp add: handleElectionTimeout_eq)
qed

lemma handleHeartbeatTimeout_sends: "sends c (fst (handleHeartbeatTimeout c)) (snd (handleHeartbeatTimeout c))"
proof (cases "role c = Leader")
  case True
  have "sends c c (noOutput\<lparr>out_ResetHeartbeatTimer := True, out_HeartbeatTimeoutTicks := t\<rparr>)" for t
    by (simp add: sends_def)
  then show ?thesis using sends_broadcastAppend [OF _ True] True by (simp add: handleHeartbeatTimeout_def)
qed (simp add: handleHeartbeatTimeout_def sends_def)

lemma handleRequestVoteRequest_sends:
  "sends c (fst (handleRequestVoteRequest msg c)) (snd (handleRequestVoteRequest msg c))"
  by (simp add: handleRequestVoteRequest_def Let_def shared_steps case_prod_beta sends_def voteResponse_def)

lemma stepDownOnReply_sends: "sends c (fst (stepDownOnReply msg c)) (snd (stepDownOnReply msg c))"
  by (simp add: stepDownOnReply_def Let_def shared_steps sends_def)

lemma handleRequestVoteResponse_sends:
  "sends c (fst (handleRequestVoteResponse msg c)) (snd (handleRequestVoteResponse msg c))"
  using stepDownOnReply_sends [of c msg]
    sends_becomeLeader [of c "c\<lparr>votesReceived := mput (msg_From msg) True (votesReceived c)\<rparr>" noOutput]
  by (simp add: handleRequestVoteResponse_def Let_def sends_def)

text \<open>What advancing the commit index leaves alone.\<close>

lemma advanceFollowerCommit_frame:
  "\<exists>n es. advanceFollowerCommit k (c, out) = (c\<lparr>commitIndex := n\<rparr>, out\<lparr>out_CommittedEntries := es\<rparr>)"
proof -
  have "\<exists>n es. (c, out) = (c\<lparr>commitIndex := n\<rparr>, out\<lparr>out_CommittedEntries := es\<rparr>)"
    by (intro exI [of _ "commitIndex c"] exI [of _ "out_CommittedEntries out"]) simp
  then show ?thesis by (auto simp: advanceFollowerCommit_def Let_def)
qed

lemma advanceLeaderCommit_frame:
  "c_cfg (fst (advanceLeaderCommit (c, out))) = c_cfg c"
  "currentTerm (fst (advanceLeaderCommit (c, out))) = currentTerm c"
  "votedFor (fst (advanceLeaderCommit (c, out))) = votedFor c"
  "heardFromLeader (fst (advanceLeaderCommit (c, out))) = heardFromLeader c"
  "out_Messages (snd (advanceLeaderCommit (c, out))) = out_Messages out"
  "out_PersistRequest (snd (advanceLeaderCommit (c, out))) = out_PersistRequest out"
  "persistSeq (fst (advanceLeaderCommit (c, out))) = persistSeq c"
  "pending (fst (advanceLeaderCommit (c, out))) = pending c"
  by (simp_all add: advanceLeaderCommit_def maybeStepDownAfterSelfRemoval_def split: option.splits)

lemma acknowledge_sends: "sends c (fst (acknowledge msg c)) (snd (acknowledge msg c))"
proof -
  let ?s = "advanceLeaderCommit (bumpProgress msg c, noOutput)"
  have "c_cfg (bumpProgress msg c) = c_cfg c" by (simp add: bumpProgress_def Let_def)
  then have "sends c (fst ?s) (snd ?s)" by (simp add: sends_def advanceLeaderCommit_frame)
  then show ?thesis
    using sends_sendAppend [of c "fst ?s" "snd ?s"] by (simp add: acknowledge_def case_prod_beta)
qed

lemma handleAppendEntriesResponse_sends:
  "sends c (fst (handleAppendEntriesResponse msg c)) (snd (handleAppendEntriesResponse msg c))"
  using stepDownOnReply_sends acknowledge_sends
  by (auto simp: handleAppendEntriesResponse_def Let_def sends_def [of c c] sends_def [of c "c\<lparr>nextIndex := _\<rparr>"]
      intro!: sends_sendAppend)

lemma handleInstallSnapshotResponse_sends:
  "sends c (fst (handleInstallSnapshotResponse msg c)) (snd (handleInstallSnapshotResponse msg c))"
  using stepDownOnReply_sends acknowledge_sends
  by (auto simp: handleInstallSnapshotResponse_def sends_def [of c c])

end
