(* ===== verification/Raft_Inv.thy ===== *)
theory Raft_Inv
  imports Raft_Step
begin

text \<open>
  Properties of one core over its steps: the invariant of the log is kept and the messages it
  sends are well-formed, committed entries are final and delivered once and in order, the
  storage a driver writes holds the same log, and a leader commits exactly what the rule of the
  current term and a majority allows.
\<close>

section \<open>Messages of the remaining handlers\<close>

lemma recogniseLeader_frame:
  "c_cfg (fst (recogniseLeader msg c)) = c_cfg c"
  "currentTerm (fst (recogniseLeader msg c)) = (if msg_Term msg > currentTerm c \<or> role c \<noteq> Follower then msg_Term msg else currentTerm c)"
  "out_Messages (snd (snd (recogniseLeader msg c))) = []"
  "fst (snd (recogniseLeader msg c)) = (msg_Term msg > currentTerm c)"
  by (simp_all add: recogniseLeader_eq Let_def stepDownTo_def)

lemma acceptEntries_sends:
  assumes inv: "core_inv c" and es: "contiguous (Suc (msg_PrevLogIndex msg)) (msg_Entries msg)"
    and prev: "snapshotIndex c \<le> msg_PrevLogIndex msg" "msg_PrevLogIndex msg \<le> lastIndex c"
    and acc: "acceptEntries msg changed (c, out) = Inr (c', out')" and out: "out_Messages out = []"
  shows "sends c c' out'"
proof -
  obtain j k cfg i ps d where r: "accepted (msg_PrevLogIndex msg) (msg_Entries msg) c j k"
    "d = c\<lparr>rlog := take k (rlog c) @ drop j (msg_Entries msg), pending := ps, activeConfig := cfg, activeConfigIndex := i\<rparr>"
    "(c', out') =
       (if changed \<or> j < length (msg_Entries msg)
        then (let e = d\<lparr>persistSeq := persistSeq c + 1\<rparr>
              in (e\<lparr>pending := ps @ accept_pending msg e\<rparr>,
                  out\<lparr>out_PersistRequest := Some \<lparr>pr_Seq = persistSeq c + 1,
                    pr_HardState = (if changed then Some \<lparr>hs_CurrentTerm = currentTerm c, hs_VotedFor = votedFor c\<rparr> else None),
                    pr_TruncateFrom = (if k < length (rlog c) then snapshotIndex c + k else 0),
                    pr_Entries = drop j (msg_Entries msg)\<rparr>\<rparr>))
        else (let s = (if leader_commit msg > commitIndex c then advanceFollowerCommit (leader_commit msg) (d, out) else (d, out))
              in (fst s, emit (append_ok msg (fst s)) (snd s))))"
    by (rule acceptEntries_result [OF inv es prev acc]) blast
  obtain n es' where "advanceFollowerCommit (leader_commit msg) (d, out) = (d\<lparr>commitIndex := n\<rparr>, out\<lparr>out_CommittedEntries := es'\<rparr>)"
    using advanceFollowerCommit_frame by blast
  then show ?thesis
    using r(3) out unfolding r(2)
    by (simp add: sends_def Let_def append_ok_def appendResponse_def split: if_splits)
qed

lemma handleAppendEntriesRequest_sends:
  assumes inv: "core_inv c" and es: "contiguous (Suc (msg_PrevLogIndex msg)) (msg_Entries msg)"
    and h: "handleAppendEntriesRequest msg c = Inr (c', out')"
  shows "sends c c' out'"
proof -
  obtain c1 changed out where r: "recogniseLeader msg c = (c1, changed, out)" by (cases "recogniseLeader msg c")
  then have f: "c_cfg c1 = c_cfg c" "out_Messages out = []" using recogniseLeader_frame [of msg c] by simp_all
  have "log_view c1 = log_view c" using r recogniseLeader_quiet [of c msg] by (simp add: quiet_def)
  then have inv1: "core_inv c1" using inv core_inv_cong by blast
  consider "sends c c' out'"
    | "snapshotIndex c1 \<le> msg_PrevLogIndex msg" "msg_PrevLogIndex msg \<le> lastIndex c1"
      "acceptEntries msg changed (c1, out) = Inr (c', out')"
    using h r f unfolding handleAppendEntriesRequest_def
    by (auto simp: Let_def persistHardState_eq sends_def not_less appendResponse_def split: if_splits prod.splits)
  then show ?thesis
  proof cases
    case 2
    then have "sends c1 c' out'" using f(2) by (intro acceptEntries_sends [OF inv1 es 2])
    then show ?thesis using f(1) by (simp add: sends_def)
  qed
qed

lemma handleInstallSnapshotRequest_sends:
  "sends c (fst (handleInstallSnapshotRequest msg c)) (snd (handleInstallSnapshotRequest msg c))"
proof -
  obtain c1 changed out where r: "recogniseLeader msg c = (c1, changed, out)" by (cases "recogniseLeader msg c")
  then have "c_cfg c1 = c_cfg c" "out_Messages out = []" using recogniseLeader_frame [of msg c] by simp_all
  with r show ?thesis
    by (simp add: handleInstallSnapshotRequest_def Let_def persistHardState_eq sends_def snapshotResponse_def SetApplied_def)
qed

lemma releasePending_frame:
  "c_cfg (fst (releasePending p (c, out))) = c_cfg c \<and> currentTerm (fst (releasePending p (c, out))) = currentTerm c
   \<and> votedFor (fst (releasePending p (c, out))) = votedFor c
   \<and> (\<forall>m \<in> set (out_Messages (snd (releasePending p (c, out)))). m \<in> set (out_Messages out)
        \<or> msg_From m = cfg_ID (c_cfg c) \<and> msg_Term m = currentTerm c
          \<and> msg_Type m \<in> {MsgRequestVoteResponse, MsgAppendEntriesResponse})"
proof -
  obtain n es where "advanceFollowerCommit (pi_index p) (c, out) = (c\<lparr>commitIndex := n\<rparr>, out\<lparr>out_CommittedEntries := es\<rparr>)"
    using advanceFollowerCommit_frame by blast
  then show ?thesis
    by (cases "pi_kind p")
      (auto simp: releasePending_def Let_def voteResponse_def appendResponse_def advanceLeaderCommit_frame)
qed

lemma fold_releasePending_frame:
  "c_cfg (fst (foldl (\<lambda>s p. releasePending p s) (c, out) ps)) = c_cfg c
   \<and> currentTerm (fst (foldl (\<lambda>s p. releasePending p s) (c, out) ps)) = currentTerm c
   \<and> votedFor (fst (foldl (\<lambda>s p. releasePending p s) (c, out) ps)) = votedFor c
   \<and> (\<forall>m \<in> set (out_Messages (snd (foldl (\<lambda>s p. releasePending p s) (c, out) ps))). m \<in> set (out_Messages out)
        \<or> msg_From m = cfg_ID (c_cfg c) \<and> msg_Term m = currentTerm c
          \<and> msg_Type m \<in> {MsgRequestVoteResponse, MsgAppendEntriesResponse})"
proof (induction ps arbitrary: c out)
  case (Cons p ps)
  obtain d out' where "releasePending p (c, out) = (d, out')" by (cases "releasePending p (c, out)")
  then show ?case using Cons [of d out'] releasePending_frame [of p c out] by auto
qed simp

lemma handlePersistenceComplete_sends:
  "sends c (fst (handlePersistenceComplete seq c)) (snd (handlePersistenceComplete seq c))"
proof -
  define c0 where "c0 = (if seq > persistedSeq c then c\<lparr>persistedSeq := seq\<rparr> else c)"
  have c0: "c_cfg c0 = c_cfg c" "currentTerm c0 = currentTerm c" by (simp_all add: c0_def)
  show ?thesis
    unfolding handlePersistenceComplete_def
    using fold_releasePending_frame [of c0 noOutput "filter (\<lambda>p. \<not> pi_seq p > persistedSeq c0) (pending c0)"] c0
    by (auto simp: sends_def Let_def case_prod_beta simp flip: c0_def)
qed

lemma appendLeaderEntry_sends:
  assumes "appendLeaderEntry t data c = Inr (c', out)" "role c = Leader"
  shows "sends c c' out"
proof -
  obtain cfg i ni mi ms where f:
     "c' = c\<lparr>rlog := rlog c @ [leader_entry c t data], activeConfig := cfg, activeConfigIndex := i,
              nextIndex := ni, matchIndex := mi, persistSeq := persistSeq c + 1,
              pending := pending c @ [\<lparr>pi_kind = pendingSelfMatch, pi_seq = persistSeq c + 1,
                 pi_term = currentTerm c, pi_candidate = [], pi_to = [], pi_index = lastIndex c + 1,
                 pi_entryTerm = currentTerm c\<rparr>]\<rparr>"
     "out = noOutput\<lparr>out_PersistRequest := Some \<lparr>pr_Seq = persistSeq c + 1, pr_HardState = None,
                 pr_TruncateFrom = 0, pr_Entries = [leader_entry c t data]\<rparr>, out_Messages := ms\<rparr>"
     "\<forall>m \<in> set ms. leader_request (c\<lparr>rlog := rlog c @ [leader_entry c t data]\<rparr>) m"
    using appendLeaderEntry_frame [OF assms(1)] by blast
  have "leader_request c' = leader_request (c\<lparr>rlog := rlog c @ [leader_entry c t data]\<rparr>)"
    by (rule leader_request_cong) (simp_all add: f(1))
  with f assms(2) show ?thesis by (auto simp: sends_def leader_request_fields)
qed

lemma Step_sends:
  assumes "core_inv c" "input_wf inp" "Step inp c = Inr (c', out)"
  shows "sends c c' out"
proof (cases inp)
  case (InputMessage m)
  have "handleMessage m c = Inr (c', out)" using assms(3) InputMessage by simp
  then show ?thesis
    using assms(2) InputMessage
      handleRequestVoteRequest_sends [of c m] handleRequestVoteResponse_sends [of c m]
      handleAppendEntriesRequest_sends [OF assms(1), of m] handleAppendEntriesResponse_sends [of c m]
      handleInstallSnapshotRequest_sends [of c m] handleInstallSnapshotResponse_sends [of c m]
    by (cases "msg_Type m") (simp_all add: msg_wf_def)
next
  case InputElectionTimeout
  then show ?thesis using assms(3) handleElectionTimeout_sends [of c] by simp
next
  case InputHeartbeatTimeout
  then show ?thesis using assms(3) handleHeartbeatTimeout_sends [of c] by simp
next
  case (InputPropose data)
  then show ?thesis using assms(3) appendLeaderEntry_sends [of EntryNormal data c]
    by (auto simp: handlePropose_def sends_def split: if_splits)
next
  case (InputPersistenceComplete seq)
  then show ?thesis using assms(3) handlePersistenceComplete_sends [of c seq] by simp
qed

lemma leader_request_wf:
  assumes "log_wf c" "leader_request c m"
  shows "msg_wf m"
proof -
  obtain peer nx where m: "1 \<le> nx" "m = request_at c peer nx" using assms(2) by (auto simp: leader_request_def)
  have "contiguous nx (drop (nat (pos c nx)) (rlog c))" if "snapshotIndex c < nx"
    using that assms(1) contiguous_drop [of "snapshotIndex c" "rlog c" "nx - snapshotIndex c"]
    by (simp add: log_wf_def pos_def nat_diff_distrib')
  with m show ?thesis by (auto simp: msg_wf_def request_at_def)
qed

section \<open>Construction, compaction\<close>

lemma NewCoreFromSnapshot_inv:
  assumes "NewCoreFromSnapshot cfg hs si st sc has es = Inr c"
  shows "core_inv c"
proof -
  define d where "d = \<lparr>c_cfg = cfg, c_draws = 0, role = Follower, currentTerm = hs_CurrentTerm hs,
                 votedFor = hs_VotedFor hs, leaderID = [],
                 rlog = \<lparr>ent_Index = si, ent_Term = st, ent_Type = EntryNormal, ent_Data = []\<rparr> # es,
                 snapshotIndex = si, snapshotTerm = st, commitIndex = si,
                 appliedIndex = si, nextIndex = [], matchIndex = [], votesReceived = [],
                 persistSeq = 0, persistedSeq = 0, pending = [], activeConfig = noConfig,
                 activeConfigIndex = 0, snapshotConfig = sc, snapshotHasConfig = has,
                 bootstrapConfig = cfg_Bootstrap cfg, pendingConfIndex = 0, heardFromLeader = False,
                 skipP1ForTest = False\<rparr>"
  have es: "contiguous (Suc si) es"
    using assms by (auto simp: NewCoreFromSnapshot_def contiguous_nth list_ex_iff split: if_splits)
  then have wf: "log_wf d" by (simp add: log_wf_def d_def)
  have c: "c = d\<lparr>activeConfig := fst (ConfigAt d (lastIndex d)), activeConfigIndex := snd (ConfigAt d (lastIndex d))\<rparr>"
    using assms by (simp add: NewCoreFromSnapshot_def Let_def case_prod_beta d_def split: if_splits)
  have "log_wf c" using wf by (simp add: c log_wf_def)
  moreover have "newest_config (base_config c, 0) (Entries c) = ConfigAt d (lastIndex d)"
    unfolding ConfigAt_last [OF wf] by (simp add: c base_config_def Entries_def)
  ultimately show ?thesis by (simp add: core_inv_def c d_def lastIndex_def)
qed

lemma SetApplied_inv: "core_inv c \<Longrightarrow> idx \<le> commitIndex c \<Longrightarrow> core_inv (SetApplied idx c)"
  by (simp add: SetApplied_def core_inv_def log_wf_def lastIndex_def base_config_def Entries_def)

lemma newest_config_rebase:
  "contiguous (Suc u) es \<Longrightarrow> newest_config (cfg, i) es = (a, b)
     \<Longrightarrow> newest_config (cfg, if i \<le> u then 0 else i) es = (a, if b \<le> u then 0 else b)"
proof (induction es arbitrary: cfg i u a b rule: rev_induct)
  case (snoc e es)
  obtain a' b' where ab: "newest_config (cfg, i) es = (a', b')" by (cases "newest_config (cfg, i) es")
  have "u < ent_Index e" using snoc.prems(1) by simp
  then show ?case using snoc.IH [OF _ ab, of u] snoc.prems ab by (cases "config_of e") auto
qed simp

lemma Compact_inv:
  assumes inv: "core_inv c"
  shows "core_inv (fst (Compact uptoIndex c))"
proof (cases "uptoIndex \<le> snapshotIndex c \<or> uptoIndex > appliedIndex c")
  case True
  then show ?thesis using inv by (simp add: Compact_def)
next
  case False
  define p where "p = uptoIndex - snapshotIndex c"
  have wf: "log_wf c" using inv by (simp add: core_inv_def)
  have up: "snapshotIndex c < uptoIndex" "uptoIndex \<le> appliedIndex c" "uptoIndex \<le> commitIndex c" "uptoIndex \<le> lastIndex c"
    using False inv by (auto simp: core_inv_def)
  have p: "nat (pos c uptoIndex) = p" "uptoIndex = snapshotIndex c + p" "0 < p"
    using up by (simp_all add: p_def pos_def nat_diff_distrib')
  have len: "lastIndex c + 1 = snapshotIndex c + length (rlog c)" by (rule lastIndex_eq [OF wf])
  define c' where "c' = fst (Compact uptoIndex c)"
  have f: "rlog c' = \<lparr>ent_Index = uptoIndex, ent_Term = ent_Term (rlog c ! p), ent_Type = EntryNormal, ent_Data = []\<rparr> # drop (p + 1) (rlog c)"
    "snapshotIndex c' = uptoIndex" "snapshotTerm c' = ent_Term (rlog c ! p)" "commitIndex c' = commitIndex c"
    "appliedIndex c' = appliedIndex c" "activeConfig c' = activeConfig c"
    "activeConfigIndex c' = (if activeConfigIndex c \<le> uptoIndex then 0 else activeConfigIndex c)"
    "base_config c' = fst (ConfigAt c uptoIndex)"
    using False p(1) by (simp_all add: c'_def Compact_def Let_def base_config_def)
  have E: "Entries c' = drop p (Entries c)" by (simp add: f(1) Entries_def)
  have cont: "contiguous (Suc uptoIndex) (drop p (Entries c))"
    using contiguous_drop [OF contiguous_Entries [OF wf], of p] p(2) by simp
  obtain a i where ai: "ConfigAt c uptoIndex = (a, i)" by (cases "ConfigAt c uptoIndex")
  then have n: "newest_config (base_config c, 0) (take p (Entries c)) = (a, i)"
    using ConfigAt_newest [OF wf, of p] up p(2) by simp
  have i: "i \<le> uptoIndex"
  proof -
    have "snd (newest_config (cfg, k) es) \<le> u" if "k \<le> u" "\<forall>e \<in> set es. ent_Index e \<le> u" for cfg k es u
      using that by (induction es arbitrary: cfg k) (auto split: option.splits)
    moreover have "ent_Index e \<le> uptoIndex" if "e \<in> set (take p (Entries c))" for e
      using that contiguous_take [OF contiguous_Entries [OF wf], of p] p(2)
      by (auto simp: contiguous_nth in_set_conv_nth)
    ultimately show ?thesis using n by (metis le0 snd_conv)
  qed
  have "newest_config (a, i) (drop p (Entries c)) = (activeConfig c, activeConfigIndex c)"
    using inv n newest_config_simps(3) [of "(base_config c, 0)" "take p (Entries c)" "drop p (Entries c)"]
    by (simp add: core_inv_def)
  then have "newest_config (base_config c', 0) (Entries c') = (activeConfig c', activeConfigIndex c')"
    using newest_config_rebase [OF cont, of a i] i ai f E by simp
  moreover have "log_wf c'" using cont E f by (simp add: log_wf_def Entries_def)
  moreover have "lastIndex c' = lastIndex c" using len up p f by (simp add: lastIndex_def)
  ultimately have "core_inv c'" using inv up f by (simp add: core_inv_def)
  then show ?thesis by (simp add: c'_def)
qed

section \<open>Reachable cores\<close>

text \<open>The states of a core that a driver can reach: it is built from a snapshot and a log, and
  then steps, takes configuration changes, learns what has been applied and compacts its log.\<close>

inductive core_reachable :: "Core \<Rightarrow> bool" where
  new: "NewCoreFromSnapshot cfg hs si st sc has es = Inr c \<Longrightarrow> core_reachable c"
| step: "core_reachable c \<Longrightarrow> input_wf inp \<Longrightarrow> Step inp c = Inr (c', out) \<Longrightarrow> core_reachable c'"
| change: "core_reachable c \<Longrightarrow> ProposeConfigChange kind rid target addr c = Inr (c', Inr out) \<Longrightarrow> core_reachable c'"
| applied: "core_reachable c \<Longrightarrow> idx \<le> commitIndex c \<Longrightarrow> core_reachable (SetApplied idx c)"
| compact: "core_reachable c \<Longrightarrow> core_reachable (fst (Compact idx c))"

lemma core_reachable_inv: "core_reachable c \<Longrightarrow> core_inv c"
proof (induction rule: core_reachable.induct)
  case (step c inp c' out)
  then show ?case using Step_log_step log_step_core_inv by blast
next
  case (change c kind rid target addr c' out)
  then show ?case using ProposeConfigChange_log_step log_step_core_inv by blast
qed (simp_all add: NewCoreFromSnapshot_inv SetApplied_inv Compact_inv)

text \<open>
  Claim C19. In every reachable state of a core the log starts at the snapshot boundary and has
  consecutive indices, snapshot, applied, commit and last index are in order, and the
  configuration in force is the one of the newest configuration entry: \<open>activeConfig\<close> and
  \<open>activeConfigIndex\<close>, which the code keeps by hand in four places, are always what \<open>ConfigAt\<close> finds
  at the last index.
\<close>

theorem reachable_core_invariant:
  assumes "core_reachable c"
  shows "core_inv c \<and> ConfigAt c (lastIndex c) = (activeConfig c, activeConfigIndex c)"
  using core_reachable_inv [OF assms] by (simp add: core_inv_def ConfigAt_last)

text \<open>A single node that elects itself, commits an entry and adds a learner.\<close>

definition demo_cfg :: Config where
  "demo_cfg = \<lparr>cfg_ID = ''a'', cfg_Bootstrap = \<lparr>Voters = [\<lparr>mem_ID = ''a'', mem_Address = ''x''\<rparr>], Learners = []\<rparr>,
     cfg_ElectionTimeoutTicks = 10, cfg_ElectionTimeoutJitterTicks = 0, cfg_HeartbeatTimeoutTicks = 3,
     cfg_Rand = (\<lambda>_ _. 0)\<rparr>"

definition demo_start :: "raft_error + Core" where
  "demo_start = NewCore demo_cfg \<lparr>hs_CurrentTerm = 0, hs_VotedFor = []\<rparr> []"

fun demo_steps :: "Input list \<Rightarrow> Core \<Rightarrow> raft_panic + Core" where
  "demo_steps [] c = Inr c"
| "demo_steps (i # is) c = bindR (Step i c) (\<lambda>(c', _). demo_steps is c')"

lemma demo_steps_reachable:
  "core_reachable c \<Longrightarrow> list_all input_wf is \<Longrightarrow> demo_steps is c = Inr c' \<Longrightarrow> core_reachable c'"
proof (induction "is" arbitrary: c)
  case (Cons i "is")
  obtain d out where "Step i c = Inr (d, out)" "demo_steps is d = Inr c'"
    using Cons.prems(3) by (auto simp: bindR_eq_Inr)
  then show ?case using Cons core_reachable.step [of c i d out] by simp
qed simp

text \<open>Its states: elected, with an entry that waits for its write, and with a learner added.\<close>

definition demo_elected :: Core where
  "demo_elected = projr (demo_steps [InputElectionTimeout, InputPersistenceComplete 1] (projr demo_start))"

definition demo_proposal :: "raft_panic + Core \<times> Output" where
  "demo_proposal = Step (InputPropose ''v'') demo_elected"

definition demo_leader :: Core where
  "demo_leader = fst (projr demo_proposal)"

definition demo_commit :: "raft_panic + Core \<times> Output" where
  "demo_commit = Step (InputPersistenceComplete 2) demo_leader"

definition demo_change :: "raft_panic + Core \<times> (raft_error + Output)" where
  "demo_change = ProposeConfigChange AddLearnerChange ''r'' ''b'' ''y'' (fst (projr demo_commit))"

lemma Inr_projr: "\<not> isl x \<Longrightarrow> x = Inr (projr x)"
  by (cases x) auto

lemma demo_elected_reachable: "core_reachable demo_elected"
proof -
  have "\<not> isl demo_start" by code_simp
  then have "core_reachable (projr demo_start)"
    using core_reachable.new [of demo_cfg _ 0 0 noConfig False "[]"] Inr_projr
    unfolding demo_start_def NewCore_def by blast
  moreover have "\<not> isl (demo_steps [InputElectionTimeout, InputPersistenceComplete 1] (projr demo_start))" by code_simp
  then have "demo_steps [InputElectionTimeout, InputPersistenceComplete 1] (projr demo_start) = Inr demo_elected"
    unfolding demo_elected_def by (rule Inr_projr)
  ultimately show ?thesis
    using demo_steps_reachable [of "projr demo_start" "[InputElectionTimeout, InputPersistenceComplete 1]"] by simp
qed

lemma demo_proposal_step: "Step (InputPropose ''v'') demo_elected = Inr (demo_leader, snd (projr demo_proposal))"
proof -
  have "\<not> isl demo_proposal" by code_simp
  then show ?thesis unfolding demo_leader_def demo_proposal_def prod.collapse by (rule Inr_projr)
qed

lemma demo_leader_reachable: "core_reachable demo_leader"
  using core_reachable.step [OF demo_elected_reachable _ demo_proposal_step] by simp

lemma demo_commit_step: "Step (InputPersistenceComplete 2) demo_leader = Inr (projr demo_commit)"
proof -
  have "\<not> isl demo_commit" by code_simp
  then show ?thesis unfolding demo_commit_def by (rule Inr_projr)
qed

theorem reachable_core_invariant_witness:
  "ConfigAt (fst (projr demo_change)) 2 = (activeConfig (fst (projr demo_change)), 2)
     \<and> commitIndex (fst (projr demo_change)) = 1 \<and> IsLearner (activeConfig (fst (projr demo_change))) ''b''"
proof -
  have "core_reachable (fst (projr demo_commit))"
    using demo_leader_reachable core_reachable.step [of demo_leader "InputPersistenceComplete 2"]
      demo_commit_step by (metis input_wf.simps(5) prod.collapse)
  moreover have "\<not> isl demo_change" "\<not> isl (snd (projr demo_change))" by code_simp+
  then have "demo_change = Inr (fst (projr demo_change), Inr (projr (snd (projr demo_change))))"
    by (metis Inr_projr prod.collapse)
  ultimately have "core_reachable (fst (projr demo_change))"
    unfolding demo_change_def by (rule core_reachable.change)
  moreover have "lastIndex (fst (projr demo_change)) = 2" "activeConfigIndex (fst (projr demo_change)) = 2"
    "commitIndex (fst (projr demo_change)) = 1" "IsLearner (activeConfig (fst (projr demo_change))) ''b''"
    by code_simp+
  ultimately show ?thesis using reachable_core_invariant [of "fst (projr demo_change)"] by simp
qed

section \<open>Committed entries are final\<close>

text \<open>
  Claim C20. A step of a core never moves the commit index back and never changes an entry at or
  below it. The entries it reports as committed are exactly those between the old and the new
  commit index, in order, so over a run every entry is delivered once; a step that installs a
  snapshot reports none and its boundary is the new commit index.
\<close>

theorem committed_entries_final:
  assumes "core_inv c" "input_wf inp" "Step inp c = Inr (c', out)"
  shows "commitIndex c \<le> commitIndex c'
     \<and> (snapshotIndex c' < i \<longrightarrow> i \<le> commitIndex c \<longrightarrow> EntryAt c' i = EntryAt c i)
     \<and> (if snapshotIndex c' = snapshotIndex c
        then map Some (out_CommittedEntries out) = map (EntryAt c') [Suc (commitIndex c)..<Suc (commitIndex c')]
        else commitIndex c < snapshotIndex c' \<and> commitIndex c' = snapshotIndex c' \<and> out_CommittedEntries out = [])"
proof -
  have "log_step c c' out" by (rule Step_log_step [OF assms])
  then show ?thesis using log_step_commit [OF assms(1)] by (simp del: upt_Suc)
qed

text \<open>The leader of a single-node cluster completes the write of its entry.\<close>

theorem committed_entries_final_witness:
  "map Some (out_CommittedEntries (snd (projr demo_commit))) = [EntryAt (fst (projr demo_commit)) 1]
     \<and> commitIndex demo_leader = 0 \<and> commitIndex (fst (projr demo_commit)) = 1"
proof -
  have inv: "core_inv demo_leader" by (rule core_reachable_inv [OF demo_leader_reachable])
  have "commitIndex demo_leader = 0" "snapshotIndex demo_leader = 0" "commitIndex (fst (projr demo_commit)) = 1"
    "snapshotIndex (fst (projr demo_commit)) = 0" by code_simp+
  then show ?thesis
    using committed_entries_final [OF inv, of "InputPersistenceComplete 2" "fst (projr demo_commit)" "snd (projr demo_commit)" 0]
      demo_commit_step by simp
qed



section \<open>The commit rule\<close>

lemma matching_card:
  assumes "wf_config (activeConfig c)"
  shows "matching c n = card {v \<in> voter_ids (activeConfig c). n \<le> mget0 (matchIndex c) v}"
proof -
  let ?vs = "filter (\<lambda>v. n \<le> mget0 (matchIndex c) (mem_ID v)) (Voters (activeConfig c))"
  have "distinct (map mem_ID (Voters (activeConfig c)))" using assms by (simp add: wf_config_def)
  then have "distinct (map mem_ID ?vs)" by (rule distinct_map_filter)
  moreover have "{v \<in> voter_ids (activeConfig c). n \<le> mget0 (matchIndex c) v} = set (map mem_ID ?vs)"
    by (auto simp: voter_ids_def)
  ultimately show ?thesis using distinct_card [of "map mem_ID ?vs"] by (simp add: matching_def)
qed

definition committable :: "Core \<Rightarrow> Index \<Rightarrow> bool" where
  "committable c n \<longleftrightarrow> commitIndex c < n \<and> n \<le> lastIndex c \<and> termAt c n = currentTerm c
     \<and> quorum (activeConfig c) {v \<in> voter_ids (activeConfig c). n \<le> mget0 (matchIndex c) v}"

text \<open>
  Claim C21. A leader's commit index moves to the greatest index above it whose entry is of the
  current term and which a majority of the voters in force has matched, and does not move if
  there is none. In particular an entry of an earlier term is never committed by counting: only
  below one of the current term.
\<close>

theorem leader_commits_greatest:
  assumes inv: "core_inv c" and wf: "wf_config (activeConfig c)"
    and adv: "advanceLeaderCommit (c, out) = (c', out')"
  shows "commitIndex c' = (if Collect (committable c) = {} then commitIndex c else Max (Collect (committable c)))
     \<and> out_CommittedEntries out' = out_CommittedEntries out @ log_slice c (Suc (commitIndex c)) (commitIndex c')"
proof -
  have q: "committable c n \<longleftrightarrow> commitIndex c < n \<and> n \<le> lastIndex c \<and> termAt c n = currentTerm c
      \<and> matching c n \<ge> Majority (activeConfig c)" for n
    by (auto simp: committable_def quorum_def matching_card [OF wf])
  obtain es where "commits c c' es" "out_CommittedEntries out' = out_CommittedEntries out @ es"
    using advanceLeaderCommit_commits [OF inv, of out] adv by auto
  moreover have "commitIndex c' = (if Collect (committable c) = {} then commitIndex c else Max (Collect (committable c)))"
  proof (cases "commit_scan c (lastIndex c)")
    case None
    then have "Collect (committable c) = {}" using commit_scan_None [OF None] q leD by blast
    then show ?thesis using None adv by (simp add: advanceLeaderCommit_def)
  next
    case (Some n)
    have n: "committable c n" using commit_scan_Some [OF Some] by (simp add: q)
    have "Max (Collect (committable c)) = n"
    proof (rule Max_eqI)
      show "finite (Collect (committable c))"
        by (rule finite_subset [of _ "{..lastIndex c}"]) (auto simp: committable_def)
      show "k \<le> n" if "k \<in> Collect (committable c)" for k
        using that commit_scan_greatest [of n k "lastIndex c" c] Some by (auto simp: q not_le [symmetric])
    qed (use n in simp)
    moreover have "commitIndex c' = n"
      using adv Some by (auto simp: advanceLeaderCommit_def maybeStepDownAfterSelfRemoval_def split: if_splits)
    ultimately show ?thesis using n by auto
  qed
  ultimately show ?thesis by (simp add: commits_def)
qed

theorem leader_commits_greatest_witness:
  "committable demo_leader 1 \<and> commitIndex (fst (advanceLeaderCommit (demo_leader, noOutput))) = 1"
proof -
  have inv: "core_inv demo_leader" by (rule core_reachable_inv [OF demo_leader_reachable])
  have wf: "wf_config (activeConfig demo_leader)" by code_simp
  have f: "commitIndex demo_leader = 0" "lastIndex demo_leader = 1" "termAt demo_leader 1 = currentTerm demo_leader"
    "mget0 (matchIndex demo_leader) ''a'' = 1" by code_simp+
  have v: "map mem_ID (Voters (activeConfig demo_leader)) = [''a'']" "Majority (activeConfig demo_leader) = 1"
    by code_simp+
  have vs: "voter_ids (activeConfig demo_leader) = {''a''}"
    unfolding voter_ids_def set_map [symmetric] v by simp
  have "{v \<in> voter_ids (activeConfig demo_leader). 1 \<le> mget0 (matchIndex demo_leader) v} = {''a''}"
    using f unfolding vs by auto
  then have c1: "committable demo_leader 1" using f v(2) vs by (simp add: committable_def quorum_def)
  have "Collect (committable demo_leader) = {1}" using c1 f by (auto simp: committable_def)
  then show ?thesis
    using c1 leader_commits_greatest [OF inv wf prod.collapse [symmetric], of noOutput] by simp
qed

end
