(* ===== verification/Raft_Cluster.thy ===== *)
theory Raft_Cluster
  imports Raft_Inv
begin

text \<open>
  A cluster of nodes over a network. A node runs the consensus core under the driver of
  \<^verbatim>\<open>internal/node\<close> (\<open>Node.processOutput\<close>): it takes one input at a time, sends the messages of the
  step at once, then applies the persist request to its storage, and only then gives the core
  the completion and sends what that releases. The network may delay, repeat, reorder and lose
  messages. A node may crash at any point, in the middle of a persist request too, and starts
  again from its storage.

  The configuration is fixed and no node takes snapshots.
\<close>

section \<open>State\<close>

text \<open>A node: the core, the storage, the persist request it is working on, and the entries it has
  handed to its state machine since it started.\<close>

record node =
  nd_core :: Core
  nd_storage :: Storage
  nd_job :: "PersistRequest option"
  nd_applied :: "Entry list"

text \<open>The cluster: its nodes, every message ever sent, and every entry a node has handed to its
  state machine, in the order of these events.\<close>

record cluster =
  cl_nodes :: "(NodeID, node) gomap"
  cl_net :: "Message list"
  cl_applied :: "(NodeID \<times> Entry) list"

datatype action =
    ATimeout NodeID
  | AHeartbeat NodeID
  | APropose NodeID bytes
  | ADeliver nat
  | AComplete NodeID
  | ACrash NodeID nat

section \<open>The driver\<close>

text \<open>The new state of a node after a step of its core, with the messages sent and the entries
  handed to the state machine.\<close>

definition cl_update :: "NodeID \<Rightarrow> node \<Rightarrow> Output \<Rightarrow> cluster \<Rightarrow> cluster" where
  "cl_update n nd out s =
     s\<lparr>cl_nodes := mput n (nd\<lparr>nd_applied := nd_applied nd @ out_CommittedEntries out\<rparr>) (cl_nodes s), cl_net := cl_net s @ out_Messages out,
       cl_applied := cl_applied s @ map (Pair n) (out_CommittedEntries out)\<rparr>"

definition cl_input :: "NodeID \<Rightarrow> Input \<Rightarrow> cluster \<Rightarrow> raft_panic + cluster" where
  "cl_input n inp s =
     (case mget (cl_nodes s) n of
        None \<Rightarrow> Inr s
      | Some nd \<Rightarrow>
          if nd_job nd \<noteq> None then Inr s
          else bindR (Step inp (nd_core nd)) (\<lambda>(c, out).
                 Inr (cl_update n (nd\<lparr>nd_core := c, nd_job := out_PersistRequest out\<rparr>) out s)))"

definition cl_complete :: "NodeID \<Rightarrow> cluster \<Rightarrow> raft_panic + cluster" where
  "cl_complete n s =
     (case mget (cl_nodes s) n of
        None \<Rightarrow> Inr s
      | Some nd \<Rightarrow>
          (case nd_job nd of
             None \<Rightarrow> Inr s
           | Some pr \<Rightarrow>
               bindR (Step (InputPersistenceComplete (pr_Seq pr)) (nd_core nd)) (\<lambda>(c, out).
                 Inr (cl_update n (nd\<lparr>nd_core := c, nd_job := out_PersistRequest out,
                        nd_storage := ApplyPersistRequest (Some pr) (nd_storage nd)\<rparr>) out s))))"

text \<open>The writes of \<open>ApplyPersistRequest\<close>, in its order. The entries of a batch reach the log one
  after the other. A crash leaves a prefix of them.\<close>

definition persist_ops :: "PersistRequest \<Rightarrow> (Storage \<Rightarrow> Storage) list" where
  "persist_ops p =
     (if pr_TruncateFrom p \<noteq> 0 then [sto_Truncate (pr_TruncateFrom p)] else [])
     @ map (\<lambda>e. sto_Append [e]) (pr_Entries p)
     @ (case pr_HardState p of None \<Rightarrow> [] | Some hs \<Rightarrow> [sto_SetHardState hs])"

definition persist_prefix :: "nat \<Rightarrow> PersistRequest option \<Rightarrow> Storage \<Rightarrow> Storage" where
  "persist_prefix k job st =
     (case job of None \<Rightarrow> st | Some p \<Rightarrow> foldl (\<lambda>st f. f st) st (take k (persist_ops p)))"

definition cl_crash :: "NodeID \<Rightarrow> nat \<Rightarrow> cluster \<Rightarrow> cluster" where
  "cl_crash n k s =
     (case mget (cl_nodes s) n of
        None \<Rightarrow> s
      | Some nd \<Rightarrow>
          let st = persist_prefix k (nd_job nd) (nd_storage nd)
          in (case NewCore (c_cfg (nd_core nd)) (sto_HardState st) (sto_Entries st) of
                Inl err \<Rightarrow> s\<lparr>cl_nodes := filter (\<lambda>p. fst p \<noteq> n) (cl_nodes s)\<rparr>
              | Inr c \<Rightarrow> s\<lparr>cl_nodes := mput n \<lparr>nd_core = c, nd_storage = st, nd_job = None, nd_applied = []\<rparr> (cl_nodes s)\<rparr>))"

fun cstep :: "action \<Rightarrow> cluster \<Rightarrow> raft_panic + cluster" where
  "cstep (ATimeout n) s = cl_input n InputElectionTimeout s"
| "cstep (AHeartbeat n) s = cl_input n InputHeartbeatTimeout s"
| "cstep (APropose n data) s = cl_input n (InputPropose data) s"
| "cstep (ADeliver k) s =
     (if k < length (cl_net s) then cl_input (msg_To (cl_net s ! k)) (InputMessage (cl_net s ! k)) s else Inr s)"
| "cstep (AComplete n) s = cl_complete n s"
| "cstep (ACrash n k) s = Inr (cl_crash n k s)"

fun csteps :: "action list \<Rightarrow> cluster \<Rightarrow> raft_panic + cluster" where
  "csteps [] s = Inr s"
| "csteps (a # as) s = bindR (cstep a s) (csteps as)"

text \<open>A fresh cluster: every member starts with an empty storage.\<close>

definition fresh_storage :: Storage where
  "fresh_storage = \<lparr>sto_HardState = \<lparr>hs_CurrentTerm = 0, hs_VotedFor = noVote\<rparr>, sto_Entries = []\<rparr>"

fun boot :: "Config list \<Rightarrow> raft_error + (NodeID, node) gomap" where
  "boot [] = Inr []"
| "boot (cfg # cfgs) =
     bindR (NewCore cfg (sto_HardState fresh_storage) (sto_Entries fresh_storage)) (\<lambda>c.
     bindR (boot cfgs) (\<lambda>nds.
       Inr (mput (cfg_ID cfg) \<lparr>nd_core = c, nd_storage = fresh_storage, nd_job = None, nd_applied = []\<rparr> nds)))"

end
