(* ===== verification/Raft_Crash.thy ===== *)
theory Raft_Crash
  imports Raft_Cluster
begin

text \<open>
  A crash between two writes of one persist request. \<open>ApplyPersistRequest\<close> appends log entries
  before it writes the hard state, each with its own sync, and the driver sends the vote requests
  of a campaign before the campaign is persisted. The theory has a run of seven nodes in which the
  two together lose a committed entry: two nodes apply different entries at index 1.
\<close>

section \<open>Seven nodes\<close>

definition seven :: Configuration where
  "seven = \<lparr>Voters = map (\<lambda>i. \<lparr>mem_ID = i, mem_Address = []\<rparr>)
     [''n'', ''a'', ''b'', ''x'', ''y'', ''v'', ''c''], Learners = []\<rparr>"

definition seven_cfg :: "NodeID \<Rightarrow> Config" where
  "seven_cfg i = \<lparr>cfg_ID = i, cfg_Bootstrap = seven, cfg_ElectionTimeoutTicks = 10,
     cfg_ElectionTimeoutJitterTicks = 0, cfg_HeartbeatTimeoutTicks = 1, cfg_Rand = (\<lambda>_ _. 0)\<rparr>"

definition seven_start :: cluster where
  "seven_start = \<lparr>cl_nodes = projr (boot (map (\<lambda>m. seven_cfg (mem_ID m)) (Voters seven))),
     cl_net = [], cl_applied = []\<rparr>"

section \<open>The run\<close>

text \<open>Node \<open>n\<close> campaigns in term 1 and crashes before it has written anything; \<open>a\<close>, \<open>b\<close> and \<open>x\<close> grant
  it their votes, which stay in the network.\<close>

definition run_unpersisted_campaign :: "action list" where
  "run_unpersisted_campaign =
     [ATimeout ''n'', ACrash ''n'' 0, ADeliver 0, AComplete ''a'', ADeliver 1, AComplete ''b'',
      ADeliver 2, AComplete ''x'']"

text \<open>Node \<open>c\<close> is elected in term 2 by \<open>a\<close>, \<open>b\<close>, \<open>x\<close> and appends \<open>X\<close>, which it does not get to replicate.\<close>

definition run_leader_c :: "action list" where
  "run_leader_c =
     [ATimeout ''c'', AComplete ''c'', ATimeout ''c'', AComplete ''c'',
      ADeliver 16, AComplete ''a'', ADeliver 17, AComplete ''b'', ADeliver 18, AComplete ''x'',
      ADeliver 21, ADeliver 22, ADeliver 23, APropose ''c'' ''X'', AComplete ''c'']"

text \<open>Node \<open>a\<close> is elected in term 3 by \<open>b\<close>, \<open>x\<close>, \<open>y\<close> and appends \<open>P\<close>. Its entry reaches \<open>n\<close>, which crashes
  after the append and before the hard state: its log has an entry of term 3, its term is 0.\<close>

definition run_leader_a :: "action list" where
  "run_leader_a =
     [ATimeout ''a'', AComplete ''a'',
      ADeliver 37, AComplete ''b'', ADeliver 38, AComplete ''x'', ADeliver 39, AComplete ''y'',
      ADeliver 42, ADeliver 43, ADeliver 44, APropose ''a'' ''P'', AComplete ''a'',
      ADeliver 51, ACrash ''n'' 1]"

text \<open>Node \<open>n\<close> campaigns in term 1 again, the old votes elect it, and it appends \<open>N\<close> of term 1 after
  \<open>P\<close> of term 3 and replicates both to \<open>v\<close>.\<close>

definition run_leader_n :: "action list" where
  "run_leader_n =
     [ATimeout ''n'', AComplete ''n'', ADeliver 6, ADeliver 7, ADeliver 8,
      APropose ''n'' ''N'', AComplete ''n'',
      ADeliver 73, AComplete ''v'', ADeliver 75, ADeliver 76, AComplete ''v'', ADeliver 77]"

text \<open>Node \<open>a\<close> replicates \<open>P\<close> to \<open>b\<close>, \<open>x\<close> and \<open>v\<close>, and commits it.\<close>

definition run_commit_P :: "action list" where
  "run_commit_P =
     [ADeliver 52, AComplete ''b'', ADeliver 78, ADeliver 53, AComplete ''x'', ADeliver 79,
      ADeliver 55, AComplete ''v'', ADeliver 80]"

text \<open>Node \<open>c\<close> campaigns in term 5. Its last entry is of term 2, and those of \<open>n\<close> and \<open>v\<close> are of term
  1: it is elected by \<open>n\<close>, \<open>v\<close>, \<open>y\<close>, replaces \<open>P\<close> by \<open>X\<close> on them and commits.\<close>

definition run_leader_c_again :: "action list" where
  "run_leader_c_again =
     [ATimeout ''v'', AComplete ''v'', ADeliver 41, AComplete ''c'', ATimeout ''c'', AComplete ''c'',
      ATimeout ''c'', AComplete ''c'',
      ADeliver 94, AComplete ''n'', ADeliver 99, AComplete ''v'', ADeliver 98, AComplete ''y'',
      ADeliver 100, ADeliver 101, ADeliver 102, APropose ''c'' ''Z'', AComplete ''c'']"

definition run_commit_X :: "action list" where
  "run_commit_X =
     [ADeliver 109, AComplete ''n'', ADeliver 115, ADeliver 116, AComplete ''n'', ADeliver 117,
      ADeliver 114, AComplete ''v'', ADeliver 118, ADeliver 119, AComplete ''v'', ADeliver 120,
      ADeliver 113, AComplete ''y'', ADeliver 121, ADeliver 122, AComplete ''y'', ADeliver 123]"

definition lost_commit_run :: "action list" where
  "lost_commit_run = run_unpersisted_campaign @ run_leader_c @ run_leader_a @ run_leader_n
     @ run_commit_P @ run_leader_c_again @ run_commit_X"

text \<open>
  Claim C35. State machine safety does not hold when a node may crash between the append of log
  entries and the write of the hard state of one persist request. In the run above node \<open>a\<close>
  commits and applies \<open>P\<close> at index 1, and later node \<open>c\<close> commits and applies \<open>X\<close> at index 1.
\<close>

theorem partial_persist_loses_committed_entry:
  "map (\<lambda>(n, e). (n, ent_Index e, ent_Data e)) (cl_applied (projr (csteps lost_commit_run seven_start)))
     = [(''a'', 1, ''P''), (''c'', 1, ''X''), (''c'', 2, ''Z'')]"
  by code_simp

end
