(* ===== verification/Raft_Protocol.thy ===== *)
theory Raft_Protocol
  imports Raft_Types "HOL-Library.Sublist"
begin

text \<open>
  The protocol of the consensus core as an abstract transition system, and its safety. The state
  has what the nodes have on disk (their terms and logs) and the history that an argument about
  all nodes needs: the log of the leader of each term, the campaigns, the votes and the
  acknowledgements. \<^verbatim>\<open>Raft_Refine\<close> shows that a cluster of cores refines it.

  The quorums are a parameter: any sets of nodes that meet pairwise.
\<close>

section \<open>State\<close>

record pstate =
  p_term :: "NodeID \<Rightarrow> Term"
  p_log :: "NodeID \<Rightarrow> Entry list"
  p_cand :: "NodeID \<Rightarrow> Term option"
  p_tlog :: "Term \<Rightarrow> Entry list option"
  p_elog :: "Term \<Rightarrow> Entry list"
  p_lead :: "Term \<Rightarrow> NodeID"
  p_claims :: "(NodeID \<times> Term \<times> Entry list) set"
  p_grants :: "(NodeID \<times> Term \<times> NodeID) set"
  p_oks :: "(NodeID \<times> Term \<times> Index) set"

text \<open>\<open>p_tlog T\<close> is the log of the leader of term \<open>T\<close>, \<open>p_elog T\<close> its log when it was elected.
  \<open>p_claims\<close> has the campaigns with the log of the candidate, \<open>p_grants\<close> the votes, \<open>p_oks\<close> the
  acknowledgements: node, term of the leader, index.\<close>

definition p_init :: pstate where
  "p_init = \<lparr>p_term = (\<lambda>_. 0), p_log = (\<lambda>_. []), p_cand = (\<lambda>_. None), p_tlog = (\<lambda>_. None), p_elog = (\<lambda>_. []),
     p_lead = (\<lambda>_. []), p_claims = {}, p_grants = {}, p_oks = {}\<rparr>"

definition last_term :: "Entry list \<Rightarrow> Term" where
  "last_term X = (if X = [] then 0 else ent_Term (last X))"

text \<open>The log comparison of a vote: \<open>M\<close> is at least as up to date as \<open>X\<close>.\<close>

definition up_to_date :: "Entry list \<Rightarrow> Entry list \<Rightarrow> bool" where
  "up_to_date M X \<longleftrightarrow> (if last_term M \<noteq> last_term X then last_term M > last_term X else length M \<ge> length X)"

section \<open>Steps\<close>

inductive pstep :: "NodeID set set \<Rightarrow> pstate \<Rightarrow> pstate \<Rightarrow> bool" for Qs where
  claim: "pstep Qs s (s\<lparr>p_claims := insert (n, Suc (p_term s n), p_log s n) (p_claims s)\<rparr>)"
| candidate: "(n, Suc (p_term s n), p_log s n) \<in> p_claims s
    \<Longrightarrow> pstep Qs s (s\<lparr>p_term := (p_term s)(n := Suc (p_term s n)), p_cand := (p_cand s)(n := Some (Suc (p_term s n))),
          p_grants := insert (n, Suc (p_term s n), n) (p_grants s)\<rparr>)"
| new_term: "p_term s n \<le> T \<Longrightarrow> pstep Qs s (s\<lparr>p_term := (p_term s)(n := T)\<rparr>)"
| vote: "(c, T, M) \<in> p_claims s \<Longrightarrow> p_term s n \<le> T \<Longrightarrow> (\<And>c'. (n, T, c') \<in> p_grants s \<Longrightarrow> c' = c)
    \<Longrightarrow> up_to_date M (p_log s n)
    \<Longrightarrow> pstep Qs s (s\<lparr>p_term := (p_term s)(n := T), p_grants := insert (n, T, c) (p_grants s)\<rparr>)"
| elect: "p_cand s n = Some T \<Longrightarrow> p_term s n = T \<Longrightarrow> Q \<in> Qs \<Longrightarrow> (\<And>v. v \<in> Q \<Longrightarrow> (v, T, n) \<in> p_grants s)
    \<Longrightarrow> pstep Qs s (s\<lparr>p_tlog := (p_tlog s)(T \<mapsto> p_log s n), p_elog := (p_elog s)(T := p_log s n),
          p_lead := (p_lead s)(T := n), p_cand := (p_cand s)(n := None)\<rparr>)"
| append: "p_tlog s T = Some L \<Longrightarrow> ent_Term e = T \<Longrightarrow> pstep Qs s (s\<lparr>p_tlog := (p_tlog s)(T \<mapsto> L @ [e])\<rparr>)"
| accept: "p_tlog s T = Some L \<Longrightarrow> p_term s n \<le> T \<Longrightarrow> k \<le> m \<Longrightarrow> m \<le> length L \<Longrightarrow> k \<le> length (p_log s n)
    \<Longrightarrow> take k (p_log s n) = take k L \<Longrightarrow> k = length (p_log s n) \<or> (k < length L \<and> p_log s n ! k \<noteq> L ! k)
    \<Longrightarrow> pstep Qs s (s\<lparr>p_term := (p_term s)(n := T), p_log := (p_log s)(n := take m L)\<rparr>)"
| ack: "p_tlog s T = Some L \<Longrightarrow> p_term s n = T \<Longrightarrow> prefix (take i L) (p_log s n) \<Longrightarrow> i \<le> length L
    \<Longrightarrow> pstep Qs s (s\<lparr>p_oks := p_oks s \<union> {(n, T, j) |j. j \<le> i}\<rparr>)"

abbreviation psteps :: "NodeID set set \<Rightarrow> pstate \<Rightarrow> pstate \<Rightarrow> bool" where
  "psteps Qs \<equiv> (pstep Qs)\<^sup>*\<^sup>*"

section \<open>Invariants\<close>

text \<open>Every entry of a log comes with its prefix from the log of the leader of its term.\<close>

definition consistent :: "pstate \<Rightarrow> Entry list \<Rightarrow> bool" where
  "consistent s X \<longleftrightarrow> (\<forall>j < length X. \<exists>L. p_tlog s (ent_Term (X ! j)) = Some L \<and> prefix (take (Suc j) X) L)"

text \<open>\<open>own s t i\<close>: the leader of term \<open>t\<close> has an entry of its own term at index \<open>i\<close>. \<open>lcut s t i\<close>: its log
  up to there.\<close>

definition own :: "pstate \<Rightarrow> Term \<Rightarrow> Index \<Rightarrow> bool" where
  "own s t i \<longleftrightarrow> (\<exists>L. p_tlog s t = Some L \<and> 0 < i \<and> i \<le> length L \<and> ent_Term (L ! (i - 1)) = t)"

definition lcut :: "pstate \<Rightarrow> Term \<Rightarrow> Index \<Rightarrow> Entry list" where
  "lcut s t i = take i (the (p_tlog s t))"

text \<open>All leaders between the terms \<open>t\<close> and \<open>T\<close> started with that prefix.\<close>

definition kept :: "pstate \<Rightarrow> Term \<Rightarrow> Index \<Rightarrow> Term \<Rightarrow> bool" where
  "kept s t i T \<longleftrightarrow> (\<forall>u L. t < u \<longrightarrow> u < T \<longrightarrow> p_tlog s u = Some L \<longrightarrow> prefix (lcut s t i) (p_elog s u))"

definition inv_votes :: "NodeID set set \<Rightarrow> pstate \<Rightarrow> bool" where
  "inv_votes Qs s \<longleftrightarrow>
     (\<forall>v T c. (v, T, c) \<in> p_grants s \<longrightarrow> T \<le> p_term s v \<and> (\<exists>M. (c, T, M) \<in> p_claims s)) \<and>
     (\<forall>v T c d. (v, T, c) \<in> p_grants s \<longrightarrow> (v, T, d) \<in> p_grants s \<longrightarrow> c = d) \<and>
     (\<forall>T L. p_tlog s T = Some L \<longrightarrow> T \<le> p_term s (p_lead s T) \<and> (\<exists>Q \<in> Qs. \<forall>v \<in> Q. (v, T, p_lead s T) \<in> p_grants s)) \<and>
     (\<forall>n T L. p_cand s n = Some T \<longrightarrow> T \<le> p_term s n \<and> (p_tlog s T = Some L \<longrightarrow> p_lead s T \<noteq> n))"

definition inv_logs :: "pstate \<Rightarrow> bool" where
  "inv_logs s \<longleftrightarrow> (\<forall>n. consistent s (p_log s n)) \<and> (\<forall>c T M. (c, T, M) \<in> p_claims s \<longrightarrow> consistent s M) \<and>
     (\<forall>T L. p_tlog s T = Some L \<longrightarrow> consistent s L \<and> prefix (p_elog s T) L)"

definition inv_terms :: "pstate \<Rightarrow> bool" where
  "inv_terms s \<longleftrightarrow> (\<forall>n. \<forall>e \<in> set (p_log s n). ent_Term e \<le> p_term s n) \<and>
     (\<forall>c T M. (c, T, M) \<in> p_claims s \<longrightarrow> (\<forall>e \<in> set M. ent_Term e < T)) \<and>
     (\<forall>T L. p_tlog s T = Some L \<longrightarrow> sorted (map ent_Term L) \<and> (\<forall>e \<in> set L. ent_Term e \<le> T)
        \<and> (\<forall>e \<in> set (p_elog s T). ent_Term e < T))"

text \<open>An acknowledged prefix stays in the log of the node, unless a later leader did not have it.\<close>

definition inv_acks :: "pstate \<Rightarrow> bool" where
  "inv_acks s \<longleftrightarrow> (\<forall>v t i. (v, t, i) \<in> p_oks s \<longrightarrow> t \<le> p_term s v
     \<and> (\<exists>L. p_tlog s t = Some L \<and> i \<le> length L)
     \<and> (prefix (lcut s t i) (p_log s v)
        \<or> (\<exists>u L. t < u \<and> u \<le> p_term s v \<and> p_tlog s u = Some L \<and> \<not> prefix (lcut s t i) (p_elog s u))))"

text \<open>Before a term has a leader: a vote went to a campaign that had what the voter had
  acknowledged, a candidate still has what its campaign had. Once it has a leader: a quorum of
  nodes had acknowledged nothing that the leader did not start with.\<close>

definition inv_grants :: "pstate \<Rightarrow> bool" where
  "inv_grants s \<longleftrightarrow> (\<forall>v T c t i. (v, T, c) \<in> p_grants s \<longrightarrow> p_tlog s T = None \<longrightarrow> (v, t, i) \<in> p_oks s \<longrightarrow> own s t i
     \<longrightarrow> t < T \<longrightarrow> kept s t i T \<longrightarrow> (\<exists>M. (c, T, M) \<in> p_claims s \<and> prefix (lcut s t i) M))"

definition inv_claims :: "pstate \<Rightarrow> bool" where
  "inv_claims s \<longleftrightarrow> (\<forall>c T M t i. (c, T, M) \<in> p_claims s \<longrightarrow> p_tlog s T = None \<longrightarrow> p_term s c \<le> T \<longrightarrow> own s t i
     \<longrightarrow> t < T \<longrightarrow> kept s t i T \<longrightarrow> prefix (lcut s t i) M \<longrightarrow> prefix (lcut s t i) (p_log s c))"

definition inv_elect :: "NodeID set set \<Rightarrow> pstate \<Rightarrow> bool" where
  "inv_elect Qs s \<longleftrightarrow> (\<forall>T L. p_tlog s T = Some L \<longrightarrow> (\<exists>Q \<in> Qs. \<forall>v \<in> Q. T \<le> p_term s v
     \<and> (\<forall>t i. (v, t, i) \<in> p_oks s \<longrightarrow> own s t i \<longrightarrow> t < T \<longrightarrow> kept s t i T \<longrightarrow> prefix (lcut s t i) (p_elog s T))))"

definition p_inv :: "NodeID set set \<Rightarrow> pstate \<Rightarrow> bool" where
  "p_inv Qs s \<longleftrightarrow> inv_votes Qs s \<and> inv_logs s \<and> inv_terms s \<and> inv_acks s \<and> inv_grants s \<and> inv_claims s \<and> inv_elect Qs s"

text \<open>The entry of the leader of term \<open>t\<close> at index \<open>i\<close> is of its own term, and a quorum has
  acknowledged it.\<close>

definition p_committed :: "NodeID set set \<Rightarrow> pstate \<Rightarrow> Term \<Rightarrow> Index \<Rightarrow> bool" where
  "p_committed Qs s t i \<longleftrightarrow> own s t i \<and> (\<exists>Q \<in> Qs. \<forall>v \<in> Q. (v, t, i) \<in> p_oks s)"

lemmas p_inv_defs = inv_votes_def inv_logs_def inv_terms_def inv_acks_def inv_grants_def inv_claims_def inv_elect_def

lemma p_init_inv: "p_inv Qs p_init"
  by (simp add: p_inv_def p_inv_defs p_init_def consistent_def)

section \<open>Logs\<close>

lemma prefix_take_iff: "i \<le> length L \<Longrightarrow> prefix (take i L) X \<longleftrightarrow> i \<le> length X \<and> take i X = take i L"
  by (metis (no_types, lifting) append_eq_conv_conj length_take min.absorb2 prefixE prefix_length_le take_is_prefix)

lemma consistent_take: "consistent s X \<Longrightarrow> consistent s (take m X)"
  unfolding consistent_def by (auto simp: min_def)

lemma consistentD:
  "consistent s X \<Longrightarrow> 0 < i \<Longrightarrow> i \<le> length X \<Longrightarrow> \<exists>L. p_tlog s (ent_Term (X ! (i - 1))) = Some L \<and> prefix (take i X) L"
  unfolding consistent_def by (cases i) auto

text \<open>Log matching: two consistent logs with entries of the same term at an index agree up to it.\<close>

lemma consistent_match:
  assumes "consistent s X" "consistent s Y" "0 < i" "i \<le> length X" "i \<le> length Y"
    and "ent_Term (X ! (i - 1)) = ent_Term (Y ! (i - 1))"
  shows "take i X = take i Y"
proof -
  obtain L where L: "p_tlog s (ent_Term (X ! (i - 1))) = Some L" "prefix (take i X) L"
    using consistentD [OF assms(1,3,4)] by blast
  moreover obtain L' where "p_tlog s (ent_Term (Y ! (i - 1))) = Some L'" "prefix (take i Y) L'"
    using consistentD [OF assms(2,3,5)] by blast
  ultimately have "prefix (take i X) L" "prefix (take i Y) L" using assms(6) by auto
  then have "prefix (take i X) (take i Y) \<or> prefix (take i Y) (take i X)" by (rule prefix_same_cases)
  then show ?thesis using assms(4,5) by (auto simp: prefix_take_iff)
qed

lemma own_lcut:
  "own s t i \<Longrightarrow> p_tlog s t = Some L \<Longrightarrow> lcut s t i = take i L \<and> 0 < i \<and> i \<le> length L \<and> ent_Term (L ! (i - 1)) = t"
  by (auto simp: own_def lcut_def)

text \<open>A consistent log with an own entry of term \<open>t\<close> at \<open>i\<close> has the prefix of the leader of \<open>t\<close>.\<close>

lemma consistent_own:
  assumes "consistent s X" "0 < i" "i \<le> length X" "ent_Term (X ! (i - 1)) = t"
  shows "own s t i \<and> prefix (lcut s t i) X"
proof -
  obtain L where L: "p_tlog s t = Some L" "prefix (take i X) L" using consistentD [OF assms(1-3)] assms(4) by auto
  then have "i \<le> length L" "take i L = take i X"
    using assms(3) by (auto simp: prefix_take_iff)
  then show ?thesis
    using L assms by (auto simp: own_def lcut_def take_is_prefix) (metis One_nat_def assms(2) diff_less lessI nth_take)
qed

section \<open>The vote comparison\<close>

lemma last_term_nth: "X \<noteq> [] \<Longrightarrow> last_term X = ent_Term (X ! (length X - 1))"
  by (simp add: last_term_def last_conv_nth)

text \<open>The terms of a consistent log ascend.\<close>

lemma consistent_last:
  assumes "inv_terms s" "consistent s X" "0 < i" "i \<le> length X"
  shows "ent_Term (X ! (i - 1)) \<le> last_term X"
proof -
  have X: "X \<noteq> []" using assms by auto
  obtain L where L: "p_tlog s (last_term X) = Some L" "prefix X L"
    using consistentD [OF assms(2), of "length X"] X by (auto simp: last_term_nth)
  then have "sorted (map ent_Term L)" using assms(1) by (auto simp: inv_terms_def)
  then have "sorted (map ent_Term X)" using L(2) by (auto elim!: prefixE simp: sorted_append)
  then show ?thesis
    using assms(3,4) X sorted_nth_mono [of "map ent_Term X" "i - 1" "length X - 1"] by (simp add: last_term_nth)
qed

lemma own_last:
  assumes "inv_terms s" "own s t i" "consistent s X" "prefix (lcut s t i) X"
  shows "t \<le> last_term X"
proof -
  obtain L where L: "p_tlog s t = Some L" "0 < i" "i \<le> length L" "ent_Term (L ! (i - 1)) = t"
    using assms(2) by (auto simp: own_def)
  then have X: "i \<le> length X" "take i X = take i L"
    using assms(4) by (simp_all add: lcut_def prefix_take_iff)
  then have "X ! (i - 1) = L ! (i - 1)" using L by (metis diff_less nth_take zero_less_one)
  then show ?thesis using consistent_last [OF assms(1,3) L(2) X(1)] L(4) by simp
qed

text \<open>A log that is at least as up to date as one with the prefix has the prefix, if the leaders
  in between had it.\<close>

lemma up_to_date_contains:
  assumes inv: "inv_terms s" "inv_logs s" and own: "own s t i" and X: "consistent s X" "prefix (lcut s t i) X"
    and M: "consistent s M" "\<forall>e \<in> set M. ent_Term e < T" and up: "up_to_date M X" and kept: "kept s t i T"
  shows "prefix (lcut s t i) M"
proof -
  obtain L where L: "p_tlog s t = Some L" "0 < i" "i \<le> length L" "ent_Term (L ! (i - 1)) = t"
    using own by (auto simp: own_def)
  have lcut: "lcut s t i = take i L" using L by (simp add: lcut_def)
  have Xi: "i \<le> length X" "take i X = take i L" using X L by (simp_all add: lcut prefix_take_iff)
  have t: "t \<le> last_term X" by (rule own_last [OF inv(1) own X])
  have "t \<le> last_term M" using up t by (auto simp: up_to_date_def split: if_splits)
  have "M \<noteq> []"
  proof
    assume M0: "M = []"
    then have "last_term X = 0 \<and> length X = 0" using up by (auto simp: up_to_date_def last_term_def split: if_splits)
    then show False using Xi L(2) by simp
  qed
  then obtain L' where L': "p_tlog s (last_term M) = Some L'" "prefix M L'"
    using consistentD [OF M(1), of "length M"] by (auto simp: last_term_nth)
  show ?thesis
  proof (cases "last_term M = t")
    case True
    then have "length X \<le> length M" using up t by (auto simp: up_to_date_def split: if_splits)
    moreover have "L' = L" using L' L True by simp
    ultimately show ?thesis using L'(2) Xi(1) L(3) unfolding lcut
      by (metis order_trans prefix_length_prefix length_take min.absorb2 take_is_prefix)
  next
    case False
    then have u: "t < last_term M" "last_term M < T"
      using \<open>t \<le> last_term M\<close> M(2) \<open>M \<noteq> []\<close> by (auto simp: last_term_def)
    then have e: "prefix (lcut s t i) (p_elog s (last_term M))" using kept L' by (auto simp: kept_def)
    have "length (p_elog s (last_term M)) < length M"
    proof (rule ccontr)
      assume "\<not> ?thesis"
      then have "prefix M (p_elog s (last_term M))"
        using L' inv(2) by (meson inv_logs_def leI prefix_length_prefix)
      then have "last M \<in> set (p_elog s (last_term M))" using \<open>M \<noteq> []\<close> by (metis last_in_set set_mono_prefix subsetD)
      moreover have "\<forall>e \<in> set (p_elog s (last_term M)). ent_Term e < last_term M" using inv(1) L'(1) by (auto simp: inv_terms_def)
      ultimately show False using \<open>M \<noteq> []\<close> by (auto simp: last_term_def)
    qed
    then have "prefix (p_elog s (last_term M)) M"
      using L' inv(2) by (meson inv_logs_def less_imp_le prefix_length_prefix)
    then show ?thesis using e by simp
  qed
qed

section \<open>History grows\<close>

definition extends :: "pstate \<Rightarrow> pstate \<Rightarrow> bool" where
  "extends s s' \<longleftrightarrow> (\<forall>T L. p_tlog s T = Some L \<longrightarrow> (\<exists>L'. p_tlog s' T = Some L' \<and> prefix L L'
      \<and> p_elog s' T = p_elog s T \<and> p_lead s' T = p_lead s T))
     \<and> p_claims s \<subseteq> p_claims s' \<and> p_grants s \<subseteq> p_grants s' \<and> p_oks s \<subseteq> p_oks s' \<and> p_term s \<le> p_term s'"

lemma extends_refl [simp]: "extends s s"
  by (auto simp: extends_def)

lemma extends_tlog:
  "extends s s' \<Longrightarrow> p_tlog s T = Some L
     \<Longrightarrow> \<exists>L'. p_tlog s' T = Some L' \<and> prefix L L' \<and> p_elog s' T = p_elog s T \<and> p_lead s' T = p_lead s T"
  by (simp add: extends_def)

lemma extends_trans:
  assumes "extends s s'" "extends s' s''"
  shows "extends s s''"
  unfolding extends_def
proof (intro conjI allI impI)
  fix T L
  assume "p_tlog s T = Some L"
  then obtain L' where L': "p_tlog s' T = Some L'" "prefix L L'" "p_elog s' T = p_elog s T" "p_lead s' T = p_lead s T"
    using extends_tlog [OF assms(1)] by blast
  obtain L'' where "p_tlog s'' T = Some L''" "prefix L' L''" "p_elog s'' T = p_elog s' T" "p_lead s'' T = p_lead s' T"
    using extends_tlog [OF assms(2) L'(1)] by blast
  then show "\<exists>L'. p_tlog s'' T = Some L' \<and> prefix L L' \<and> p_elog s'' T = p_elog s T \<and> p_lead s'' T = p_lead s T"
    using L' prefix_order.trans by auto
qed (use assms in \<open>auto simp: extends_def le_fun_def intro: order.trans\<close>)

lemma extends_consistent: "extends s s' \<Longrightarrow> consistent s X \<Longrightarrow> consistent s' X"
  unfolding extends_def consistent_def by (meson prefix_order.trans)

lemma extends_own: "extends s s' \<Longrightarrow> own s t i \<Longrightarrow> own s' t i"
  unfolding extends_def own_def by (fastforce elim!: prefixE simp: nth_append)

lemma extends_lcut: "extends s s' \<Longrightarrow> p_tlog s t = Some L \<Longrightarrow> i \<le> length L \<Longrightarrow> lcut s' t i = lcut s t i"
  unfolding extends_def lcut_def by (fastforce elim!: prefixE)

lemma extends_kept:
  assumes "extends s s'" "p_tlog s t = Some L" "i \<le> length L" "kept s' t i T"
  shows "kept s t i T"
  using assms extends_lcut [OF assms(1-3)] unfolding extends_def kept_def by (metis (no_types, lifting))

section \<open>Preservation\<close>

locale quorum_system =
  fixes Qs :: "NodeID set set"
  assumes meet: "P \<in> Qs \<Longrightarrow> Q \<in> Qs \<Longrightarrow> P \<inter> Q \<noteq> {}"
begin

text \<open>A candidate with a quorum of votes is the first leader of its term.\<close>

lemma elect_fresh:
  assumes inv: "inv_votes Qs s" and n: "p_cand s n = Some T" and Q: "Q \<in> Qs" "\<And>v. v \<in> Q \<Longrightarrow> (v, T, n) \<in> p_grants s"
  shows "p_tlog s T = None"
proof (rule ccontr)
  assume "p_tlog s T \<noteq> None"
  then obtain L where L: "p_tlog s T = Some L" by blast
  then obtain P where P: "P \<in> Qs" "\<forall>v \<in> P. (v, T, p_lead s T) \<in> p_grants s" using inv unfolding inv_votes_def by blast
  obtain v where "v \<in> P" "v \<in> Q" using meet [OF P(1) Q(1)] by blast
  then have "p_lead s T = n" using P(2) Q(2) inv unfolding inv_votes_def by blast
  then show False using inv n L unfolding inv_votes_def by blast
qed

lemma pstep_extends:
  assumes "inv_votes Qs s" "pstep Qs s s'"
  shows "extends s s'"
  using assms(2)
proof cases
  case (elect n T Q)
  have "p_tlog s T = None" by (rule elect_fresh [OF assms(1) elect(2,4,5)])
  then show ?thesis using elect by (auto simp: extends_def)
qed (auto simp: extends_def le_fun_def)

lemma votes_grant: "inv_votes Qs s \<Longrightarrow> (v, T, c) \<in> p_grants s \<Longrightarrow> T \<le> p_term s v"
  unfolding inv_votes_def by blast

lemma votes_claim: "inv_votes Qs s \<Longrightarrow> (v, T, c) \<in> p_grants s \<Longrightarrow> \<exists>M. (c, T, M) \<in> p_claims s"
  unfolding inv_votes_def by blast

lemma votes_unique: "inv_votes Qs s \<Longrightarrow> (v, T, c) \<in> p_grants s \<Longrightarrow> (v, T, d) \<in> p_grants s \<Longrightarrow> c = d"
  unfolding inv_votes_def by blast

lemma votes_leader:
  "inv_votes Qs s \<Longrightarrow> p_tlog s T = Some L
     \<Longrightarrow> T \<le> p_term s (p_lead s T) \<and> (\<exists>Q \<in> Qs. \<forall>v \<in> Q. (v, T, p_lead s T) \<in> p_grants s)"
  unfolding inv_votes_def by blast

lemma votes_cand_term: "inv_votes Qs s \<Longrightarrow> p_cand s n = Some T \<Longrightarrow> T \<le> p_term s n"
  unfolding inv_votes_def by blast

lemma votes_cand: "inv_votes Qs s \<Longrightarrow> p_cand s n = Some T \<Longrightarrow> T \<le> p_term s n \<and> (p_tlog s T = Some L \<longrightarrow> p_lead s T \<noteq> n)"
  unfolding inv_votes_def by blast

text \<open>The part of a step that the vote invariant sees.\<close>

lemma votesI:
  assumes inv: "inv_votes Qs s" and ext: "extends s s'"
    and new: "\<And>v T c. (v, T, c) \<in> p_grants s' \<Longrightarrow> (v, T, c) \<notin> p_grants s
        \<Longrightarrow> T \<le> p_term s' v \<and> (\<exists>M. (c, T, M) \<in> p_claims s') \<and> (\<forall>d. (v, T, d) \<in> p_grants s' \<longrightarrow> d = c)"
    and lead: "\<And>T L. p_tlog s' T = Some L \<Longrightarrow> p_tlog s T = None
        \<Longrightarrow> T \<le> p_term s' (p_lead s' T) \<and> (\<exists>Q \<in> Qs. \<forall>v \<in> Q. (v, T, p_lead s' T) \<in> p_grants s')"
    and cand: "\<And>n T L. p_cand s' n = Some T \<Longrightarrow> T \<le> p_term s' n \<and> (p_tlog s' T = Some L \<longrightarrow> p_lead s' T \<noteq> n)"
  shows "inv_votes Qs s'"
proof -
  have mono: "p_term s v \<le> p_term s' v" "p_claims s \<subseteq> p_claims s'" "p_grants s \<subseteq> p_grants s'" for v
    using ext by (auto simp: extends_def le_fun_def)
  have "T \<le> p_term s' v \<and> (\<exists>M. (c, T, M) \<in> p_claims s')" if "(v, T, c) \<in> p_grants s'" for v T c
    using new [OF that] votes_grant [OF inv, of v T c] votes_claim [OF inv, of v T c] mono by (meson order_trans subsetD)
  moreover have "c = d" if "(v, T, c) \<in> p_grants s'" "(v, T, d) \<in> p_grants s'" for v T c d
    using new [OF that(1)] new [OF that(2)] that votes_unique [OF inv] by blast
  moreover have "T \<le> p_term s' (p_lead s' T) \<and> (\<exists>Q \<in> Qs. \<forall>v \<in> Q. (v, T, p_lead s' T) \<in> p_grants s')"
    if T: "p_tlog s' T = Some L" for T L
  proof (cases "p_tlog s T")
    case (Some L0)
    then have "p_lead s' T = p_lead s T" using extends_tlog [OF ext Some] by auto
    then show ?thesis using votes_leader [OF inv Some] mono by (metis order_trans subsetD)
  qed (use lead [OF T] in blast)
  ultimately show ?thesis using cand unfolding inv_votes_def by blast
qed

lemma pstep_votes:
  assumes inv: "inv_votes Qs s" and step: "pstep Qs s s'"
  shows "inv_votes Qs s'"
proof -
  have ext: "extends s s'" by (rule pstep_extends [OF inv step])
  show ?thesis
    using step
  proof cases
    case (elect n T Q)
    have "p_tlog s T = None" by (rule elect_fresh [OF inv elect(2,4,5)])
    then show ?thesis using elect votes_cand [OF inv] by (intro votesI [OF inv ext]) (auto split: if_splits)
  next
    case (candidate n)
    have "(n, Suc (p_term s n), c) \<notin> p_grants s" for c using votes_grant [OF inv] by (meson Suc_n_not_le_n)
    moreover have "p_tlog s (Suc (p_term s n)) = Some L \<Longrightarrow> p_lead s (Suc (p_term s n)) \<noteq> n" for L
      using votes_leader [OF inv] by (metis Suc_n_not_le_n)
    ultimately show ?thesis using candidate votes_cand [OF inv]
      by (intro votesI [OF inv ext]) (auto split: if_splits intro: le_SucI)
  next
    case (new_term n T)
    then show ?thesis using votes_cand [OF inv] by (intro votesI [OF inv ext]) (auto intro: order_trans)
  next
    case (vote c T M n)
    have "p_cand s n = Some U \<Longrightarrow> U \<le> T" for U using votes_cand_term [OF inv] vote(3) by (meson order_trans)
    then show ?thesis using vote votes_cand [OF inv] by (intro votesI [OF inv ext]) (auto intro: order_trans)
  next
    case (accept T L n k m)
    have "p_cand s n = Some U \<Longrightarrow> U \<le> T" for U using votes_cand_term [OF inv] accept(3) by (meson order_trans)
    then show ?thesis using accept votes_cand [OF inv] by (intro votesI [OF inv ext]) (auto intro: order_trans)
  qed (use votes_cand [OF inv] in \<open>(intro votesI [OF inv ext]; auto split: if_splits)\<close>)+
qed

lemma pstep_logs:
  assumes inv: "inv_votes Qs s" "inv_logs s" and step: "pstep Qs s s'"
  shows "inv_logs s'"
proof -
  have ext: "extends s s'" by (rule pstep_extends [OF inv(1) step])
  have log: "consistent s' (p_log s n)" for n using inv(2) extends_consistent [OF ext] by (auto simp: inv_logs_def)
  have claims: "consistent s' M" if "(c, T, M) \<in> p_claims s" for c T M
    using inv(2) that extends_consistent [OF ext] unfolding inv_logs_def by blast
  have tlog: "consistent s' L \<and> prefix (p_elog s' T) L" if "p_tlog s T = Some L" for T L
    using inv(2) that extends_consistent [OF ext] extends_tlog [OF ext that] by (auto simp: inv_logs_def)
  have elog: "prefix (p_elog s T) L" if "p_tlog s T = Some L" for T L
    using inv(2) that by (auto simp: inv_logs_def)
  show ?thesis
    using step
  proof cases
    case (append T L e)
    have "consistent s' (L @ [e])" unfolding consistent_def
    proof (intro allI impI)
      fix j
      assume "j < length (L @ [e])"
      then consider "j < length L" | "j = length L" by fastforce
      then show "\<exists>L'. p_tlog s' (ent_Term ((L @ [e]) ! j)) = Some L' \<and> prefix (take (Suc j) (L @ [e])) L'"
      proof cases
        case 1
        then show ?thesis using tlog [OF append(2)] by (simp add: consistent_def nth_append)
      next
        case 2
        then show ?thesis using append by simp
      qed
    qed
    then show ?thesis using append log claims tlog unfolding inv_logs_def by (auto split: if_splits)
  next
    case (accept T L n k m)
    then show ?thesis using log claims tlog consistent_take unfolding inv_logs_def by (auto split: if_splits)
  qed (use log claims tlog elog in \<open>auto simp: inv_logs_def split: if_splits\<close>)
qed

lemma elect_terms:
  assumes "inv_terms s" "inv_logs s" "p_tlog s (p_term s n) = None" "e \<in> set (p_log s n)"
  shows "ent_Term e < p_term s n"
proof -
  obtain j where "j < length (p_log s n)" "e = p_log s n ! j" using assms(4) by (auto simp: in_set_conv_nth)
  then have "p_tlog s (ent_Term e) \<noteq> None" using assms(2) consistentD [of s "p_log s n" "Suc j"] by (auto simp: inv_logs_def)
  moreover have "ent_Term e \<le> p_term s n" using assms(1,4) by (auto simp: inv_terms_def)
  ultimately show ?thesis using assms(3) by (metis le_neq_implies_less)
qed

lemma log_sorted:
  assumes "inv_terms s" "consistent s X"
  shows "sorted (map ent_Term X)"
proof (cases "X = []")
  case False
  then obtain L where L: "p_tlog s (last_term X) = Some L" "prefix X L"
    using consistentD [OF assms(2), of "length X"] by (auto simp: last_term_nth)
  then have "sorted (map ent_Term L)" using assms(1) by (auto simp: inv_terms_def)
  then show ?thesis using L(2) by (auto elim!: prefixE simp: sorted_append)
qed simp

lemma pstep_terms:
  assumes inv: "inv_votes Qs s" "inv_logs s" "inv_terms s" and step: "pstep Qs s s'"
  shows "inv_terms s'"
proof -
  have log: "ent_Term e \<le> p_term s n" if "e \<in> set (p_log s n)" for e n
    using inv(3) that by (auto simp: inv_terms_def)
  have claims: "ent_Term e < T" if "(c, T, M) \<in> p_claims s" "e \<in> set M" for c T M e
    using inv(3) that unfolding inv_terms_def by blast
  have tlog: "sorted (map ent_Term L) \<and> (\<forall>e \<in> set L. ent_Term e \<le> T) \<and> (\<forall>e \<in> set (p_elog s T). ent_Term e < T)"
    if "p_tlog s T = Some L" for T L
    using inv(3) that unfolding inv_terms_def by blast
  note facts = log claims tlog
  show ?thesis
    using step
  proof cases
    case (elect n T Q)
    have "p_tlog s T = None" by (rule elect_fresh [OF inv(1) elect(2,4,5)])
    then have "ent_Term e < T" if "e \<in> set (p_log s n)" for e using elect_terms [OF inv(3,2)] elect(3) that by blast
    moreover have "sorted (map ent_Term (p_log s n))" using log_sorted [OF inv(3)] inv(2) by (simp add: inv_logs_def)
    ultimately show ?thesis using facts elect unfolding inv_terms_def by (auto split: if_splits intro: less_imp_le)
  next
    case (append T L e)
    then show ?thesis using facts unfolding inv_terms_def by (auto simp: sorted_append split: if_splits)
  next
    case (accept T L n k m)
    then show ?thesis using facts unfolding inv_terms_def by (auto split: if_splits dest!: in_set_takeD)
  next
    case (claim n)
    then show ?thesis using facts unfolding inv_terms_def by (auto simp: less_Suc_eq_le)
  next
    case (candidate n)
    then show ?thesis using facts unfolding inv_terms_def by (auto intro: le_SucI)
  next
    case (new_term n T)
    then show ?thesis using facts unfolding inv_terms_def by (auto intro: order_trans)
  next
    case (vote c T M n)
    then show ?thesis using facts unfolding inv_terms_def by (auto intro: order_trans)
  qed (use facts in \<open>auto simp: inv_terms_def\<close>)
qed

text \<open>What a node and the leader share survives an accepted request.\<close>

lemma accept_keeps:
  assumes X: "prefix X log" "prefix X L" and k: "k \<le> m" "take k log = take k L"
    "k = length log \<or> (k < length L \<and> log ! k \<noteq> L ! k)" "k \<le> length log"
  shows "prefix X (take m L)"
proof -
  have "length X \<le> k"
  proof (rule ccontr)
    assume a: "\<not> length X \<le> k"
    then have "X ! k = log ! k" "X ! k = L ! k" using X by (auto elim!: prefixE simp: nth_append)
    moreover have "k \<noteq> length log" using a prefix_length_le [OF X(1)] by linarith
    ultimately show False using k(3) by simp
  qed
  then show ?thesis using X(2) k(1) by (auto elim!: prefixE)
qed

lemma acks_tlog: "inv_acks s \<Longrightarrow> (v, t, i) \<in> p_oks s \<Longrightarrow> \<exists>L. p_tlog s t = Some L \<and> i \<le> length L"
  unfolding inv_acks_def by blast

lemma acks_term: "inv_acks s \<Longrightarrow> (v, t, i) \<in> p_oks s \<Longrightarrow> t \<le> p_term s v"
  unfolding inv_acks_def by blast

lemma acks_log:
  "inv_acks s \<Longrightarrow> (v, t, i) \<in> p_oks s \<Longrightarrow> prefix (lcut s t i) (p_log s v)
     \<or> (\<exists>u L. t < u \<and> u \<le> p_term s v \<and> p_tlog s u = Some L \<and> \<not> prefix (lcut s t i) (p_elog s u))"
  unfolding inv_acks_def by blast

lemma extends_own_iff:
  "extends s s' \<Longrightarrow> p_tlog s t = Some L \<Longrightarrow> i \<le> length L \<Longrightarrow> own s' t i \<longleftrightarrow> own s t i"
  unfolding extends_def own_def by (fastforce elim!: prefixE simp: nth_append)

lemma acksI:
  assumes inv: "inv_acks s" and ext: "extends s s'"
    and log: "\<And>v t i. (v, t, i) \<in> p_oks s \<Longrightarrow> prefix (lcut s t i) (p_log s v) \<Longrightarrow> prefix (lcut s t i) (p_log s' v)
      \<or> (\<exists>u L. t < u \<and> u \<le> p_term s' v \<and> p_tlog s u = Some L \<and> \<not> prefix (lcut s t i) (p_elog s u))"
    and new: "\<And>v t i. (v, t, i) \<in> p_oks s' \<Longrightarrow> (v, t, i) \<notin> p_oks s
      \<Longrightarrow> t \<le> p_term s' v \<and> (\<exists>L. p_tlog s' t = Some L \<and> i \<le> length L \<and> prefix (take i L) (p_log s' v))"
  shows "inv_acks s'"
  unfolding inv_acks_def
proof (intro allI impI)
  fix v t i
  assume v': "(v, t, i) \<in> p_oks s'"
  show "t \<le> p_term s' v \<and> (\<exists>L. p_tlog s' t = Some L \<and> i \<le> length L) \<and> (prefix (lcut s' t i) (p_log s' v)
      \<or> (\<exists>u L. t < u \<and> u \<le> p_term s' v \<and> p_tlog s' u = Some L \<and> \<not> prefix (lcut s' t i) (p_elog s' u)))"
  proof (cases "(v, t, i) \<in> p_oks s")
    case v: True
    obtain L where L: "p_tlog s t = Some L" "i \<le> length L" using acks_tlog [OF inv v] by blast
    obtain L' where L': "p_tlog s' t = Some L'" "prefix L L'" using extends_tlog [OF ext L(1)] by blast
    have t: "p_term s v \<le> p_term s' v" using ext by (auto simp: extends_def le_fun_def)
    have "prefix (lcut s t i) (p_log s' v)
      \<or> (\<exists>u L. t < u \<and> u \<le> p_term s' v \<and> p_tlog s u = Some L \<and> \<not> prefix (lcut s t i) (p_elog s u))"
      using acks_log [OF inv v] log [OF v] t by (meson order_trans)
    then have "prefix (lcut s' t i) (p_log s' v)
      \<or> (\<exists>u L. t < u \<and> u \<le> p_term s' v \<and> p_tlog s' u = Some L \<and> \<not> prefix (lcut s' t i) (p_elog s' u))"
      unfolding extends_lcut [OF ext L] using extends_tlog [OF ext] by metis
    then show ?thesis using L L' t acks_term [OF inv v] prefix_length_le [OF L'(2)] by auto
  next
    case False
    then show ?thesis using new [OF v'] by (auto simp: lcut_def)
  qed
qed

lemma pstep_acks:
  assumes inv: "inv_votes Qs s" "inv_logs s" "inv_acks s" and step: "pstep Qs s s'"
  shows "inv_acks s'"
proof -
  have ext: "extends s s'" by (rule pstep_extends [OF inv(1) step])
  show ?thesis
    using step
  proof cases
    case (accept T L n k m)
    have "prefix (lcut s t i) (take m L) \<or> (\<exists>u L. t < u \<and> u \<le> T \<and> p_tlog s u = Some L \<and> \<not> prefix (lcut s t i) (p_elog s u))"
      if v: "(n, t, i) \<in> p_oks s" and log: "prefix (lcut s t i) (p_log s n)" for t i
    proof (cases "prefix (lcut s t i) L")
      case True
      then show ?thesis using accept_keeps [OF log True accept(4,7,8,6)] by blast
    next
      case False
      have "prefix (p_elog s T) L" using inv(2) accept(2) by (auto simp: inv_logs_def)
      then have "\<not> prefix (lcut s t i) (p_elog s T)" using False prefix_order.trans by blast
      moreover have "t \<noteq> T" using False accept(2) by (auto simp: lcut_def take_is_prefix)
      moreover have "t \<le> T" using acks_term [OF inv(3) v] accept(3) by simp
      ultimately show ?thesis using accept(2) by (metis le_neq_implies_less order_refl)
    qed
    then show ?thesis using accept by (intro acksI [OF inv(3) ext]) auto
  next
    case (ack T L n i)
    have "prefix (take j L) (p_log s n)" if "j \<le> i" for j
      using ack(4) that by (metis min.absorb1 prefix_order.trans take_is_prefix take_take)
    then show ?thesis using ack by (intro acksI [OF inv(3) ext]) auto
  qed (intro acksI [OF inv(3) ext]; simp)+
qed

lemma extends_None: "extends s s' \<Longrightarrow> p_tlog s' T = None \<Longrightarrow> p_tlog s T = None"
  using extends_tlog [of s s' T] by (cases "p_tlog s T") auto

lemma grantsI:
  assumes inv: "inv_grants s" "inv_acks s" and ext: "extends s s'"
    and oks: "\<And>v t i T c. (v, t, i) \<in> p_oks s' \<Longrightarrow> (v, t, i) \<notin> p_oks s \<Longrightarrow> (v, T, c) \<in> p_grants s' \<Longrightarrow> T \<le> t"
    and new: "\<And>v T c t i. (v, T, c) \<in> p_grants s' \<Longrightarrow> (v, T, c) \<notin> p_grants s \<Longrightarrow> p_tlog s T = None
      \<Longrightarrow> (v, t, i) \<in> p_oks s \<Longrightarrow> own s t i \<Longrightarrow> t < T \<Longrightarrow> kept s t i T
      \<Longrightarrow> \<exists>M. (c, T, M) \<in> p_claims s' \<and> prefix (lcut s t i) M"
  shows "inv_grants s'"
  unfolding inv_grants_def
proof (intro allI impI)
  fix v T c t i
  assume a: "(v, T, c) \<in> p_grants s'" "p_tlog s' T = None" "(v, t, i) \<in> p_oks s'" "own s' t i" "t < T" "kept s' t i T"
  have v: "(v, t, i) \<in> p_oks s" using oks [OF a(3) _ a(1)] a(5) by fastforce
  obtain L where L: "p_tlog s t = Some L" "i \<le> length L" using acks_tlog [OF inv(2) v] by blast
  have T: "p_tlog s T = None" by (rule extends_None [OF ext a(2)])
  have o: "own s t i" "kept s t i T" using a extends_own_iff [OF ext L] extends_kept [OF ext L] by auto
  have "\<exists>M. (c, T, M) \<in> p_claims s' \<and> prefix (lcut s t i) M"
  proof (cases "(v, T, c) \<in> p_grants s")
    case True
    then show ?thesis using inv(1) T v o a(5) ext unfolding inv_grants_def extends_def by blast
  qed (use new [OF a(1) _ T v o(1) a(5) o(2)] in blast)
  then show "\<exists>M. (c, T, M) \<in> p_claims s' \<and> prefix (lcut s' t i) M" unfolding extends_lcut [OF ext L] .
qed

lemma pstep_grants:
  assumes inv: "inv_votes Qs s" "inv_logs s" "inv_terms s" "inv_acks s" "inv_grants s" and step: "pstep Qs s s'"
  shows "inv_grants s'"
proof -
  have ext: "extends s s'" by (rule pstep_extends [OF inv(1) step])
  have log: "prefix (lcut s t i) (p_log s n)" if "(n, t, i) \<in> p_oks s" "kept s t i T" "p_term s n \<le> T" "p_tlog s T = None" for n t i T
    using acks_log [OF inv(4) that(1)] that(2-4) unfolding kept_def by (metis le_neq_implies_less option.distinct(1) order_trans)
  show ?thesis
    using step
  proof cases
    case (candidate n)
    then show ?thesis using log by (intro grantsI [OF inv(5,4) ext]) auto
  next
    case (vote c T M n)
    have "prefix (lcut s t i) M" if "p_tlog s T = None" "(n, t, i) \<in> p_oks s" "own s t i" "kept s t i T" for t i
    proof (rule up_to_date_contains [OF inv(3,2) that(3) _ log [OF that(2,4) vote(3) that(1)] _ _ vote(5) that(4)])
      show "consistent s (p_log s n)" "consistent s M" using inv(2) vote(2) unfolding inv_logs_def by blast+
      show "\<forall>e \<in> set M. ent_Term e < T" using inv(3) vote(2) unfolding inv_terms_def by blast
    qed
    then show ?thesis using vote by (intro grantsI [OF inv(5,4) ext]) auto
  next
    case (ack T L n i)
    then show ?thesis using votes_grant [OF inv(1)] by (intro grantsI [OF inv(5,4) ext]) auto
  qed (intro grantsI [OF inv(5,4) ext]; simp)+
qed

lemma claimsI:
  assumes inv: "inv_claims s" "inv_logs s" and ext: "extends s s'"
    and log: "\<And>c T M t i. (c, T, M) \<in> p_claims s \<Longrightarrow> p_tlog s' T = None \<Longrightarrow> p_term s' c \<le> T \<Longrightarrow> own s t i \<Longrightarrow> t < T
      \<Longrightarrow> kept s t i T \<Longrightarrow> prefix (lcut s t i) (p_log s c) \<Longrightarrow> prefix (lcut s t i) (p_log s' c)"
    and new: "\<And>c T M. (c, T, M) \<in> p_claims s' \<Longrightarrow> (c, T, M) \<notin> p_claims s \<Longrightarrow> M = p_log s' c"
  shows "inv_claims s'"
  unfolding inv_claims_def
proof (intro allI impI)
  fix c T M t i
  assume a: "(c, T, M) \<in> p_claims s'" "p_tlog s' T = None" "p_term s' c \<le> T" "own s' t i" "t < T" "kept s' t i T"
    "prefix (lcut s' t i) M"
  show "prefix (lcut s' t i) (p_log s' c)"
  proof (cases "(c, T, M) \<in> p_claims s")
    case c: True
    obtain L where L: "p_tlog s' t = Some L" "0 < i" "i \<le> length L" "ent_Term (L ! (i - 1)) = t"
      using a(4) by (auto simp: own_def)
    then have M: "i \<le> length M" "take i M = take i L" using a(7) by (simp_all add: lcut_def prefix_take_iff)
    then have "ent_Term (M ! (i - 1)) = t" using L by (metis diff_less nth_take zero_less_one)
    then have o: "own s t i" "prefix (lcut s t i) M"
      using consistent_own [OF _ L(2) M(1)] inv(2) c unfolding inv_logs_def by blast+
    then obtain L0 where L0: "p_tlog s t = Some L0" "i \<le> length L0" by (auto simp: own_def)
    have k: "kept s t i T" using extends_kept [OF ext L0 a(6)] .
    have "p_tlog s T = None" "p_term s c \<le> T"
      using extends_None [OF ext a(2)] a(3) ext by (auto simp: extends_def le_fun_def intro: order_trans)
    then have "prefix (lcut s t i) (p_log s c)" using inv(1) c o a(5) k unfolding inv_claims_def by blast
    then show ?thesis using log [OF c a(2,3) o(1) a(5) k] unfolding extends_lcut [OF ext L0] by blast
  qed (use new [OF a(1)] a(7) in simp)
qed

lemma pstep_claims:
  assumes inv: "inv_votes Qs s" "inv_logs s" "inv_terms s" "inv_claims s" and step: "pstep Qs s s'"
  shows "inv_claims s'"
proof -
  have ext: "extends s s'" by (rule pstep_extends [OF inv(1) step])
  show ?thesis
    using step
  proof cases
    case (accept T L n k m)
    have "prefix (lcut s t i) (take m L)"
      if a: "p_tlog s U = None" "T \<le> U" "own s t i" "t < U" "kept s t i U" "prefix (lcut s t i) (p_log s n)" for U t i
    proof (rule accept_keeps [OF a(6) _ accept(4,7,8,6)])
      have U: "T < U" using a(1,2) accept(2) by (cases "T = U") auto
      have log: "consistent s (p_log s n)" using inv(2) by (simp add: inv_logs_def)
      have "t \<le> last_term (p_log s n)" by (rule own_last [OF inv(3) a(3) log a(6)])
      moreover have "last_term (p_log s n) \<le> p_term s n \<or> p_log s n = []"
        using inv(3) by (auto simp: inv_terms_def last_term_def)
      moreover have "p_log s n \<noteq> []" using a(3,6) by (auto simp: own_def lcut_def)
      ultimately have "t \<le> T" using accept(3) by auto
      then consider "t = T" | "t < T" by fastforce
      then show "prefix (lcut s t i) L"
      proof cases
        case 1
        then show ?thesis using accept(2) by (simp add: lcut_def take_is_prefix)
      next
        case 2
        then have "prefix (lcut s t i) (p_elog s T)" using a(5) U accept(2) unfolding kept_def by blast
        moreover have "prefix (p_elog s T) L" using inv(2) accept(2) by (auto simp: inv_logs_def)
        ultimately show ?thesis by (rule prefix_order.trans)
      qed
    qed
    then show ?thesis using accept by (intro claimsI [OF inv(4,2) ext]) (auto split: if_splits)
  qed (intro claimsI [OF inv(4,2) ext]; auto split: if_splits)+
qed

lemma pstep_elect:
  assumes inv: "p_inv Qs s" and step: "pstep Qs s s'"
  shows "inv_elect Qs s'"
  unfolding inv_elect_def
proof (intro allI impI)
  fix T L'
  assume T: "p_tlog s' T = Some L'"
  have I: "inv_votes Qs s" "inv_logs s" "inv_terms s" "inv_acks s" "inv_grants s" "inv_claims s" "inv_elect Qs s"
    using inv by (simp_all add: p_inv_def)
  have ext: "extends s s'" by (rule pstep_extends [OF I(1) step])
  have oks: "(v, t, i) \<in> p_oks s" if "(v, t, i) \<in> p_oks s'" "t < T" "T \<le> p_term s v" for v t i
    using step that by cases auto
  have "\<exists>Q \<in> Qs. \<forall>v \<in> Q. T \<le> p_term s v \<and> (\<forall>t i. (v, t, i) \<in> p_oks s \<longrightarrow> own s t i \<longrightarrow> t < T
      \<longrightarrow> kept s t i T \<longrightarrow> prefix (lcut s t i) (p_elog s' T))"
  proof (cases "p_tlog s T")
    case (Some L)
    then show ?thesis using I(7) extends_tlog [OF ext Some] unfolding inv_elect_def by fastforce
  next
    case None
    from step show ?thesis
    proof cases
      case (elect n T' Q)
      then have "T' = T" using T None by (auto split: if_splits)
      then have e: "p_cand s n = Some T" "p_term s n = T" "\<And>v. v \<in> Q \<Longrightarrow> (v, T, n) \<in> p_grants s" "p_elog s' T = p_log s n"
        using elect by auto
      have "prefix (lcut s t i) (p_log s n)"
        if a: "v \<in> Q" "(v, t, i) \<in> p_oks s" "own s t i" "t < T" "kept s t i T" for v t i
      proof -
        obtain M where "(n, T, M) \<in> p_claims s" "prefix (lcut s t i) M"
          using I(5) e(3) [OF a(1)] None a(2-5) unfolding inv_grants_def by blast
        then show ?thesis using I(6) None e(2) a(3-5) unfolding inv_claims_def by blast
      qed
      then show ?thesis using elect(4) e votes_grant [OF I(1)] by metis
    qed (use T None in \<open>auto split: if_splits\<close>)
  qed
  then obtain Q where Q: "Q \<in> Qs" "\<And>v. v \<in> Q \<Longrightarrow> T \<le> p_term s v"
    "\<And>v t i. v \<in> Q \<Longrightarrow> (v, t, i) \<in> p_oks s \<Longrightarrow> own s t i \<Longrightarrow> t < T \<Longrightarrow> kept s t i T \<Longrightarrow> prefix (lcut s t i) (p_elog s' T)"
    by blast
  have "T \<le> p_term s' v" if "v \<in> Q" for v using Q(2) [OF that] ext by (auto simp: extends_def le_fun_def intro: order_trans)
  moreover have "prefix (lcut s' t i) (p_elog s' T)"
    if a: "v \<in> Q" "(v, t, i) \<in> p_oks s'" "own s' t i" "t < T" "kept s' t i T" for v t i
  proof -
    have v: "(v, t, i) \<in> p_oks s" using oks a(2,4) Q(2) [OF a(1)] by blast
    obtain L where L: "p_tlog s t = Some L" "i \<le> length L" using acks_tlog [OF I(4) v] by blast
    show ?thesis using Q(3) [OF a(1) v _ a(4)] a(3) extends_own_iff [OF ext L] extends_kept [OF ext L a(5)]
      unfolding extends_lcut [OF ext L] by blast
  qed
  ultimately show "\<exists>Q \<in> Qs. \<forall>v \<in> Q. T \<le> p_term s' v \<and> (\<forall>t i. (v, t, i) \<in> p_oks s' \<longrightarrow> own s' t i \<longrightarrow> t < T
      \<longrightarrow> kept s' t i T \<longrightarrow> prefix (lcut s' t i) (p_elog s' T))"
    by (intro bexI [OF _ Q(1)] ballI conjI allI impI)
qed

lemma pstep_inv:
  assumes "p_inv Qs s" "pstep Qs s s'"
  shows "p_inv Qs s'"
  using assms pstep_elect [OF assms] pstep_votes pstep_logs pstep_terms pstep_acks pstep_grants pstep_claims
  unfolding p_inv_def by blast

lemma psteps_inv: "psteps Qs s s' \<Longrightarrow> p_inv Qs s \<Longrightarrow> p_inv Qs s' \<and> extends s s'"
proof (induction rule: rtranclp_induct)
  case (step y z)
  then show ?case using pstep_inv pstep_extends extends_trans unfolding p_inv_def by blast
qed simp

section \<open>Safety\<close>

text \<open>Leader completeness: a prefix that a quorum has acknowledged is in the log of every later
  leader.\<close>

lemma leader_completeness:
  assumes inv: "p_inv Qs s" and c: "p_committed Qs s t i"
  shows "t < T \<Longrightarrow> p_tlog s T = Some L \<Longrightarrow> prefix (lcut s t i) (p_elog s T)"
proof (induction T arbitrary: L rule: less_induct)
  case (less T)
  have kept: "kept s t i T" using less.IH unfolding kept_def by blast
  obtain Q where Q: "Q \<in> Qs" "\<forall>v \<in> Q. (v, t, i) \<in> p_oks s" "own s t i" using c by (auto simp: p_committed_def)
  obtain P where P: "P \<in> Qs" "\<forall>v \<in> P. \<forall>t i. (v, t, i) \<in> p_oks s \<longrightarrow> own s t i \<longrightarrow> t < T \<longrightarrow> kept s t i T
      \<longrightarrow> prefix (lcut s t i) (p_elog s T)"
    using inv less.prems(2) unfolding p_inv_def inv_elect_def by meson
  obtain v where "v \<in> P" "v \<in> Q" using meet [OF P(1) Q(1)] by blast
  then show ?case using P Q kept less.prems(1) by blast
qed

lemma committed_in_leader:
  assumes inv: "p_inv Qs s" and c: "p_committed Qs s t i" and T: "t \<le> T" "p_tlog s T = Some L"
  shows "prefix (lcut s t i) L"
proof (cases "t = T")
  case True
  then show ?thesis using T by (simp add: lcut_def take_is_prefix)
next
  case False
  then have "prefix (lcut s t i) (p_elog s T)" using leader_completeness [OF inv c] T by simp
  moreover have "prefix (p_elog s T) L" using inv T by (auto simp: p_inv_def inv_logs_def)
  ultimately show ?thesis by (rule prefix_order.trans)
qed

text \<open>Two committed prefixes are prefixes of one another.\<close>

lemma committed_comparable:
  assumes inv: "p_inv Qs s" and c: "p_committed Qs s t i" "p_committed Qs s t' i'"
  shows "prefix (lcut s t i) (lcut s t' i') \<or> prefix (lcut s t' i') (lcut s t i)"
proof -
  have *: "prefix (lcut s t i) (lcut s t' i') \<or> prefix (lcut s t' i') (lcut s t i)"
    if a: "t \<le> t'" "p_committed Qs s t i" "p_committed Qs s t' i'" for t i t' i'
  proof -
    obtain L where L: "p_tlog s t' = Some L" using a(3) by (auto simp: p_committed_def own_def)
    have "prefix (lcut s t i) L" by (rule committed_in_leader [OF inv a(2,1) L])
    moreover have "prefix (lcut s t' i') L" using L by (simp add: lcut_def take_is_prefix)
    ultimately show ?thesis by (rule prefix_same_cases)
  qed
  show ?thesis using * [of t t' i i'] * [of t' t i' i] c by (meson nat_le_linear)
qed

lemma extends_committed:
  assumes "extends s s'" "p_committed Qs s t i"
  shows "p_committed Qs s' t i"
proof -
  have "p_oks s \<subseteq> p_oks s'" using assms(1) by (simp add: extends_def)
  then show ?thesis using extends_own [OF assms(1)] assms(2) unfolding p_committed_def by blast
qed

end

text \<open>The quorums of a fixed configuration.\<close>

definition quorums :: "Configuration \<Rightarrow> NodeID set set" where
  "quorums C = {Q. wf_config C \<and> quorum C Q}"

interpretation static: quorum_system "quorums C" for C
  by unfold_locales (auto simp: quorums_def dest: quorums_meet)

end
