(* ===== verification/Raft_Refine.thy ===== *)
theory Raft_Refine
  imports Raft_Cluster Raft_Protocol
begin

text \<open>
  A cluster of cores with a fixed configuration refines the abstract protocol of
  \<^verbatim>\<open>Raft_Protocol\<close>. The relation of a node to the abstract state has two forms: between two inputs
  (\<open>idle\<close>) the core agrees with its storage; while a persist request is pending (\<open>busy\<close>) the core is
  ahead of the storage by what the request writes. Each step of the cluster is a sequence of
  abstract steps of the node that moves.
\<close>

section \<open>Cores with a fixed configuration\<close>

definition core_static :: "Configuration \<Rightarrow> NodeID \<Rightarrow> Core \<Rightarrow> bool" where
  "core_static C n c \<longleftrightarrow> core_inv c \<and> cfg_ID (c_cfg c) = n \<and> validate (c_cfg c) \<and> cfg_Bootstrap (c_cfg c) = C
     \<and> bootstrapConfig c = C \<and> snapshotIndex c = 0 \<and> snapshotTerm c = 0 \<and> \<not> snapshotHasConfig c
     \<and> (\<forall>e \<in> set (Entries c). ent_Type e = EntryNormal)"

lemma newest_config_normal: "\<forall>e \<in> set es. ent_Type e = EntryNormal \<Longrightarrow> newest_config acc es = acc"
  by (induction es arbitrary: acc) (simp_all add: config_of_def)

lemma core_static_simps:
  assumes "core_static C n c"
  shows "core_inv c" "log_wf c" "cfg_ID (c_cfg c) = n" "n \<noteq> []" "snapshotIndex c = 0" "activeConfig c = C" "activeConfigIndex c = 0"
    and "lastIndex c = length (Entries c)" "contiguous (Suc 0) (Entries c)" "commitIndex c \<le> length (Entries c)"
proof -
  show "core_inv c" "cfg_ID (c_cfg c) = n" "n \<noteq> []" "snapshotIndex c = 0"
    using assms by (auto simp: core_static_def validate_def)
  then show wf: "log_wf c" by (simp add: core_inv_def)
  show "lastIndex c = length (Entries c)" using length_Entries [OF wf] \<open>snapshotIndex c = 0\<close> by simp
  then show "commitIndex c \<le> length (Entries c)" using \<open>core_inv c\<close> by (simp add: core_inv_def)
  show "contiguous (Suc 0) (Entries c)" using contiguous_Entries [OF wf] \<open>snapshotIndex c = 0\<close> by simp
  have "newest_config (C, 0) (Entries c) = (C, 0)" using assms by (simp add: core_static_def newest_config_normal)
  then show "activeConfig c = C" "activeConfigIndex c = 0"
    using assms by (auto simp: core_static_def core_inv_def base_config_def)
qed

lemma core_static_cong: "log_view c = log_view d \<Longrightarrow> core_static C n c = core_static C n d"
  using core_inv_cong [of c d] by (simp add: core_static_def log_view_def Entries_def)

lemma core_static_commits: "core_static C n c \<Longrightarrow> commits c c' es \<Longrightarrow> core_static C n c'"
  using commits_core_inv [of c c' es] by (simp add: core_static_def commits_def log_view_def Entries_def)

text \<open>The term at an index of a log.\<close>

definition term_at :: "Entry list \<Rightarrow> Index \<Rightarrow> Term" where
  "term_at X i = (if 0 < i \<and> i \<le> length X then ent_Term (X ! (i - 1)) else 0)"

lemma rlog_static:
  assumes "core_static C n c"
  obtains e where "rlog c = e # Entries c" "ent_Term e = 0"
proof -
  have "log_wf c" by (rule core_static_simps [OF assms])
  then have "ent_Term (hd (rlog c)) = 0" using assms by (simp add: log_wf_def core_static_def)
  then show ?thesis using that rlog_split [OF \<open>log_wf c\<close>] by blast
qed

lemma nth_Cons_term: "ent_Term e = 0 \<Longrightarrow> i \<le> length X \<Longrightarrow> ent_Term ((e # X) ! i) = term_at X i"
  by (cases i) (simp_all add: term_at_def)

lemma termAt_static:
  assumes "core_static C n c"
  shows "termAt c i = term_at (Entries c) i"
proof -
  obtain e where e: "rlog c = e # Entries c" "ent_Term e = 0" by (rule rlog_static [OF assms])
  have "snapshotIndex c = 0" by (rule core_static_simps [OF assms])
  then show ?thesis using e nth_Cons_term [OF e(2), of i "Entries c"] by (simp add: termAt_def pos_def term_at_def)
qed

lemma lastTerm_static:
  assumes "core_static C n c"
  shows "lastTerm c = last_term (Entries c)"
proof -
  obtain e where "rlog c = e # Entries c" "ent_Term e = 0" by (rule rlog_static [OF assms])
  then show ?thesis by (simp add: lastTerm_def last_term_def last_conv_nth nth_Cons')
qed

lemma isLogUpToDate_static:
  "core_static C n c \<Longrightarrow> isLogUpToDate c (length M) (last_term M) = up_to_date M (Entries c)"
  by (simp add: isLogUpToDate_def up_to_date_def lastTerm_static core_static_simps Let_def)

lemma entryStillPresent_static:
  assumes "core_static C n c"
  shows "entryStillPresent c i t \<longleftrightarrow> i \<le> length (Entries c) \<and> term_at (Entries c) i = t"
proof -
  obtain e where e: "rlog c = e # Entries c" "ent_Term e = 0" by (rule rlog_static [OF assms])
  have "snapshotIndex c = 0" by (rule core_static_simps [OF assms])
  then show ?thesis using e nth_Cons_term [OF e(2), of i "Entries c"]
    by (auto simp: entryStillPresent_def pos_def less_Suc_eq_le)
qed

section \<open>Abstract steps of one node\<close>

definition p_good :: "Configuration \<Rightarrow> pstate \<Rightarrow> bool" where
  "p_good C a \<longleftrightarrow> p_inv (quorums C) a
     \<and> (\<forall>v t i j. (v, t, i) \<in> p_oks a \<longrightarrow> j \<le> i \<longrightarrow> (v, t, j) \<in> p_oks a)
     \<and> (\<forall>c T M. (c, T, M) \<in> p_claims a \<longrightarrow> c \<noteq> [] \<and> 0 < T)
     \<and> (\<forall>T L. p_tlog a T = Some L \<longrightarrow> contiguous (Suc 0) L \<and> (\<forall>e \<in> set L. ent_Type e = EntryNormal))"

text \<open>What the steps of the other nodes leave alone at node \<open>m\<close>.\<close>

definition p_frame :: "NodeID \<Rightarrow> pstate \<Rightarrow> pstate \<Rightarrow> bool" where
  "p_frame m a a' \<longleftrightarrow> p_term a' m = p_term a m \<and> p_log a' m = p_log a m \<and> p_cand a' m = p_cand a m
     \<and> (\<forall>T d. (m, T, d) \<in> p_grants a' \<longrightarrow> (m, T, d) \<in> p_grants a)
     \<and> (\<forall>T L. p_tlog a T = Some L \<longrightarrow> p_lead a T = m \<longrightarrow> p_tlog a' T = Some L)"

definition nstep :: "Configuration \<Rightarrow> NodeID \<Rightarrow> pstate \<Rightarrow> pstate \<Rightarrow> bool" where
  "nstep C n a a' \<longleftrightarrow> psteps (quorums C) a a' \<and> extends a a' \<and> (\<forall>m. m \<noteq> n \<longrightarrow> p_frame m a a') \<and> p_good C a'"

lemma nstep_refl: "p_good C a \<Longrightarrow> nstep C n a a"
  by (simp add: nstep_def p_frame_def)

lemma nstep_trans:
  assumes "nstep C n a a'" "nstep C n a' a''"
  shows "nstep C n a a''"
proof -
  have "p_frame m a a''" if "m \<noteq> n" for m
  proof -
    have f: "p_frame m a a'" "p_frame m a' a''" "extends a a'" using assms that by (auto simp: nstep_def)
    have "p_tlog a'' T = Some L" if "p_tlog a T = Some L" "p_lead a T = m" for T L
      using f that extends_tlog [OF f(3) that(1)] by (auto simp: p_frame_def)
    then show ?thesis using f by (simp add: p_frame_def)
  qed
  then show ?thesis using assms extends_trans unfolding nstep_def by (meson rtranclp_trans)
qed

lemma nstep_good: "nstep C n a a' \<Longrightarrow> p_good C a'"
  by (simp add: nstep_def)

lemma nstepI:
  assumes good: "p_good C a" and step: "pstep (quorums C) a a'"
    and frame: "\<And>m. m \<noteq> n \<Longrightarrow> p_frame m a a'"
    and oks: "\<And>v t i j. (v, t, i) \<in> p_oks a' \<Longrightarrow> (v, t, i) \<notin> p_oks a \<Longrightarrow> j \<le> i \<Longrightarrow> (v, t, j) \<in> p_oks a'"
    and claims: "\<And>c T M. (c, T, M) \<in> p_claims a' \<Longrightarrow> (c, T, M) \<notin> p_claims a \<Longrightarrow> c \<noteq> [] \<and> 0 < T"
    and tlog: "\<And>T L. p_tlog a' T = Some L \<Longrightarrow> p_tlog a T \<noteq> Some L \<Longrightarrow> contiguous (Suc 0) L \<and> (\<forall>e \<in> set L. ent_Type e = EntryNormal)"
  shows "nstep C n a a'"
proof -
  have inv: "p_inv (quorums C) a" using good by (simp add: p_good_def)
  have ext: "extends a a'" using static.pstep_extends [OF _ step] inv by (simp add: p_inv_def)
  have "(v, t, j) \<in> p_oks a'" if "(v, t, i) \<in> p_oks a'" "j \<le> i" for v t i j
  proof (cases "(v, t, i) \<in> p_oks a")
    case True
    then have "(v, t, j) \<in> p_oks a" using good that(2) unfolding p_good_def by blast
    then show ?thesis using ext by (auto simp: extends_def)
  qed (use oks that in blast)
  moreover have "c \<noteq> [] \<and> 0 < T" if "(c, T, M) \<in> p_claims a'" for c T M
    using good claims [OF that] unfolding p_good_def by blast
  moreover have "contiguous (Suc 0) L \<and> (\<forall>e \<in> set L. ent_Type e = EntryNormal)" if "p_tlog a' T = Some L" for T L
    using good tlog [OF that] unfolding p_good_def by blast
  ultimately have "p_good C a'" using static.pstep_inv [OF inv step] unfolding p_good_def by blast
  then show ?thesis using step ext frame by (auto simp: nstep_def)
qed

lemma nstep_claim:
  assumes "p_good C a" "n \<noteq> []"
  shows "nstep C n a (a\<lparr>p_claims := insert (n, Suc (p_term a n), p_log a n) (p_claims a)\<rparr>)"
  using assms(2) by (intro nstepI [OF assms(1) pstep.claim]) (auto simp: p_frame_def)

lemma nstep_candidate:
  assumes "p_good C a" "(n, Suc (p_term a n), p_log a n) \<in> p_claims a"
  shows "nstep C n a (a\<lparr>p_term := (p_term a)(n := Suc (p_term a n)), p_cand := (p_cand a)(n := Some (Suc (p_term a n))),
          p_grants := insert (n, Suc (p_term a n), n) (p_grants a)\<rparr>)"
  by (intro nstepI [OF assms(1) pstep.candidate [OF assms(2)]]) (auto simp: p_frame_def)

lemma nstep_term:
  assumes "p_good C a" "p_term a n \<le> T"
  shows "nstep C n a (a\<lparr>p_term := (p_term a)(n := T)\<rparr>)"
  by (intro nstepI [OF assms(1) pstep.new_term [OF assms(2)]]) (auto simp: p_frame_def)

lemma nstep_vote:
  assumes "p_good C a" "(c, T, M) \<in> p_claims a" "p_term a n \<le> T" "\<And>c'. (n, T, c') \<in> p_grants a \<Longrightarrow> c' = c"
    "up_to_date M (p_log a n)"
  shows "nstep C n a (a\<lparr>p_term := (p_term a)(n := T), p_grants := insert (n, T, c) (p_grants a)\<rparr>)"
  by (intro nstepI [OF assms(1) pstep.vote [OF assms(2-5)]]) (auto simp: p_frame_def)

lemma nstep_elect:
  assumes "p_good C a" "p_cand a n = Some T" "p_term a n = T" "Q \<in> quorums C" "\<And>v. v \<in> Q \<Longrightarrow> (v, T, n) \<in> p_grants a"
    "contiguous (Suc 0) (p_log a n)" "\<forall>e \<in> set (p_log a n). ent_Type e = EntryNormal"
  shows "nstep C n a (a\<lparr>p_tlog := (p_tlog a)(T \<mapsto> p_log a n), p_elog := (p_elog a)(T := p_log a n),
          p_lead := (p_lead a)(T := n), p_cand := (p_cand a)(n := None)\<rparr>)"
proof -
  have "p_tlog a T = None"
    using static.elect_fresh [OF _ assms(2,4,5)] assms(1) by (simp add: p_good_def p_inv_def)
  then show ?thesis using assms(6,7)
    by (intro nstepI [OF assms(1) pstep.elect [OF assms(2-5)]]) (auto simp: p_frame_def split: if_splits)
qed

lemma nstep_append:
  assumes "p_good C a" "p_tlog a T = Some L" "ent_Term e = T" "p_lead a T = n"
    "ent_Index e = Suc (length L)" "ent_Type e = EntryNormal"
  shows "nstep C n a (a\<lparr>p_tlog := (p_tlog a)(T \<mapsto> L @ [e])\<rparr>)"
proof -
  have "contiguous (Suc 0) L" "\<forall>e \<in> set L. ent_Type e = EntryNormal" using assms(1,2) unfolding p_good_def by blast+
  then show ?thesis using assms(2-6)
    by (intro nstepI [OF assms(1) pstep.append [OF assms(2,3)]]) (auto simp: p_frame_def split: if_splits)
qed

lemma nstep_accept:
  assumes "p_good C a" "p_tlog a T = Some L" "p_term a n \<le> T" "k \<le> m" "m \<le> length L" "k \<le> length (p_log a n)"
    "take k (p_log a n) = take k L" "k = length (p_log a n) \<or> (k < length L \<and> p_log a n ! k \<noteq> L ! k)"
  shows "nstep C n a (a\<lparr>p_term := (p_term a)(n := T), p_log := (p_log a)(n := take m L)\<rparr>)"
  by (intro nstepI [OF assms(1) pstep.accept [OF assms(2-8)]]) (auto simp: p_frame_def)

lemma nstep_ack:
  assumes "p_good C a" "p_tlog a T = Some L" "p_term a n = T" "prefix (take i L) (p_log a n)" "i \<le> length L"
  shows "nstep C n a (a\<lparr>p_oks := p_oks a \<union> {(n, T, j) |j. j \<le> i}\<rparr>)"
  by (intro nstepI [OF assms(1) pstep.ack [OF assms(2-5)]]) (auto simp: p_frame_def)

text \<open>Terms with a leader are positive, so are the terms of all entries.\<close>

lemma tlog_pos:
  assumes "p_good C a" "p_tlog a T = Some L"
  shows "0 < T"
proof -
  have inv: "inv_votes (quorums C) a" using assms(1) by (simp add: p_good_def p_inv_def)
  obtain Q where Q: "Q \<in> quorums C" "\<forall>v \<in> Q. (v, T, p_lead a T) \<in> p_grants a"
    using static.votes_leader [OF inv assms(2)] by blast
  obtain v where "v \<in> Q" using static.meet [OF Q(1) Q(1)] by blast
  then obtain M where "(p_lead a T, T, M) \<in> p_claims a" using Q(2) static.votes_claim [OF inv] by blast
  then show ?thesis using assms(1) unfolding p_good_def by blast
qed

lemma log_term_pos:
  assumes "p_good C a" "0 < i" "i \<le> length (p_log a n)"
  shows "0 < term_at (p_log a n) i"
proof -
  have "consistent a (p_log a n)" using assms(1) by (simp add: p_good_def p_inv_def inv_logs_def)
  then obtain L where "p_tlog a (ent_Term (p_log a n ! (i - 1))) = Some L" using consistentD [OF _ assms(2,3)] by blast
  then show ?thesis using tlog_pos [OF assms(1)] assms(2,3) by (simp add: term_at_def)
qed

section \<open>The relation\<close>

text \<open>A prefix that is committed at a term at most \<open>T\<close>.\<close>

definition cpre :: "Configuration \<Rightarrow> pstate \<Rightarrow> Term \<Rightarrow> Entry list \<Rightarrow> bool" where
  "cpre C a T X \<longleftrightarrow> X = [] \<or> (\<exists>t i. p_committed (quorums C) a t i \<and> t \<le> T \<and> prefix X (lcut a t i))"

lemma cpre_mono: "cpre C a T X \<Longrightarrow> T \<le> T' \<Longrightarrow> prefix X' X \<Longrightarrow> cpre C a T' X'"
  unfolding cpre_def by (metis order_trans prefix_Nil prefix_order.trans)

lemma cpre_extends:
  assumes "extends a a'" "cpre C a T X"
  shows "cpre C a' T X"
proof (cases "X = []")
  case False
  then obtain t i where ti: "p_committed (quorums C) a t i" "t \<le> T" "prefix X (lcut a t i)" using assms(2) by (auto simp: cpre_def)
  then obtain L where "p_tlog a t = Some L" "i \<le> length L" by (auto simp: p_committed_def own_def)
  then have "lcut a' t i = lcut a t i" by (rule extends_lcut [OF assms(1)])
  then show ?thesis using ti static.extends_committed [OF assms(1) ti(1)] unfolding cpre_def by metis
qed (simp add: cpre_def)

lemma cpre_leader:
  assumes "p_good C a" "cpre C a T X" "p_tlog a T = Some L"
  shows "prefix X L"
  using assms static.committed_in_leader [of C a] unfolding cpre_def p_good_def by (metis Nil_prefix prefix_order.trans)

definition msg_ok :: "Configuration \<Rightarrow> pstate \<Rightarrow> Message \<Rightarrow> bool" where
  "msg_ok C a m \<longleftrightarrow>
     (case msg_Type m of
        MsgRequestVoteRequest \<Rightarrow> msg_From m \<noteq> msg_To m
          \<and> (\<exists>M. (msg_From m, msg_Term m, M) \<in> p_claims a \<and> msg_LastLogIndex m = length M \<and> msg_LastLogTerm m = last_term M)
      | MsgRequestVoteResponse \<Rightarrow>
          msg_VoteGranted m \<longrightarrow> msg_From m \<in> voter_ids C \<and> (msg_From m, msg_Term m, msg_To m) \<in> p_grants a
      | MsgAppendEntriesRequest \<Rightarrow>
          (\<exists>L. p_tlog a (msg_Term m) = Some L \<and> msg_LeaderCommit m \<le> length L
             \<and> cpre C a (msg_Term m) (take (msg_LeaderCommit m) L)
             \<and> (0 < msg_PrevLogIndex m \<and> msg_PrevLogTerm m = 0 \<and> msg_Entries m = []
                \<or> msg_PrevLogIndex m \<le> length L \<and> msg_PrevLogTerm m = term_at L (msg_PrevLogIndex m)
                  \<and> prefix (msg_Entries m) (drop (msg_PrevLogIndex m) L)))
      | MsgAppendEntriesResponse \<Rightarrow>
          msg_Success m \<longrightarrow> (msg_From m, msg_Term m, msg_MatchIndex m) \<in> p_oks a
      | _ \<Rightarrow> False)"

definition stored :: "pstate \<Rightarrow> NodeID \<Rightarrow> Storage \<Rightarrow> bool" where
  "stored a n st \<longleftrightarrow> hs_CurrentTerm (sto_HardState st) = p_term a n \<and> sto_Entries st = p_log a n
     \<and> (\<forall>d. (n, p_term a n, d) \<in> p_grants a \<longrightarrow> hs_VotedFor (sto_HardState st) = d)"

definition core_ok :: "Configuration \<Rightarrow> pstate \<Rightarrow> NodeID \<Rightarrow> Core \<Rightarrow> bool" where
  "core_ok C a n c \<longleftrightarrow> core_static C n c \<and> cpre C a (currentTerm c) (take (commitIndex c) (Entries c))"

text \<open>The core may have forgotten its vote only while it refuses to vote.\<close>

definition vote_kept :: "Configuration \<Rightarrow> NodeID \<Rightarrow> Core \<Rightarrow> Storage \<Rightarrow> bool" where
  "vote_kept C n c st \<longleftrightarrow> votedFor c = hs_VotedFor (sto_HardState st) \<or> heardFromLeader c \<or> n \<notin> voter_ids C"

definition cand_ok :: "Configuration \<Rightarrow> pstate \<Rightarrow> NodeID \<Rightarrow> Core \<Rightarrow> bool" where
  "cand_ok C a n c \<longleftrightarrow> (role c = Candidate \<longrightarrow> currentTerm c = p_term a n \<and> p_cand a n = Some (currentTerm c)
     \<and> n \<in> voter_ids C \<and> mwf (votesReceived c)
     \<and> (\<forall>v \<in> set (mkeys (votesReceived c)). v \<in> voter_ids C \<and> (v, currentTerm c, n) \<in> p_grants a))"

definition lead_ok :: "Configuration \<Rightarrow> pstate \<Rightarrow> NodeID \<Rightarrow> Core \<Rightarrow> bool" where
  "lead_ok C a n c \<longleftrightarrow> (role c = Leader \<longrightarrow> currentTerm c = p_term a n \<and> p_tlog a (currentTerm c) = Some (Entries c)
     \<and> p_lead a (currentTerm c) = n \<and> n \<in> voter_ids C
     \<and> (\<forall>v. v \<noteq> n \<longrightarrow> 0 < mget0 (matchIndex c) v \<longrightarrow> (v, currentTerm c, mget0 (matchIndex c) v) \<in> p_oks a)
     \<and> mget0 (matchIndex c) n \<le> length (Entries c))"

definition idle :: "Configuration \<Rightarrow> pstate \<Rightarrow> NodeID \<Rightarrow> Core \<Rightarrow> Storage \<Rightarrow> bool" where
  "idle C a n c st \<longleftrightarrow> core_ok C a n c \<and> stored a n st \<and> currentTerm c = p_term a n \<and> Entries c = p_log a n
     \<and> vote_kept C n c st \<and> cand_ok C a n c \<and> lead_ok C a n c
     \<and> (role c = Leader \<longrightarrow> (n, currentTerm c, length (Entries c)) \<in> p_oks a)"

text \<open>What a pending persist request will do: to the hard state and to the log.\<close>

definition hs_plan :: "Configuration \<Rightarrow> pstate \<Rightarrow> NodeID \<Rightarrow> Core \<Rightarrow> Storage \<Rightarrow> PersistRequest \<Rightarrow> bool" where
  "hs_plan C a n c st p \<longleftrightarrow>
     (case pr_HardState p of
        None \<Rightarrow> currentTerm c = p_term a n \<and> vote_kept C n c st
      | Some hs \<Rightarrow> hs = \<lparr>hs_CurrentTerm = currentTerm c, hs_VotedFor = votedFor c\<rparr>
          \<and> (votedFor c = [] \<and> p_term a n < currentTerm c
             \<or> n \<in> voter_ids C \<and> p_term a n \<le> currentTerm c \<and> pr_TruncateFrom p = 0 \<and> pr_Entries p = []
               \<and> votedFor c \<noteq> [] \<and> (\<forall>d. (n, currentTerm c, d) \<in> p_grants a \<longrightarrow> d = votedFor c)
               \<and> (\<exists>M. (votedFor c, currentTerm c, M) \<in> p_claims a \<and> up_to_date M (p_log a n))))"

definition log_plan :: "pstate \<Rightarrow> NodeID \<Rightarrow> Core \<Rightarrow> PersistRequest \<Rightarrow> bool" where
  "log_plan a n c p \<longleftrightarrow>
     pr_TruncateFrom p = 0 \<and> pr_Entries p = [] \<and> Entries c = p_log a n
     \<or> (\<exists>L k. p_tlog a (currentTerm c) = Some L \<and> k \<le> length (p_log a n) \<and> take k (p_log a n) = take k L
          \<and> (k = length (p_log a n) \<or> k < length L \<and> p_log a n ! k \<noteq> L ! k)
          \<and> Entries c = take k (p_log a n) @ pr_Entries p \<and> prefix (Entries c) L
          \<and> pr_TruncateFrom p = (if k < length (p_log a n) then Suc k else 0))"

text \<open>A campaign that is not yet persisted.\<close>

definition campaigning :: "Configuration \<Rightarrow> pstate \<Rightarrow> NodeID \<Rightarrow> Core \<Rightarrow> PersistRequest \<Rightarrow> bool" where
  "campaigning C a n c p \<longleftrightarrow> role c = Candidate \<and> currentTerm c = Suc (p_term a n) \<and> votedFor c = n \<and> n \<in> voter_ids C
     \<and> votesReceived c = [(n, True)] \<and> (n, currentTerm c, p_log a n) \<in> p_claims a \<and> pr_HardState p \<noteq> None"

definition item_plan :: "Configuration \<Rightarrow> pstate \<Rightarrow> Core \<Rightarrow> PersistRequest \<Rightarrow> pendingItem \<Rightarrow> bool" where
  "item_plan C a c p x \<longleftrightarrow> pi_seq x \<le> pr_Seq p \<and>
     (case pi_kind x of
        pendingVoteGrant \<Rightarrow> pr_HardState p \<noteq> None \<and> votedFor c \<noteq> []
      | pendingSelfMatch \<Rightarrow> pi_index x \<le> length (Entries c)
      | _ \<Rightarrow> (\<exists>L. p_tlog a (currentTerm c) = Some L \<and> pi_index x \<le> length L \<and> prefix (take (pi_index x) L) (Entries c)
               \<and> (pi_kind x = pendingCommitAdvance \<longrightarrow> cpre C a (currentTerm c) (take (pi_index x) L))))"

definition busy :: "Configuration \<Rightarrow> pstate \<Rightarrow> NodeID \<Rightarrow> Core \<Rightarrow> Storage \<Rightarrow> PersistRequest \<Rightarrow> bool" where
  "busy C a n c st p \<longleftrightarrow> core_ok C a n c \<and> stored a n st \<and> hs_plan C a n c st p \<and> log_plan a n c p
     \<and> (campaigning C a n c p \<or> cand_ok C a n c) \<and> lead_ok C a n c
     \<and> (\<forall>x \<in> set (pending c). item_plan C a c p x)"

definition node_ok :: "Configuration \<Rightarrow> pstate \<Rightarrow> NodeID \<Rightarrow> node \<Rightarrow> bool" where
  "node_ok C a n nd \<longleftrightarrow> nd_applied nd = take (commitIndex (nd_core nd)) (Entries (nd_core nd))
     \<and> (case nd_job nd of
          None \<Rightarrow> idle C a n (nd_core nd) (nd_storage nd) \<and> pending (nd_core nd) = []
        | Some p \<Rightarrow> busy C a n (nd_core nd) (nd_storage nd) p)"

text \<open>An entry that is committed at its index.\<close>

definition applied_ok :: "Configuration \<Rightarrow> pstate \<Rightarrow> Entry \<Rightarrow> bool" where
  "applied_ok C a e \<longleftrightarrow> (\<exists>t i. p_committed (quorums C) a t i \<and> 0 < ent_Index e \<and> ent_Index e \<le> i
     \<and> lcut a t i ! (ent_Index e - 1) = e)"

definition refines :: "Configuration \<Rightarrow> cluster \<Rightarrow> pstate \<Rightarrow> bool" where
  "refines C s a \<longleftrightarrow> p_good C a \<and> psteps (quorums C) p_init a
     \<and> (\<forall>n nd. mget (cl_nodes s) n = Some nd \<longrightarrow> node_ok C a n nd)
     \<and> (\<forall>m \<in> set (cl_net s). msg_ok C a m) \<and> (\<forall>(n, e) \<in> set (cl_applied s). applied_ok C a e)"

section \<open>Steps of the other nodes\<close>

lemma term_at_prefix: "prefix L L' \<Longrightarrow> i \<le> length L \<Longrightarrow> term_at L' i = term_at L i"
  by (auto elim!: prefixE simp: term_at_def nth_append)

lemma msg_ok_extends:
  assumes ext: "extends a a'" and ok: "msg_ok C a m"
  shows "msg_ok C a' m"
proof (cases "msg_Type m = MsgAppendEntriesRequest")
  case True
  then obtain L where L: "p_tlog a (msg_Term m) = Some L" "msg_LeaderCommit m \<le> length L"
      "cpre C a (msg_Term m) (take (msg_LeaderCommit m) L)"
      "0 < msg_PrevLogIndex m \<and> msg_PrevLogTerm m = 0 \<and> msg_Entries m = []
        \<or> msg_PrevLogIndex m \<le> length L \<and> msg_PrevLogTerm m = term_at L (msg_PrevLogIndex m)
          \<and> prefix (msg_Entries m) (drop (msg_PrevLogIndex m) L)"
    using ok by (auto simp: msg_ok_def)
  obtain L' where L': "p_tlog a' (msg_Term m) = Some L'" "prefix L L'" using extends_tlog [OF ext L(1)] by blast
  have "take (msg_LeaderCommit m) L' = take (msg_LeaderCommit m) L" using L(2) L'(2) by (auto elim!: prefixE)
  moreover have "length L \<le> length L'" by (rule prefix_length_le [OF L'(2)])
  moreover have "prefix es (drop i L')" if "prefix es (drop i L)" for i es
    using that L'(2) by (auto elim!: prefixE)
  ultimately show ?thesis
    using True L L'(1) cpre_extends [OF ext L(3)] term_at_prefix [OF L'(2)]
    by (auto simp: msg_ok_def)
next
  case False
  have "p_claims a \<subseteq> p_claims a'" "p_grants a \<subseteq> p_grants a'" "p_oks a \<subseteq> p_oks a'" using ext by (simp_all add: extends_def)
  then show ?thesis using ok False by (auto simp: msg_ok_def split: MessageType.splits)
qed

lemma applied_ok_extends:
  assumes ext: "extends a a'" and ok: "applied_ok C a e"
  shows "applied_ok C a' e"
proof -
  obtain t i where ti: "p_committed (quorums C) a t i" "0 < ent_Index e" "ent_Index e \<le> i" "lcut a t i ! (ent_Index e - 1) = e"
    using ok by (auto simp: applied_ok_def)
  then obtain L where "p_tlog a t = Some L" "i \<le> length L" by (auto simp: p_committed_def own_def)
  then have "lcut a' t i = lcut a t i" by (rule extends_lcut [OF ext])
  then show ?thesis using ti static.extends_committed [OF ext ti(1)] unfolding applied_ok_def by metis
qed

lemma extends_mono: "extends a a' \<Longrightarrow> p_claims a \<subseteq> p_claims a' \<and> p_grants a \<subseteq> p_grants a' \<and> p_oks a \<subseteq> p_oks a'"
  by (simp add: extends_def)

lemma core_ok_frame: "extends a a' \<Longrightarrow> core_ok C a m c \<Longrightarrow> core_ok C a' m c"
  using cpre_extends by (simp add: core_ok_def)

lemma stored_frame: "p_frame m a a' \<Longrightarrow> stored a m st \<Longrightarrow> stored a' m st"
  by (auto simp: stored_def p_frame_def)

lemma cand_ok_frame: "extends a a' \<Longrightarrow> p_frame m a a' \<Longrightarrow> cand_ok C a m c \<Longrightarrow> cand_ok C a' m c"
  using extends_mono [of a a'] by (auto simp: cand_ok_def p_frame_def)

lemma lead_ok_frame: "extends a a' \<Longrightarrow> p_frame m a a' \<Longrightarrow> lead_ok C a m c \<Longrightarrow> lead_ok C a' m c"
  using extends_mono [of a a'] extends_tlog [of a a' "currentTerm c" "Entries c"] by (auto simp: lead_ok_def p_frame_def)

lemma idle_frame:
  assumes "extends a a'" "p_frame m a a'" "idle C a m c st"
  shows "idle C a' m c st"
proof -
  have "core_ok C a' m c" "stored a' m st" "cand_ok C a' m c" "lead_ok C a' m c"
    using assms core_ok_frame stored_frame cand_ok_frame lead_ok_frame unfolding idle_def by blast+
  then show ?thesis using assms extends_mono [OF assms(1)] unfolding idle_def p_frame_def by auto
qed

lemma item_plan_extends:
  assumes ext: "extends a a'" and plan: "item_plan C a c p x"
  shows "item_plan C a' c p x"
proof -
  have *: "\<exists>L. p_tlog a' (currentTerm c) = Some L \<and> pi_index x \<le> length L \<and> prefix (take (pi_index x) L) (Entries c)
      \<and> (b \<longrightarrow> cpre C a' (currentTerm c) (take (pi_index x) L))"
    if ex: "\<exists>L. p_tlog a (currentTerm c) = Some L \<and> pi_index x \<le> length L \<and> prefix (take (pi_index x) L) (Entries c)
      \<and> (b \<longrightarrow> cpre C a (currentTerm c) (take (pi_index x) L))" for b
  proof -
    obtain L where L: "p_tlog a (currentTerm c) = Some L" "pi_index x \<le> length L" "prefix (take (pi_index x) L) (Entries c)"
        "b \<longrightarrow> cpre C a (currentTerm c) (take (pi_index x) L)" using ex by blast
    obtain L' where L': "p_tlog a' (currentTerm c) = Some L'" "prefix L L'" using extends_tlog [OF ext L(1)] by blast
    have "take (pi_index x) L' = take (pi_index x) L" using L(2) L'(2) by (auto elim!: prefixE)
    then show ?thesis using L L' prefix_length_le [OF L'(2)] cpre_extends [OF ext] by auto
  qed
  show ?thesis using plan * [of True] * [of False] by (cases "pi_kind x") (simp_all add: item_plan_def)
qed

lemma log_plan_frame:
  assumes ext: "extends a a'" and frame: "p_frame m a a'" and plan: "log_plan a m c p"
  shows "log_plan a' m c p"
proof (cases "pr_TruncateFrom p = 0 \<and> pr_Entries p = [] \<and> Entries c = p_log a m")
  case True
  then show ?thesis using frame by (simp add: log_plan_def p_frame_def)
next
  case False
  then obtain L k where L: "p_tlog a (currentTerm c) = Some L" "k \<le> length (p_log a m)" "take k (p_log a m) = take k L"
      "k = length (p_log a m) \<or> k < length L \<and> p_log a m ! k \<noteq> L ! k" "Entries c = take k (p_log a m) @ pr_Entries p"
      "prefix (Entries c) L" "pr_TruncateFrom p = (if k < length (p_log a m) then Suc k else 0)"
    using plan unfolding log_plan_def by blast
  obtain L' where L': "p_tlog a' (currentTerm c) = Some L'" "prefix L L'" using extends_tlog [OF ext L(1)] by blast
  have "k \<le> length L" using L(5,6) L(2) by (auto dest!: prefix_length_le)
  then have "take k L' = take k L" "k < length L \<Longrightarrow> L' ! k = L ! k \<and> k < length L'"
    using L'(2) by (auto elim!: prefixE simp: nth_append)
  moreover have "prefix (Entries c) L'" using L(6) L'(2) by (rule prefix_order.trans)
  moreover have "p_log a' m = p_log a m" using frame by (simp add: p_frame_def)
  ultimately show ?thesis using L L'(1) unfolding log_plan_def by (intro disjI2 exI [of _ L'] exI [of _ k]) auto
qed

lemma busy_frame:
  assumes ext: "extends a a'" and frame: "p_frame m a a'" and busy: "busy C a m c st p"
  shows "busy C a' m c st p"
proof -
  have "core_ok C a' m c" "stored a' m st" "lead_ok C a' m c" "log_plan a' m c p"
    using busy core_ok_frame [OF ext] stored_frame [OF frame] lead_ok_frame [OF ext frame] log_plan_frame [OF ext frame]
    unfolding busy_def by blast+
  moreover have "campaigning C a' m c p \<or> cand_ok C a' m c"
    using busy cand_ok_frame [OF ext frame] frame extends_mono [OF ext] by (auto simp: busy_def campaigning_def p_frame_def)
  moreover have "hs_plan C a' m c st p"
    using busy frame extends_mono [OF ext] by (fastforce simp: busy_def hs_plan_def p_frame_def split: option.splits)
  ultimately show ?thesis using busy item_plan_extends [OF ext] by (simp add: busy_def)
qed

lemma node_ok_frame:
  assumes "extends a a'" "p_frame m a a'" "node_ok C a m nd"
  shows "node_ok C a' m nd"
  using assms(3) idle_frame [OF assms(1,2)] busy_frame [OF assms(1,2)]
  by (auto simp: node_ok_def split: option.splits)

end
