(* ===== verification/Raft_Simulate.thy ===== *)
theory Raft_Simulate
  imports Raft_Refine
begin

text \<open>
  Each handler of the core, run by a node that is between two inputs, is a sequence of abstract
  steps of that node: the new state of the node is related to the new abstract state, and every
  message it sends is one the abstract state accounts for. The same holds for the completion of a
  persist request and for a restart after a crash.
\<close>

section \<open>The state of a node after a step\<close>

definition step_ok :: "Configuration \<Rightarrow> pstate \<Rightarrow> NodeID \<Rightarrow> Storage \<Rightarrow> Core \<Rightarrow> Output \<Rightarrow> bool" where
  "step_ok C a n st c out \<longleftrightarrow> (\<exists>a'. nstep C n a a'
     \<and> (case out_PersistRequest out of None \<Rightarrow> idle C a' n c st \<and> pending c = [] | Some p \<Rightarrow> busy C a' n c st p)
     \<and> (\<forall>m \<in> set (out_Messages out). msg_ok C a' m))"

text \<open>Fields the relation does not look at.\<close>

lemma core_static_frame [simp]:
  "core_static C n (c\<lparr>c_draws := k\<rparr>) = core_static C n c" "core_static C n (c\<lparr>role := r\<rparr>) = core_static C n c"
  "core_static C n (c\<lparr>currentTerm := t\<rparr>) = core_static C n c" "core_static C n (c\<lparr>votedFor := i\<rparr>) = core_static C n c"
  "core_static C n (c\<lparr>leaderID := i\<rparr>) = core_static C n c" "core_static C n (c\<lparr>nextIndex := ni\<rparr>) = core_static C n c"
  "core_static C n (c\<lparr>matchIndex := ni\<rparr>) = core_static C n c" "core_static C n (c\<lparr>votesReceived := vs\<rparr>) = core_static C n c"
  "core_static C n (c\<lparr>persistSeq := k\<rparr>) = core_static C n c" "core_static C n (c\<lparr>persistedSeq := k\<rparr>) = core_static C n c"
  "core_static C n (c\<lparr>pending := ps\<rparr>) = core_static C n c" "core_static C n (c\<lparr>pendingConfIndex := k\<rparr>) = core_static C n c"
  "core_static C n (c\<lparr>heardFromLeader := b\<rparr>) = core_static C n c"
  by (rule core_static_cong, simp)+

lemma Entries_frame [simp]:
  "Entries (c\<lparr>c_draws := k\<rparr>) = Entries c" "Entries (c\<lparr>role := r\<rparr>) = Entries c"
  "Entries (c\<lparr>currentTerm := t\<rparr>) = Entries c" "Entries (c\<lparr>votedFor := i\<rparr>) = Entries c"
  "Entries (c\<lparr>leaderID := i\<rparr>) = Entries c" "Entries (c\<lparr>nextIndex := ni\<rparr>) = Entries c"
  "Entries (c\<lparr>matchIndex := ni\<rparr>) = Entries c" "Entries (c\<lparr>votesReceived := vs\<rparr>) = Entries c"
  "Entries (c\<lparr>persistSeq := k\<rparr>) = Entries c" "Entries (c\<lparr>persistedSeq := k\<rparr>) = Entries c"
  "Entries (c\<lparr>pending := ps\<rparr>) = Entries c" "Entries (c\<lparr>pendingConfIndex := k\<rparr>) = Entries c"
  "Entries (c\<lparr>heardFromLeader := b\<rparr>) = Entries c" "Entries (c\<lparr>commitIndex := k\<rparr>) = Entries c"
  "Entries (c\<lparr>rlog := es\<rparr>) = drop 1 es" "Entries (c\<lparr>activeConfig := cfg\<rparr>) = Entries c" "Entries (c\<lparr>activeConfigIndex := k\<rparr>) = Entries c"
  by (simp_all add: Entries_def)

lemmas idle_defs = idle_def core_ok_def vote_kept_def cand_ok_def lead_ok_def

lemma idle_simps [simp]:
  "idle C a n (c\<lparr>c_draws := k\<rparr>) st = idle C a n c st" "idle C a n (c\<lparr>leaderID := i\<rparr>) st = idle C a n c st"
  "idle C a n (c\<lparr>nextIndex := ni\<rparr>) st = idle C a n c st" "idle C a n (c\<lparr>persistSeq := k\<rparr>) st = idle C a n c st"
  "idle C a n (c\<lparr>persistedSeq := k\<rparr>) st = idle C a n c st" "idle C a n (c\<lparr>pending := ps\<rparr>) st = idle C a n c st"
  "idle C a n (c\<lparr>pendingConfIndex := k\<rparr>) st = idle C a n c st"
  by (simp_all add: idle_defs)

lemma item_plan_nextIndex: "item_plan C a (c\<lparr>nextIndex := ni\<rparr>) p x = item_plan C a c p x"
  by (cases "pi_kind x") (simp_all add: item_plan_def)

lemma hs_plan_nextIndex: "hs_plan C a n (c\<lparr>nextIndex := ni\<rparr>) st p = hs_plan C a n c st p"
  by (cases "pr_HardState p") (simp_all add: hs_plan_def vote_kept_def)

lemma busy_nextIndex: "busy C a n (c\<lparr>nextIndex := ni\<rparr>) st p = busy C a n c st p"
proof -
  have "core_ok C a n (c\<lparr>nextIndex := ni\<rparr>) = core_ok C a n c" by (simp add: core_ok_def)
  moreover have "log_plan a n (c\<lparr>nextIndex := ni\<rparr>) p = log_plan a n c p" by (simp add: log_plan_def)
  moreover have "campaigning C a n (c\<lparr>nextIndex := ni\<rparr>) p = campaigning C a n c p" by (simp add: campaigning_def)
  moreover have "cand_ok C a n (c\<lparr>nextIndex := ni\<rparr>) = cand_ok C a n c" by (simp add: cand_ok_def)
  moreover have "lead_ok C a n (c\<lparr>nextIndex := ni\<rparr>) = lead_ok C a n c" by (simp add: lead_ok_def)
  ultimately show ?thesis unfolding busy_def by (simp add: item_plan_nextIndex hs_plan_nextIndex)
qed

lemma idle_static: "idle C a n c st \<Longrightarrow> core_static C n c"
  by (simp add: idle_def core_ok_def)

lemma idle_cpre: "idle C a n c st \<Longrightarrow> cpre C a (currentTerm c) (take (commitIndex c) (Entries c))"
  by (auto simp: idle_def core_ok_def)

lemma good_inv:
  assumes "p_good C a"
  shows "p_inv (quorums C) a" "inv_votes (quorums C) a" "inv_logs a" "inv_terms a"
  using assms by (simp_all add: p_good_def p_inv_def)

lemma no_grant_above: "p_good C a \<Longrightarrow> p_term a n < T \<Longrightarrow> (n, T, d) \<notin> p_grants a"
  using static.votes_grant [OF good_inv(2)] leD by blast

lemma idle_commit: "idle C a n c st \<Longrightarrow> core_ok C a n (c\<lparr>commitIndex := k\<rparr>) \<Longrightarrow> idle C a n (c\<lparr>commitIndex := k\<rparr>) st"
  by (auto simp: idle_def vote_kept_def cand_ok_def lead_ok_def)

text \<open>A step that does not touch what the relation looks at.\<close>

lemma step_ok_same:
  assumes "p_good C a" "idle C a n c st" "pending c = []" "out_PersistRequest out = None" "\<forall>m \<in> set (out_Messages out). msg_ok C a m"
  shows "step_ok C a n st c out"
  using assms nstep_refl unfolding step_ok_def by (intro exI [of _ a]) simp

section \<open>Requests of a leader\<close>

lemma leader_request_ok:
  assumes ok: "core_ok C a n c" and tlog: "p_tlog a (currentTerm c) = Some (Entries c)" and m: "leader_request c m"
  shows "msg_ok C a m"
proof -
  obtain peer nx where nx: "1 \<le> nx" "m = request_at c peer nx" using m by (auto simp: leader_request_def)
  have st: "core_static C n c" using ok by (simp add: core_ok_def)
  note s = core_static_simps [OF st]
  obtain e where e: "rlog c = e # Entries c" by (rule rlog_static [OF st])
  have "nat (pos c nx) = nx" using s(5) by (simp add: pos_def)
  then have d: "drop (nat (pos c nx)) (rlog c) = drop (nx - 1) (Entries c)" using e nx(1) by (cases nx) simp_all
  have "cpre C a (currentTerm c) (take (commitIndex c) (Entries c))" using ok by (simp add: core_ok_def)
  moreover have "term_at (Entries c) i = 0" if "length (Entries c) < i" for i using that by (simp add: term_at_def)
  ultimately show ?thesis
    using nx s tlog d unfolding msg_ok_def by (auto simp: request_at_def termAt_static [OF st] not_le)
qed

lemma requests_ok:
  assumes "sends c c' out" "core_ok C a n c'" "lead_ok C a n c'"
    "m \<in> set (out_Messages out)" "msg_Type m \<in> {MsgAppendEntriesRequest, MsgInstallSnapshotRequest}"
  shows "msg_ok C a m"
proof -
  have "role c' = Leader" "leader_request c' m" using assms(1,4,5) by (auto simp: sends_def)
  moreover from this have "p_tlog a (currentTerm c') = Some (Entries c')" using assms(3) by (auto simp: lead_ok_def)
  ultimately show ?thesis by (intro leader_request_ok [OF assms(2)])
qed

section \<open>Elections\<close>

lemma core_ok_later:
  assumes "core_ok C a n c" "log_view d = log_view c" "currentTerm c \<le> currentTerm d"
  shows "core_ok C a n d"
proof -
  have "core_static C n d" using assms(1) core_static_cong [OF assms(2)] by (simp add: core_ok_def)
  moreover have "Entries d = Entries c" "commitIndex d = commitIndex c" using assms(2) by (simp_all add: log_view_def Entries_def)
  moreover have "cpre C a (currentTerm d) (take (commitIndex c) (Entries c))"
    by (rule cpre_mono [OF _ assms(3) prefix_order.order_refl]) (use assms(1) in \<open>simp add: core_ok_def\<close>)
  ultimately show ?thesis by (simp add: core_ok_def)
qed

text \<open>A node that has moved to a later term and forgotten its vote, and writes that down.\<close>

lemma busy_newterm:
  assumes idle: "idle C a n c st" and later: "p_term a n < currentTerm d"
    and d: "log_view d = log_view c" "votedFor d = []" "role d = Follower" "pending d = []"
    and p: "pr_HardState p = Some \<lparr>hs_CurrentTerm = currentTerm d, hs_VotedFor = []\<rparr>" "pr_TruncateFrom p = 0" "pr_Entries p = []"
  shows "busy C a n d st p"
proof -
  have "core_ok C a n d" using idle core_ok_later [OF _ d(1)] later by (simp add: idle_def)
  moreover have "Entries d = Entries c" using d(1) by (simp add: log_view_def Entries_def)
  ultimately show ?thesis
    using idle later d p by (simp add: busy_def idle_def hs_plan_def log_plan_def cand_ok_def lead_ok_def)
qed

lemma stepDownOnReply_ok:
  assumes good: "p_good C a" and idle: "idle C a n c st" "pending c = []" and later: "currentTerm c < msg_Term m"
  shows "step_ok C a n st (fst (stepDownOnReply m c)) (snd (stepDownOnReply m c))"
proof -
  have t: "p_term a n < msg_Term m" using idle(1) later by (simp add: idle_def)
  show ?thesis unfolding step_ok_def
  proof (intro exI conjI)
    show "nstep C n a a" by (rule nstep_refl [OF good])
    show "case out_PersistRequest (snd (stepDownOnReply m c)) of
        None \<Rightarrow> idle C a n (fst (stepDownOnReply m c)) st \<and> pending (fst (stepDownOnReply m c)) = []
      | Some p \<Rightarrow> busy C a n (fst (stepDownOnReply m c)) st p"
      using t idle(2) by (auto simp: stepDownOnReply_def Let_def shared_steps intro!: busy_newterm [OF idle(1)])
    show "\<forall>m \<in> set (out_Messages (snd (stepDownOnReply m c))). msg_ok C a m"
      by (simp add: stepDownOnReply_def Let_def shared_steps)
  qed
qed

lemma Majority_ge_2: "2 \<le> length (Voters C) \<Longrightarrow> 2 \<le> Majority C"
  by (simp add: Majority_def)

lemma handleElectionTimeout_ok:
  assumes good: "p_good C a" and idle: "idle C a n c st" "pending c = []" and C: "2 \<le> length (Voters C)"
  shows "step_ok C a n st (fst (handleElectionTimeout c)) (snd (handleElectionTimeout c))"
proof -
  have cs: "core_static C n c" by (rule idle_static [OF idle(1)])
  note s = core_static_simps [OF cs]
  consider "role c = Leader" | "role c \<noteq> Leader" "n \<notin> voter_ids C" | "role c \<noteq> Leader" "n \<in> voter_ids C" by blast
  then show ?thesis
  proof cases
    case 1
    then show ?thesis using idle by (simp add: handleElectionTimeout_eq step_ok_same [OF good])
  next
    case 2
    then have "idle C a n (c\<lparr>heardFromLeader := False\<rparr>) st" using idle(1) by (auto simp: idle_defs)
    then show ?thesis using 2 idle(2) s by (simp add: handleElectionTimeout_eq IsVoter_iff step_ok_same [OF good])
  next
    case 3
    define a' where "a' = a\<lparr>p_claims := insert (n, Suc (p_term a n), p_log a n) (p_claims a)\<rparr>"
    have ns: "nstep C n a a'" unfolding a'_def by (rule nstep_claim [OF good s(4)])
    have ext: "extends a a'" using ns by (simp add: nstep_def)
    have eq: "handleElectionTimeout c = (candidate c, campaign c)"
      using 3 s Majority_ge_2 [OF C] by (simp add: handleElectionTimeout_eq IsVoter_iff)
    have "core_ok C a' n (candidate c)"
      using core_ok_frame [OF ext] core_ok_later [of C a n c "candidate c"] idle(1)
      by (simp add: idle_def candidate_def)
    moreover have "stored a' n st" using idle(1) by (simp add: idle_def stored_def a'_def)
    ultimately have "busy C a' n (candidate c) st \<lparr>pr_Seq = persistSeq c + 1,
       pr_HardState = Some \<lparr>hs_CurrentTerm = currentTerm c + 1, hs_VotedFor = cfg_ID (c_cfg c)\<rparr>,
       pr_TruncateFrom = 0, pr_Entries = []\<rparr>"
      using 3 idle s no_grant_above [OF good, of n "Suc (p_term a n)"]
      by (auto simp: busy_def hs_plan_def log_plan_def campaigning_def lead_ok_def idle_def candidate_def a'_def up_to_date_def)
    moreover have "msg_ok C a' m" if "m \<in> set (out_Messages (campaign c))" for m
      using that s idle(1) lastTerm_static [OF cs]
      by (auto simp: campaign_def vote_request_def msg_ok_def a'_def idle_def)
    ultimately show ?thesis using ns unfolding step_ok_def eq by (intro exI [of _ a']) (simp add: campaign_def)
  qed
qed

text \<open>A vote.\<close>

lemma busy_vote:
  assumes good: "p_good C a" and idle: "idle C a n c st" and claim: "(v, currentTerm d, M) \<in> p_claims a" and up: "up_to_date M (Entries c)"
    and n: "n \<in> voter_ids C" and once: "\<And>v'. (n, currentTerm d, v') \<in> p_grants a \<Longrightarrow> v' = v"
    and d: "log_view d = log_view c" "votedFor d = v" "p_term a n \<le> currentTerm d"
      "role d = Follower \<or> currentTerm d = currentTerm c \<and> role d = role c \<and> votesReceived d = votesReceived c \<and> matchIndex d = matchIndex c"
      "\<forall>x \<in> set (pending d). pi_kind x = pendingVoteGrant \<and> pi_seq x \<le> pr_Seq p"
    and p: "pr_HardState p = Some \<lparr>hs_CurrentTerm = currentTerm d, hs_VotedFor = v\<rparr>" "pr_TruncateFrom p = 0" "pr_Entries p = []"
  shows "busy C a n d st p"
proof -
  have v: "v \<noteq> []" using good claim unfolding p_good_def by blast
  have "core_ok C a n d" using idle d(3) core_ok_later [OF _ d(1)] by (simp add: idle_def)
  moreover have E: "Entries d = Entries c" using d(1) by (simp add: log_view_def Entries_def)
  moreover have "cand_ok C a n d \<and> lead_ok C a n d"
    using idle d(4) E by (auto simp: idle_def cand_ok_def lead_ok_def)
  ultimately show ?thesis
    using idle claim up n once d v p by (auto simp: busy_def idle_def hs_plan_def log_plan_def item_plan_def)
qed

lemma handleRequestVoteRequest_ok:
  assumes good: "p_good C a" and idle: "idle C a n c st" "pending c = []"
    and m: "msg_ok C a m" "msg_Type m = MsgRequestVoteRequest"
  shows "step_ok C a n st (fst (handleRequestVoteRequest m c)) (snd (handleRequestVoteRequest m c))"
proof -
  have cs: "core_static C n c" by (rule idle_static [OF idle(1)])
  note s = core_static_simps [OF cs]
  obtain M where M: "(msg_From m, msg_Term m, M) \<in> p_claims a" "msg_LastLogIndex m = length M" "msg_LastLogTerm m = last_term M"
    using m by (auto simp: msg_ok_def)
  have From: "msg_From m \<noteq> []" using good M(1) unfolding p_good_def by blast
  have T: "currentTerm c = p_term a n" using idle(1) by (simp add: idle_def)
  have resp: "msg_ok C a (voteResponse c' dest False)" for c' dest by (simp add: msg_ok_def voteResponse_def)
  show ?thesis
  proof (cases "\<not> IsVoter (activeConfig c) (msg_From m) \<or> heardFromLeader c \<or> msg_Term m < currentTerm c")
    case True
    then show ?thesis using idle resp by (auto simp: handleRequestVoteRequest_def intro!: step_ok_same [OF good])
  next
    case False
    define later where "later = (msg_Term m > currentTerm c)"
    define c1 where "c1 = (if later then fst (stepDownTo (msg_Term m) c) else c)"
    define yes where "yes = ((votedFor c1 = [] \<or> votedFor c1 = msg_From m) \<and> n \<in> voter_ids C \<and> up_to_date M (Entries c))"
    have c1: "log_view c1 = log_view c" "currentTerm c1 = msg_Term m" "pending c1 = []" "activeConfig c1 = C" "cfg_ID (c_cfg c1) = n"
      using False idle(2) s by (auto simp: c1_def later_def stepDownTo_def)
    have cs1: "core_static C n c1" using cs core_static_cong [OF c1(1)] by simp
    have E: "Entries c1 = Entries c" using c1(1) by (simp add: log_view_def Entries_def)
    have yes_eq: "((votedFor c1 = [] \<or> votedFor c1 = msg_From m) \<and> IsVoter (activeConfig c1) (cfg_ID (c_cfg c1)))
        \<and> isLogUpToDate c1 (msg_LastLogIndex m) (msg_LastLogTerm m) \<longleftrightarrow> yes"
      using c1 M(2,3) isLogUpToDate_static [OF cs1, of M] E by (auto simp: yes_def IsVoter_iff)
    have once: "v' = msg_From m" if yes "(n, msg_Term m, v') \<in> p_grants a" for v'
    proof (cases later)
      case True
      then show ?thesis using that(2) no_grant_above [OF good] T by (simp add: later_def)
    next
      case same: False
      then have "c1 = c" "msg_Term m = p_term a n" using False T by (simp_all add: c1_def later_def)
      then have "votedFor c1 = v'"
        using that False idle(1) by (auto simp: idle_def vote_kept_def stored_def yes_def)
      moreover have "v' \<noteq> []" using that(2) static.votes_claim [OF good_inv(2) [OF good]] good unfolding p_good_def by blast
      ultimately show ?thesis using that(1) by (simp add: yes_def)
    qed
    define was where "was = (later \<and> (role c = Leader \<or> role c = Candidate))"
    have c1_eq: "(if msg_Term m > currentTerm c then stepDownTo (msg_Term m) c else (c, False)) = (c1, was)"
      by (auto simp: c1_def was_def later_def stepDownTo_def)
    have role1: "later \<Longrightarrow> role c1 = Follower \<and> votedFor c1 = []" "\<not> later \<Longrightarrow> c1 = c"
      by (simp_all add: c1_def stepDownTo_def)
    show ?thesis
    proof (cases yes)
      case True
      let ?p = "\<lparr>pr_Seq = persistSeq c1 + 1, pr_HardState = Some \<lparr>hs_CurrentTerm = msg_Term m, hs_VotedFor = msg_From m\<rparr>,
        pr_TruncateFrom = 0, pr_Entries = []\<rparr>"
      let ?d = "c1\<lparr>votedFor := msg_From m, c_draws := snd (electionTimeout (c_cfg c1) (c_draws c1)), persistSeq := persistSeq c1 + 1,
        pending := [\<lparr>pi_kind = pendingVoteGrant, pi_seq = persistSeq c1 + 1, pi_term = msg_Term m,
           pi_candidate = msg_From m, pi_to = [], pi_index = 0, pi_entryTerm = 0\<rparr>]\<rparr>"
      have r: "fst (handleRequestVoteRequest m c) = ?d" "out_PersistRequest (snd (handleRequestVoteRequest m c)) = Some ?p"
          "out_Messages (snd (handleRequestVoteRequest m c)) = []"
        using False True c1 unfolding handleRequestVoteRequest_def Let_def c1_eq prod.case yes_eq
        by (simp_all add: shared_steps)
      have "busy C a n ?d st ?p"
      proof (rule busy_vote [OF good idle(1), where v = "msg_From m" and M = M])
        show "(msg_From m, currentTerm ?d, M) \<in> p_claims a" using M(1) c1(2) by simp
        show "up_to_date M (Entries c)" "n \<in> voter_ids C" using True by (simp_all add: yes_def)
        show "\<And>v'. (n, currentTerm ?d, v') \<in> p_grants a \<Longrightarrow> v' = msg_From m" using once [OF True] c1(2) by simp
        show "log_view ?d = log_view c" using c1(1) by simp
        show "p_term a n \<le> currentTerm ?d" using False T c1(2) by simp
        show "role ?d = Follower \<or> currentTerm ?d = currentTerm c \<and> role ?d = role c
            \<and> votesReceived ?d = votesReceived c \<and> matchIndex ?d = matchIndex c"
          using role1 by (cases later) simp_all
      qed (use c1(2) in simp_all)
      then show ?thesis using nstep_refl [OF good] r unfolding step_ok_def by auto
    next
      case no: False
      then have h: "handleRequestVoteRequest m c =
          (let out2 = emit (voteResponse c1 (msg_From m) False) (noOutput\<lparr>out_SteppedDown := was\<rparr>)
           in if later then let s = persistHardState (c1, out2) in if was then resetElectionTimer s else s else (c1, out2))"
        using False unfolding handleRequestVoteRequest_def Let_def c1_eq prod.case yes_eq by (simp add: later_def)
      show ?thesis
      proof (cases later)
        case True
        have "busy C a n d st p" if "log_view d = log_view c1" "votedFor d = []" "role d = Follower" "pending d = []"
            "currentTerm d = msg_Term m" "p = \<lparr>pr_Seq = q, pr_HardState = Some \<lparr>hs_CurrentTerm = msg_Term m, hs_VotedFor = []\<rparr>,
              pr_TruncateFrom = 0, pr_Entries = []\<rparr>" for d p q
          using that c1 True T by (intro busy_newterm [OF idle(1)]) (auto simp: later_def)
        then show ?thesis using True h role1(1) [OF True] c1 resp nstep_refl [OF good]
          unfolding step_ok_def by (intro exI [of _ a]) (auto simp: Let_def shared_steps)
      next
        case same: False
        then show ?thesis using h role1(2) idle resp by (auto simp: Let_def intro!: step_ok_same [OF good])
      qed
    qed
  qed
qed

section \<open>Becoming leader\<close>

lemma mget0_mput [simp]: "mget0 (mput k x m) v = (if v = k then x else mget0 m v)"
  by (simp add: mget0_def)

lemma mget0_mputs_0: "mget0 m v = 0 \<Longrightarrow> mget0 (mputs mem_ID (\<lambda>_. 0) xs m) v = 0"
  by (induction xs arbitrary: m) (simp_all add: mget0_def)

lemma becomeLeader_fields:
  assumes "becomeLeader (c, out) = (c', out')"
  shows "log_view c' = log_view c" "role c' = Leader" "currentTerm c' = currentTerm c" "votedFor c' = votedFor c"
    "heardFromLeader c' = heardFromLeader c" "pending c' = pending c" "out_PersistRequest out' = out_PersistRequest out"
    "mget0 (matchIndex c') v = (if v = cfg_ID (c_cfg c) then lastIndex c else 0)"
proof -
  let ?members = "Voters (activeConfig c) @ Learners (activeConfig c)"
  let ?c = "c\<lparr>role := Leader, leaderID := cfg_ID (c_cfg c), votesReceived := [],
    pendingConfIndex := lastIndex c, nextIndex := mputs mem_ID (\<lambda>_. lastIndex c + 1) ?members [],
    matchIndex := mput (cfg_ID (c_cfg c)) (lastIndex c) (mputs mem_ID (\<lambda>_. 0) ?members [])\<rparr>"
  let ?out = "out\<lparr>out_BecameLeader := True, out_ResetHeartbeatTimer := True,
    out_HeartbeatTimeoutTicks := cfg_HeartbeatTimeoutTicks (c_cfg c)\<rparr>"
  have "becomeLeader (c, out) = broadcastAppend (?c, ?out)" by (simp add: becomeLeader_def Let_def)
  then obtain ni ms where b: "c' = ?c\<lparr>nextIndex := ni\<rparr>" "out' = ?out\<lparr>out_Messages := out_Messages ?out @ ms\<rparr>"
    using broadcastAppend_frame [of ?c ?out] assms by auto
  show "mget0 (matchIndex c') v = (if v = cfg_ID (c_cfg c) then lastIndex c else 0)"
    using mget0_mputs_0 [of "[]" v ?members] by (simp add: b(1) mget0_def [of "[]"])
  show "log_view c' = log_view c" "role c' = Leader" "currentTerm c' = currentTerm c" "votedFor c' = votedFor c"
    "heardFromLeader c' = heardFromLeader c" "pending c' = pending c" "out_PersistRequest out' = out_PersistRequest out"
    by (simp_all add: b)
qed

lemma votes_quorum:
  assumes "wf_config C" "mwf vs" "\<forall>v \<in> set (mkeys vs). v \<in> voter_ids C" "Majority C \<le> length vs"
  shows "set (mkeys vs) \<in> quorums C"
proof -
  have "card (set (mkeys vs)) = length vs" using assms(2) distinct_card [of "mkeys vs"] by (simp add: mkeys_def)
  then show ?thesis using assms by (auto simp: quorums_def quorum_def)
qed

lemma becomeLeader_ok:
  assumes good: "p_good C a" and idle: "idle C a n c st" "pending c = []" and cand: "role c = Candidate"
    and C: "wf_config C" and votes: "Majority C \<le> length (votesReceived c)"
    and b: "becomeLeader (c, noOutput) = (c', out')" and sends: "sends d c' out'"
    and types: "\<forall>m \<in> set (out_Messages out'). msg_Type m \<in> {MsgAppendEntriesRequest, MsgInstallSnapshotRequest}"
  shows "step_ok C a n st c' out'"
proof -
  have cs: "core_static C n c" by (rule idle_static [OF idle(1)])
  note s = core_static_simps [OF cs]
  note f = becomeLeader_fields [OF b]
  define T where "T = currentTerm c"
  have T: "p_term a n = T" "p_cand a n = Some T" "p_log a n = Entries c" "mwf (votesReceived c)"
      "\<forall>v \<in> set (mkeys (votesReceived c)). v \<in> voter_ids C" "\<And>v. v \<in> set (mkeys (votesReceived c)) \<Longrightarrow> (v, T, n) \<in> p_grants a"
      "n \<in> voter_ids C"
    using idle(1) cand by (auto simp: idle_def cand_ok_def T_def)
  have E: "Entries c' = Entries c" using f(1) by (simp add: log_view_def Entries_def)
  define a1 where "a1 = a\<lparr>p_tlog := (p_tlog a)(T \<mapsto> p_log a n), p_elog := (p_elog a)(T := p_log a n),
          p_lead := (p_lead a)(T := n), p_cand := (p_cand a)(n := None)\<rparr>"
  have n1: "nstep C n a a1" unfolding a1_def
    using cs s(9) T(3) by (intro nstep_elect [OF good T(2,1) votes_quorum [OF C T(4,5) votes]] T(6))
      (auto simp: core_static_def)
  define a2 where "a2 = a1\<lparr>p_oks := p_oks a1 \<union> {(n, T, j) |j. j \<le> length (Entries c)}\<rparr>"
  have n2: "nstep C n a1 a2" unfolding a2_def
    by (rule nstep_ack [OF nstep_good [OF n1], where L = "Entries c"]) (simp_all add: a1_def T)
  have n12: "nstep C n a a2" by (rule nstep_trans [OF n1 n2])
  then have ext: "extends a a2" by (simp add: nstep_def)
  have core: "core_ok C a2 n c'"
    using core_ok_frame [OF ext] core_ok_later [OF _ f(1), of C a n] idle(1) f(3) by (simp add: idle_def)
  have lead: "lead_ok C a2 n c'"
    using f s T E by (auto simp: lead_ok_def a2_def a1_def T_def)
  have "idle C a2 n c' st"
    using core lead idle(1) f E T
    by (auto simp: idle_def stored_def vote_kept_def cand_ok_def a2_def a1_def T_def)
  moreover have "msg_ok C a2 m" if "m \<in> set (out_Messages out')" for m
    using requests_ok [OF sends core lead that] types that by blast
  ultimately show ?thesis using n12 f(6,7) idle(2) unfolding step_ok_def by (intro exI [of _ a2]) simp
qed

lemma becomeLeader_types:
  assumes "becomeLeader (c, noOutput) = (c', out')" "m \<in> set (out_Messages out')"
  shows "msg_Type m \<in> {MsgAppendEntriesRequest, MsgInstallSnapshotRequest}"
  using becomeLeader_frame [of c noOutput] assms leader_request_fields(3) by fastforce

lemma handleRequestVoteResponse_ok:
  assumes good: "p_good C a" and idle: "idle C a n c st" "pending c = []" and C: "wf_config C"
    and m: "msg_ok C a m" "msg_Type m = MsgRequestVoteResponse" "msg_To m = n"
  shows "step_ok C a n st (fst (handleRequestVoteResponse m c)) (snd (handleRequestVoteResponse m c))"
proof -
  have cs: "core_static C n c" by (rule idle_static [OF idle(1)])
  note s = core_static_simps [OF cs]
  consider "msg_Term m > currentTerm c"
    | "\<not> msg_Term m > currentTerm c" "role c \<noteq> Candidate \<or> msg_Term m \<noteq> currentTerm c \<or> \<not> msg_VoteGranted m"
    | "role c = Candidate" "msg_Term m = currentTerm c" "msg_VoteGranted m" by blast
  then show ?thesis
  proof cases
    case 1
    then show ?thesis using stepDownOnReply_ok [OF good idle, of m] by (simp add: handleRequestVoteResponse_def)
  next
    case 2
    then have "handleRequestVoteResponse m c = (c, noOutput)" by (simp add: handleRequestVoteResponse_def)
    then show ?thesis using idle by (simp add: step_ok_same [OF good])
  next
    case 3
    define c1 where "c1 = c\<lparr>votesReceived := mput (msg_From m) True (votesReceived c)\<rparr>"
    have v: "msg_From m \<in> voter_ids C" "(msg_From m, currentTerm c, n) \<in> p_grants a" using m 3 by (auto simp: msg_ok_def)
    then have i1: "idle C a n c1 st"
      using idle(1) 3(1) by (auto simp: idle_def core_ok_def vote_kept_def cand_ok_def lead_ok_def c1_def gm.keys_put)
    show ?thesis
    proof (cases "Majority C \<le> length (votesReceived c1)")
      case True
      obtain c' out' where b: "becomeLeader (c1, noOutput) = (c', out')" by (cases "becomeLeader (c1, noOutput)")
      have h: "handleRequestVoteResponse m c = (c', out')"
        using 3 True s b by (simp add: handleRequestVoteResponse_def c1_def)
      have "step_ok C a n st c' out'"
        using idle(2) 3(1) handleRequestVoteResponse_sends [of c m] h becomeLeader_types [OF b]
        by (intro becomeLeader_ok [OF good i1 _ _ C True b, of c]) (auto simp: c1_def)
      then show ?thesis by (simp add: h)
    next
      case False
      then have "handleRequestVoteResponse m c = (c1, noOutput)"
        using 3 s by (simp add: handleRequestVoteResponse_def c1_def)
      then show ?thesis using i1 idle(2) by (simp add: step_ok_same [OF good] c1_def)
    qed
  qed
qed

section \<open>Leaders\<close>

lemma handleHeartbeatTimeout_ok:
  assumes good: "p_good C a" and idle: "idle C a n c st" "pending c = []"
  shows "step_ok C a n st (fst (handleHeartbeatTimeout c)) (snd (handleHeartbeatTimeout c))"
proof (cases "role c = Leader")
  case True
  obtain ni ms where b: "handleHeartbeatTimeout c = (c\<lparr>nextIndex := ni\<rparr>, noOutput\<lparr>out_ResetHeartbeatTimer := True,
      out_HeartbeatTimeoutTicks := cfg_HeartbeatTimeoutTicks (c_cfg c), out_Messages := ms\<rparr>)" "\<forall>m \<in> set ms. leader_request c m"
    using True broadcastAppend_frame [of c "noOutput\<lparr>out_ResetHeartbeatTimer := True,
      out_HeartbeatTimeoutTicks := cfg_HeartbeatTimeoutTicks (c_cfg c)\<rparr>"] by (auto simp: handleHeartbeatTimeout_def)
  have "core_ok C a n c" "p_tlog a (currentTerm c) = Some (Entries c)" using idle(1) True by (auto simp: idle_def lead_ok_def)
  then have "\<forall>m \<in> set ms. msg_ok C a m" using b(2) leader_request_ok by blast
  then show ?thesis using b idle by (simp add: step_ok_same [OF good])
qed (use idle in \<open>simp add: handleHeartbeatTimeout_def step_ok_same [OF good]\<close>)

lemma oks_below: "p_good C a \<Longrightarrow> (v, t, i) \<in> p_oks a \<Longrightarrow> j \<le> i \<Longrightarrow> (v, t, j) \<in> p_oks a"
  unfolding p_good_def by blast

lemma oks_length:
  assumes "p_good C a" "(v, t, i) \<in> p_oks a" "p_tlog a t = Some L"
  shows "i \<le> length L"
  using assms static.acks_tlog [of a v t i] by (auto simp: p_good_def p_inv_def)

text \<open>A majority of matching voters is a quorum of acknowledgements.\<close>

lemma leader_committed:
  assumes good: "p_good C a" and idle: "idle C a n c st" and lead: "role c = Leader" and C: "wf_config C"
    and k: "0 < k" "k \<le> length (Entries c)" "termAt c k = currentTerm c" "Majority C \<le> matching c k"
  shows "p_committed (quorums C) a (currentTerm c) k"
proof -
  have cs: "core_static C n c" by (rule idle_static [OF idle])
  note s = core_static_simps [OF cs]
  have l: "p_tlog a (currentTerm c) = Some (Entries c)"
      "\<And>v. v \<noteq> n \<Longrightarrow> 0 < mget0 (matchIndex c) v \<Longrightarrow> (v, currentTerm c, mget0 (matchIndex c) v) \<in> p_oks a"
      "mget0 (matchIndex c) n \<le> length (Entries c)" "(n, currentTerm c, length (Entries c)) \<in> p_oks a"
    using idle lead by (auto simp: idle_def lead_ok_def)
  have "own a (currentTerm c) k" using k l(1) by (simp add: own_def termAt_static [OF cs] term_at_def)
  moreover have "{v \<in> voter_ids C. k \<le> mget0 (matchIndex c) v} \<in> quorums C"
    using matching_card [of c k] k(4) s(6) C by (auto simp: quorums_def quorum_def)
  moreover have "(v, currentTerm c, k) \<in> p_oks a" if "k \<le> mget0 (matchIndex c) v" for v
    using that k l(2) [of v] l(3,4) oks_below [OF good] by (cases "v = n") (auto intro: order_trans)
  ultimately show ?thesis unfolding p_committed_def
    by (intro conjI bexI [of _ "{v \<in> voter_ids C. k \<le> mget0 (matchIndex c) v}"]) auto
qed

lemma advanceLeaderCommit_ok:
  assumes good: "p_good C a" and idle: "idle C a n c st" and lead: "role c = Leader" and C: "wf_config C"
    and adv: "advanceLeaderCommit (c, out) = (c', out')"
  shows "idle C a n c' st" "role c' = Leader" "pending c' = pending c" "out_Messages out' = out_Messages out"
    "out_PersistRequest out' = out_PersistRequest out" "currentTerm c' = currentTerm c"
proof -
  have cs: "core_static C n c" by (rule idle_static [OF idle])
  note s = core_static_simps [OF cs]
  have n: "n \<in> voter_ids C" using idle lead by (auto simp: idle_def lead_ok_def)
  have f: "out_Messages out' = out_Messages out" "out_PersistRequest out' = out_PersistRequest out"
     "pending c' = pending c" "currentTerm c' = currentTerm c"
    using advanceLeaderCommit_frame [of c out] adv by simp_all
  have "idle C a n c' st \<and> role c' = Leader"
  proof (cases "commit_scan c (lastIndex c)")
    case None
    then show ?thesis using adv idle lead by (simp add: advanceLeaderCommit_def)
  next
    case (Some k)
    have c': "c' = c\<lparr>commitIndex := k\<rparr>"
      using adv Some s n by (auto simp: advanceLeaderCommit_def maybeStepDownAfterSelfRemoval_def IsVoter_iff)
    have k: "0 < k" "k \<le> length (Entries c)" "termAt c k = currentTerm c" "Majority C \<le> matching c k"
      using commit_scan_Some [OF Some] s by auto
    have p: "p_committed (quorums C) a (currentTerm c) k" by (rule leader_committed [OF good idle lead C k])
    obtain es where "commits c c' es" using advanceLeaderCommit_commits [OF s(1), of out] adv by auto
    then have "core_static C n c'" by (rule core_static_commits [OF cs])
    moreover have "take k (Entries c) = lcut a (currentTerm c) k" using idle lead by (auto simp: lcut_def idle_def lead_ok_def)
    then have "cpre C a (currentTerm c) (take k (Entries c))" using p unfolding cpre_def by (metis order_refl prefix_order.order_refl)
    ultimately have "core_ok C a n c'" by (simp add: core_ok_def c')
    then show ?thesis using idle_commit [OF idle] lead by (simp add: c')
  qed
  then show "idle C a n c' st" "role c' = Leader" "pending c' = pending c" "out_Messages out' = out_Messages out"
    "out_PersistRequest out' = out_PersistRequest out" "currentTerm c' = currentTerm c" using f by simp_all
qed

lemma bumpProgress_ok:
  assumes good: "p_good C a" and idle: "idle C a n c st" and lead: "role c = Leader"
    and m: "(msg_From m, currentTerm c, msg_MatchIndex m) \<in> p_oks a"
  shows "idle C a n (bumpProgress m c) st" "role (bumpProgress m c) = Leader" "pending (bumpProgress m c) = pending c"
    "currentTerm (bumpProgress m c) = currentTerm c"
proof -
  have "p_tlog a (currentTerm c) = Some (Entries c)" using idle lead by (auto simp: idle_def lead_ok_def)
  then have "msg_MatchIndex m \<le> length (Entries c)" by (rule oks_length [OF good m])
  then have "idle C a n (c\<lparr>matchIndex := mput (msg_From m) (msg_MatchIndex m) (matchIndex c)\<rparr>) st"
    using idle lead m by (auto simp: idle_def core_ok_def vote_kept_def cand_ok_def lead_ok_def)
  then show "idle C a n (bumpProgress m c) st" using idle by (simp add: bumpProgress_def Let_def)
qed (use lead in \<open>simp_all add: bumpProgress_def Let_def\<close>)

lemma sendAppend_ok:
  assumes good: "p_good C a" and idle: "idle C a n c st" and lead: "role c = Leader"
    and s: "sendAppend peer (c, out) = (c', out')"
  shows "idle C a n c' st" "pending c' = pending c" "out_PersistRequest out' = out_PersistRequest out"
    "\<forall>m \<in> set (out_Messages out'). m \<in> set (out_Messages out) \<or> msg_ok C a m"
proof -
  obtain ni m where f: "c' = c\<lparr>nextIndex := ni\<rparr>" "out' = emit m out" "leader_request c m"
    using sendAppend_frame [of peer c out] s by auto
  have "core_ok C a n c" "p_tlog a (currentTerm c) = Some (Entries c)" using idle lead by (auto simp: idle_def lead_ok_def)
  then have "msg_ok C a m" using f(3) leader_request_ok by blast
  then show "idle C a n c' st" "pending c' = pending c" "out_PersistRequest out' = out_PersistRequest out"
    "\<forall>m \<in> set (out_Messages out'). m \<in> set (out_Messages out) \<or> msg_ok C a m"
    using idle f by simp_all
qed

lemma acknowledge_ok:
  assumes good: "p_good C a" and idle: "idle C a n c st" "pending c = []" and lead: "role c = Leader" and C: "wf_config C"
    and m: "(msg_From m, currentTerm c, msg_MatchIndex m) \<in> p_oks a"
  shows "step_ok C a n st (fst (acknowledge m c)) (snd (acknowledge m c))"
proof -
  note b = bumpProgress_ok [OF good idle(1) lead m]
  obtain c1 out where adv: "advanceLeaderCommit (bumpProgress m c, noOutput) = (c1, out)"
    by (cases "advanceLeaderCommit (bumpProgress m c, noOutput)")
  note l = advanceLeaderCommit_ok [OF good b(1,2) C adv]
  obtain c2 out2 where sa: "sendAppend (msg_From m) (c1, out) = (c2, out2)" by (cases "sendAppend (msg_From m) (c1, out)")
  note s = sendAppend_ok [OF good l(1,2) sa]
  have "acknowledge m c \<in> {(c1, out), (c2, out2)}" using adv sa by (simp add: acknowledge_def)
  moreover have "step_ok C a n st c1 out" using l b(3) idle(2) by (intro step_ok_same [OF good]) simp_all
  moreover have "step_ok C a n st c2 out2" using l s b(3) idle(2) by (intro step_ok_same [OF good]) auto
  ultimately show ?thesis by auto
qed

lemma handleAppendEntriesResponse_ok:
  assumes good: "p_good C a" and idle: "idle C a n c st" "pending c = []" and C: "wf_config C"
    and m: "msg_ok C a m" "msg_Type m = MsgAppendEntriesResponse"
  shows "step_ok C a n st (fst (handleAppendEntriesResponse m c)) (snd (handleAppendEntriesResponse m c))"
proof -
  consider "msg_Term m > currentTerm c"
    | "\<not> msg_Term m > currentTerm c" "role c \<noteq> Leader \<or> msg_Term m \<noteq> currentTerm c"
    | "role c = Leader" "msg_Term m = currentTerm c" "msg_Success m"
    | "role c = Leader" "msg_Term m = currentTerm c" "\<not> msg_Success m" by blast
  then show ?thesis
  proof cases
    case 1
    then show ?thesis using stepDownOnReply_ok [OF good idle, of m] by (simp add: handleAppendEntriesResponse_def)
  next
    case 2
    then have "handleAppendEntriesResponse m c = (c, noOutput)" by (simp add: handleAppendEntriesResponse_def)
    then show ?thesis using idle by (simp add: step_ok_same [OF good])
  next
    case 3
    then show ?thesis using acknowledge_ok [OF good idle 3(1) C, of m] m by (simp add: handleAppendEntriesResponse_def msg_ok_def)
  next
    case 4
    define found where "found = (if msg_ConflictTerm m \<noteq> 0 then find_term c (msg_ConflictTerm m) (lastIndex c) else 0)"
    define nx where "nx = (if found \<noteq> 0 then found else msg_ConflictIndex m)"
    define nx' where "nx' = (if nx < 1 then 1 else nx)"
    define d where "d = (if nx' < mget0 (nextIndex c) (msg_From m)
      then c\<lparr>nextIndex := mput (msg_From m) nx' (nextIndex c)\<rparr> else c)"
    have h: "handleAppendEntriesResponse m c
        = (if IsMember (activeConfig d) (msg_From m) then sendAppend (msg_From m) (d, noOutput) else (d, noOutput))"
      using 4 by (simp add: handleAppendEntriesResponse_def Let_def found_def nx_def nx'_def d_def)
    have d: "idle C a n d st" "role d = Leader" "pending d = []" using idle 4(1) by (simp_all add: d_def)
    obtain d' out' where sa: "sendAppend (msg_From m) (d, noOutput) = (d', out')" by (cases "sendAppend (msg_From m) (d, noOutput)")
    have "step_ok C a n st d' out'" using sendAppend_ok [OF good d(1,2) sa] d(3) by (intro step_ok_same [OF good]) auto
    moreover have "step_ok C a n st d noOutput" using d by (simp add: step_ok_same [OF good])
    ultimately show ?thesis by (simp add: h sa)
  qed
qed

section \<open>Proposals\<close>

lemma handlePropose_ok:
  assumes good: "p_good C a" and idle: "idle C a n c st" "pending c = []"
  shows "\<exists>c' out. handlePropose data c = Inr (c', out) \<and> step_ok C a n st c' out"
proof (cases "role c = Leader")
  case False
  then show ?thesis using idle by (simp add: handlePropose_def step_ok_same [OF good])
next
  case True
  have cs: "core_static C n c" by (rule idle_static [OF idle(1)])
  note s = core_static_simps [OF cs]
  define e where "e = leader_entry c EntryNormal data"
  define T where "T = currentTerm c"
  have l: "p_tlog a T = Some (Entries c)" "p_lead a T = n" "p_term a n = T" "p_log a n = Entries c"
    using idle(1) True by (auto simp: idle_def lead_ok_def T_def)
  have e: "ent_Term e = T" "ent_Index e = Suc (length (Entries c))" "ent_Type e = EntryNormal"
    by (simp_all add: e_def leader_entry_def s T_def)
  define c3 where "c3 = c\<lparr>rlog := rlog c @ [e], matchIndex := mput n (Suc (length (Entries c))) (matchIndex c),
    persistSeq := persistSeq c + 1, pending := [\<lparr>pi_kind = pendingSelfMatch, pi_seq = persistSeq c + 1, pi_term = T,
      pi_candidate = [], pi_to = [], pi_index = Suc (length (Entries c)), pi_entryTerm = T\<rparr>]\<rparr>"
  let ?p = "\<lparr>pr_Seq = persistSeq c + 1, pr_HardState = None, pr_TruncateFrom = 0, pr_Entries = [e]\<rparr>"
  have h: "handlePropose data c = Inr (broadcastAppend (c3, noOutput\<lparr>out_PersistRequest := Some ?p\<rparr>))"
    using True s idle(2) by (simp add: handlePropose_def appendLeaderEntry_def Let_def c3_def e_def leader_entry_def T_def)
  obtain ni ms where b: "broadcastAppend (c3, noOutput\<lparr>out_PersistRequest := Some ?p\<rparr>)
      = (c3\<lparr>nextIndex := ni\<rparr>, noOutput\<lparr>out_PersistRequest := Some ?p, out_Messages := ms\<rparr>)" "\<forall>m \<in> set ms. leader_request c3 m"
    using broadcastAppend_frame [of c3 "noOutput\<lparr>out_PersistRequest := Some ?p\<rparr>"] by auto
  define a' where "a' = a\<lparr>p_tlog := (p_tlog a)(T \<mapsto> Entries c @ [e])\<rparr>"
  have ns: "nstep C n a a'" unfolding a'_def by (rule nstep_append [OF good l(1) e(1) l(2) e(2,3)])
  then have ext: "extends a a'" by (simp add: nstep_def)
  have E: "Entries c3 = Entries c @ [e]"
  proof -
    obtain x where "rlog c = x # Entries c" by (rule rlog_static [OF cs])
    then show ?thesis by (simp add: c3_def)
  qed
  have cs3: "core_static C n c3"
  proof -
    have "log_step c (c3\<lparr>nextIndex := ni\<rparr>) (noOutput\<lparr>out_PersistRequest := Some ?p, out_Messages := ms\<rparr>)"
      using handlePropose_log_step [OF s(1)] h b(1) by simp
    then have "core_inv (c3\<lparr>nextIndex := ni\<rparr>)" by (rule log_step_core_inv [OF s(1)])
    moreover have "log_view (c3\<lparr>nextIndex := ni\<rparr>) = log_view c3" by simp
    ultimately have "core_inv c3" using core_inv_cong by blast
    then show ?thesis using cs E e(3) by (auto simp: core_static_def c3_def)
  qed
  have core: "core_ok C a' n c3"
  proof -
    have "cpre C a' T (take (commitIndex c) (Entries c))"
      using cpre_extends [OF ext idle_cpre [OF idle(1)]] by (simp add: T_def)
    then show ?thesis using cs3 s(10) E by (simp add: core_ok_def c3_def T_def)
  qed
  have tlog: "p_tlog a' (currentTerm c3) = Some (Entries c3)" using E by (simp add: a'_def c3_def T_def)
  have "lead_ok C a' n c3"
    using idle(1) True E tlog l unfolding lead_ok_def by (auto simp: idle_def lead_ok_def c3_def a'_def T_def)
  moreover have "stored a' n st" using idle(1) by (simp add: idle_def stored_def a'_def)
  moreover have "vote_kept C n c3 st" using idle(1) by (simp add: idle_def vote_kept_def c3_def)
  moreover have "log_plan a' n c3 ?p"
    unfolding log_plan_def using tlog E l
    by (intro disjI2 exI [of _ "Entries c3"] exI [of _ "length (Entries c)"]) (simp add: a'_def)
  moreover have "cand_ok C a' n c3" using True by (simp add: cand_ok_def c3_def)
  ultimately have "busy C a' n c3 st ?p"
    using core E l unfolding busy_def by (auto simp: hs_plan_def item_plan_def c3_def T_def a'_def)
  then have "busy C a' n (c3\<lparr>nextIndex := ni\<rparr>) st ?p" by (simp add: busy_nextIndex)
  moreover have "\<forall>m \<in> set ms. msg_ok C a' m" using leader_request_ok [OF core tlog] b(2) by blast
  ultimately show ?thesis using h b(1) ns unfolding step_ok_def by auto
qed

end
