(* ===== verification/Raft_Follower.thy ===== *)
theory Raft_Follower
  imports Raft_Simulate
begin

text \<open>
  A follower that takes entries from the leader: the request never makes it truncate a committed
  entry, the log it ends up with is a prefix of the leader's log as far as the request goes, and
  its reply is an acknowledgement of that prefix.
\<close>

section \<open>The loop over the entries\<close>

lemma append_scan_no_panic:
  assumes "\<And>x. x < length es \<Longrightarrow> prev + 1 + i + x \<le> commitIndex c \<Longrightarrow> termAt c (prev + 1 + i + x) = ent_Term (es ! x)"
  shows "\<exists>r. append_scan prev i es c = Inr r"
  using assms
proof (induction es arbitrary: i)
  case (Cons e es)
  have "\<exists>r. append_scan prev (i + 1) es c = Inr r"
    using Cons.prems [of "Suc _"] by (intro Cons.IH) simp
  then show ?case using Cons.prems [of 0] by (auto simp: Let_def)
qed simp

lemma activate_loop_normal: "\<forall>e \<in> set es. ent_Type e = EntryNormal \<Longrightarrow> activate_loop prior es c = Inr c"
  by (induction es) auto

lemma acceptEntries_returns:
  assumes "\<And>x. x < length (msg_Entries m) \<Longrightarrow> msg_PrevLogIndex m + 1 + x \<le> commitIndex c
      \<Longrightarrow> termAt c (msg_PrevLogIndex m + 1 + x) = ent_Term (msg_Entries m ! x)"
    and "\<forall>e \<in> set (msg_Entries m). ent_Type e = EntryNormal"
  shows "\<exists>c' out'. acceptEntries m changed (c, out) = Inr (c', out')"
proof -
  obtain c1 tf j where "append_scan (msg_PrevLogIndex m) 0 (msg_Entries m) c = Inr (c1, tf, j)"
    using append_scan_no_panic [of "msg_Entries m" "msg_PrevLogIndex m" 0 c] assms(1) by auto
  moreover have "activate_loop prior (drop j (msg_Entries m)) d = Inr d" for prior d
    using assms(2) by (intro activate_loop_normal) (auto dest: in_set_dropD)
  ultimately show ?thesis
    by (auto simp: acceptEntries_def activateFromAppendedEntries_def Let_def case_prod_beta)
qed

section \<open>The log of the follower and the log of the leader\<close>

text \<open>What the loop compares are terms; by log matching the entries are the same.\<close>

lemma match_take:
  assumes good: "p_good C a" and L: "p_tlog a T = Some L" and i: "i \<le> length (p_log a n)" "i \<le> length L"
    and eq: "0 < i \<Longrightarrow> term_at (p_log a n) i = term_at L i"
  shows "take i (p_log a n) = take i L"
proof (cases "i = 0")
  case False
  have "consistent a (p_log a n)" "consistent a L" using good_inv(3) [OF good] L by (auto simp: inv_logs_def)
  then show ?thesis using consistent_match [of a "p_log a n" L i] False i eq by (simp add: term_at_def)
qed simp

text \<open>The entries of a request in the log of the leader.\<close>

lemma request_entries:
  assumes "prefix es (drop p L)"
  shows "p + length es \<le> length L \<or> es = []" "x < length es \<Longrightarrow> es ! x = L ! (p + x) \<and> p + x < length L"
    "take p L @ es = take (p + length es) L"
proof -
  obtain zs where zs: "drop p L = es @ zs" using assms by (auto elim!: prefixE)
  show len: "p + length es \<le> length L \<or> es = []" using arg_cong [OF zs, of length] by (cases "p \<le> length L") auto
  show "x < length es \<Longrightarrow> es ! x = L ! (p + x) \<and> p + x < length L"
    using arg_cong [OF zs, of "\<lambda>ys. ys ! x"] len by (auto simp: nth_append)
  have "take (p + length es) L = take p L @ take (length es) (drop p L)" by (rule take_add)
  then show "take p L @ es = take (p + length es) L" by (simp add: zs)
qed

lemma accepted_log:
  assumes good: "p_good C a" and cs: "core_static C n c" and E: "Entries c = p_log a n" and L: "p_tlog a T = Some L"
    and acc: "accepted p es c j k" and es: "prefix es (drop p L)" and p: "p \<le> length L" "take p (Entries c) = take p L"
    and X: "X = drop 1 (take k (rlog c) @ drop j es)"
  shows "X = take (k - 1) (Entries c) @ drop j es" "prefix (take (p + length es) L) X" "p + length es \<le> length L"
    "take (commitIndex c) X = take (commitIndex c) (Entries c)" "commitIndex c \<le> length X"
    "j = length es \<and> X = Entries c
     \<or> k - 1 = p + j \<and> X = take (p + length es) L \<and> take (k - 1) (Entries c) = take (k - 1) L \<and> k - 1 \<le> length (Entries c)
        \<and> (k - 1 = length (Entries c) \<or> k - 1 < length L \<and> Entries c ! (k - 1) \<noteq> L ! (k - 1))"
proof -
  note s = core_static_simps [OF cs]
  obtain e where e: "rlog c = e # Entries c" by (rule rlog_static [OF cs])
  note t = termAt_static [OF cs]
  have a1: "j \<le> length es" "p + j \<le> length (Entries c)" "\<And>x. x < j \<Longrightarrow> term_at (Entries c) (p + 1 + x) = ent_Term (es ! x)"
    "commitIndex c < k" "k \<le> Suc (length (Entries c))" "j = length es \<Longrightarrow> k = Suc (length (Entries c))"
    "j < length es \<Longrightarrow> k = p + 1 + j"
    "k < Suc (length (Entries c)) \<Longrightarrow> term_at (Entries c) (p + 1 + j) \<noteq> ent_Term (es ! j)"
    using acc s e t by (auto simp: accepted_def split: if_splits)
  obtain k' where k': "k = Suc k'" using a1(4) by (cases k) auto
  show X': "X = take (k - 1) (Entries c) @ drop j es" by (simp add: X e k')
  show len: "p + length es \<le> length L" using request_entries(1) [OF es] p by auto
  have pre: "take (p + j) (Entries c) = take (p + j) L"
  proof (cases j)
    case 0
    then show ?thesis using p by simp
  next
    case (Suc x)
    have "term_at (Entries c) (p + j) = term_at L (p + j)"
      using Suc a1(1) a1(3) [of x] request_entries(2) [OF es, of x] len by (simp add: term_at_def)
    then show ?thesis using match_take [OF good L, of "p + j" n] a1 len E by simp
  qed
  have cut: "take (p + j) L @ drop j es = take (p + length es) L"
  proof -
    have "take (p + j) L = take p L @ take j es"
      using arg_cong [OF request_entries(3) [OF es], of "take (p + j)"] p a1(1) by (simp add: min_def split: if_splits)
    then show ?thesis using request_entries(3) [OF es] by simp
  qed
  show main: "j = length es \<and> X = Entries c
     \<or> k - 1 = p + j \<and> X = take (p + length es) L \<and> take (k - 1) (Entries c) = take (k - 1) L \<and> k - 1 \<le> length (Entries c)
        \<and> (k - 1 = length (Entries c) \<or> k - 1 < length L \<and> Entries c ! (k - 1) \<noteq> L ! (k - 1))"
  proof (cases "j = length es")
    case False
    then have j: "j < length es" "k - 1 = p + j" using a1 by simp_all
    have "Entries c ! (p + j) \<noteq> L ! (p + j) \<and> p + j < length L" if "p + j \<noteq> length (Entries c)"
      using that a1(2,8) j request_entries(2) [OF es j(1)] by (auto simp: k' term_at_def)
    then show ?thesis using j pre cut X' a1(2) by auto
  qed (use X' a1(6) in simp)
  then show "prefix (take (p + length es) L) X" using pre by (auto simp: take_is_prefix)
      (metis take_is_prefix)
  show "take (commitIndex c) X = take (commitIndex c) (Entries c)" using X' a1(4,5) s(10) by (simp add: k')
  show "commitIndex c \<le> length X" using X' a1(4,5) s(10) by (simp add: k')
qed

section \<open>Commit index of a follower\<close>

lemma prefix_take_take: "i \<le> k \<Longrightarrow> prefix (take i X) (take k X)"
  using take_is_prefix [of i "take k X"] by (simp add: min_def)

lemma idle_advance:
  assumes idle: "idle C a n c st" and k: "cpre C a (currentTerm c) (take k (Entries c))"
    and adv: "advanceFollowerCommit k (c, out) = (c', out')"
  obtains i es where "c' = c\<lparr>commitIndex := i\<rparr>" "out' = out\<lparr>out_CommittedEntries := es\<rparr>" "idle C a n c' st"
proof -
  have cs: "core_static C n c" by (rule idle_static [OF idle])
  note s = core_static_simps [OF cs]
  obtain i es where f: "c' = c\<lparr>commitIndex := i\<rparr>" "out' = out\<lparr>out_CommittedEntries := es\<rparr>"
    using advanceFollowerCommit_frame [of k c out] adv by auto
  have i: "i = commitIndex c \<or> i \<le> k"
    using arg_cong [OF adv, of "commitIndex \<circ> fst"] f(1) by (auto simp: advanceFollowerCommit_def Let_def split: if_splits)
  obtain es' where "commits c c' es'" using advanceFollowerCommit_commits [OF s(1), of k out] adv by auto
  then have "core_static C n c'" by (rule core_static_commits [OF cs])
  moreover have "cpre C a (currentTerm c) (take i (Entries c))"
  proof (cases "i = commitIndex c")
    case False
    then have "prefix (take i (Entries c)) (take k (Entries c))" using i by (intro prefix_take_take) simp
    then show ?thesis by (rule cpre_mono [OF k order_refl])
  qed (use idle_cpre [OF idle] in simp)
  ultimately have "core_ok C a n c'" by (simp add: core_ok_def f)
  then show thesis using that f idle_commit [OF idle] by blast
qed

section \<open>The request\<close>

text \<open>What a follower knows of the log of the leader when it has recognised it and the entry before
  the new ones matches.\<close>

definition matched :: "Configuration \<Rightarrow> pstate \<Rightarrow> Core \<Rightarrow> Message \<Rightarrow> Entry list \<Rightarrow> bool" where
  "matched C a c m L \<longleftrightarrow> p_tlog a (currentTerm c) = Some L \<and> msg_LeaderCommit m \<le> length L
     \<and> cpre C a (currentTerm c) (take (msg_LeaderCommit m) L) \<and> msg_PrevLogIndex m \<le> length L
     \<and> prefix (msg_Entries m) (drop (msg_PrevLogIndex m) L) \<and> msg_PrevLogIndex m \<le> length (Entries c)
     \<and> take (msg_PrevLogIndex m) (Entries c) = take (msg_PrevLogIndex m) L"

lemma matched_entries:
  assumes good: "p_good C a" and m: "matched C a c m L"
  shows "contiguous (Suc (msg_PrevLogIndex m)) (msg_Entries m)" "\<forall>e \<in> set (msg_Entries m). ent_Type e = EntryNormal"
proof -
  obtain zs where zs: "drop (msg_PrevLogIndex m) L = msg_Entries m @ zs" using m by (auto simp: matched_def elim!: prefixE)
  have L: "contiguous (Suc 0) L" "\<forall>e \<in> set L. ent_Type e = EntryNormal"
    using good m unfolding p_good_def matched_def by blast+
  have "contiguous (Suc (msg_PrevLogIndex m)) (drop (msg_PrevLogIndex m) L)" using contiguous_drop [OF L(1)] by simp
  then show "contiguous (Suc (msg_PrevLogIndex m)) (msg_Entries m)" by (simp add: zs)
  have "set (msg_Entries m) \<subseteq> set (drop (msg_PrevLogIndex m) L)" by (simp add: zs)
  then show "\<forall>e \<in> set (msg_Entries m). ent_Type e = EntryNormal" using L(2) by (meson in_set_dropD subsetD)
qed

lemma matched_commit:
  assumes "matched C a c m L"
  shows "cpre C a (currentTerm c) (take (leader_commit m) L)" "leader_commit m \<le> length L"
    "leader_commit m \<le> msg_PrevLogIndex m + length (msg_Entries m)"
proof -
  have "prefix (take (leader_commit m) L) (take (msg_LeaderCommit m) L)"
    by (rule prefix_take_take) (simp add: leader_commit_def)
  then show "cpre C a (currentTerm c) (take (leader_commit m) L)"
    using assms cpre_mono unfolding matched_def by blast
qed (use assms in \<open>auto simp: matched_def leader_commit_def\<close>)

lemma matched_returns:
  assumes good: "p_good C a" and core: "core_ok C a n c" and m: "matched C a c m L"
  shows "\<exists>c' out'. acceptEntries m changed (c, out) = Inr (c', out')"
proof (rule acceptEntries_returns [OF _ matched_entries(2) [OF good m]])
  fix x assume x: "x < length (msg_Entries m)" "msg_PrevLogIndex m + 1 + x \<le> commitIndex c"
  have cs: "core_static C n c" using core by (simp add: core_ok_def)
  have "prefix (take (commitIndex c) (Entries c)) L"
    using cpre_leader [OF good] core m by (auto simp: core_ok_def matched_def)
  then have "take (commitIndex c) (Entries c) ! (msg_PrevLogIndex m + x) = L ! (msg_PrevLogIndex m + x)"
    using x(2) core_static_simps(10) [OF cs] by (auto elim!: prefixE simp: nth_append)
  then have "Entries c ! (msg_PrevLogIndex m + x) = msg_Entries m ! x"
    using x m request_entries(2) [of "msg_Entries m" "msg_PrevLogIndex m" L x] by (simp add: matched_def)
  then show "termAt c (msg_PrevLogIndex m + 1 + x) = ent_Term (msg_Entries m ! x)"
    using x(2) core_static_simps(10) [OF cs] by (simp add: termAt_static [OF cs] term_at_def)
qed

lemma accept_items:
  assumes m: "matched C a c m L" and d: "currentTerm d = currentTerm c" "prefix (take (msg_PrevLogIndex m + length (msg_Entries m)) L) (Entries d)"
    and len: "msg_PrevLogIndex m + length (msg_Entries m) \<le> length L" and p: "persistSeq d \<le> pr_Seq p"
    and x: "x \<in> set (accept_pending m d)"
  shows "item_plan C a (d\<lparr>pending := ps\<rparr>) p x"
proof -
  have L: "p_tlog a (currentTerm d) = Some L" using m d(1) by (simp add: matched_def)
  note lc = matched_commit [OF m]
  have "prefix (take (leader_commit m) L) (Entries d)"
    using prefix_take_take [OF lc(3)] d(2) prefix_order.trans by blast
  then show ?thesis using x L lc d len p by (auto simp: item_plan_def accept_pending_def split: if_splits)
qed

lemma acceptEntries_ok:
  assumes good: "p_good C a" and m: "matched C a c m L" and core: "core_ok C a n c" and E: "Entries c = p_log a n"
    and st: "stored a n st" and c: "role c = Follower" "heardFromLeader c" "pending c = []"
    and changed: "if changed then votedFor c = [] \<and> p_term a n < currentTerm c else currentTerm c = p_term a n"
    and out: "out_PersistRequest out = None" "out_Messages out = []" "out_CommittedEntries out = []"
  shows "\<exists>c' out'. acceptEntries m changed (c, out) = Inr (c', out') \<and> step_ok C a n st c' out'"
proof -
  have cs: "core_static C n c" using core by (simp add: core_ok_def)
  note s = core_static_simps [OF cs]
  note es = matched_entries [OF good m]
  have prev: "snapshotIndex c \<le> msg_PrevLogIndex m" "msg_PrevLogIndex m \<le> lastIndex c" using s m by (simp_all add: matched_def)
  obtain c' out' where acc: "acceptEntries m changed (c, out) = Inr (c', out')" using matched_returns [OF good core m] by blast
  obtain j k cfg i ps d where r: "accepted (msg_PrevLogIndex m) (msg_Entries m) c j k"
    "newest_config (base_config c, 0) (drop 1 (take k (rlog c) @ drop j (msg_Entries m))) = (cfg, i)"
    "ps = (if k < length (rlog c) then pending (invalidatePendingFrom (snapshotIndex c + k) c) else pending c)"
    "d = c\<lparr>rlog := take k (rlog c) @ drop j (msg_Entries m), pending := ps, activeConfig := cfg, activeConfigIndex := i\<rparr>"
    "(c', out') =
       (if changed \<or> j < length (msg_Entries m)
        then (let e = d\<lparr>persistSeq := persistSeq c + 1\<rparr>
              in (e\<lparr>pending := ps @ accept_pending m e\<rparr>,
                  out\<lparr>out_PersistRequest := Some \<lparr>pr_Seq = persistSeq c + 1,
                    pr_HardState = (if changed then Some \<lparr>hs_CurrentTerm = currentTerm c, hs_VotedFor = votedFor c\<rparr> else None),
                    pr_TruncateFrom = (if k < length (rlog c) then snapshotIndex c + k else 0),
                    pr_Entries = drop j (msg_Entries m)\<rparr>\<rparr>))
        else (let s = (if leader_commit m > commitIndex c then advanceFollowerCommit (leader_commit m) (d, out) else (d, out))
              in (fst s, emit (append_ok m (fst s)) (snd s))))"
    by (rule acceptEntries_result [OF s(1) es(1) prev acc]) blast
  have ps: "ps = []" using r(3) c(3) by (simp add: invalidatePendingFrom_def)
  define X where "X = drop 1 (take k (rlog c) @ drop j (msg_Entries m))"
  have mm: "p_tlog a (currentTerm c) = Some L" "prefix (msg_Entries m) (drop (msg_PrevLogIndex m) L)" "msg_PrevLogIndex m \<le> length L"
    "take (msg_PrevLogIndex m) (Entries c) = take (msg_PrevLogIndex m) L" using m by (simp_all add: matched_def)
  note al = accepted_log [OF good cs E mm(1) r(1) mm(2-4) X_def]
  have X: "Entries d = X" by (simp add: r(4) X_def)
  have cpreX: "cpre C a (currentTerm c) (take (commitIndex c) X)" using core al(4) by (simp add: core_ok_def)
  have normal: "\<forall>e \<in> set X. ent_Type e = EntryNormal"
    using cs es(2) unfolding al(1) core_static_def by (auto dest: in_set_takeD in_set_dropD)
  have "core_inv c'"
    using acceptEntries_log_step [OF s(1) es(1) prev acc] out log_step_core_inv [OF s(1)] by (simp add: writes_def)
  have len: "length (rlog c) = Suc (length (Entries c))" using lastIndex_eq [OF s(2)] s(5,8) by simp
  have k: "0 < k" using r(1) s(5) by (simp add: accepted_def)
  show ?thesis
  proof (cases "changed \<or> j < length (msg_Entries m)")
    case True
    define e where "e = d\<lparr>persistSeq := persistSeq c + 1\<rparr>"
    define p where "p = \<lparr>pr_Seq = persistSeq c + 1,
        pr_HardState = (if changed then Some \<lparr>hs_CurrentTerm = currentTerm c, hs_VotedFor = votedFor c\<rparr> else None),
        pr_TruncateFrom = (if k < length (rlog c) then snapshotIndex c + k else 0), pr_Entries = drop j (msg_Entries m)\<rparr>"
    have r': "c' = e\<lparr>pending := accept_pending m e\<rparr>" "out_PersistRequest out' = Some p" "out_Messages out' = []"
      using r(5) True ps out by (simp_all add: Let_def e_def p_def)
    have c': "Entries c' = X" "currentTerm c' = currentTerm c" "commitIndex c' = commitIndex c" "votedFor c' = votedFor c"
       "heardFromLeader c'" "role c' = Follower" using X c by (simp_all add: r' e_def r(4))
    have "core_static C n c'" using cs \<open>core_inv c'\<close> normal c'(1) by (simp add: core_static_def r' e_def r(4))
    then have "core_ok C a n c'" using cpreX c' by (simp add: core_ok_def)
    moreover have "hs_plan C a n c' st p" using changed c' by (auto simp: hs_plan_def p_def vote_kept_def)
    moreover have "item_plan C a c' p x" if "x \<in> set (pending c')" for x
      using accept_items [OF m, of e p x] that al(2,3) X by (simp add: r' e_def r(4) p_def)
    moreover have "log_plan a n c' p"
    proof (cases "j = length (msg_Entries m)")
      case True
      then have "X = Entries c" "k = length (rlog c)" using al(1) r(1) len by (simp_all add: accepted_def)
      then show ?thesis using True c'(1) E by (simp add: log_plan_def p_def)
    next
      case False
      then have X': "k - 1 = msg_PrevLogIndex m + j" "X = take (msg_PrevLogIndex m + length (msg_Entries m)) L"
          "take (k - 1) (Entries c) = take (k - 1) L" "k - 1 \<le> length (Entries c)"
          "k - 1 = length (Entries c) \<or> k - 1 < length L \<and> Entries c ! (k - 1) \<noteq> L ! (k - 1)"
        using al(6) by blast+
      have "prefix X L" by (simp add: X'(2) take_is_prefix)
      moreover have "pr_TruncateFrom p = (if k - 1 < length (p_log a n) then Suc (k - 1) else 0)"
        using E k len s(5) by (auto simp: p_def)
      ultimately show ?thesis
        using X'(3-5) al(1) c'(1,2) E mm(1) unfolding log_plan_def
        by (intro disjI2 exI [of _ L] exI [of _ "k - 1"]) (simp add: p_def)
    qed
    ultimately have "busy C a n c' st p"
      using st c' by (simp add: busy_def cand_ok_def lead_ok_def)
    then show ?thesis using acc r' nstep_refl [OF good] unfolding step_ok_def by auto
  next
    case False
    then have j: "j = length (msg_Entries m)" and same: "\<not> changed" using r(1) by (auto simp: accepted_def)
    then have XE: "X = Entries c" using al(1) r(1) len by (simp add: accepted_def)
    have "k = length (rlog c)" using r(1) j by (simp add: accepted_def)
    moreover have "(activeConfig c, activeConfigIndex c) = (cfg, i)"
      using r(2) [folded X_def] s(1) XE by (simp add: core_inv_def)
    ultimately have dv: "log_view d = log_view c" using j by (simp add: r(4) log_view_def)
    define a' where "a' = a\<lparr>p_oks := p_oks a \<union> {(n, currentTerm c, i) |i. i \<le> msg_PrevLogIndex m + length (msg_Entries m)}\<rparr>"
    have ns: "nstep C n a a'" unfolding a'_def
      using changed same al(2,3) XE E by (intro nstep_ack [OF good mm(1)]) simp_all
    have "core_ok C a n d" using core_ok_later [OF core dv] by (simp add: r(4))
    then have "idle C a n d st" using st c changed same E X XE by (simp add: idle_def vote_kept_def cand_ok_def lead_ok_def r(4))
    then have idle: "idle C a' n d st" using ns by (intro idle_frame [of a a']) (auto simp: nstep_def p_frame_def a'_def)
    have "cpre C a' (currentTerm d) (take (leader_commit m) (Entries d))"
    proof -
      have "take (leader_commit m) L = take (leader_commit m) X"
        using al(2,3) matched_commit(3) [OF m] by (auto elim!: prefixE)
      moreover have "cpre C a' (currentTerm c) (take (leader_commit m) L)"
        using ns matched_commit(1) [OF m] by (intro cpre_extends [of a a']) (simp_all add: nstep_def)
      ultimately show ?thesis by (simp add: X) (simp add: r(4))
    qed
    then obtain i' es' where adv: "fst (advanceFollowerCommit (leader_commit m) (d, out)) = d\<lparr>commitIndex := i'\<rparr>"
        "snd (advanceFollowerCommit (leader_commit m) (d, out)) = out\<lparr>out_CommittedEntries := es'\<rparr>"
        "idle C a' n (d\<lparr>commitIndex := i'\<rparr>) st"
      using idle_advance [OF idle, of "leader_commit m" out] by (metis prod.collapse)
    have "idle C a' n c' st" "pending c' = []" "currentTerm c' = currentTerm c" "c_cfg c' = c_cfg c"
       "out_PersistRequest out' = None" "out_Messages out' = [append_ok m c']"
      using r(5) False adv idle ps out by (auto simp: Let_def r(4) split: if_splits)
    moreover have "msg_ok C a' (append_ok m c')"
      using calculation(3,4) s(3) by (simp add: msg_ok_def append_ok_def appendResponse_def a'_def)
    ultimately show ?thesis using acc ns unfolding step_ok_def by (intro exI [of _ c'] exI [of _ out'] conjI exI [of _ a']) simp_all
  qed
qed

lemma recogniseLeader_fields:
  assumes "recogniseLeader m c = (c1, changed, out)" "currentTerm c \<le> msg_Term m" "pending c = []"
  shows "log_view c1 = log_view c" "currentTerm c1 = msg_Term m" "changed = (currentTerm c < msg_Term m)"
    "role c1 = Follower" "heardFromLeader c1" "pending c1 = []" "changed \<Longrightarrow> votedFor c1 = []"
    "out_PersistRequest out = None" "out_Messages out = []" "out_CommittedEntries out = []"
  using assms by (auto simp: recogniseLeader_eq Let_def stepDownTo_def split: if_splits)

lemma handleAppendEntriesRequest_ok:
  assumes good: "p_good C a" and idle: "idle C a n c st" "pending c = []"
    and m: "msg_ok C a m" "msg_Type m = MsgAppendEntriesRequest"
  shows "\<exists>c' out. handleAppendEntriesRequest m c = Inr (c', out) \<and> step_ok C a n st c' out"
proof (cases "msg_Term m < currentTerm c")
  case True
  then show ?thesis using idle
    by (auto simp: handleAppendEntriesRequest_def msg_ok_def appendResponse_def intro!: step_ok_same [OF good])
next
  case False
  obtain c1 changed out where rl: "recogniseLeader m c = (c1, changed, out)" by (cases "recogniseLeader m c")
  note f = recogniseLeader_fields [OF rl _ idle(2)]
  have fs: "log_view c1 = log_view c" "currentTerm c1 = msg_Term m" "changed = (currentTerm c < msg_Term m)"
    "role c1 = Follower" "heardFromLeader c1" "pending c1 = []" "changed \<Longrightarrow> votedFor c1 = []" using f False by auto
  have T: "currentTerm c = p_term a n" "Entries c = p_log a n" "stored a n st" using idle(1) by (auto simp: idle_def)
  have core: "core_ok C a n c1" using idle(1) core_ok_later [OF _ fs(1)] fs(2) False by (auto simp: idle_def)
  then have cs: "core_static C n c1" by (simp add: core_ok_def)
  note s = core_static_simps [OF cs]
  have E: "Entries c1 = p_log a n" using fs(1) T(2) by (simp add: log_view_def Entries_def)
  obtain L where L: "p_tlog a (msg_Term m) = Some L" "msg_LeaderCommit m \<le> length L"
      "cpre C a (msg_Term m) (take (msg_LeaderCommit m) L)"
      "0 < msg_PrevLogIndex m \<and> msg_PrevLogTerm m = 0 \<and> msg_Entries m = []
       \<or> msg_PrevLogIndex m \<le> length L \<and> msg_PrevLogTerm m = term_at L (msg_PrevLogIndex m)
         \<and> prefix (msg_Entries m) (drop (msg_PrevLogIndex m) L)"
    using m by (auto simp: msg_ok_def)
  show ?thesis
  proof (cases "msg_PrevLogIndex m > lastIndex c1 \<or> termAt c1 (msg_PrevLogIndex m) \<noteq> msg_PrevLogTerm m")
    case True
    obtain ci ct where hint: "conflictHint c1 (msg_PrevLogIndex m) = (ci, ct)" by (cases "conflictHint c1 (msg_PrevLogIndex m)")
    define out1 where "out1 = emit ((appendResponse c1 (msg_From m))\<lparr>msg_ConflictIndex := ci, msg_ConflictTerm := ct\<rparr>) out"
    have h: "handleAppendEntriesRequest m c = Inr (if changed then persistHardState (c1, out1) else (c1, out1))"
      using False rl True hint s by (simp add: handleAppendEntriesRequest_def out1_def)
    have o: "out_PersistRequest out1 = None" "\<forall>x \<in> set (out_Messages out1). msg_ok C a x"
      using f(8,9) False by (auto simp: out1_def msg_ok_def appendResponse_def)
    show ?thesis
    proof (cases changed)
      case True
      have "step_ok C a n st (fst (persistHardState (c1, out1))) (snd (persistHardState (c1, out1)))"
        unfolding step_ok_def using fs True T(1) o nstep_refl [OF good]
        by (intro exI [of _ a]) (auto simp: persistHardState_eq intro!: busy_newterm [OF idle(1)])
      then show ?thesis using h True by (metis prod.collapse)
    next
      case same: False
      then have "idle C a n c1 st" using core E T fs False by (simp add: idle_def vote_kept_def cand_ok_def lead_ok_def)
      then show ?thesis using h same o fs(6) by (auto intro!: step_ok_same [OF good])
    qed
  next
    case match: False
    then have p: "msg_PrevLogIndex m \<le> length (p_log a n)" "term_at (p_log a n) (msg_PrevLogIndex m) = msg_PrevLogTerm m"
      using s E by (simp_all add: termAt_static [OF cs])
    then have L': "msg_PrevLogIndex m \<le> length L" "msg_PrevLogTerm m = term_at L (msg_PrevLogIndex m)"
         "prefix (msg_Entries m) (drop (msg_PrevLogIndex m) L)"
      using L(4) log_term_pos [OF good, of "msg_PrevLogIndex m" n] by auto
    have "take (msg_PrevLogIndex m) (p_log a n) = take (msg_PrevLogIndex m) L"
      using match_take [OF good L(1) p(1) L'(1)] p(2) L'(2) by simp
    then have "matched C a c1 m L" using L L' p E fs(2) by (simp add: matched_def)
    then have "\<exists>c' out'. acceptEntries m changed (c1, out) = Inr (c', out') \<and> step_ok C a n st c' out'"
      using fs T False f(8-10) by (intro acceptEntries_ok [OF good _ core E T(3) fs(4-6)]) auto
    moreover have "handleAppendEntriesRequest m c = acceptEntries m changed (c1, out)"
      using False rl match s by (simp add: handleAppendEntriesRequest_def)
    ultimately show ?thesis by simp
  qed
qed

end
