(* ===== verification/Raft_Durable.thy ===== *)
theory Raft_Durable
  imports Raft_Follower
begin

text \<open>
  The end of a persist request: the node that has written it down is between two inputs again, and
  what it releases is what the abstract state accounts for. A crash keeps a prefix of the writes;
  the node that restarts from its storage is related to the abstract state too, unless the prefix
  has changed the log and left out the new term that goes with it.
\<close>

section \<open>What the storage holds\<close>

lemma log_contiguous:
  assumes good: "p_good C a"
  shows "contiguous (Suc 0) (p_log a n)" "\<forall>e \<in> set (p_log a n). ent_Type e = EntryNormal"
proof -
  have "contiguous (Suc 0) (p_log a n) \<and> (\<forall>e \<in> set (p_log a n). ent_Type e = EntryNormal)"
  proof (cases "p_log a n = []")
    case False
    have "consistent a (p_log a n)" using good_inv(3) [OF good] by (simp add: inv_logs_def)
    then obtain T L where L: "p_tlog a T = Some L" "prefix (p_log a n) L"
      using consistentD [of a "p_log a n" "length (p_log a n)"] False by auto
    then have "contiguous (Suc 0) L" "\<forall>e \<in> set L. ent_Type e = EntryNormal" using good unfolding p_good_def by blast+
    then show ?thesis using L(2) by (auto elim!: prefixE)
  qed simp
  then show "contiguous (Suc 0) (p_log a n)" "\<forall>e \<in> set (p_log a n). ent_Type e = EntryNormal" by simp_all
qed

definition log_ops :: "PersistRequest \<Rightarrow> (Storage \<Rightarrow> Storage) list" where
  "log_ops p = (if pr_TruncateFrom p \<noteq> 0 then [sto_Truncate (pr_TruncateFrom p)] else [])
     @ map (\<lambda>e. sto_Append [e]) (pr_Entries p)"

definition hs_after :: "PersistRequest \<Rightarrow> Storage \<Rightarrow> HardState" where
  "hs_after p st = (case pr_HardState p of None \<Rightarrow> sto_HardState st | Some hs \<Rightarrow> hs)"

lemma persist_ops_split:
  "persist_ops p = log_ops p @ (case pr_HardState p of None \<Rightarrow> [] | Some hs \<Rightarrow> [sto_SetHardState hs])"
  by (simp add: persist_ops_def log_ops_def)

lemma foldl_appends:
  "foldl (\<lambda>st f. f st) st (map (\<lambda>e. sto_Append [e]) es) = sto_Append es st"
  by (induction es arbitrary: st) (simp_all add: sto_Append_def)

lemma log_ops_HardState:
  "sto_HardState (foldl (\<lambda>st f. f st) st (take k (log_ops p))) = sto_HardState st"
  by (cases k) (simp_all add: log_ops_def take_map foldl_appends sto_Append_def sto_Truncate_def)

lemma ApplyPersistRequest_ops:
  "ApplyPersistRequest (Some p) st = foldl (\<lambda>st f. f st) st (persist_ops p)"
  by (cases "pr_Entries p") (auto simp: ApplyPersistRequest_def persist_ops_def foldl_appends sto_Append_def Let_def split: option.splits)

lemma ApplyPersistRequest_log:
  "sto_HardState (ApplyPersistRequest (Some p) st) = hs_after p st"
  "sto_Entries (ApplyPersistRequest (Some p) st) = sto_Entries (foldl (\<lambda>st f. f st) st (log_ops p))"
  using log_ops_HardState [of st "length (log_ops p)" p]
  by (simp_all add: ApplyPersistRequest_ops persist_ops_split hs_after_def sto_SetHardState_def split: option.splits)

text \<open>A prefix of the writes to the log leaves the log as it was, or gives a prefix of the new log
  that goes beyond what was kept of the old one.\<close>

lemma log_plan_prefix:
  assumes good: "p_good C a" and plan: "log_plan a n c p" and st: "sto_Entries st = p_log a n"
    and X: "X = sto_Entries (foldl (\<lambda>st f. f st) st (take x (log_ops p)))"
  shows "X = p_log a n \<or> (\<exists>L k m. p_tlog a (currentTerm c) = Some L \<and> k \<le> length (p_log a n) \<and> take k (p_log a n) = take k L
     \<and> (k = length (p_log a n) \<or> k < length L \<and> p_log a n ! k \<noteq> L ! k) \<and> k \<le> m \<and> m \<le> length L \<and> X = take m L)"
    "x = length (log_ops p) \<Longrightarrow> X = Entries c"
proof -
  have "(X = p_log a n \<or> (\<exists>L k m. p_tlog a (currentTerm c) = Some L \<and> k \<le> length (p_log a n) \<and> take k (p_log a n) = take k L
     \<and> (k = length (p_log a n) \<or> k < length L \<and> p_log a n ! k \<noteq> L ! k) \<and> k \<le> m \<and> m \<le> length L \<and> X = take m L))
     \<and> (x = length (log_ops p) \<longrightarrow> X = Entries c)"
  proof (cases "pr_TruncateFrom p = 0 \<and> pr_Entries p = [] \<and> Entries c = p_log a n")
    case True
    then show ?thesis using st by (simp add: X log_ops_def)
  next
    case False
    then obtain L k where L: "p_tlog a (currentTerm c) = Some L" "k \<le> length (p_log a n)" "take k (p_log a n) = take k L"
        "k = length (p_log a n) \<or> k < length L \<and> p_log a n ! k \<noteq> L ! k" "Entries c = take k (p_log a n) @ pr_Entries p"
        "prefix (Entries c) L" "pr_TruncateFrom p = (if k < length (p_log a n) then Suc k else 0)"
      using plan unfolding log_plan_def by blast
    have cut: "filter (\<lambda>e. ent_Index e < Suc k) (p_log a n) = take k (p_log a n)"
      using filter_contiguous [OF log_contiguous(1) [OF good], of k n] by simp
    define y where "y = (if k < length (p_log a n) then x - 1 else x)"
    have new: "X = p_log a n \<or> X = take k (p_log a n) @ take y (pr_Entries p)"
      using L(2,7) st cut by (cases x) (auto simp: X y_def log_ops_def take_map foldl_appends sto_Append_def sto_Truncate_def)
    have all: "X = Entries c" if "x = length (log_ops p)"
      using that L(2,5,7) st cut by (auto simp: X log_ops_def foldl_appends sto_Append_def sto_Truncate_def)
    have "take k (p_log a n) @ take y (pr_Entries p) = take (k + length (take y (pr_Entries p))) L"
      "k + length (take y (pr_Entries p)) \<le> length L"
    proof -
      have pre: "prefix (take k (p_log a n) @ take y (pr_Entries p)) L"
        using L(5,6) take_is_prefix [of y "pr_Entries p"] by (metis prefix_order.trans same_prefix_prefix)
      then show "k + length (take y (pr_Entries p)) \<le> length L" using L(2) by (auto dest!: prefix_length_le)
      show "take k (p_log a n) @ take y (pr_Entries p) = take (k + length (take y (pr_Entries p))) L"
        using pre L(2) by (auto elim!: prefixE simp: min_def)
    qed
    then show ?thesis using new all L(1-4)
      by (metis le_add1)
  qed
  then show "X = p_log a n \<or> (\<exists>L k m. p_tlog a (currentTerm c) = Some L \<and> k \<le> length (p_log a n) \<and> take k (p_log a n) = take k L
     \<and> (k = length (p_log a n) \<or> k < length L \<and> p_log a n ! k \<noteq> L ! k) \<and> k \<le> m \<and> m \<le> length L \<and> X = take m L)"
    "x = length (log_ops p) \<Longrightarrow> X = Entries c" by blast+
qed

section \<open>Writing down the hard state and the log\<close>

text \<open>What the write of the hard state means: a candidacy, a vote, or a new term.\<close>

lemma persist_hs:
  assumes good: "p_good C a" and busy: "busy C a n c st p"
  obtains a1 where "nstep C n a a1" "p_term a1 n = currentTerm c" "p_log a1 n = p_log a n" "p_tlog a1 = p_tlog a" "p_lead a1 = p_lead a"
    "p_oks a1 = p_oks a" "hs_CurrentTerm (hs_after p st) = currentTerm c" "cand_ok C a1 n c"
    "\<And>d. (n, currentTerm c, d) \<in> p_grants a1 \<Longrightarrow> hs_VotedFor (hs_after p st) = d"
    "pr_HardState p \<noteq> None \<Longrightarrow> votedFor c \<noteq> [] \<Longrightarrow> n \<in> voter_ids C \<and> (n, currentTerm c, votedFor c) \<in> p_grants a1"
proof -
  have st: "hs_CurrentTerm (sto_HardState st) = p_term a n" "\<And>d. (n, p_term a n, d) \<in> p_grants a \<Longrightarrow> hs_VotedFor (sto_HardState st) = d"
    using busy by (auto simp: busy_def stored_def)
  have cs: "core_static C n c" using busy by (simp add: busy_def core_ok_def)
  note n = core_static_simps(4) [OF cs]
  have cand: "campaigning C a n c p \<or> cand_ok C a n c" and plan: "hs_plan C a n c st p" using busy by (simp_all add: busy_def)
  show thesis
  proof (cases "pr_HardState p")
    case None
    then have "cand_ok C a n c" "currentTerm c = p_term a n" using cand plan by (auto simp: campaigning_def hs_plan_def)
    then show ?thesis using None st by (intro that [OF nstep_refl [OF good]]) (auto simp: hs_after_def)
  next
    case (Some hs)
    then have hs: "hs = \<lparr>hs_CurrentTerm = currentTerm c, hs_VotedFor = votedFor c\<rparr>" "hs_after p st = hs"
      using plan by (simp_all add: hs_plan_def hs_after_def)
    consider "votedFor c = []" "p_term a n < currentTerm c"
      | M where "campaigning C a n c p" "(votedFor c, currentTerm c, M) \<in> p_claims a"
      | M where "\<not> campaigning C a n c p" "n \<in> voter_ids C" "p_term a n \<le> currentTerm c" "votedFor c \<noteq> []"
        "\<forall>d. (n, currentTerm c, d) \<in> p_grants a \<longrightarrow> d = votedFor c"
        "(votedFor c, currentTerm c, M) \<in> p_claims a" "up_to_date M (p_log a n)"
      using plan Some unfolding hs_plan_def by auto
    then show ?thesis
    proof cases
      case 1
      then have "role c \<noteq> Candidate" using cand n by (auto simp: campaigning_def cand_ok_def)
      then show ?thesis using 1 hs no_grant_above [OF good 1(2)]
        by (intro that [OF nstep_term [OF good, of n "currentTerm c"]]) (auto simp: cand_ok_def)
    next
      case 2
      then have k: "currentTerm c = Suc (p_term a n)" "votedFor c = n" "n \<in> voter_ids C" "votesReceived c = [(n, True)]"
          "(n, Suc (p_term a n), p_log a n) \<in> p_claims a" by (auto simp: campaigning_def)
      then show ?thesis using hs no_grant_above [OF good, of n "Suc (p_term a n)"]
        by (intro that [OF nstep_candidate [OF good k(5)]]) (auto simp: cand_ok_def mkeys_def)
    next
      case 3
      then have "cand_ok C a n c" using cand by blast
      then show ?thesis using 3 hs
        by (intro that [OF nstep_vote [OF good 3(6,3) _ 3(7)]]) (auto simp: cand_ok_def)
    qed
  qed
qed

text \<open>What a prefix of the writes to the log means: the node takes a prefix of the log of the
  leader.\<close>

lemma persist_log:
  assumes good: "p_good C a" and T: "p_term a n = currentTerm c" and plan: "log_plan a n c p" and st: "sto_Entries st = p_log a n"
    and X: "X = sto_Entries (foldl (\<lambda>st f. f st) st (take x (log_ops p)))"
  obtains a1 where "nstep C n a a1" "p_log a1 n = X" "p_term a1 = p_term a" "p_tlog a1 = p_tlog a" "p_lead a1 = p_lead a"
    "p_oks a1 = p_oks a" "p_grants a1 = p_grants a" "p_cand a1 = p_cand a"
proof -
  consider "X = p_log a n" | L k m where "p_tlog a (currentTerm c) = Some L" "k \<le> length (p_log a n)" "take k (p_log a n) = take k L"
     "k = length (p_log a n) \<or> k < length L \<and> p_log a n ! k \<noteq> L ! k" "k \<le> m" "m \<le> length L" "X = take m L"
    using log_plan_prefix(1) [OF good plan st X] by blast
  then show thesis
  proof cases
    case 1
    then show ?thesis by (intro that [OF nstep_refl [OF good]]) simp_all
  next
    case (2 L k m)
    then show ?thesis using T
      by (intro that [OF nstep_accept [OF good 2(1) _ 2(5,6,2,3,4)]]) (auto simp: fun_upd_idem)
  qed
qed

section \<open>Completion\<close>

lemma complete_idle:
  assumes good: "p_good C a" and busy: "busy C a n c st p"
  obtains a' where "nstep C n a a'" "idle C a' n c (ApplyPersistRequest (Some p) st)"
    "pr_HardState p \<noteq> None \<Longrightarrow> votedFor c \<noteq> [] \<Longrightarrow> n \<in> voter_ids C \<and> (n, currentTerm c, votedFor c) \<in> p_grants a'"
proof -
  obtain a1 where a1: "nstep C n a a1" "p_term a1 n = currentTerm c" "p_log a1 n = p_log a n" "p_tlog a1 = p_tlog a" "p_lead a1 = p_lead a"
    "p_oks a1 = p_oks a" "hs_CurrentTerm (hs_after p st) = currentTerm c" "cand_ok C a1 n c"
    "\<And>d. (n, currentTerm c, d) \<in> p_grants a1 \<Longrightarrow> hs_VotedFor (hs_after p st) = d"
    "pr_HardState p \<noteq> None \<Longrightarrow> votedFor c \<noteq> [] \<Longrightarrow> n \<in> voter_ids C \<and> (n, currentTerm c, votedFor c) \<in> p_grants a1"
    by (rule persist_hs [OF good busy]) blast
  have b: "log_plan a n c p" "sto_Entries st = p_log a n" "core_ok C a n c" "lead_ok C a n c" "hs_plan C a n c st p"
    using busy by (simp_all add: busy_def stored_def)
  define X where "X = sto_Entries (foldl (\<lambda>st f. f st) st (take (length (log_ops p)) (log_ops p)))"
  have plan1: "log_plan a1 n c p" using b(1) a1(3,4) by (simp add: log_plan_def)
  have X: "X = Entries c" using log_plan_prefix(2) [OF nstep_good [OF a1(1)] plan1 _ X_def] b(2) a1(3) by simp
  obtain a2 where a2: "nstep C n a1 a2" "p_log a2 n = X" "p_term a2 = p_term a1" "p_tlog a2 = p_tlog a1" "p_lead a2 = p_lead a1"
      "p_oks a2 = p_oks a1" "p_grants a2 = p_grants a1" "p_cand a2 = p_cand a1"
    by (rule persist_log [OF nstep_good [OF a1(1)] a1(2) plan1 _ X_def]) (use b(2) a1(3) in auto)
  have n12: "nstep C n a a2" by (rule nstep_trans [OF a1(1) a2(1)])
  have core: "core_ok C a2 n c" using core_ok_frame [OF _ b(3)] n12 by (simp add: nstep_def)
  have stored: "stored a2 n (ApplyPersistRequest (Some p) st)"
    using a1 a2 X unfolding stored_def ApplyPersistRequest_log by (simp add: X_def)
  have kept: "vote_kept C n c (ApplyPersistRequest (Some p) st)"
    using b(5) by (auto simp: vote_kept_def hs_plan_def ApplyPersistRequest_log hs_after_def split: option.splits)
  have cand: "cand_ok C a2 n c" using a1(8) a2 by (auto simp: cand_ok_def)
  show thesis
  proof (cases "role c = Leader")
    case True
    define a3 where "a3 = a2\<lparr>p_oks := p_oks a2 \<union> {(n, currentTerm c, j) |j. j \<le> length (Entries c)}\<rparr>"
    have L: "p_tlog a2 (currentTerm c) = Some (Entries c)" using b(4) True a1 a2 by (auto simp: lead_ok_def)
    have n3: "nstep C n a2 a3" unfolding a3_def
      using a1 a2 X by (intro nstep_ack [OF nstep_good [OF a2(1)] L]) simp_all
    have "core_ok C a3 n c" using core_ok_frame [OF _ core] n3 by (simp add: nstep_def)
    moreover have "lead_ok C a3 n c" using b(4) True a1 a2 by (auto simp: lead_ok_def a3_def)
    ultimately have "idle C a3 n c (ApplyPersistRequest (Some p) st)"
      using stored kept cand a1 a2 X True by (auto simp: idle_def stored_def cand_ok_def a3_def)
    then show ?thesis using a1(10) a2 nstep_trans [OF n12 n3] by (intro that) (auto simp: a3_def)
  next
    case False
    then have "idle C a2 n c (ApplyPersistRequest (Some p) st)"
      using core stored kept cand a1 a2 X by (simp add: idle_def lead_ok_def)
    then show ?thesis using that [OF n12] a1(10) a2 by simp
  qed
qed

section \<open>Releasing what waited\<close>

definition item_ok :: "Configuration \<Rightarrow> pstate \<Rightarrow> NodeID \<Rightarrow> Core \<Rightarrow> PersistRequest \<Rightarrow> pendingItem \<Rightarrow> bool" where
  "item_ok C a n c p x \<longleftrightarrow> item_plan C a c p x
     \<and> (pi_kind x = pendingVoteGrant \<longrightarrow> n \<in> voter_ids C \<and> (n, currentTerm c, votedFor c) \<in> p_grants a)"

lemma item_ok_later:
  assumes "extends a a'" "item_ok C a n c p x" "currentTerm d = currentTerm c" "votedFor d = votedFor c" "Entries d = Entries c"
  shows "item_ok C a' n d p x"
proof -
  have "item_plan C a' d p x" using item_plan_extends [OF assms(1), of C c p x] assms(2-) by (cases "pi_kind x") (simp_all add: item_ok_def item_plan_def)
  then show ?thesis using assms extends_mono [OF assms(1)] by (auto simp: item_ok_def)
qed

text \<open>The state in the middle of the release.\<close>

definition releasing :: "Configuration \<Rightarrow> pstate \<Rightarrow> NodeID \<Rightarrow> Core \<Rightarrow> Storage \<Rightarrow> Core \<times> Output \<Rightarrow> pstate \<Rightarrow> bool" where
  "releasing C a n c st s a' \<longleftrightarrow> nstep C n a a' \<and> idle C a' n (fst s) st \<and> currentTerm (fst s) = currentTerm c
     \<and> votedFor (fst s) = votedFor c \<and> Entries (fst s) = Entries c
     \<and> out_PersistRequest (snd s) = None \<and> (\<forall>m \<in> set (out_Messages (snd s)). msg_ok C a' m)"

lemma releasing_emit:
  assumes r: "releasing C a n c st (d, out) a'" and ns: "nstep C n a' a''" and frame: "p_frame n a' a''"
    and m: "msg_ok C a'' m"
  shows "releasing C a n c st (d, emit m out) a''"
proof -
  have ext: "extends a' a''" using ns by (simp add: nstep_def)
  show ?thesis
    using r m nstep_trans [OF _ ns, of a] idle_frame [OF ext frame] msg_ok_extends [OF ext] by (auto simp: releasing_def)
qed

lemma releasePending_ok:
  assumes C: "wf_config C" and r: "releasing C a n c st s a'" and x: "item_ok C a' n c p x"
  shows "\<exists>a''. extends a' a'' \<and> releasing C a n c st (releasePending x s) a''"
proof -
  obtain d out where s: "s = (d, out)" by (cases s)
  have idle: "idle C a' n d st" and d: "currentTerm d = currentTerm c" "votedFor d = votedFor c" "Entries d = Entries c"
     and o: "out_PersistRequest out = None" "\<forall>m \<in> set (out_Messages out). msg_ok C a' m" and good: "p_good C a'" and ns: "nstep C n a a'"
    using r by (auto simp: releasing_def s nstep_def)
  have cs: "core_static C n d" by (rule idle_static [OF idle])
  note st = core_static_simps [OF cs]
  note pf = idle [unfolded idle_def]
  have pick: ?thesis if "releasePending x s = s \<or> extends a' b \<and> releasing C a n c st (releasePending x s) b" for b
    using that r extends_refl by metis
  show ?thesis
  proof (cases "pi_kind x")
    case pendingVoteGrant
    then have "msg_ok C a' (voteResponse d (pi_candidate x) True)" if "votedFor d = pi_candidate x"
      using that x d st by (auto simp: item_ok_def msg_ok_def voteResponse_def)
    then have "votedFor d = pi_candidate x \<Longrightarrow> releasing C a n c st (d, emit (voteResponse d (pi_candidate x) True) out) a'"
      using r by (intro releasing_emit [where a' = a'] nstep_refl [OF good]) (simp_all add: s p_frame_def)
    then show ?thesis using pendingVoteGrant by (intro pick [of a']) (auto simp: releasePending_def s)
  next
    case pendingAppendAck
    then obtain L where L: "p_tlog a' (currentTerm c) = Some L" "pi_index x \<le> length L" "prefix (take (pi_index x) L) (Entries c)"
      using x by (auto simp: item_ok_def item_plan_def)
    define a2 where "a2 = a'\<lparr>p_oks := p_oks a' \<union> {(n, currentTerm c, j) |j. j \<le> pi_index x}\<rparr>"
    have ack: "nstep C n a' a2" unfolding a2_def using pf d L by (intro nstep_ack [OF good L(1)]) auto
    have "msg_ok C a2 ((appendResponse d (pi_to x))\<lparr>msg_Success := True, msg_MatchIndex := pi_index x\<rparr>)"
      using d st by (simp add: msg_ok_def appendResponse_def a2_def)
    then have "releasing C a n c st (d, emit ((appendResponse d (pi_to x))\<lparr>msg_Success := True, msg_MatchIndex := pi_index x\<rparr>) out) a2"
      using r by (intro releasing_emit [OF _ ack]) (simp_all add: s p_frame_def a2_def)
    moreover have "extends a' a2" using ack by (simp add: nstep_def)
    ultimately show ?thesis using pendingAppendAck by (intro pick [of a2]) (auto simp: releasePending_def s)
  next
    case pendingCommitAdvance
    then obtain L where L: "pi_index x \<le> length L" "prefix (take (pi_index x) L) (Entries c)" "cpre C a' (currentTerm c) (take (pi_index x) L)"
      using x by (auto simp: item_ok_def item_plan_def)
    then have "take (pi_index x) (Entries d) = take (pi_index x) L" using d by (auto elim!: prefixE)
    then have "cpre C a' (currentTerm d) (take (pi_index x) (Entries d))" using L(3) d by simp
    moreover obtain d' out' where adv: "advanceFollowerCommit (pi_index x) (d, out) = (d', out')"
      by (cases "advanceFollowerCommit (pi_index x) (d, out)")
    ultimately obtain i es where "d' = d\<lparr>commitIndex := i\<rparr>" "out' = out\<lparr>out_CommittedEntries := es\<rparr>" "idle C a' n d' st"
      by (rule idle_advance [OF idle])
    then have "releasing C a n c st (d', out') a'" using r by (simp add: releasing_def s)
    then show ?thesis using adv pendingCommitAdvance by (intro pick [of a']) (auto simp: releasePending_def s)
  next
    case pendingSelfMatch
    define d1 where "d1 = (if pi_index x > mget0 (matchIndex d) n then d\<lparr>matchIndex := mput n (pi_index x) (matchIndex d)\<rparr> else d)"
    obtain d' out' where adv: "advanceLeaderCommit (d1, out) = (d', out')" by (cases "advanceLeaderCommit (d1, out)")
    have "releasing C a n c st (d', out') a'" if lead: "role d = Leader"
    proof -
      have "pi_index x \<le> length (Entries d)" using pendingSelfMatch x d by (simp add: item_ok_def item_plan_def)
      then have "idle C a' n d1 st" "role d1 = Leader"
        using idle lead by (auto simp: idle_def core_ok_def vote_kept_def cand_ok_def lead_ok_def d1_def)
      note l = advanceLeaderCommit_ok [OF good this C adv]
      have "votedFor d' = votedFor d" "Entries d' = Entries d"
        using l(1) pf advanceLeaderCommit_frame [of d1 out] adv by (auto simp: idle_def d1_def)
      then show ?thesis using l r d by (auto simp: releasing_def s d1_def split: if_splits)
    qed
    then show ?thesis using adv pendingSelfMatch st(3)
      by (intro pick [of a']) (simp add: releasePending_def s Let_def d1_def)
  qed
qed

lemma release_all:
  assumes C: "wf_config C" and "releasing C a n c st s a'" "\<forall>x \<in> set xs. item_ok C a' n c p x"
  shows "\<exists>a''. releasing C a n c st (foldl (\<lambda>s x. releasePending x s) s xs) a''"
  using assms(2,3)
proof (induction xs arbitrary: s a')
  case (Cons x xs)
  then obtain a2 where a2: "extends a' a2" "releasing C a n c st (releasePending x s) a2"
    using releasePending_ok [OF C Cons.prems(1), of p x] by auto
  then have "\<forall>x \<in> set xs. item_ok C a2 n c p x" using item_ok_later [OF a2(1) _ refl refl refl] Cons.prems(2) by auto
  then show ?case using Cons.IH [OF a2(2)] by simp
qed auto

lemma handlePersistenceComplete_ok:
  assumes good: "p_good C a" and C: "wf_config C" and busy: "busy C a n c st p"
  shows "step_ok C a n (ApplyPersistRequest (Some p) st)
     (fst (handlePersistenceComplete (pr_Seq p) c)) (snd (handlePersistenceComplete (pr_Seq p) c))"
proof -
  define st' where "st' = ApplyPersistRequest (Some p) st"
  define c0 where "c0 = (if pr_Seq p > persistedSeq c then c\<lparr>persistedSeq := pr_Seq p\<rparr> else c)"
  obtain a1 where a1: "nstep C n a a1" "idle C a1 n c st'"
    "pr_HardState p \<noteq> None \<Longrightarrow> votedFor c \<noteq> [] \<Longrightarrow> n \<in> voter_ids C \<and> (n, currentTerm c, votedFor c) \<in> p_grants a1"
    unfolding st'_def by (rule complete_idle [OF good busy]) blast
  have ext: "extends a a1" using a1(1) by (simp add: nstep_def)
  have c0: "idle C a1 n c0 st'" "currentTerm c0 = currentTerm c" "votedFor c0 = votedFor c" "Entries c0 = Entries c" "pending c0 = pending c"
    "pr_Seq p \<le> persistedSeq c0" using a1(2) by (simp_all add: c0_def)
  have items: "\<forall>x \<in> set (pending c). pi_seq x \<le> pr_Seq p \<and> item_ok C a1 n c p x"
  proof
    fix x assume "x \<in> set (pending c)"
    then have ip: "item_plan C a c p x" using busy by (simp add: busy_def)
    then have "pi_kind x = pendingVoteGrant \<longrightarrow> n \<in> voter_ids C \<and> (n, currentTerm c, votedFor c) \<in> p_grants a1"
      using a1(3) by (auto simp: item_plan_def)
    then show "pi_seq x \<le> pr_Seq p \<and> item_ok C a1 n c p x"
      using item_plan_extends [OF ext ip] ip by (auto simp: item_ok_def item_plan_def)
  qed
  have le: "pi_seq x \<le> persistedSeq c0" if "x \<in> set (pending c)" for x using items that c0(6) by (meson order_trans)
  have f: "filter (\<lambda>x. pi_seq x \<le> persistedSeq c0) (pending c) = pending c" "filter (\<lambda>x. persistedSeq c0 < pi_seq x) (pending c) = []"
    using le by (auto simp: filter_id_conv filter_empty_conv not_less)
  have "releasing C a n c st' (c0, noOutput) a1" using c0 a1(1) by (simp add: releasing_def)
  then obtain a2 where a2: "releasing C a n c st' (foldl (\<lambda>s x. releasePending x s) (c0, noOutput) (pending c)) a2"
    using release_all [OF C _, of a n c st' _ a1 "pending c" p] items by blast
  obtain c1 out where r: "foldl (\<lambda>s x. releasePending x s) (c0, noOutput) (pending c) = (c1, out)"
    by (cases "foldl (\<lambda>s x. releasePending x s) (c0, noOutput) (pending c)")
  have h: "handlePersistenceComplete (pr_Seq p) c = (c1\<lparr>pending := []\<rparr>, out)"
    using f r c0(5) unfolding handlePersistenceComplete_def c0_def [symmetric] by (simp add: Let_def not_less)
  show ?thesis using a2 unfolding step_ok_def h st'_def [symmetric] r releasing_def by auto
qed

section \<open>Restart\<close>

lemma NewCore_ok:
  assumes good: "p_good C a" and st: "stored a n st" and cfg: "validate cfg" "cfg_ID cfg = n" "cfg_Bootstrap cfg = C"
  shows "\<exists>c. NewCore cfg (sto_HardState st) (sto_Entries st) = Inr c \<and> idle C a n c st \<and> pending c = [] \<and> commitIndex c = 0"
proof -
  have E: "sto_Entries st = p_log a n" "hs_CurrentTerm (sto_HardState st) = p_term a n" using st by (simp_all add: stored_def)
  have "\<not> list_ex (\<lambda>i. ent_Index (p_log a n ! i) \<noteq> i + 1) [0..<length (p_log a n)]"
    using log_contiguous(1) [OF good, of n] by (simp add: list_ex_iff contiguous_nth)
  then obtain c where c: "NewCore cfg (sto_HardState st) (sto_Entries st) = Inr c" "c_cfg c = cfg" "role c = Follower"
      "currentTerm c = p_term a n" "votedFor c = hs_VotedFor (sto_HardState st)" "Entries c = p_log a n" "snapshotIndex c = 0"
      "snapshotTerm c = 0" "\<not> snapshotHasConfig c" "commitIndex c = 0" "pending c = []" "bootstrapConfig c = cfg_Bootstrap cfg"
    using cfg(1) E by (simp add: NewCore_def NewCoreFromSnapshot_def Let_def case_prod_beta Entries_def)
  have "core_inv c" using c(1) NewCoreFromSnapshot_inv unfolding NewCore_def by blast
  then have "core_static C n c" using c cfg log_contiguous(2) [OF good, of n] by (simp add: core_static_def)
  then have "core_ok C a n c" using c by (simp add: core_ok_def cpre_def)
  then show ?thesis using c st by (simp add: idle_def vote_kept_def cand_ok_def lead_ok_def)
qed

text \<open>A crash in the middle of a persist request that writes the hard state keeps all of its writes
  or none.\<close>

definition crash_atomic :: "nat \<Rightarrow> PersistRequest option \<Rightarrow> bool" where
  "crash_atomic k job = (case job of None \<Rightarrow> True
     | Some p \<Rightarrow> pr_HardState p = None \<or> k = 0 \<or> length (persist_ops p) \<le> k)"

lemma crash_stored:
  assumes good: "p_good C a" and nd: "node_ok C a n nd" and k: "crash_atomic k (nd_job nd)"
  shows "\<exists>a'. nstep C n a a' \<and> stored a' n (persist_prefix k (nd_job nd) (nd_storage nd))"
proof (cases "nd_job nd")
  case None
  then have "stored a n (nd_storage nd)" using nd by (simp add: node_ok_def idle_def)
  then show ?thesis using None nstep_refl [OF good] by (auto simp: persist_prefix_def)
next
  case (Some p)
  then have busy: "busy C a n (nd_core nd) (nd_storage nd) p" using nd by (simp add: node_ok_def)
  then have st: "stored a n (nd_storage nd)" by (simp add: busy_def)
  consider "k = 0" | "length (persist_ops p) \<le> k" | "pr_HardState p = None" using k Some by (auto simp: crash_atomic_def)
  then show ?thesis
  proof cases
    case 1
    then show ?thesis using Some st nstep_refl [OF good] by (auto simp: persist_prefix_def)
  next
    case 2
    then have "persist_prefix k (nd_job nd) (nd_storage nd) = ApplyPersistRequest (Some p) (nd_storage nd)"
      by (simp add: persist_prefix_def Some ApplyPersistRequest_ops)
    then show ?thesis using complete_idle [OF good busy] by (metis idle_def)
  next
    case 3
    have T: "p_term a n = currentTerm (nd_core nd)" "log_plan a n (nd_core nd) p" "sto_Entries (nd_storage nd) = p_log a n"
      using busy 3 by (auto simp: busy_def hs_plan_def stored_def)
    obtain a1 where "nstep C n a a1" "p_log a1 n = sto_Entries (foldl (\<lambda>st f. f st) (nd_storage nd) (take k (log_ops p)))"
       "p_term a1 = p_term a" "p_grants a1 = p_grants a"
      by (rule persist_log [OF good T refl]) blast
    then show ?thesis using st 3 log_ops_HardState [of "nd_storage nd" k p]
      by (auto simp: persist_prefix_def Some persist_ops_split stored_def)
  qed
qed

end
