(* ===== verification/Raft_Safety.thy ===== *)
theory Raft_Safety
  imports Raft_Durable
begin

text \<open>
  Safety of the cluster: every run of a cluster with a fixed configuration of at least two voters,
  in which a crash keeps all or none of the writes of a persist request that carries a hard state,
  refines the abstract protocol. So no step panics, no two nodes ever apply different entries at an
  index, a term has at most one leader, logs with an entry of the same term at an index agree up to
  it, and a leader has every entry that is committed in an earlier term.
\<close>

section \<open>One step of a core\<close>

lemma msg_ok_wf:
  assumes good: "p_good C a" and m: "msg_ok C a m"
  shows "msg_wf m"
proof (cases "msg_Type m = MsgAppendEntriesRequest \<and> msg_Entries m \<noteq> []")
  case True
  then obtain L where L: "p_tlog a (msg_Term m) = Some L" "prefix (msg_Entries m) (drop (msg_PrevLogIndex m) L)"
    using m by (auto simp: msg_ok_def)
  then have "contiguous (Suc 0) L" using good unfolding p_good_def by blast
  then have "contiguous (Suc (msg_PrevLogIndex m)) (drop (msg_PrevLogIndex m) L)" using contiguous_drop [of "Suc 0"] by simp
  then show ?thesis using L(2) by (auto simp: msg_wf_def elim!: prefixE)
qed (auto simp: msg_wf_def)

text \<open>The inputs of a driver: timers, proposals of clients, messages of the network.\<close>

definition net_input :: "Configuration \<Rightarrow> pstate \<Rightarrow> NodeID \<Rightarrow> Input \<Rightarrow> bool" where
  "net_input C a n inp \<longleftrightarrow> (case inp of InputMessage m \<Rightarrow> msg_ok C a m \<and> msg_To m = n
     | InputPersistenceComplete k \<Rightarrow> False | _ \<Rightarrow> True)"

lemma Step_ok:
  assumes C: "wf_config C" "2 \<le> length (Voters C)" and good: "p_good C a" and idle: "idle C a n c st" "pending c = []"
    and inp: "net_input C a n inp"
  shows "\<exists>c' out. Step inp c = Inr (c', out) \<and> step_ok C a n st c' out"
proof (cases inp)
  case InputElectionTimeout
  then show ?thesis using handleElectionTimeout_ok [OF good idle C(2)] by (metis Step.simps(1) prod.collapse)
next
  case InputHeartbeatTimeout
  then show ?thesis using handleHeartbeatTimeout_ok [OF good idle] by (metis Step.simps(2) prod.collapse)
next
  case (InputMessage m)
  then have m: "msg_ok C a m" "msg_To m = n" using inp by (simp_all add: net_input_def)
  show ?thesis
  proof (cases "msg_Type m")
    case MsgRequestVoteRequest
    then show ?thesis using handleRequestVoteRequest_ok [OF good idle m(1)] InputMessage
      by (cases "handleRequestVoteRequest m c") simp
  next
    case MsgRequestVoteResponse
    then show ?thesis using handleRequestVoteResponse_ok [OF good idle C(1) m(1) _ m(2)] InputMessage
      by (cases "handleRequestVoteResponse m c") simp
  next
    case MsgAppendEntriesRequest
    then show ?thesis using handleAppendEntriesRequest_ok [OF good idle m(1)] InputMessage by simp
  next
    case MsgAppendEntriesResponse
    then show ?thesis using handleAppendEntriesResponse_ok [OF good idle C(1) m(1)] InputMessage
      by (cases "handleAppendEntriesResponse m c") simp
  qed (use m in \<open>simp_all add: msg_ok_def\<close>)
next
  case (InputPropose data)
  then show ?thesis using handlePropose_ok [OF good idle, of data] by simp
qed (use inp in \<open>simp add: net_input_def\<close>)

section \<open>What a node applies\<close>

lemma log_step_applied:
  assumes cs: "core_static C n c" "core_static C n c'" and ls: "log_step c c' out"
  shows "take (commitIndex c') (Entries c') = take (commitIndex c) (Entries c) @ out_CommittedEntries out"
  using ls
proof cases
  case commit
  note s = core_static_simps [OF cs(1)]
  obtain e where e: "rlog c = e # Entries c" by (rule rlog_static [OF cs(1)])
  have "Entries c' = Entries c" "commitIndex c \<le> commitIndex c'" using commit by (simp_all add: commits_def log_view_def Entries_def)
  moreover have "out_CommittedEntries out = take (commitIndex c' - commitIndex c) (drop (commitIndex c) (Entries c))"
    using commit(1) s(5) e by (simp add: commits_def log_slice_drop)
  ultimately show ?thesis using take_add [of "commitIndex c" "commitIndex c' - commitIndex c" "Entries c"] by simp
next
  case (extend k es cfg i)
  obtain e where e: "rlog c = e # Entries c" by (rule rlog_static [OF cs(1)])
  have k: "commitIndex c < k" "k \<le> Suc (length (Entries c))" using extend e core_static_simps(5) [OF cs(1)] by simp_all
  then obtain k' where k': "k = Suc k'" by (cases k) auto
  have r: "rlog c' = take k (rlog c) @ es" "commitIndex c' = commitIndex c" using extend(5) by (simp_all add: log_view_def)
  then have "Entries c' = take k' (Entries c) @ es" unfolding Entries_def [of c'] by (simp add: e k')
  then show ?thesis using k r(2) extend(7) by (simp add: k')
next
  case (install i t cfg has)
  have "snapshotIndex c' = i" using install(2) by (simp add: log_view_def)
  then show ?thesis using install(1) core_static_simps(5) [OF cs(2)] by simp
qed

lemma cpre_applied:
  assumes X: "cpre C a T X" "contiguous (Suc 0) X" and e: "e \<in> set X"
  shows "applied_ok C a e"
proof -
  obtain k where k: "k < length X" "X ! k = e" using e by (auto simp: in_set_conv_nth)
  then have i: "ent_Index e = Suc k" using X(2) by (auto simp: contiguous_nth)
  obtain t i where ti: "p_committed (quorums C) a t i" "prefix X (lcut a t i)" using X(1) e by (auto simp: cpre_def)
  have "length X \<le> i" using prefix_length_le [OF ti(2)] by (simp add: lcut_def)
  moreover have "lcut a t i ! k = e" using ti(2) k by (auto elim!: prefixE simp: nth_append)
  ultimately show ?thesis using ti(1) i k(1) unfolding applied_ok_def by (intro exI [of _ t] exI [of _ i]) simp
qed

lemma core_ok_applied:
  assumes "core_ok C a n c" "e \<in> set (take (commitIndex c) (Entries c))"
  shows "applied_ok C a e"
proof (rule cpre_applied)
  show "cpre C a (currentTerm c) (take (commitIndex c) (Entries c))" using assms(1) by (simp add: core_ok_def)
  have "contiguous (Suc 0) (Entries c)" using assms(1) core_static_simps(9) by (auto simp: core_ok_def)
  then show "contiguous (Suc 0) (take (commitIndex c) (Entries c))" by (rule contiguous_take)
qed (rule assms(2))

section \<open>One step of the cluster\<close>

lemma node_ok_core: "node_ok C a n nd \<Longrightarrow> core_ok C a n (nd_core nd)"
  by (auto simp: node_ok_def idle_def busy_def split: option.splits)

lemma refines_update:
  assumes r: "refines C s a" and ns: "nstep C n a a'" and nd: "node_ok C a' n nd"
    and ms: "\<forall>m \<in> set ms. msg_ok C a' m" and es: "\<forall>e \<in> set es. applied_ok C a' e"
  shows "refines C (s\<lparr>cl_nodes := mput n nd (cl_nodes s), cl_net := cl_net s @ ms, cl_applied := cl_applied s @ map (Pair n) es\<rparr>) a'"
proof -
  have ext: "extends a a'" and frame: "\<And>m. m \<noteq> n \<Longrightarrow> p_frame m a a'" and steps: "psteps (quorums C) a a'"
    using ns by (simp_all add: nstep_def)
  have "node_ok C a' m nd'" if "mget (mput n nd (cl_nodes s)) m = Some nd'" for m nd'
    using that nd node_ok_frame [OF ext frame] r by (auto simp: refines_def gm.get_put split: if_splits)
  moreover have "\<forall>m \<in> set (cl_net s @ ms). msg_ok C a' m" using ms r msg_ok_extends [OF ext] by (auto simp: refines_def)
  moreover have "\<forall>(m, e) \<in> set (cl_applied s @ map (Pair n) es). applied_ok C a' e"
    using es r applied_ok_extends [OF ext] by (auto simp: refines_def)
  moreover have "psteps (quorums C) p_init a'" using r steps unfolding refines_def by (meson rtranclp_trans)
  ultimately show ?thesis using nstep_good [OF ns] by (simp add: refines_def)
qed

text \<open>A step of the core of a node, with the storage it has then.\<close>

lemma cl_update_ok:
  assumes r: "refines C s a" and old: "node_ok C a n nd" and ok: "step_ok C a n st c' out"
    and step: "Step inp (nd_core nd) = Inr (c', out)" "input_wf inp"
  shows "\<exists>a'. refines C (cl_update n (nd\<lparr>nd_core := c', nd_job := out_PersistRequest out, nd_storage := st\<rparr>) out s) a' \<and> extends a a'"
proof -
  obtain a' where a': "nstep C n a a'" "\<forall>m \<in> set (out_Messages out). msg_ok C a' m"
      "case out_PersistRequest out of None \<Rightarrow> idle C a' n c' st \<and> pending c' = [] | Some p \<Rightarrow> busy C a' n c' st p"
    using ok by (auto simp: step_ok_def)
  then have core: "core_ok C a' n c'" by (auto simp: idle_def busy_def split: option.splits)
  have cs: "core_static C n (nd_core nd)" "core_static C n c'" using node_ok_core [OF old] core by (simp_all add: core_ok_def)
  have "log_step (nd_core nd) c' out" by (rule Step_log_step [OF core_static_simps(1) [OF cs(1)] step(2,1)])
  then have app: "take (commitIndex c') (Entries c') = nd_applied nd @ out_CommittedEntries out"
    using log_step_applied [OF cs] old by (simp add: node_ok_def)
  then have "\<forall>e \<in> set (out_CommittedEntries out). applied_ok C a' e" using core_ok_applied [OF core] by simp
  moreover have "node_ok C a' n (nd\<lparr>nd_core := c', nd_job := out_PersistRequest out, nd_storage := st,
      nd_applied := nd_applied nd @ out_CommittedEntries out\<rparr>)"
    using a'(3) app by (simp add: node_ok_def split: option.splits)
  moreover have "extends a a'" using a'(1) by (simp add: nstep_def)
  ultimately show ?thesis using refines_update [OF r a'(1) _ a'(2)] unfolding cl_update_def by auto
qed

lemma cl_input_ok:
  assumes C: "wf_config C" "2 \<le> length (Voters C)" and r: "refines C s a" and inp: "net_input C a n inp"
  shows "\<exists>s' a'. cl_input n inp s = Inr s' \<and> refines C s' a' \<and> extends a a'"
proof (cases "\<exists>nd. mget (cl_nodes s) n = Some nd \<and> nd_job nd = None")
  case False
  then show ?thesis using r extends_refl by (auto simp: cl_input_def split: option.splits)
next
  case True
  then obtain nd where nd: "mget (cl_nodes s) n = Some nd" "nd_job nd = None" by blast
  have good: "p_good C a" and ok: "node_ok C a n nd" using r nd by (auto simp: refines_def)
  have idle: "idle C a n (nd_core nd) (nd_storage nd)" "pending (nd_core nd) = []" using ok nd by (simp_all add: node_ok_def)
  obtain c' out where st: "Step inp (nd_core nd) = Inr (c', out)" "step_ok C a n (nd_storage nd) c' out"
    using Step_ok [OF C good idle inp] by blast
  have "input_wf inp" using inp msg_ok_wf [OF good] by (cases inp) (simp_all add: net_input_def)
  then show ?thesis using cl_update_ok [OF r ok st(2,1)] nd st(1) by (auto simp: cl_input_def)
qed

lemma cl_complete_ok:
  assumes C: "wf_config C" and r: "refines C s a"
  shows "\<exists>s' a'. cl_complete n s = Inr s' \<and> refines C s' a' \<and> extends a a'"
proof (cases "\<exists>nd p. mget (cl_nodes s) n = Some nd \<and> nd_job nd = Some p")
  case False
  then show ?thesis using r extends_refl by (auto simp: cl_complete_def split: option.splits)
next
  case True
  then obtain nd p where nd: "mget (cl_nodes s) n = Some nd" "nd_job nd = Some p" by blast
  have good: "p_good C a" and ok: "node_ok C a n nd" using r nd by (auto simp: refines_def)
  have busy: "busy C a n (nd_core nd) (nd_storage nd) p" using ok nd by (simp add: node_ok_def)
  obtain c' out where h: "handlePersistenceComplete (pr_Seq p) (nd_core nd) = (c', out)"
    by (cases "handlePersistenceComplete (pr_Seq p) (nd_core nd)")
  have "step_ok C a n (ApplyPersistRequest (Some p) (nd_storage nd)) c' out"
    using handlePersistenceComplete_ok [OF good C busy] by (simp add: h)
  from cl_update_ok [OF r ok this, of "InputPersistenceComplete (pr_Seq p)"] h nd show ?thesis
    by (auto simp: cl_complete_def)
qed

lemma cl_crash_ok:
  assumes r: "refines C s a" and k: "\<And>nd. mget (cl_nodes s) n = Some nd \<Longrightarrow> crash_atomic k (nd_job nd)"
  shows "\<exists>a'. refines C (cl_crash n k s) a' \<and> extends a a'"
proof (cases "mget (cl_nodes s) n")
  case None
  then show ?thesis using r extends_refl by (auto simp: cl_crash_def)
next
  case (Some nd)
  have good: "p_good C a" and ok: "node_ok C a n nd" using r Some by (auto simp: refines_def)
  define st where "st = persist_prefix k (nd_job nd) (nd_storage nd)"
  obtain a' where a': "nstep C n a a'" "stored a' n st" using crash_stored [OF good ok k [OF Some]] by (auto simp: st_def)
  have cfg: "validate (c_cfg (nd_core nd))" "cfg_ID (c_cfg (nd_core nd)) = n" "cfg_Bootstrap (c_cfg (nd_core nd)) = C"
    using node_ok_core [OF ok] by (simp_all add: core_ok_def core_static_def)
  obtain c where c: "NewCore (c_cfg (nd_core nd)) (sto_HardState st) (sto_Entries st) = Inr c" "idle C a' n c st" "pending c = []"
      "commitIndex c = 0" using NewCore_ok [OF nstep_good [OF a'(1)] a'(2) cfg] by blast
  then have "node_ok C a' n \<lparr>nd_core = c, nd_storage = st, nd_job = None, nd_applied = []\<rparr>" by (simp add: node_ok_def)
  from refines_update [OF r a'(1) this, of "[]" "[]"] a'(1) show ?thesis
    using Some c by (auto simp: cl_crash_def Let_def st_def nstep_def)
qed

section \<open>Runs\<close>

text \<open>A crash keeps all or none of the writes of a persist request that carries a hard state.\<close>

definition action_atomic :: "action \<Rightarrow> cluster \<Rightarrow> bool" where
  "action_atomic act s =
     (case act of
        ACrash n k \<Rightarrow> (case mget (cl_nodes s) n of None \<Rightarrow> True | Some nd \<Rightarrow> crash_atomic k (nd_job nd))
      | _ \<Rightarrow> True)"

fun atomic_run :: "action list \<Rightarrow> cluster \<Rightarrow> bool" where
  "atomic_run [] s = True"
| "atomic_run (act # acts) s =
     (action_atomic act s \<and> (case cstep act s of Inl err \<Rightarrow> True | Inr s' \<Rightarrow> atomic_run acts s'))"

lemma cstep_ok:
  assumes C: "wf_config C" "2 \<le> length (Voters C)" and r: "refines C s a" and act: "action_atomic act s"
  shows "\<exists>s' a'. cstep act s = Inr s' \<and> refines C s' a' \<and> extends a a'"
proof (cases act)
  case (ADeliver k)
  show ?thesis
  proof (cases "k < length (cl_net s)")
    case True
    then have "msg_ok C a (cl_net s ! k)" using r by (simp add: refines_def)
    then show ?thesis using True ADeliver cl_input_ok [OF C r, of "msg_To (cl_net s ! k)" "InputMessage (cl_net s ! k)"]
      by (simp add: net_input_def)
  qed (use ADeliver r extends_refl in auto)
next
  case (ACrash n k)
  then have "\<exists>a'. refines C (cl_crash n k s) a' \<and> extends a a'" using act by (intro cl_crash_ok [OF r]) (simp add: action_atomic_def)
  then show ?thesis using ACrash by simp
qed (use cl_input_ok [OF C r] cl_complete_ok [OF C(1) r] in \<open>simp_all add: net_input_def\<close>)

lemma csteps_ok:
  assumes C: "wf_config C" "2 \<le> length (Voters C)" and "refines C s a" "atomic_run acts s"
  shows "\<exists>s' a'. csteps acts s = Inr s' \<and> refines C s' a' \<and> extends a a'"
  using assms(3,4)
proof (induction acts arbitrary: s a)
  case (Cons act acts)
  then obtain s1 a1 where s1: "cstep act s = Inr s1" "refines C s1 a1" "extends a a1" using cstep_ok [OF C, of s a act] by auto
  then obtain s2 a2 where "csteps acts s1 = Inr s2" "refines C s2 a2" "extends a1 a2" using Cons.IH [OF s1(2)] Cons.prems(2) by auto
  then show ?case using s1 extends_trans by auto
qed (use extends_refl in auto)

lemma atomic_run_append:
  "atomic_run (acts @ acts') s \<Longrightarrow> csteps acts s = Inr s' \<Longrightarrow> atomic_run acts s \<and> atomic_run acts' s'"
  by (induction acts arbitrary: s) (auto simp: bindR_eq_Inr)

section \<open>The start of a cluster\<close>

definition cluster_start :: "(NodeID, node) gomap \<Rightarrow> cluster" where
  "cluster_start nds = \<lparr>cl_nodes = nds, cl_net = [], cl_applied = []\<rparr>"

definition static_boot :: "Configuration \<Rightarrow> Config list \<Rightarrow> (NodeID, node) gomap \<Rightarrow> bool" where
  "static_boot C cfgs nds \<longleftrightarrow> wf_config C \<and> 2 \<le> length (Voters C) \<and> (\<forall>cfg \<in> set cfgs. cfg_Bootstrap cfg = C) \<and> boot cfgs = Inr nds"

lemma p_init_good: "p_good C p_init"
  using p_init_inv by (simp add: p_good_def p_init_def)

lemma NewCore_validate: "NewCore cfg hs es = Inr c \<Longrightarrow> validate cfg"
  by (simp add: NewCore_def NewCoreFromSnapshot_def split: if_splits)

lemma boot_ok:
  assumes "boot cfgs = Inr nds" "\<forall>cfg \<in> set cfgs. cfg_Bootstrap cfg = C" "mget nds n = Some nd"
  shows "node_ok C p_init n nd"
  using assms
proof (induction cfgs arbitrary: nds)
  case (Cons cfg cfgs)
  obtain c nds' where b: "NewCore cfg (sto_HardState fresh_storage) (sto_Entries fresh_storage) = Inr c" "boot cfgs = Inr nds'"
      "nds = mput (cfg_ID cfg) \<lparr>nd_core = c, nd_storage = fresh_storage, nd_job = None, nd_applied = []\<rparr> nds'"
    using Cons.prems(1) by (auto simp: bindR_eq_Inr)
  have "stored p_init (cfg_ID cfg) fresh_storage" by (simp add: stored_def fresh_storage_def p_init_def)
  then have "idle C p_init (cfg_ID cfg) c fresh_storage \<and> pending c = [] \<and> commitIndex c = 0"
    using NewCore_ok [OF p_init_good _ NewCore_validate [OF b(1)] refl, of fresh_storage C] b(1) Cons.prems(2) by auto
  then have "node_ok C p_init (cfg_ID cfg) \<lparr>nd_core = c, nd_storage = fresh_storage, nd_job = None, nd_applied = []\<rparr>"
    by (simp add: node_ok_def)
  then show ?case using Cons.IH [OF b(2)] Cons.prems(2,3) b(3) by (auto simp: gm.get_put split: if_splits)
qed simp

lemma run_refines:
  assumes "static_boot C cfgs nds" "atomic_run acts (cluster_start nds)"
  obtains s a where "csteps acts (cluster_start nds) = Inr s" "refines C s a"
proof -
  have "refines C (cluster_start nds) p_init"
    using assms(1) boot_ok p_init_good by (auto simp: refines_def static_boot_def cluster_start_def)
  then show thesis using that csteps_ok [OF _ _ _ assms(2)] assms(1) unfolding static_boot_def by metis
qed

section \<open>What the relation gives\<close>

lemma applied_comparable:
  assumes good: "p_good C a" and X: "cpre C a T X" "cpre C a U Y"
  shows "prefix X Y \<or> prefix Y X"
proof (cases "X = [] \<or> Y = []")
  case False
  then obtain t i u j where c: "p_committed (quorums C) a t i" "prefix X (lcut a t i)" "p_committed (quorums C) a u j" "prefix Y (lcut a u j)"
    using X by (auto simp: cpre_def)
  have "prefix (lcut a t i) (lcut a u j) \<or> prefix (lcut a u j) (lcut a t i)"
    by (rule static.committed_comparable [OF good_inv(1) [OF good] c(1,3)])
  then show ?thesis using c(2,4) prefix_same_cases prefix_order.trans by metis
qed auto

lemma applied_unique:
  assumes good: "p_good C a" and e: "applied_ok C a e" "applied_ok C a f" "ent_Index e = ent_Index f"
  shows "e = f"
proof -
  obtain t i u j where c: "p_committed (quorums C) a t i" "0 < ent_Index e" "ent_Index e \<le> i" "lcut a t i ! (ent_Index e - 1) = e"
      "p_committed (quorums C) a u j" "ent_Index e \<le> j" "lcut a u j ! (ent_Index e - 1) = f"
    using e unfolding applied_ok_def by auto
  have len: "length (lcut a t i) = i" "length (lcut a u j) = j"
    using c(1,5) by (auto simp: p_committed_def own_def lcut_def)
  have "prefix (lcut a t i) (lcut a u j) \<or> prefix (lcut a u j) (lcut a t i)"
    by (rule static.committed_comparable [OF good_inv(1) [OF good] c(1,5)])
  then show ?thesis
  proof
    assume "prefix (lcut a t i) (lcut a u j)"
    then have "lcut a u j ! (ent_Index e - 1) = lcut a t i ! (ent_Index e - 1)"
      using c(2,3) len by (auto elim!: prefixE simp: nth_append)
    then show ?thesis using c(4,7) by simp
  next
    assume "prefix (lcut a u j) (lcut a t i)"
    then have "lcut a u j ! (ent_Index e - 1) = lcut a t i ! (ent_Index e - 1)"
      using c(2,6) len by (auto elim!: prefixE simp: nth_append)
    then show ?thesis using c(4,7) by simp
  qed
qed

lemma node_ok_facts:
  assumes "node_ok C a n nd"
  shows "lead_ok C a n (nd_core nd)" "stored a n (nd_storage nd)"
    "cpre C a (currentTerm (nd_core nd)) (nd_applied nd)"
  using assms by (auto simp: node_ok_def idle_def busy_def core_ok_def split: option.splits)

lemma consistent_prefix:
  assumes "consistent a L" "prefix X L"
  shows "consistent a X"
  unfolding consistent_def
proof (intro allI impI)
  fix j assume j: "j < length X"
  obtain zs where L: "L = X @ zs" using assms(2) by (auto elim!: prefixE)
  then show "\<exists>L. p_tlog a (ent_Term (X ! j)) = Some L \<and> prefix (take (Suc j) X) L"
    using consistentD [OF assms(1), of "Suc j"] j by (simp add: nth_append)
qed

lemma node_logs_consistent:
  assumes good: "p_good C a" and nd: "node_ok C a n nd" and X: "X \<in> {Entries (nd_core nd), sto_Entries (nd_storage nd)}"
  shows "consistent a X"
proof -
  have logs: "consistent a (p_log a n)" "\<And>T L. p_tlog a T = Some L \<Longrightarrow> consistent a L"
    using good_inv(3) [OF good] by (simp_all add: inv_logs_def)
  have "sto_Entries (nd_storage nd) = p_log a n" using node_ok_facts(2) [OF nd] by (simp add: stored_def)
  moreover have "consistent a (Entries (nd_core nd))"
  proof (cases "nd_job nd")
    case None
    then have "Entries (nd_core nd) = p_log a n" using nd by (simp add: node_ok_def idle_def)
    then show ?thesis using logs by simp
  next
    case (Some p)
    then have "log_plan a n (nd_core nd) p" using nd by (simp add: node_ok_def busy_def)
    then show ?thesis using logs consistent_prefix unfolding log_plan_def by metis
  qed
  ultimately show ?thesis using X logs(1) by auto
qed

section \<open>A run of three nodes\<close>

definition three :: Configuration where
  "three = \<lparr>Voters = map (\<lambda>i. \<lparr>mem_ID = i, mem_Address = []\<rparr>) [''a'', ''b'', ''c''], Learners = []\<rparr>"

definition three_cfg :: "NodeID \<Rightarrow> Config" where
  "three_cfg i = \<lparr>cfg_ID = i, cfg_Bootstrap = three, cfg_ElectionTimeoutTicks = 10,
     cfg_ElectionTimeoutJitterTicks = 0, cfg_HeartbeatTimeoutTicks = 1, cfg_Rand = (\<lambda>_ _. 0)\<rparr>"

definition three_nodes :: "(NodeID, node) gomap" where
  "three_nodes = projr (boot (map three_cfg [''a'', ''b'', ''c'']))"

text \<open>Node \<open>a\<close> is elected by \<open>b\<close>, replicates an entry to \<open>b\<close> and commits it; \<open>b\<close> learns of the commit with
  the next heartbeat. Node \<open>c\<close> crashes while it takes the entry, before it has written anything.\<close>

definition three_run :: "action list" where
  "three_run = [ATimeout ''a'', AComplete ''a'', ADeliver 0, AComplete ''b'', ADeliver 2,
     APropose ''a'' ''x'', AComplete ''a'', ADeliver 5, AComplete ''b'', ADeliver 6, ACrash ''c'' 0,
     ADeliver 7, AHeartbeat ''a'', ADeliver 8]"

definition three_end :: cluster where
  "three_end = projr (csteps three_run (cluster_start three_nodes))"

definition three_mid :: cluster where
  "three_mid = projr (csteps (take 5 three_run) (cluster_start three_nodes))"

lemma three_boot: "static_boot three (map three_cfg [''a'', ''b'', ''c'']) three_nodes"
proof -
  have "wf_config three" by code_simp
  moreover have "\<not> isl (boot (map three_cfg [''a'', ''b'', ''c'']))" by code_simp
  then have "boot (map three_cfg [''a'', ''b'', ''c'']) = Inr three_nodes" by (simp add: three_nodes_def)
  ultimately show ?thesis by (simp add: static_boot_def three_cfg_def) (simp add: three_def)
qed

lemma three_atomic: "atomic_run three_run (cluster_start three_nodes)"
  by code_simp

lemma three_applied: "map (\<lambda>(n, e). (n, ent_Index e, ent_Data e)) (cl_applied three_end) = [(''a'', 1, ''x''), (''b'', 1, ''x'')]"
  by code_simp

definition three_node :: "NodeID \<Rightarrow> node" where
  "three_node n = the (mget (cl_nodes three_end) n)"

lemma three_end_run: "csteps three_run (cluster_start three_nodes) = Inr three_end"
proof -
  have "\<not> isl (csteps three_run (cluster_start three_nodes))" by code_simp
  then show ?thesis by (simp add: three_end_def)
qed

lemma three_node_get: "mget (cl_nodes three_end) ''a'' = Some (three_node ''a'')" "mget (cl_nodes three_end) ''b'' = Some (three_node ''b'')"
proof -
  have "mget (cl_nodes three_end) ''a'' \<noteq> None" "mget (cl_nodes three_end) ''b'' \<noteq> None" by code_simp+
  then show "mget (cl_nodes three_end) ''a'' = Some (three_node ''a'')" "mget (cl_nodes three_end) ''b'' = Some (three_node ''b'')"
    by (auto simp: three_node_def)
qed

lemma three_leader: "role (nd_core (three_node ''a'')) = Leader"
  by code_simp

lemma three_terms: "currentTerm (nd_core (three_node ''b'')) = 1" "currentTerm (nd_core (three_node ''a'')) = 1"
  by code_simp+

section \<open>Safety\<close>

text \<open>
  Claim C1. In every run of a cluster with a fixed configuration of at least two voters, under any
  delay, repetition, reordering and loss of messages and any crashes that keep all or none of the
  writes of a persist request with a hard state: no step of a core panics, two entries that any two
  nodes hand to their state machines at the same index are the same entry, and of the sequences two
  nodes have applied since they started one is a prefix of the other.
\<close>

theorem state_machine_safety:
  assumes "static_boot C cfgs nds" "atomic_run acts (cluster_start nds)"
  shows "\<exists>s. csteps acts (cluster_start nds) = Inr s
     \<and> (\<forall>n e m f. (n, e) \<in> set (cl_applied s) \<longrightarrow> (m, f) \<in> set (cl_applied s) \<longrightarrow> ent_Index e = ent_Index f \<longrightarrow> e = f)
     \<and> (\<forall>n nd m md. mget (cl_nodes s) n = Some nd \<longrightarrow> mget (cl_nodes s) m = Some md
          \<longrightarrow> prefix (nd_applied nd) (nd_applied md) \<or> prefix (nd_applied md) (nd_applied nd))"
proof -
  obtain s a where s: "csteps acts (cluster_start nds) = Inr s" and r: "refines C s a" by (rule run_refines [OF assms])
  have good: "p_good C a" using r by (simp add: refines_def)
  have "e = f" if "(n, e) \<in> set (cl_applied s)" "(m, f) \<in> set (cl_applied s)" "ent_Index e = ent_Index f" for n e m f
    using that r by (intro applied_unique [OF good]) (auto simp: refines_def)
  moreover have "prefix (nd_applied nd) (nd_applied md) \<or> prefix (nd_applied md) (nd_applied nd)"
    if "mget (cl_nodes s) n = Some nd" "mget (cl_nodes s) m = Some md" for n nd m md
  proof -
    have "node_ok C a n nd" "node_ok C a m md" using that r by (simp_all add: refines_def)
    then show ?thesis using node_ok_facts(3) applied_comparable [OF good] by blast
  qed
  ultimately show ?thesis using s by blast
qed

theorem state_machine_safety_witness:
  "length (cl_applied three_end) = 2 \<and> fst (cl_applied three_end ! 0) = ''a'' \<and> fst (cl_applied three_end ! 1) = ''b''
     \<and> snd (cl_applied three_end ! 0) = snd (cl_applied three_end ! 1)"
proof -
  have s: "(n, e) \<in> set (cl_applied three_end) \<Longrightarrow> (m, f) \<in> set (cl_applied three_end) \<Longrightarrow> ent_Index e = ent_Index f \<Longrightarrow> e = f" for n e m f
    using state_machine_safety [OF three_boot three_atomic] unfolding three_end_run by auto
  have l: "length (cl_applied three_end) = 2" using arg_cong [OF three_applied, of length] by simp
  moreover have "fst (cl_applied three_end ! 0) = ''a''" "fst (cl_applied three_end ! 1) = ''b''"
     "ent_Index (snd (cl_applied three_end ! 0)) = ent_Index (snd (cl_applied three_end ! 1))"
    by code_simp+
  moreover have "cl_applied three_end ! 0 \<in> set (cl_applied three_end)" "cl_applied three_end ! 1 \<in> set (cl_applied three_end)"
    using l by simp_all
  ultimately show ?thesis using s l by (metis prod.collapse)
qed

text \<open>
  Claim C2. In every such run a term has at most one leader, over the whole of the run: a node that leads a term at some moment
  and a node that leads the same term at the same or any later moment are the same node, whatever crashed and restarted
  in between; and the log of the leader at the later moment extends its log at the earlier one.
\<close>

theorem election_safety:
  assumes "static_boot C cfgs nds" "atomic_run (acts @ later) (cluster_start nds)"
    and "csteps acts (cluster_start nds) = Inr s" "csteps later s = Inr s'"
    and "mget (cl_nodes s) n = Some nd" "role (nd_core nd) = Leader"
    and "mget (cl_nodes s') m = Some md" "role (nd_core md) = Leader"
    and "currentTerm (nd_core nd) = currentTerm (nd_core md)"
  shows "n = m \<and> prefix (Entries (nd_core nd)) (Entries (nd_core md))"
proof -
  have at: "atomic_run acts (cluster_start nds)" "atomic_run later s" using atomic_run_append [OF assms(2,3)] by auto
  obtain a where r: "refines C s a" by (rule run_refines [OF assms(1) at(1)]) (use assms(3) in auto)
  obtain a' where r': "refines C s' a'" "extends a a'"
    using csteps_ok [OF _ _ r at(2)] assms(1,4) by (auto simp: static_boot_def)
  have l: "lead_ok C a n (nd_core nd)" "lead_ok C a' m (nd_core md)"
    using assms(5,7) node_ok_facts(1) r r'(1) by (auto simp: refines_def)
  let ?T = "currentTerm (nd_core nd)"
  have 1: "p_tlog a ?T = Some (Entries (nd_core nd))" "p_lead a ?T = n" using l(1) assms(6) unfolding lead_ok_def by blast+
  have 2: "p_tlog a' ?T = Some (Entries (nd_core md))" "p_lead a' ?T = m" using l(2) assms(8) unfolding lead_ok_def assms(9) by blast+
  show ?thesis using extends_tlog [OF r'(2) 1(1)] 1(2) 2 by auto
qed

lemma three_split:
  "atomic_run (take 5 three_run @ drop 5 three_run) (cluster_start three_nodes)"
  "csteps (take 5 three_run) (cluster_start three_nodes) = Inr three_mid" "csteps (drop 5 three_run) three_mid = Inr three_end"
proof -
  show "atomic_run (take 5 three_run @ drop 5 three_run) (cluster_start three_nodes)" using three_atomic by simp
  have "\<not> isl (csteps (take 5 three_run) (cluster_start three_nodes))" by code_simp
  then show mid: "csteps (take 5 three_run) (cluster_start three_nodes) = Inr three_mid" by (simp add: three_mid_def)
  have "csteps (xs @ ys) s = bindR (csteps xs s) (csteps ys)" for xs ys s
    by (induction xs arbitrary: s) (auto simp: bindR_def split: sum.splits)
  from this [of "take 5 three_run" "drop 5 three_run" "cluster_start three_nodes"]
  show "csteps (drop 5 three_run) three_mid = Inr three_end" using three_end_run mid by simp
qed

theorem election_safety_witness:
  "\<exists>nd. mget (cl_nodes three_mid) ''a'' = Some nd \<and> role (nd_core nd) = Leader \<and> Entries (nd_core nd) = []
     \<and> length (Entries (nd_core (three_node ''a''))) = 1 \<and> prefix (Entries (nd_core nd)) (Entries (nd_core (three_node ''a'')))"
proof -
  have "mget (cl_nodes three_mid) ''a'' \<noteq> None" by code_simp
  then obtain nd where nd: "mget (cl_nodes three_mid) ''a'' = Some nd" by blast
  have "role (nd_core (the (mget (cl_nodes three_mid) ''a''))) = Leader" "Entries (nd_core (the (mget (cl_nodes three_mid) ''a''))) = []"
    "currentTerm (nd_core (the (mget (cl_nodes three_mid) ''a''))) = 1" by code_simp+
  then have l: "role (nd_core nd) = Leader" "Entries (nd_core nd) = []" "currentTerm (nd_core nd) = currentTerm (nd_core (three_node ''a''))"
    using nd three_terms(2) by simp_all
  have "length (Entries (nd_core (three_node ''a''))) = 1" by code_simp
  with election_safety [OF three_boot three_split nd l(1) three_node_get(1) three_leader l(3)]
  show ?thesis using nd l by blast
qed

text \<open>
  Claim C7. In every such run, if two logs, in memory or in storage, of any two nodes have an entry
  of the same term at the same index, then they agree up to that index.
\<close>

theorem log_matching:
  assumes "static_boot C cfgs nds" "atomic_run acts (cluster_start nds)" "csteps acts (cluster_start nds) = Inr s"
    and "mget (cl_nodes s) n = Some nd" "X \<in> {Entries (nd_core nd), sto_Entries (nd_storage nd)}"
    and "mget (cl_nodes s) m = Some md" "Y \<in> {Entries (nd_core md), sto_Entries (nd_storage md)}"
    and "i < length X" "i < length Y" "ent_Term (X ! i) = ent_Term (Y ! i)"
  shows "take (Suc i) X = take (Suc i) Y"
proof -
  obtain a where r: "refines C s a" by (rule run_refines [OF assms(1,2)]) (use assms(3) in auto)
  then have "p_good C a" "node_ok C a n nd" "node_ok C a m md" using assms(4,6) by (auto simp: refines_def)
  then have "consistent a X" "consistent a Y" using node_logs_consistent assms(5,7) by blast+
  then show ?thesis using consistent_match [of a X Y "Suc i"] assms(8-10) by simp
qed

theorem log_matching_witness:
  "map ent_Data (Entries (nd_core (three_node ''a''))) = [''x'']
     \<and> take 1 (Entries (nd_core (three_node ''a''))) = take 1 (sto_Entries (nd_storage (three_node ''b'')))"
proof -
  have "map ent_Data (Entries (nd_core (three_node ''a''))) = [''x'']" "0 < length (Entries (nd_core (three_node ''a'')))"
    "0 < length (sto_Entries (nd_storage (three_node ''b'')))"
    "ent_Term (Entries (nd_core (three_node ''a'')) ! 0) = ent_Term (sto_Entries (nd_storage (three_node ''b'')) ! 0)"
    by code_simp+
  then show ?thesis
    using log_matching [OF three_boot three_atomic three_end_run three_node_get(1) insertI1 three_node_get(2), of _ 0] by simp
qed

text \<open>
  Claim C6. In every such run a leader has in its log every entry that a node whose term is not
  later than the term of the leader has handed to its state machine.
\<close>

theorem leader_has_applied_entries:
  assumes "static_boot C cfgs nds" "atomic_run acts (cluster_start nds)" "csteps acts (cluster_start nds) = Inr s"
    and "mget (cl_nodes s) n = Some nd" "role (nd_core nd) = Leader"
    and "mget (cl_nodes s) m = Some md" "currentTerm (nd_core md) \<le> currentTerm (nd_core nd)"
  shows "prefix (nd_applied md) (Entries (nd_core nd))"
proof -
  obtain a where r: "refines C s a" by (rule run_refines [OF assms(1,2)]) (use assms(3) in auto)
  then have good: "p_good C a" and n: "node_ok C a n nd" and m: "node_ok C a m md" using assms(4,6) by (auto simp: refines_def)
  have "p_tlog a (currentTerm (nd_core nd)) = Some (Entries (nd_core nd))"
    using node_ok_facts(1) [OF n] assms(5) by (auto simp: lead_ok_def)
  moreover have "cpre C a (currentTerm (nd_core nd)) (nd_applied md)"
    by (rule cpre_mono [OF node_ok_facts(3) [OF m] assms(7)]) simp
  ultimately show ?thesis using cpre_leader [OF good] by blast
qed

theorem leader_has_applied_entries_witness:
  "prefix (nd_applied (three_node ''b'')) (Entries (nd_core (three_node ''a''))) \<and> length (nd_applied (three_node ''b'')) = 1"
proof -
  have "length (nd_applied (three_node ''b'')) = 1" by code_simp
  then show ?thesis
    using leader_has_applied_entries [OF three_boot three_atomic three_end_run three_node_get(1) three_leader three_node_get(2)]
    by (simp add: three_terms)
qed

text \<open>
  Claim C5. Every such run refines the abstract protocol: there is a run of the protocol whose terms
  and logs are those of the storages, whose leaders are the leaders of the cluster with their logs,
  and in which every entry a node has handed to its state machine is committed at its index.
\<close>

theorem cluster_refines_protocol:
  assumes "static_boot C cfgs nds" "atomic_run acts (cluster_start nds)"
  shows "\<exists>s a. csteps acts (cluster_start nds) = Inr s \<and> psteps (quorums C) p_init a
     \<and> (\<forall>n nd. mget (cl_nodes s) n = Some nd \<longrightarrow>
          hs_CurrentTerm (sto_HardState (nd_storage nd)) = p_term a n \<and> sto_Entries (nd_storage nd) = p_log a n
          \<and> (nd_job nd = None \<longrightarrow> currentTerm (nd_core nd) = p_term a n \<and> Entries (nd_core nd) = p_log a n)
          \<and> (role (nd_core nd) = Leader \<longrightarrow>
               p_tlog a (currentTerm (nd_core nd)) = Some (Entries (nd_core nd)) \<and> p_lead a (currentTerm (nd_core nd)) = n))
     \<and> (\<forall>n e. (n, e) \<in> set (cl_applied s) \<longrightarrow>
          (\<exists>t i. p_committed (quorums C) a t i \<and> 0 < ent_Index e \<and> ent_Index e \<le> i \<and> lcut a t i ! (ent_Index e - 1) = e))"
proof -
  obtain s a where s: "csteps acts (cluster_start nds) = Inr s" and r: "refines C s a" by (rule run_refines [OF assms])
  have "hs_CurrentTerm (sto_HardState (nd_storage nd)) = p_term a n \<and> sto_Entries (nd_storage nd) = p_log a n
      \<and> (nd_job nd = None \<longrightarrow> currentTerm (nd_core nd) = p_term a n \<and> Entries (nd_core nd) = p_log a n)
      \<and> (role (nd_core nd) = Leader \<longrightarrow>
           p_tlog a (currentTerm (nd_core nd)) = Some (Entries (nd_core nd)) \<and> p_lead a (currentTerm (nd_core nd)) = n)"
    if "mget (cl_nodes s) n = Some nd" for n nd
  proof -
    have ok: "node_ok C a n nd" using that r by (simp add: refines_def)
    have "nd_job nd = None \<longrightarrow> currentTerm (nd_core nd) = p_term a n \<and> Entries (nd_core nd) = p_log a n"
      using ok by (auto simp: node_ok_def idle_def)
    then show ?thesis using node_ok_facts(1,2) [OF ok] by (auto simp: stored_def lead_ok_def)
  qed
  moreover have "\<exists>t i. p_committed (quorums C) a t i \<and> 0 < ent_Index e \<and> ent_Index e \<le> i \<and> lcut a t i ! (ent_Index e - 1) = e"
    if "(n, e) \<in> set (cl_applied s)" for n e
    using that r by (auto simp: refines_def applied_ok_def)
  moreover have "psteps (quorums C) p_init a" using r by (simp add: refines_def)
  ultimately show ?thesis using s by blast
qed

theorem cluster_refines_protocol_witness:
  "\<exists>a. psteps (quorums three) p_init a \<and> p_tlog a 1 = Some (Entries (nd_core (three_node ''a'')))
     \<and> p_log a ''b'' = sto_Entries (nd_storage (three_node ''b''))"
proof -
  obtain a where a: "psteps (quorums three) p_init a"
     "\<And>n nd. mget (cl_nodes three_end) n = Some nd \<Longrightarrow> sto_Entries (nd_storage nd) = p_log a n
        \<and> (role (nd_core nd) = Leader \<longrightarrow> p_tlog a (currentTerm (nd_core nd)) = Some (Entries (nd_core nd)))"
    using cluster_refines_protocol [OF three_boot three_atomic] unfolding three_end_run by auto
  show ?thesis using a(1) a(2) [OF three_node_get(1)] a(2) [OF three_node_get(2)] three_leader three_terms
    by (intro exI [of _ a]) simp
qed

end
