(* ===== verification/Wal_Record.thy ===== *)
theory Wal_Record
  imports Codec
begin

text \<open>
  The record frames of the write-ahead log (\<^verbatim>\<open>internal/wal/record.go\<close>), the metadata payload
  (\<^verbatim>\<open>internal/wal/metadata.go\<close>) and the reader of one frame (\<^verbatim>\<open>readFrame\<close> in \<^verbatim>\<open>internal/wal/wal.go\<close>).
  A frame that was written is read back; a proper prefix of it, which is what a crash during the
  write leaves, is recognised as torn; the reader with its two bounded reads decides as the
  decoder of the whole rest of the segment does, except for a length above the limit.
\<close>

unbundle bit_operations_syntax

section \<open>CRC-32\<close>

text \<open>\<^verbatim>\<open>crc32.ChecksumIEEE\<close>: the reflected polynomial \<open>0xEDB88320\<close>, one bit at a time.\<close>

definition crc_bit :: "u32 \<Rightarrow> u32" where
  "crc_bit c = (if c AND 1 = 0 then drop_bit 1 c else drop_bit 1 c XOR 0xEDB88320)"

definition crc_byte :: "u32 \<Rightarrow> char \<Rightarrow> u32" where
  "crc_byte c b = (crc_bit ^^ 8) (c XOR word_of_nat (of_char b))"

definition ChecksumIEEE :: "bytes \<Rightarrow> u32" where
  "ChecksumIEEE bs = foldl crc_byte 0xFFFFFFFF bs XOR 0xFFFFFFFF"

text \<open>The published check value of the algorithm.\<close>

lemma crc_byte_unfold:
  "crc_byte c b = crc_bit (crc_bit (crc_bit (crc_bit (crc_bit (crc_bit (crc_bit (crc_bit (c XOR word_of_nat (of_char b)))))))))"
  by (simp add: crc_byte_def eval_nat_numeral)

lemma ChecksumIEEE_check: "ChecksumIEEE ''123456789'' = 0xCBF43926"
  by (simp add: ChecksumIEEE_def crc_byte_unfold crc_bit_def)

section \<open>Frames\<close>

datatype RecordType = RecordTypeLogEntry | RecordTypeHardState | RecordTypeMetadata

definition type_byte :: "RecordType \<Rightarrow> char" where
  "type_byte t = char_of (case t of RecordTypeLogEntry \<Rightarrow> 1 | RecordTypeHardState \<Rightarrow> 2 | RecordTypeMetadata \<Rightarrow> (3::nat))"

text \<open>\<open>RecordType.valid\<close>: the types a byte stands for.\<close>

definition valid_type :: "char \<Rightarrow> RecordType option" where
  "valid_type b = (if b = type_byte RecordTypeLogEntry then Some RecordTypeLogEntry
     else if b = type_byte RecordTypeHardState then Some RecordTypeHardState
     else if b = type_byte RecordTypeMetadata then Some RecordTypeMetadata else None)"

definition FormatVersion :: char where
  "FormatVersion = char_of (1::nat)"

definition MaxRecordPayloadSize :: nat where
  "MaxRecordPayloadSize = 64 * 1024 * 1024"

definition headerSize :: nat where "headerSize = 14"

definition checksumSize :: nat where "checksumSize = 4"

record Record =
  rec_Type :: RecordType
  rec_Index :: u64
  rec_Payload :: bytes

text \<open>The errors of the package. \<open>errTornTail\<close> never leaves it; \<open>ErrOther\<close> stands for the errors that
  carry only a message.\<close>

datatype wal_error = ErrClosed | ErrUnsupportedVersion | ErrRecordTooLarge | ErrCorrupt | ErrNoMetadata
  | ErrUnsupportedGeneration | ErrTornTail | ErrOther

definition encodeRecord :: "RecordType \<Rightarrow> u64 \<Rightarrow> bytes \<Rightarrow> bytes" where
  "encodeRecord rt index payload =
     (let body = [type_byte rt] @ PutUint64 index @ PutUint32 (len32 payload) @ [FormatVersion] @ payload
      in body @ PutUint32 (ChecksumIEEE body))"

definition decodeFrameBytes :: "bytes \<Rightarrow> wal_error + Record \<times> nat" where
  "decodeFrameBytes buf =
     (if length buf < headerSize then Inl ErrTornTail
      else let rt = buf ! 0;
               index = Uint64 (drop 1 buf);
               len = Uint32 (drop 9 buf);
               version = buf ! 13
           in if version \<noteq> FormatVersion then Inl ErrUnsupportedVersion
              else let need = headerSize + unat len + checksumSize
                   in if length buf < need then Inl ErrTornTail
                      else if unat len > MaxRecordPayloadSize then Inl ErrRecordTooLarge
                      else case valid_type rt of
                             None \<Rightarrow> Inl ErrCorrupt
                           | Some t \<Rightarrow>
                               (let payloadEnd = headerSize + unat len;
                                    wantCRC = Uint32 (drop payloadEnd buf);
                                    gotCRC = ChecksumIEEE (take payloadEnd buf)
                                in if gotCRC \<noteq> wantCRC then Inl ErrCorrupt
                                   else Inr (\<lparr>rec_Type = t, rec_Index = index,
                                          rec_Payload = drop headerSize (take payloadEnd buf)\<rparr>, need)))"

section \<open>The metadata payload\<close>

record Metadata =
  md_NodeID :: bytes
  md_FormatVersion :: char
  md_LatestSnapshotIndex :: u64
  md_ClusterGeneration :: u32

definition encodeMetadata :: "Metadata \<Rightarrow> bytes" where
  "encodeMetadata m = [md_FormatVersion m] @ PutUint64 (md_LatestSnapshotIndex m) @ PutUint16 (length (md_NodeID m)) @ md_NodeID m
     @ (if md_ClusterGeneration m > 0 then PutUint32 (md_ClusterGeneration m) else [])"

definition decodeMetadata :: "bytes \<Rightarrow> wal_error + Metadata" where
  "decodeMetadata b =
     (if length b < 11 then Inl ErrOther
      else let version = b ! 0;
               snap = Uint64 (drop 1 b);
               idLen = Uint16 (drop 9 b)
           in if idLen > length b - 11 then Inl ErrOther
              else let off = 11 + idLen;
                       nid = drop 11 (take off b);
                       extra = length b - off
                   in if extra = 0 then Inr \<lparr>md_NodeID = nid, md_FormatVersion = version, md_LatestSnapshotIndex = snap, md_ClusterGeneration = 0\<rparr>
                      else if extra = 4
                      then Inr \<lparr>md_NodeID = nid, md_FormatVersion = version, md_LatestSnapshotIndex = snap,
                                md_ClusterGeneration = Uint32 (drop off b)\<rparr>
                      else Inl ErrOther)"

lemma decodeMetadata_encode:
  assumes "length (md_NodeID m) < 65536"
  shows "decodeMetadata (encodeMetadata m) = Inr m"
proof -
  define h where "h = [md_FormatVersion m] @ PutUint64 (md_LatestSnapshotIndex m) @ PutUint16 (length (md_NodeID m))"
  define t where "t = (if md_ClusterGeneration m > 0 then PutUint32 (md_ClusterGeneration m) else [])"
  let ?b = "encodeMetadata m"
  have b: "?b = h @ md_NodeID m @ t" "length h = 11" by (simp_all add: encodeMetadata_def h_def t_def)
  have len: "length ?b = 11 + length (md_NodeID m) + length t" by (simp add: b)
  have f: "?b ! 0 = md_FormatVersion m" "Uint64 (drop 1 ?b) = md_LatestSnapshotIndex m" "Uint16 (drop 9 ?b) = length (md_NodeID m)"
    using assms by (simp_all add: encodeMetadata_def)
  have g: "drop 11 (take (11 + length (md_NodeID m)) ?b) = md_NodeID m" "drop (11 + length (md_NodeID m)) ?b = t"
    using b(2) by (simp_all add: b(1))
  show ?thesis
  proof (cases "md_ClusterGeneration m > 0")
    case True
    then have "length t = 4" "Uint32 t = md_ClusterGeneration m" using Uint32_PutUint32 [of "md_ClusterGeneration m" "[]"] by (simp_all add: t_def)
    then show ?thesis unfolding decodeMetadata_def Let_def f g using len by simp
  next
    case False
    then have "t = []" "md_ClusterGeneration m = 0" by (simp_all add: t_def) (simp add: word_le_0_iff not_less)
    then show ?thesis unfolding decodeMetadata_def Let_def f g using len by simp
  qed
qed

section \<open>Reading one frame of a segment\<close>

text \<open>\<open>Segment.ReadAt\<close>: at most \<open>want\<close> bytes from \<open>offset\<close>, never beyond the segment. The callers take
  the bytes that were read and ignore a short read.\<close>

definition ReadAt :: "bytes \<Rightarrow> nat \<Rightarrow> nat \<Rightarrow> bytes" where
  "ReadAt seg want offset =
     (let avail = length seg - offset; toRead = (if avail < want then avail else want)
      in take toRead (drop offset seg))"

definition readFrameFull :: "bytes \<Rightarrow> nat \<Rightarrow> nat \<Rightarrow> wal_error + (Record \<times> nat) option" where
  "readFrameFull seg offset avail =
     (let maxRead = headerSize + MaxRecordPayloadSize + checksumSize;
          want = (if avail > maxRead then maxRead else avail)
      in bindR (decodeFrameBytes (ReadAt seg want offset)) (\<lambda>r. Inr (Some r)))"

definition readFrame :: "bytes \<Rightarrow> nat \<Rightarrow> wal_error + (Record \<times> nat) option" where
  "readFrame seg offset =
     (if offset \<ge> length seg then Inr None
      else let avail = length seg - offset;
               headerWant = (if avail > headerSize then headerSize else avail);
               hdrBuf = ReadAt seg headerWant offset
           in if length hdrBuf < headerSize then Inl ErrTornTail
              else let len = Uint32 (drop 9 hdrBuf);
                       frameLen = headerSize + unat len + checksumSize
                   in if unat len > MaxRecordPayloadSize \<or> frameLen > avail then readFrameFull seg offset avail
                      else bindR (decodeFrameBytes (ReadAt seg frameLen offset)) (\<lambda>r. Inr (Some r)))"

section \<open>Frames that were written\<close>

lemma valid_type_byte [simp]: "valid_type (type_byte t) = Some t"
  by (cases t) (simp_all add: valid_type_def type_byte_def)

lemma length_encodeRecord [simp]: "length (encodeRecord rt i p) = headerSize + length p + checksumSize"
  by (simp add: encodeRecord_def Let_def headerSize_def checksumSize_def)

lemma frame_sizes: "headerSize = 14" "checksumSize = 4"
  by (simp_all add: headerSize_def checksumSize_def)

definition frame_body :: "RecordType \<Rightarrow> u64 \<Rightarrow> bytes \<Rightarrow> bytes" where
  "frame_body rt i p = [type_byte rt] @ PutUint64 i @ PutUint32 (len32 p) @ [FormatVersion] @ p"

lemma length_frame_body [simp]: "length (frame_body rt i p) = 14 + length p"
  by (simp add: frame_body_def)

lemma encodeRecord_body: "encodeRecord rt i p = frame_body rt i p @ PutUint32 (ChecksumIEEE (frame_body rt i p))"
  by (simp add: encodeRecord_def frame_body_def Let_def)

text \<open>The fields of the header, in whatever part of the frame reaches that far.\<close>

lemma header_fields:
  assumes "14 \<le> n"
  shows "take n (frame_body rt i p @ r) ! 0 = type_byte rt" "Uint64 (drop 1 (take n (frame_body rt i p @ r))) = i"
    "Uint32 (drop 9 (take n (frame_body rt i p @ r))) = len32 p" "take n (frame_body rt i p @ r) ! 13 = FormatVersion"
proof -
  obtain k where n: "n = 14 + k" using assms nat_le_iff_add by blast
  define h where "h = [type_byte rt] @ PutUint64 i @ PutUint32 (len32 p) @ [FormatVersion]"
  have "frame_body rt i p = h @ p" "length h = 14" by (simp_all add: h_def frame_body_def)
  then have "take n (frame_body rt i p @ r) = h @ take k (p @ r)" by (simp add: n)
  then have t: "take n (frame_body rt i p @ r) = [type_byte rt] @ PutUint64 i @ PutUint32 (len32 p) @ [FormatVersion] @ take k (p @ r)"
    by (simp add: h_def)
  show "take n (frame_body rt i p @ r) ! 0 = type_byte rt" unfolding t by simp
  show "Uint64 (drop 1 (take n (frame_body rt i p @ r))) = i" unfolding t by simp
  show "Uint32 (drop 9 (take n (frame_body rt i p @ r))) = len32 p" unfolding t by simp
  show "take n (frame_body rt i p @ r) ! 13 = FormatVersion" unfolding t by (simp add: nth_append)
qed

lemma payload_small: "length p \<le> MaxRecordPayloadSize \<Longrightarrow> unat (len32 p) = length p"
  by (rule unat_len32) (simp add: MaxRecordPayloadSize_def)

lemma decode_encode:
  assumes "length p \<le> MaxRecordPayloadSize"
  shows "decodeFrameBytes (encodeRecord rt i p @ r)
     = Inr (\<lparr>rec_Type = rt, rec_Index = i, rec_Payload = p\<rparr>, length (encodeRecord rt i p))"
proof -
  let ?buf = "encodeRecord rt i p @ r"
  have len: "length ?buf = 18 + length p + length r" by (simp add: frame_sizes)
  have e: "?buf = take (length ?buf) (frame_body rt i p @ (PutUint32 (ChecksumIEEE (frame_body rt i p)) @ r))"
    by (simp add: encodeRecord_body)
  have h: "?buf ! 0 = type_byte rt" "Uint64 (drop 1 ?buf) = i" "Uint32 (drop 9 ?buf) = len32 p" "?buf ! 13 = FormatVersion"
    using header_fields [of "length ?buf" rt i p "PutUint32 (ChecksumIEEE (frame_body rt i p)) @ r", folded e] len by simp_all
  have b: "take (14 + length p) ?buf = frame_body rt i p" "drop (14 + length p) ?buf = PutUint32 (ChecksumIEEE (frame_body rt i p)) @ r"
    by (simp_all add: encodeRecord_body)
  have d: "drop 14 (frame_body rt i p) = p" by (simp add: frame_body_def)
  show ?thesis
    unfolding decodeFrameBytes_def Let_def h using payload_small [OF assms] assms len b d
    by (simp add: frame_sizes)
qed

text \<open>A crash in the middle of a write leaves a proper prefix of the frame.\<close>

lemma decode_torn:
  assumes "length p \<le> MaxRecordPayloadSize" "n < length (encodeRecord rt i p)"
  shows "decodeFrameBytes (take n (encodeRecord rt i p)) = Inl ErrTornTail"
proof (cases "n < 14")
  case False
  then have "14 \<le> n" by simp
  note h = header_fields [OF this, of rt i p "PutUint32 (ChecksumIEEE (frame_body rt i p))", folded encodeRecord_body]
  show ?thesis
    unfolding decodeFrameBytes_def Let_def h using payload_small [OF assms(1)] assms(2) False
    by (simp add: frame_sizes)
qed (use assms in \<open>simp add: decodeFrameBytes_def frame_sizes\<close>)

section \<open>The reader\<close>

lemma ReadAt_eq: "ReadAt seg want offset = take want (drop offset seg)"
  by (simp add: ReadAt_def Let_def)

lemma take_header: "14 \<le> n \<Longrightarrow> k + 8 \<le> 14 \<Longrightarrow> Uint64 (drop k (take n b)) = Uint64 (drop k b)"
  "14 \<le> n \<Longrightarrow> k + 4 \<le> 14 \<Longrightarrow> Uint32 (drop k (take n b)) = Uint32 (drop k b)"
  by (simp_all add: Uint64_def Uint32_def drop_take min_def)

text \<open>The decoder does not look beyond the frame.\<close>

lemma decode_take:
  assumes "14 \<le> length b" "headerSize + unat (Uint32 (drop 9 b)) + checksumSize \<le> n"
  shows "decodeFrameBytes (take n b) = decodeFrameBytes b \<or> length b < n"
proof (cases "length b < n")
  case False
  define m where "m = unat (Uint32 (drop 9 b))"
  have n: "18 + m \<le> n" "n \<le> length b" using assms(2) False by (simp_all add: m_def frame_sizes)
  have f: "Uint64 (drop 1 (take n b)) = Uint64 (drop 1 b)" "Uint32 (drop 9 (take n b)) = Uint32 (drop 9 b)"
    "take n b ! 0 = b ! 0" "take n b ! 13 = b ! 13" using n take_header [of n] by simp_all
  have g: "Uint32 (drop (14 + m) (take n b)) = Uint32 (drop (14 + m) b)" "take (14 + m) (take n b) = take (14 + m) b"
    using n by (simp_all add: Uint32_def drop_take min_def)
  then show ?thesis using n unfolding decodeFrameBytes_def f Let_def frame_sizes m_def [symmetric] g by simp
qed simp

lemma decode_incomplete:
  assumes "14 \<le> length b" "length b < 18 + unat (Uint32 (drop 9 b))"
  shows "decodeFrameBytes b = (if b ! 13 \<noteq> FormatVersion then Inl ErrUnsupportedVersion else Inl ErrTornTail)"
  using assms unfolding decodeFrameBytes_def Let_def frame_sizes by simp

lemma decode_oversized:
  assumes "14 \<le> length b" "18 + unat (Uint32 (drop 9 b)) \<le> length b" "MaxRecordPayloadSize < unat (Uint32 (drop 9 b))"
  shows "decodeFrameBytes b = (if b ! 13 \<noteq> FormatVersion then Inl ErrUnsupportedVersion else Inl ErrRecordTooLarge)"
  using assms unfolding decodeFrameBytes_def Let_def frame_sizes by simp

lemma decode_sized:
  assumes "unat (Uint32 (drop 9 b)) \<le> MaxRecordPayloadSize"
  shows "decodeFrameBytes b \<noteq> Inl ErrRecordTooLarge"
  using assms unfolding decodeFrameBytes_def Let_def frame_sizes by (simp split: option.splits)

definition read_outcome :: "wal_error + Record \<times> nat \<Rightarrow> wal_error + (Record \<times> nat) option" where
  "read_outcome r = (case r of Inl e \<Rightarrow> Inl (if e = ErrRecordTooLarge then ErrTornTail else e) | Inr x \<Rightarrow> Inr (Some x))"

lemma readFrame_decode:
  assumes "offset < length seg"
  shows "readFrame seg offset = read_outcome (decodeFrameBytes (drop offset seg))"
proof -
  define b where "b = drop offset seg"
  define m where "m = unat (Uint32 (drop 9 b))"
  have b: "0 < length b" "length seg - offset = length b" using assms by (simp_all add: b_def)
  show ?thesis
  proof (cases "length b < 14")
    case True
    then show ?thesis using assms b(2)
      by (simp add: readFrame_def Let_def ReadAt_eq b_def [symmetric] frame_sizes decodeFrameBytes_def read_outcome_def)
  next
    case False
    then have h: "Uint32 (drop 9 (ReadAt seg 14 offset)) = Uint32 (drop 9 b)" "length (ReadAt seg 14 offset) = 14"
      using take_header(2) [of 14 9 b] by (simp_all add: ReadAt_eq b_def)
    have r: "readFrame seg offset = (if m > MaxRecordPayloadSize \<or> 18 + m > length b then readFrameFull seg offset (length b)
        else bindR (decodeFrameBytes (take (18 + m) b)) (\<lambda>r. Inr (Some r)))"
      using assms b(2) False h by (simp add: readFrame_def Let_def frame_sizes m_def ReadAt_eq b_def [symmetric] min_def)
    consider "m \<le> MaxRecordPayloadSize" "18 + m \<le> length b" | "m \<le> MaxRecordPayloadSize" "length b < 18 + m" | "MaxRecordPayloadSize < m"
      by linarith
    then show ?thesis
    proof cases
      case 1
      then have "decodeFrameBytes (take (18 + m) b) = decodeFrameBytes b"
        using decode_take [of b "18 + m"] False by (simp add: frame_sizes m_def)
      then show ?thesis using 1 r decode_sized [of b] unfolding m_def b_def [symmetric]
        by (auto simp: read_outcome_def split: sum.splits)
    next
      case 2
      have "readFrame seg offset = bindR (decodeFrameBytes b) (\<lambda>r. Inr (Some r))"
        using 2 r b(2) by (simp add: readFrameFull_def Let_def frame_sizes ReadAt_eq b_def [symmetric] MaxRecordPayloadSize_def)
      then show ?thesis using 2 decode_incomplete [of b] False unfolding m_def b_def [symmetric]
        by (simp add: read_outcome_def)
    next
      case 3
      define want where "want = (if length b > 18 + MaxRecordPayloadSize then 18 + MaxRecordPayloadSize else length b)"
      have "readFrame seg offset = bindR (decodeFrameBytes (take want b)) (\<lambda>r. Inr (Some r))"
        using 3 r by (simp add: readFrameFull_def Let_def frame_sizes ReadAt_eq b_def [symmetric] want_def add.assoc)
      moreover have "decodeFrameBytes (take want b) = (if b ! 13 \<noteq> FormatVersion then Inl ErrUnsupportedVersion else Inl ErrTornTail)"
        using decode_incomplete [of "take want b"] take_header(2) [of want 9 b] 3 False
        by (auto simp: want_def m_def MaxRecordPayloadSize_def min_def)
      ultimately show ?thesis
        using 3 False decode_incomplete [of b] decode_oversized [of b] unfolding m_def b_def [symmetric]
        by (cases "length b < 18 + unat (Uint32 (drop 9 b))") (simp_all add: read_outcome_def)
    qed
  qed
qed

end
