(* ===== verification/Wal.thy ===== *)
theory Wal
  imports Wal_Record
begin

text \<open>
  The write-ahead log (\<^verbatim>\<open>internal/wal\<close>) over segment files (\<^verbatim>\<open>internal/storage\<close>): recovery, appends with
  segment rotation, syncs, truncation of a suffix, snapshot pointers, compaction and replay.

  A segment file is its bytes together with the length of the prefix that is known to be on disk.
  The calls to the operating system succeed; a crash may cut every segment anywhere above that
  prefix. Creation, removal and truncation of segments are durable when they return, as
  \<^verbatim>\<open>internal/storage\<close> makes them.
\<close>

section \<open>Segment files\<close>

record segment =
  seg_data :: bytes
  seg_synced :: nat

type_synonym segdir = "(u64, segment) gomap"

definition ListSegmentIDs :: "segdir \<Rightarrow> u64 list" where
  "ListSegmentIDs dir = sort (mkeys dir)"

definition CreateSegment :: "u64 \<Rightarrow> segdir \<Rightarrow> wal_error + segdir" where
  "CreateSegment i dir = (case mget dir i of
     Some s \<Rightarrow> Inl ErrOther | None \<Rightarrow> Inr (mput i \<lparr>seg_data = [], seg_synced = 0\<rparr> dir))"

definition OpenSegment :: "u64 \<Rightarrow> segdir \<Rightarrow> wal_error + bytes" where
  "OpenSegment i dir = (case mget dir i of None \<Rightarrow> Inl ErrOther | Some s \<Rightarrow> Inr (seg_data s))"

definition RemoveSegment :: "u64 \<Rightarrow> segdir \<Rightarrow> wal_error + segdir" where
  "RemoveSegment i dir = (case mget dir i of None \<Rightarrow> Inl ErrOther | Some s \<Rightarrow> Inr (filter (\<lambda>p. fst p \<noteq> i) dir))"

definition seg_update :: "(segment \<Rightarrow> segment) \<Rightarrow> u64 \<Rightarrow> segdir \<Rightarrow> segdir" where
  "seg_update f i dir = (case mget dir i of None \<Rightarrow> dir | Some s \<Rightarrow> mput i (f s) dir)"

definition seg_Append :: "bytes \<Rightarrow> u64 \<Rightarrow> segdir \<Rightarrow> segdir" where
  "seg_Append p = seg_update (\<lambda>s. s\<lparr>seg_data := seg_data s @ p\<rparr>)"

definition seg_Sync :: "u64 \<Rightarrow> segdir \<Rightarrow> segdir" where
  "seg_Sync = seg_update (\<lambda>s. s\<lparr>seg_synced := length (seg_data s)\<rparr>)"

definition seg_Truncate :: "nat \<Rightarrow> u64 \<Rightarrow> segdir \<Rightarrow> segdir" where
  "seg_Truncate n i dir = seg_Sync i (seg_update (\<lambda>s. s\<lparr>seg_data := take n (seg_data s)\<rparr>) i dir)"

definition seg_Size :: "u64 \<Rightarrow> segdir \<Rightarrow> nat" where
  "seg_Size i dir = (case mget dir i of None \<Rightarrow> 0 | Some s \<Rightarrow> length (seg_data s))"

text \<open>A crash: of every segment a prefix remains that has at least what was synced.\<close>

definition crash :: "(u64 \<Rightarrow> nat) \<Rightarrow> segdir \<Rightarrow> segdir" where
  "crash keep dir = map (\<lambda>(i, s). let d = take (max (seg_synced s) (keep i)) (seg_data s)
     in (i, \<lparr>seg_data = d, seg_synced = length d\<rparr>)) dir"

section \<open>State\<close>

definition DefaultSegmentMaxSize :: int where
  "DefaultSegmentMaxSize = 16 * 1024 * 1024"

definition MaxSupportedGeneration :: u32 where
  "MaxSupportedGeneration = 3"

record RecoveryReport =
  rr_SegmentsScanned :: nat
  rr_LastLogIndex :: u64
  rr_TornTailTruncated :: bool
  rr_TruncatedBytes :: nat
  rr_FirstLogIndex :: u64

record WAL =
  w_dir :: segdir
  w_segmentMaxSize :: int
  w_current :: u64
  w_metadata :: Metadata
  w_nextLogIndex :: u64
  w_firstLogIndex :: u64
  w_latestHardState :: "bytes option"
  w_closed :: bool

text \<open>\<open>append([]byte(nil), b...)\<close>: a copy, which is nil when there is nothing to copy.\<close>

definition copy_bytes :: "bytes \<Rightarrow> bytes option" where
  "copy_bytes b = (if b = [] then None else Some b)"

section \<open>Appends\<close>

definition maybeRotateLocked :: "nat \<Rightarrow> WAL \<Rightarrow> wal_error + WAL" where
  "maybeRotateLocked nextFrameSize w =
     (let sz = seg_Size (w_current w) (w_dir w)
      in if sz = 0 \<or> int sz + int nextFrameSize \<le> w_segmentMaxSize w then Inr w
         else let newID = w_nextLogIndex w
              in if newID \<le> w_current w then Inr w
                 else bindR (CreateSegment newID (w_dir w)) (\<lambda>dir.
                        Inr (w\<lparr>w_dir := seg_Sync newID dir, w_current := newID\<rparr>)))"

definition appendLocked :: "RecordType \<Rightarrow> bytes \<Rightarrow> WAL \<Rightarrow> wal_error + WAL" where
  "appendLocked rt payload w =
     (if length payload > MaxRecordPayloadSize then Inl ErrRecordTooLarge
      else let index = (if rt = RecordTypeLogEntry then w_nextLogIndex w else 0);
               frame = encodeRecord rt index payload
           in bindR (maybeRotateLocked (length frame) w) (\<lambda>w1.
                Inr (w1\<lparr>w_dir := seg_Append frame (w_current w1) (w_dir w1)\<rparr>)))"

definition AppendLogEntry :: "bytes \<Rightarrow> WAL \<Rightarrow> wal_error + u64 \<times> WAL" where
  "AppendLogEntry payload w =
     (if w_closed w then Inl ErrClosed
      else let idx = w_nextLogIndex w
           in bindR (appendLocked RecordTypeLogEntry payload w) (\<lambda>w1.
                Inr (idx, w1\<lparr>w_nextLogIndex := w_nextLogIndex w1 + 1\<rparr>)))"

definition AppendHardState :: "bytes \<Rightarrow> WAL \<Rightarrow> wal_error + WAL" where
  "AppendHardState payload w =
     (if w_closed w then Inl ErrClosed
      else bindR (appendLocked RecordTypeHardState payload w) (\<lambda>w1.
             Inr (w1\<lparr>w_latestHardState := copy_bytes payload\<rparr>)))"

definition LatestHardState :: "WAL \<Rightarrow> bytes option" where
  "LatestHardState w = (case w_latestHardState w of None \<Rightarrow> None | Some b \<Rightarrow> copy_bytes b)"

definition NextIndex :: "WAL \<Rightarrow> u64" where
  "NextIndex w = w_nextLogIndex w"

definition FirstIndex :: "WAL \<Rightarrow> u64" where
  "FirstIndex w = w_firstLogIndex w"

definition wal_Sync :: "WAL \<Rightarrow> wal_error + WAL" where
  "wal_Sync w = (if w_closed w then Inl ErrClosed else Inr (w\<lparr>w_dir := seg_Sync (w_current w) (w_dir w)\<rparr>))"

definition wal_Close :: "WAL \<Rightarrow> wal_error + WAL" where
  "wal_Close w = (if w_closed w then Inl ErrClosed else Inr (w\<lparr>w_closed := True\<rparr>))"

definition AppendMetadataSnapshot :: "u64 \<Rightarrow> WAL \<Rightarrow> wal_error + WAL" where
  "AppendMetadataSnapshot uptoIndex w =
     (if w_closed w then Inl ErrClosed
      else if uptoIndex < md_LatestSnapshotIndex (w_metadata w) then Inl ErrOther
      else let meta = (w_metadata w)\<lparr>md_LatestSnapshotIndex := uptoIndex\<rparr>
           in bindR (appendLocked RecordTypeMetadata (encodeMetadata meta) w) (\<lambda>w1.
                Inr (w1\<lparr>w_dir := seg_Sync (w_current w1) (w_dir w1), w_metadata := meta, w_firstLogIndex := uptoIndex + 1\<rparr>)))"

definition SetClusterGeneration :: "u32 \<Rightarrow> WAL \<Rightarrow> wal_error + WAL" where
  "SetClusterGeneration generation w =
     (if w_closed w then Inl ErrClosed
      else if generation \<le> md_ClusterGeneration (w_metadata w) then Inr w
      else if generation > MaxSupportedGeneration then Inl ErrUnsupportedGeneration
      else let meta = (w_metadata w)\<lparr>md_ClusterGeneration := generation\<rparr>
           in bindR (appendLocked RecordTypeMetadata (encodeMetadata meta) w) (\<lambda>w1.
                Inr (w1\<lparr>w_dir := seg_Sync (w_current w1) (w_dir w1), w_metadata := meta\<rparr>)))"

section \<open>Recovery\<close>

text \<open>What the scan of \<open>Open\<close> collects.\<close>

record scan =
  sc_haveMetadata :: bool
  sc_meta :: Metadata
  sc_latestHS :: "bytes option"
  sc_logIndices :: "u64 list"

definition noMetadata :: Metadata where
  "noMetadata = \<lparr>md_NodeID = [], md_FormatVersion = char_of (0::nat), md_LatestSnapshotIndex = 0, md_ClusterGeneration = 0\<rparr>"

definition scan_start :: scan where
  "scan_start = \<lparr>sc_haveMetadata = False, sc_meta = noMetadata, sc_latestHS = None, sc_logIndices = []\<rparr>"

definition scan_record :: "Record \<Rightarrow> scan \<Rightarrow> wal_error + scan" where
  "scan_record r sc =
     (case rec_Type r of
        RecordTypeLogEntry \<Rightarrow> Inr (sc\<lparr>sc_logIndices := sc_logIndices sc @ [rec_Index r]\<rparr>)
      | RecordTypeMetadata \<Rightarrow>
          (case decodeMetadata (rec_Payload r) of
             Inl err \<Rightarrow> Inl ErrCorrupt
           | Inr m \<Rightarrow> Inr (sc\<lparr>sc_meta := m, sc_haveMetadata := True\<rparr>))
      | RecordTypeHardState \<Rightarrow> Inr (sc\<lparr>sc_latestHS := copy_bytes (rec_Payload r)\<rparr>))"

lemma readFrame_progress:
  assumes "readFrame seg off = Inr (Some (r, n))"
  shows "off < length seg" "0 < n"
proof -
  show off: "off < length seg" using assms by (auto simp: readFrame_def split: if_splits)
  have "decodeFrameBytes (drop off seg) = Inr (r, n)"
    using assms readFrame_decode [OF off] by (auto simp: read_outcome_def split: sum.splits if_splits)
  then show "0 < n"
    by (auto simp: decodeFrameBytes_def Let_def frame_sizes split: if_splits option.splits)
qed

lemma readFrame_decreases: "readFrame seg off = Inr (Some (r, n)) \<Longrightarrow> length seg - (off + n) < length seg - off"
  using readFrame_progress [of seg off r n] by simp

text \<open>The scan of one segment from an offset. The second result is the offset of a torn record.\<close>

function scan_segment :: "bytes \<Rightarrow> nat \<Rightarrow> scan \<Rightarrow> wal_error + scan \<times> nat option" where
  "scan_segment seg off sc =
     (case readFrame seg off of
        Inl e \<Rightarrow> if e = ErrTornTail then Inr (sc, Some off) else Inl e
      | Inr None \<Rightarrow> Inr (sc, None)
      | Inr (Some (r, n)) \<Rightarrow> bindR (scan_record r sc) (\<lambda>sc'. scan_segment seg (off + n) sc'))"
  by auto
termination
  by (relation "measure (\<lambda>(seg, off, sc). length seg - off)")
    (auto intro: readFrame_decreases)

declare scan_segment.simps [simp del]

text \<open>The scan of all segments; only the last may end in a torn record.\<close>

fun scan_dir :: "segdir \<Rightarrow> u64 list \<Rightarrow> scan \<Rightarrow> wal_error + scan \<times> nat option" where
  "scan_dir dir [] sc = Inr (sc, None)"
| "scan_dir dir (i # ids) sc =
     bindR (OpenSegment i dir) (\<lambda>seg.
     bindR (scan_segment seg 0 sc) (\<lambda>(sc', torn).
       if ids = [] then Inr (sc', torn)
       else if torn \<noteq> None then Inl ErrCorrupt
       else scan_dir dir ids sc'))"

text \<open>The indices after the snapshot boundary are consecutive and start right after it.\<close>

fun check_live :: "u64 \<Rightarrow> bool \<Rightarrow> u64 \<Rightarrow> u64 list \<Rightarrow> wal_error + u64" where
  "check_live boundary haveLive lastIdx [] = Inr lastIdx"
| "check_live boundary haveLive lastIdx (i # is) =
     (if i \<le> boundary then check_live boundary haveLive lastIdx is
      else if \<not> haveLive
      then if i \<noteq> boundary + 1 then Inl ErrCorrupt else check_live boundary True i is
      else if i \<noteq> lastIdx + 1 then Inl ErrCorrupt
      else check_live boundary True i is)"

definition finish_open :: "int \<Rightarrow> u64 \<Rightarrow> segdir \<Rightarrow> scan \<Rightarrow> wal_error + WAL" where
  "finish_open maxSize current dir sc =
     (if \<not> sc_haveMetadata sc then Inl ErrNoMetadata
      else if md_FormatVersion (sc_meta sc) \<noteq> FormatVersion then Inl ErrUnsupportedVersion
      else if md_ClusterGeneration (sc_meta sc) > MaxSupportedGeneration then Inl ErrUnsupportedGeneration
      else let boundary = md_LatestSnapshotIndex (sc_meta sc)
           in bindR (check_live boundary False boundary (sc_logIndices sc)) (\<lambda>lastLogIndex.
                Inr \<lparr>w_dir = dir, w_segmentMaxSize = maxSize, w_current = current, w_metadata = sc_meta sc,
                     w_nextLogIndex = lastLogIndex + 1, w_firstLogIndex = boundary + 1,
                     w_latestHardState = sc_latestHS sc, w_closed = False\<rparr>))"

text \<open>\<open>Open\<close>. The node identity of a new log is random and an argument. An error comes with the
  segments as they are then: a torn tail may have been cut already.\<close>

definition wal_Open :: "bytes \<Rightarrow> int \<Rightarrow> segdir \<Rightarrow> (wal_error \<times> segdir) + (WAL \<times> RecoveryReport)" where
  "wal_Open newNodeID segmentMaxSize0 dir =
     (let maxSize = (if segmentMaxSize0 \<le> 0 then DefaultSegmentMaxSize else segmentMaxSize0);
          ids = ListSegmentIDs dir
      in if ids = []
         then let dir1 = mput 1 \<lparr>seg_data = [], seg_synced = 0\<rparr> dir;
                  meta = \<lparr>md_NodeID = newNodeID, md_FormatVersion = FormatVersion, md_LatestSnapshotIndex = 0, md_ClusterGeneration = 0\<rparr>;
                  w0 = \<lparr>w_dir = dir1, w_segmentMaxSize = maxSize, w_current = 1, w_metadata = noMetadata,
                        w_nextLogIndex = 1, w_firstLogIndex = 0, w_latestHardState = None, w_closed = False\<rparr>
              in (case appendLocked RecordTypeMetadata (encodeMetadata meta) w0 of
                    Inl e \<Rightarrow> Inl (e, dir1)
                  | Inr w1 \<Rightarrow>
                      Inr (w1\<lparr>w_dir := seg_Sync (w_current w1) (w_dir w1), w_metadata := meta, w_firstLogIndex := 1\<rparr>,
                           \<lparr>rr_SegmentsScanned = 1, rr_LastLogIndex = 0, rr_TornTailTruncated = False, rr_TruncatedBytes = 0,
                            rr_FirstLogIndex = 1\<rparr>))
         else (case scan_dir dir ids scan_start of
                 Inl e \<Rightarrow> Inl (e, dir)
               | Inr (sc, torn) \<Rightarrow>
                   (let current = last ids;
                        dir1 = (case torn of None \<Rightarrow> dir | Some off \<Rightarrow> seg_Truncate off current dir)
                    in (case finish_open maxSize current dir1 sc of
                          Inl e \<Rightarrow> Inl (e, dir1)
                        | Inr w \<Rightarrow>
                            Inr (w, \<lparr>rr_SegmentsScanned = length ids, rr_LastLogIndex = w_nextLogIndex w - 1,
                                     rr_TornTailTruncated = (torn \<noteq> None),
                                     rr_TruncatedBytes = (case torn of None \<Rightarrow> 0 | Some off \<Rightarrow> seg_Size current dir - off),
                                     rr_FirstLogIndex = w_firstLogIndex w\<rparr>)))))"

section \<open>Truncation and compaction\<close>

text \<open>\<open>locateLogIndex\<close>: the segment and the offset of the record of a log index.\<close>

function locate_in :: "bytes \<Rightarrow> nat \<Rightarrow> u64 \<Rightarrow> wal_error + nat option" where
  "locate_in seg off target =
     (case readFrame seg off of
        Inl e \<Rightarrow> if e = ErrTornTail then Inr None else Inl e
      | Inr None \<Rightarrow> Inr None
      | Inr (Some (r, n)) \<Rightarrow>
          if rec_Type r = RecordTypeLogEntry \<and> rec_Index r = target then Inr (Some off)
          else locate_in seg (off + n) target)"
  by auto
termination
  by (relation "measure (\<lambda>(seg, off, t). length seg - off)") (auto intro: readFrame_decreases)

declare locate_in.simps [simp del]

fun locateLogIndex :: "segdir \<Rightarrow> u64 list \<Rightarrow> u64 \<Rightarrow> wal_error + (u64 \<times> nat) option" where
  "locateLogIndex dir [] target = Inr None"
| "locateLogIndex dir (i # ids) target =
     bindR (OpenSegment i dir) (\<lambda>seg.
     bindR (locate_in seg 0 target) (\<lambda>found.
       case found of Some off \<Rightarrow> Inr (Some (i, off)) | None \<Rightarrow> locateLogIndex dir ids target))"

text \<open>The segments after the target, highest first.\<close>

fun remove_newer :: "u64 \<Rightarrow> u64 list \<Rightarrow> segdir \<Rightarrow> wal_error + segdir" where
  "remove_newer target [] dir = Inr dir"
| "remove_newer target (i # ids) dir =
     (if i \<le> target then Inr dir else bindR (RemoveSegment i dir) (remove_newer target ids))"

definition wal_Truncate :: "u64 \<Rightarrow> WAL \<Rightarrow> wal_error + WAL" where
  "wal_Truncate fromIndex w =
     (if w_closed w then Inl ErrClosed
      else if fromIndex < 1 then Inl ErrOther
      else if fromIndex \<ge> w_nextLogIndex w
      then Inr (if fromIndex > w_nextLogIndex w then w\<lparr>w_nextLogIndex := fromIndex\<rparr> else w)
      else let ids = ListSegmentIDs (w_dir w)
           in bindR (locateLogIndex (w_dir w) ids fromIndex) (\<lambda>found.
                case found of
                  None \<Rightarrow> Inl ErrCorrupt
                | Some (targetID, targetOffset) \<Rightarrow>
                    bindR (remove_newer targetID (rev ids) (w_dir w)) (\<lambda>dir.
                      Inr (w\<lparr>w_dir := seg_Truncate targetOffset targetID dir, w_current := targetID,
                             w_nextLogIndex := fromIndex\<rparr>))))"

text \<open>The segments that hold no index above the boundary, by their names.\<close>

fun eligible :: "u64 \<Rightarrow> u64 \<Rightarrow> u64 list \<Rightarrow> u64 list" where
  "eligible current uptoIndex [] = []"
| "eligible current uptoIndex [i] = []"
| "eligible current uptoIndex (i # j # ids) =
     (if i = current then []
      else if j - 1 > uptoIndex then []
      else i # eligible current uptoIndex (j # ids))"

fun remove_all :: "u64 list \<Rightarrow> segdir \<Rightarrow> wal_error + segdir" where
  "remove_all [] dir = Inr dir"
| "remove_all (i # ids) dir = bindR (RemoveSegment i dir) (remove_all ids)"

definition CompactBeforeRetaining :: "u64 \<Rightarrow> int \<Rightarrow> WAL \<Rightarrow> wal_error + WAL" where
  "CompactBeforeRetaining uptoIndex retainExtraSegments w =
     (if w_closed w then Inl ErrClosed
      else if retainExtraSegments < 0 then Inl ErrOther
      else let el = eligible (w_current w) uptoIndex (ListSegmentIDs (w_dir w))
           in if retainExtraSegments \<ge> int (length el) then Inr w
              else bindR (remove_all (take (length el - nat retainExtraSegments) el) (w_dir w)) (\<lambda>dir. Inr (w\<lparr>w_dir := dir\<rparr>)))"

definition CompactBefore :: "u64 \<Rightarrow> WAL \<Rightarrow> wal_error + WAL" where
  "CompactBefore uptoIndex = CompactBeforeRetaining uptoIndex 0"

section \<open>Replay\<close>

record Iterator =
  it_ids :: "u64 list"
  it_fromIndex :: u64
  it_seg :: "(bytes \<times> nat) option"

definition Replay :: "u64 \<Rightarrow> WAL \<Rightarrow> wal_error + Iterator" where
  "Replay fromIndex w =
     (if w_closed w then Inl ErrClosed
      else Inr \<lparr>it_ids = ListSegmentIDs (w_dir w), it_fromIndex = fromIndex, it_seg = None\<rparr>)"

function Next :: "segdir \<Rightarrow> Iterator \<Rightarrow> (wal_error + Record option) \<times> Iterator" where
  "Next dir it =
     (case it_seg it of
        None \<Rightarrow>
          (case it_ids it of
             [] \<Rightarrow> (Inr None, it)
           | i # ids \<Rightarrow>
               (case OpenSegment i dir of
                  Inl e \<Rightarrow> (Inl e, it\<lparr>it_ids := ids\<rparr>)
                | Inr seg \<Rightarrow> Next dir (it\<lparr>it_ids := ids, it_seg := Some (seg, 0)\<rparr>)))
      | Some (seg, off) \<Rightarrow>
          (case readFrame seg off of
             Inl e \<Rightarrow> if e = ErrTornTail then Next dir (it\<lparr>it_seg := None\<rparr>) else (Inl e, it\<lparr>it_seg := None\<rparr>)
           | Inr None \<Rightarrow> Next dir (it\<lparr>it_seg := None\<rparr>)
           | Inr (Some (r, n)) \<Rightarrow>
               let it1 = it\<lparr>it_seg := Some (seg, off + n)\<rparr>
               in if rec_Type r \<noteq> RecordTypeLogEntry \<or> rec_Index r < it_fromIndex it then Next dir it1
                  else (Inr (Some r), it1)))"
  by auto
termination
  by (relation "measures [\<lambda>(dir, it). length (it_ids it),
        \<lambda>(dir, it). case it_seg it of None \<Rightarrow> 0 | Some (seg, off) \<Rightarrow> Suc (length seg - off)]")
    (auto intro: readFrame_decreases)

declare Next.simps [simp del]

end
