(* ===== verification/Wal_Log.thy ===== *)
theory Wal_Log
  imports Wal
begin

text \<open>
  The log as a sequence of records. A directory is laid out as a sequence of segments, each a
  sequence of frames; what recovery computes is a function of the records alone. Operations append
  a record, a crash cuts the last segment, truncation cuts the sequence at a log index.
\<close>

section \<open>Sequences of frames\<close>

definition frame_of :: "Record \<Rightarrow> bytes" where
  "frame_of r = encodeRecord (rec_Type r) (rec_Index r) (rec_Payload r)"

definition frames :: "Record list \<Rightarrow> bytes" where
  "frames rs = concat (map frame_of rs)"

definition small :: "Record \<Rightarrow> bool" where
  "small r \<longleftrightarrow> length (rec_Payload r) \<le> MaxRecordPayloadSize"

lemma frames_simps [simp]: "frames [] = []" "frames (r # rs) = frame_of r @ frames rs" "frames (rs @ ss) = frames rs @ frames ss"
  by (simp_all add: frames_def)

lemma length_frame_of: "length (frame_of r) = 18 + length (rec_Payload r)"
  by (simp add: frame_of_def frame_sizes)

lemma frame_of_nonempty [simp]: "frame_of r \<noteq> []"
  using length_frame_of [of r] by auto

text \<open>What a crash leaves of a record that was not written completely.\<close>

definition torn_tail :: "bytes \<Rightarrow> bool" where
  "torn_tail t \<longleftrightarrow> t = [] \<or> (\<exists>r n. small r \<and> 0 < n \<and> n < length (frame_of r) \<and> t = take n (frame_of r))"

lemma torn_tail_Nil [simp]: "torn_tail []"
  by (simp add: torn_tail_def)

lemma torn_tail_take: "small r \<Longrightarrow> n < length (frame_of r) \<Longrightarrow> torn_tail (take n (frame_of r))"
  unfolding torn_tail_def by (cases "n = 0") (auto intro!: exI [of _ r] exI [of _ n])

lemma readFrame_at:
  assumes "small r"
  shows "readFrame (pre @ frame_of r @ post) (length pre) = Inr (Some (r, length (frame_of r)))"
proof -
  have "decodeFrameBytes (frame_of r @ post) = Inr (r, length (frame_of r))"
    using assms decode_encode [of "rec_Payload r" "rec_Type r" "rec_Index r" post] by (simp add: frame_of_def small_def)
  then show ?thesis using readFrame_decode [of "length pre" "pre @ frame_of r @ post"] by (simp add: read_outcome_def)
qed

lemma readFrame_tail:
  assumes "torn_tail t"
  shows "readFrame (pre @ t) (length pre) = (if t = [] then Inr None else Inl ErrTornTail)"
proof (cases "t = []")
  case True
  then show ?thesis by (simp add: readFrame_def)
next
  case False
  then obtain r n where t: "small r" "0 < n" "n < length (frame_of r)" "t = take n (frame_of r)"
    using assms by (auto simp: torn_tail_def)
  then have "decodeFrameBytes t = Inl ErrTornTail" unfolding frame_of_def small_def using decode_torn by simp
  then show ?thesis using readFrame_decode [of "length pre" "pre @ t"] False by (simp add: read_outcome_def)
qed

text \<open>Cutting a sequence of frames at a byte.\<close>

lemma take_frames:
  assumes "\<forall>r \<in> set rs. small r"
  obtains j t where "take n (frames rs) = frames (take j rs) @ t" "torn_tail t" "j \<le> length rs"
    "\<And>m. m \<le> length rs \<Longrightarrow> length (frames (take m rs)) \<le> n \<Longrightarrow> m \<le> j"
  using assms
proof (induction rs arbitrary: n thesis)
  case Nil
  show ?case by (rule Nil.prems(1) [of 0 "[]"]) simp_all
next
  case (Cons r rs)
  show ?case
  proof (cases "length (frame_of r) \<le> n")
    case True
    obtain j t where j: "take (n - length (frame_of r)) (frames rs) = frames (take j rs) @ t" "torn_tail t" "j \<le> length rs"
        "\<And>m. m \<le> length rs \<Longrightarrow> length (frames (take m rs)) \<le> n - length (frame_of r) \<Longrightarrow> m \<le> j"
      using Cons.IH [of "n - length (frame_of r)"] Cons.prems(2) by auto
    have "m \<le> Suc j" if "m \<le> length (r # rs)" "length (frames (take m (r # rs))) \<le> n" for m
      using that j(4) [of "m - 1"] by (cases m) auto
    then show ?thesis using True j by (intro Cons.prems(1) [of "Suc j" t]) auto
  next
    case False
    have "m = 0" if "length (frames (take m (r # rs))) \<le> n" for m
      using that False by (cases m) auto
    then show ?thesis using False Cons.prems(2)
      by (intro Cons.prems(1) [of 0 "take n (frame_of r)"]) (auto intro: torn_tail_take)
  qed
qed

section \<open>Scanning\<close>

fun scan_records :: "Record list \<Rightarrow> scan \<Rightarrow> wal_error + scan" where
  "scan_records [] sc = Inr sc"
| "scan_records (r # rs) sc = bindR (scan_record r sc) (scan_records rs)"

lemma scan_records_append: "scan_records (rs @ ss) sc = bindR (scan_records rs sc) (scan_records ss)"
  by (induction rs arbitrary: sc) (simp_all add: bindR_def split: sum.splits)

lemma scan_segment_frames:
  assumes "\<forall>r \<in> set rs. small r" "torn_tail t"
  shows "scan_segment (pre @ frames rs @ t) (length pre) sc
     = bindR (scan_records rs sc) (\<lambda>sc'. Inr (sc', if t = [] then None else Some (length (pre @ frames rs))))"
  using assms(1)
proof (induction rs arbitrary: pre sc)
  case Nil
  then show ?case using readFrame_tail [OF assms(2), of pre] by (subst scan_segment.simps) simp
next
  case (Cons r rs)
  have "readFrame (pre @ frames (r # rs) @ t) (length pre) = Inr (Some (r, length (frame_of r)))"
    using readFrame_at [of r pre "frames rs @ t"] Cons.prems by simp
  moreover have "scan_segment (pre @ frames (r # rs) @ t) (length pre + length (frame_of r)) sc'
      = bindR (scan_records rs sc') (\<lambda>sc'. Inr (sc', if t = [] then None else Some (length (pre @ frames (r # rs)))))" for sc'
    using Cons.IH [of "pre @ frame_of r" sc'] Cons.prems by simp
  ultimately show ?case by (subst scan_segment.simps) (cases "scan_record r sc"; simp)
qed

section \<open>Layouts\<close>

text \<open>The segments in the order of their names, with their records; the last may end in a torn tail.\<close>

type_synonym layout = "(u64 \<times> Record list) list"

abbreviation records :: "layout \<Rightarrow> Record list" where
  "records lay \<equiv> concat (map snd lay)"

fun segs_laid :: "segdir \<Rightarrow> layout \<Rightarrow> bytes \<Rightarrow> bool" where
  "segs_laid dir [] t = (t = [])"
| "segs_laid dir ((i, rs) # lay) t =
     ((\<forall>r \<in> set rs. small r) \<and> OpenSegment i dir = Inr (frames rs @ (if lay = [] then t else [])) \<and> (lay = [] \<or> segs_laid dir lay t))"

definition laid :: "segdir \<Rightarrow> layout \<Rightarrow> bytes \<Rightarrow> bool" where
  "laid dir lay t \<longleftrightarrow> mwf dir \<and> lay \<noteq> [] \<and> ListSegmentIDs dir = map fst lay \<and> torn_tail t \<and> segs_laid dir lay t"

lemma scan_dir_laid:
  assumes "segs_laid dir lay t" "torn_tail t" "lay \<noteq> []"
  shows "scan_dir dir (map fst lay) sc
     = bindR (scan_records (records lay) sc) (\<lambda>sc'. Inr (sc', if t = [] then None else Some (length (frames (snd (last lay))))))"
  using assms
proof (induction lay arbitrary: sc)
  case (Cons x lay)
  obtain i rs where x: "x = (i, rs)" by (cases x)
  show ?case
  proof (cases "lay = []")
    case True
    then show ?thesis using Cons.prems scan_segment_frames [of rs t "[]" sc] by (cases "scan_records rs sc") (simp_all add: x)
  next
    case False
    then have "scan_segment (frames rs) 0 sc = bindR (scan_records rs sc) (\<lambda>sc'. Inr (sc', None))"
      using Cons.prems scan_segment_frames [of rs "[]" "[]" sc] by (simp add: x)
    then show ?thesis using Cons False by (cases "scan_records rs sc") (simp_all add: x scan_records_append)
  qed
qed simp

lemma segs_laid_last: "segs_laid dir lay t \<Longrightarrow> lay \<noteq> [] \<Longrightarrow> OpenSegment (fst (last lay)) dir = Inr (frames (snd (last lay)) @ t)"
  by (induction dir lay t rule: segs_laid.induct) (auto split: if_splits)

lemma segs_laid_cong:
  assumes "segs_laid dir lay t" "\<And>i. i \<in> set (map fst lay) \<Longrightarrow> OpenSegment i dir' = OpenSegment i dir"
  shows "segs_laid dir' lay t"
  using assms by (induction dir lay t rule: segs_laid.induct) auto

lemma segs_laid_snoc:
  "segs_laid dir (lay @ [(i, rs)]) t \<longleftrightarrow> segs_laid dir lay [] \<and> (\<forall>r \<in> set rs. small r) \<and> OpenSegment i dir = Inr (frames rs @ t)"
  by (induction dir lay "[] :: bytes" rule: segs_laid.induct) auto

lemma laid_ids:
  assumes "laid dir lay t"
  shows "sorted_wrt (<) (map fst lay)" "distinct (map fst lay)" "set (map fst lay) = {i. mget dir i \<noteq> None}"
proof -
  have "distinct (mkeys dir)" using assms by (simp add: laid_def mkeys_def)
  moreover have ids: "map fst lay = sort (mkeys dir)" using assms by (simp add: laid_def ListSegmentIDs_def)
  ultimately show "distinct (map fst lay)" by simp
  then show "sorted_wrt (<) (map fst lay)" using ids by (metis sorted_sort strict_sorted_iff)
  show "set (map fst lay) = {i. mget dir i \<noteq> None}" using ids gm.set_keys [of dir] by simp
qed

lemma ListSegmentIDs_put:
  "ListSegmentIDs (mput i s dir) = (if mget dir i = None then sort (mkeys dir @ [i]) else ListSegmentIDs dir)"
  by (auto simp: ListSegmentIDs_def mkeys_def mput_def update_keys mget_def map_of_eq_None_iff)

lemma OpenSegment_put: "OpenSegment j (mput i s dir) = (if j = i then Inr (seg_data s) else OpenSegment j dir)"
  by (simp add: OpenSegment_def gm.get_put)

text \<open>A change of the last segment.\<close>

lemma laid_last:
  assumes "laid dir lay t" "torn_tail t'" "\<forall>r \<in> set rs. small r" "mget dir (fst (last lay)) = Some s"
    and "seg_data s' = frames rs @ t'"
  shows "laid (mput (fst (last lay)) s' dir) (butlast lay @ [(fst (last lay), rs)]) t'"
proof -
  define i where "i = fst (last lay)"
  have ne: "lay \<noteq> []" using assms(1) by (simp add: laid_def)
  then have lay: "lay = butlast lay @ [(i, snd (last lay))]" by (simp add: i_def)
  have "distinct (map fst (butlast lay @ [(i, snd (last lay))]))" using laid_ids(2) [OF assms(1)] lay by simp
  then have other: "i \<notin> set (map fst (butlast lay))" by simp
  have ids: "map fst (butlast lay @ [(i, rs)]) = map fst lay" using arg_cong [OF lay, of "map fst"] by simp
  have "segs_laid dir (butlast lay @ [(i, snd (last lay))]) t" using assms(1) unfolding laid_def by (subst lay [symmetric]) simp
  then have "segs_laid dir (butlast lay) []" by (simp add: segs_laid_snoc)
  then have "segs_laid (mput i s' dir) (butlast lay) []"
    by (rule segs_laid_cong) (use other in \<open>auto simp: OpenSegment_put\<close>)
  then show ?thesis
    using assms(1,2,3,4,5) ids unfolding i_def [symmetric]
    by (simp add: laid_def segs_laid_snoc OpenSegment_put ListSegmentIDs_put gm.wf_put)
qed

lemma laid_current:
  assumes "laid dir lay t"
  obtains s where "mget dir (fst (last lay)) = Some s" "seg_data s = frames (snd (last lay)) @ t"
proof -
  have "OpenSegment (fst (last lay)) dir = Inr (frames (snd (last lay)) @ t)"
    using assms segs_laid_last by (auto simp: laid_def)
  then show ?thesis using that by (auto simp: OpenSegment_def split: option.splits)
qed

lemma laid_same: "laid dir lay t \<Longrightarrow> butlast lay @ [(fst (last lay), snd (last lay))] = lay"
  by (simp add: laid_def)

lemma laid_small: "laid dir lay t \<Longrightarrow> \<forall>r \<in> set (snd (last lay)). small r"
  using segs_laid_snoc [of dir "butlast lay" "fst (last lay)" "snd (last lay)" t] by (simp add: laid_def)

definition lay_add :: "Record \<Rightarrow> layout \<Rightarrow> layout" where
  "lay_add r lay = butlast lay @ [(fst (last lay), snd (last lay) @ [r])]"

lemma records_lay_add: "lay \<noteq> [] \<Longrightarrow> records (lay_add r lay) = records lay @ [r]"
  by (cases lay rule: rev_cases) (simp_all add: lay_add_def)

lemma laid_append:
  assumes "laid dir lay []" "small r"
  shows "laid (seg_Append (frame_of r) (fst (last lay)) dir) (lay_add r lay) []"
proof -
  obtain s where s: "mget dir (fst (last lay)) = Some s" "seg_data s = frames (snd (last lay))"
    using laid_current [OF assms(1)] by auto
  show ?thesis using laid_last [OF assms(1) torn_tail_Nil, of "snd (last lay) @ [r]" s] s assms(2) laid_small [OF assms(1)]
    by (simp add: seg_Append_def seg_update_def lay_add_def)
qed

lemma laid_sync:
  assumes "laid dir lay t"
  shows "laid (seg_Sync (fst (last lay)) dir) lay t"
proof -
  obtain s where s: "mget dir (fst (last lay)) = Some s" "seg_data s = frames (snd (last lay)) @ t"
    using laid_current [OF assms(1)] by auto
  have "torn_tail t" using assms by (simp add: laid_def)
  from laid_last [OF assms(1) this laid_small [OF assms] s(1), of "s\<lparr>seg_synced := length (seg_data s)\<rparr>"]
  show ?thesis unfolding laid_same [OF assms] using s by (simp add: seg_Sync_def seg_update_def)
qed

lemma laid_create:
  assumes "laid dir lay []" "fst (last lay) < i"
  obtains dir' where "CreateSegment i dir = Inr dir'" "laid dir' (lay @ [(i, [])]) []"
    "dir' = mput i \<lparr>seg_data = [], seg_synced = 0\<rparr> dir"
proof -
  have ne: "lay \<noteq> []" using assms(1) by (simp add: laid_def)
  obtain lay0 x where l: "lay = lay0 @ [x]" using ne by (cases lay rule: rev_cases) auto
  have less: "\<forall>j \<in> set (map fst lay). j < i"
    using laid_ids(1) [OF assms(1)] assms(2) by (auto simp: l sorted_wrt_append intro: order.strict_trans)
  then have new: "i \<notin> set (map fst lay)" by blast
  then have none: "mget dir i = None" using laid_ids(3) [OF assms(1)] by simp
  have "sort (mkeys dir @ [i]) = map fst lay @ [i]"
  proof (rule properties_for_sort)
    have "map fst lay = sort (mkeys dir)" using assms(1) by (simp add: laid_def ListSegmentIDs_def)
    then show "mset (map fst lay @ [i]) = mset (mkeys dir @ [i])" by (simp del: mset_map)
    show "sorted (map fst lay @ [i])" using less laid_ids(1) [OF assms(1)] by (auto simp: sorted_append strict_sorted_iff less_imp_le)
  qed
  moreover have "segs_laid (mput i \<lparr>seg_data = [], seg_synced = 0\<rparr> dir) lay []"
  proof (rule segs_laid_cong)
    show "segs_laid dir lay []" using assms(1) by (simp add: laid_def)
    show "OpenSegment j (mput i \<lparr>seg_data = [], seg_synced = 0\<rparr> dir) = OpenSegment j dir" if "j \<in> set (map fst lay)" for j
      using that new by (metis OpenSegment_put)
  qed
  ultimately have "laid (mput i \<lparr>seg_data = [], seg_synced = 0\<rparr> dir) (lay @ [(i, [])]) []"
    using assms(1) none by (simp add: laid_def ListSegmentIDs_put segs_laid_snoc OpenSegment_put gm.wf_put)
  then show ?thesis using that none by (simp add: CreateSegment_def)
qed

section \<open>Crashes\<close>

definition crash_seg :: "nat \<Rightarrow> segment \<Rightarrow> segment" where
  "crash_seg k s = (let d = take (max (seg_synced s) k) (seg_data s) in \<lparr>seg_data = d, seg_synced = length d\<rparr>)"

lemma crash_get: "mget (crash keep dir) i = map_option (crash_seg (keep i)) (mget dir i)"
  by (induction dir) (auto simp: crash_def mget_def crash_seg_def Let_def)

lemma crash_keys: "mkeys (crash keep dir) = mkeys dir"
  by (auto simp: crash_def mkeys_def Let_def)

lemma OpenSegment_crash:
  assumes "mget dir i = Some s"
  shows "OpenSegment i (crash keep dir) = Inr (take (max (seg_synced s) (keep i)) (seg_data s))"
  using assms by (simp add: OpenSegment_def crash_get crash_seg_def Let_def)

definition current_synced :: "u64 \<Rightarrow> segdir \<Rightarrow> nat" where
  "current_synced i dir = (case mget dir i of None \<Rightarrow> 0 | Some s \<Rightarrow> seg_synced s)"

text \<open>The first \<open>m\<close> records are in closed segments or synced.\<close>

definition safe :: "segdir \<Rightarrow> layout \<Rightarrow> nat \<Rightarrow> bool" where
  "safe dir lay m \<longleftrightarrow> (\<exists>k \<le> length (snd (last lay)). m \<le> length (records (butlast lay)) + k
     \<and> length (frames (take k (snd (last lay)))) \<le> current_synced (fst (last lay)) dir)"

lemma crash_laid:
  assumes laid: "laid dir lay []" and safe: "safe dir lay m"
    and keep: "\<And>i. i \<noteq> fst (last lay) \<Longrightarrow> seg_Size i dir \<le> keep i"
  obtains j t lay' where "laid (crash keep dir) lay' t" "records lay' = take j (records lay)" "m \<le> j" "fst (last lay') = fst (last lay)"
proof -
  define cur where "cur = fst (last lay)"
  define rs where "rs = snd (last lay)"
  obtain s where s: "mget dir cur = Some s" "seg_data s = frames rs" using laid_current [OF laid] by (auto simp: cur_def rs_def)
  have lay: "lay = butlast lay @ [(cur, rs)]" using laid_same [OF laid] by (simp add: cur_def rs_def)
  define n where "n = max (seg_synced s) (keep cur)"
  have small: "\<forall>r \<in> set rs. small r" using laid_small [OF laid] by (simp add: rs_def)
  obtain j t where j: "take n (frames rs) = frames (take j rs) @ t" "torn_tail t" "j \<le> length rs"
      "\<And>m. m \<le> length rs \<Longrightarrow> length (frames (take m rs)) \<le> n \<Longrightarrow> m \<le> j"
    by (rule take_frames [OF small]) blast
  obtain k where k: "k \<le> length rs" "m \<le> length (records (butlast lay)) + k" "length (frames (take k rs)) \<le> seg_synced s"
    using safe s(1) by (auto simp: safe_def current_synced_def rs_def cur_def)
  then have "k \<le> j" by (intro j(4)) (simp_all add: n_def)
  have rec: "records (butlast lay @ [(cur, take j rs)]) = take (length (records (butlast lay)) + j) (records lay)"
    using j(3) by (subst (2) lay) simp
  have "laid (crash keep dir) (butlast lay @ [(cur, take j rs)]) t"
  proof -
    have "distinct (map fst (butlast lay @ [(cur, rs)]))" using laid_ids(2) [OF laid] lay by simp
    then have other: "cur \<notin> set (map fst (butlast lay))" by simp
    have old: "segs_laid dir (butlast lay @ [(cur, rs)]) []" using laid lay by (simp add: laid_def)
    have ids: "set (map fst (butlast lay)) \<subseteq> {i. mget dir i \<noteq> None}"
      using laid_ids(3) [OF laid] arg_cong [OF lay, of "\<lambda>l. set (map fst l)"] by auto
    have "segs_laid (crash keep dir) (butlast lay) []"
    proof (rule segs_laid_cong)
      show "segs_laid dir (butlast lay) []" using old by (simp add: segs_laid_snoc)
      show "OpenSegment i (crash keep dir) = OpenSegment i dir" if i: "i \<in> set (map fst (butlast lay))" for i
      proof -
        obtain s' where s': "mget dir i = Some s'" using ids i by auto
        have "i \<noteq> cur" using i other by blast
        then have "length (seg_data s') \<le> keep i" using keep [of i] s' by (simp add: cur_def seg_Size_def)
        then show ?thesis using OpenSegment_crash [OF s', of keep] s' by (simp add: OpenSegment_def)
      qed
    qed
    moreover have "OpenSegment cur (crash keep dir) = Inr (frames (take j rs) @ t)"
      using OpenSegment_crash [OF s(1), of keep] s(2) j(1) by (simp add: n_def)
    moreover have "\<forall>r \<in> set (take j rs). small r" using small by (auto dest: in_set_takeD)
    moreover have "ListSegmentIDs (crash keep dir) = map fst (butlast lay @ [(cur, take j rs)])"
      using laid arg_cong [OF lay, of "map fst"] by (simp add: laid_def ListSegmentIDs_def crash_keys)
    moreover have "mwf (crash keep dir)" using laid crash_keys [of keep dir] by (simp add: laid_def mkeys_def)
    ultimately show ?thesis using j(2) by (simp add: laid_def segs_laid_snoc)
  qed
  from that [OF this rec] show ?thesis using k(2) \<open>k \<le> j\<close> by (simp add: cur_def)
qed

section \<open>What recovery computes\<close>

definition recovered_as :: "scan \<Rightarrow> WAL \<Rightarrow> bool" where
  "recovered_as sc w \<longleftrightarrow> sc_haveMetadata sc \<and> md_FormatVersion (sc_meta sc) = FormatVersion
     \<and> md_ClusterGeneration (sc_meta sc) \<le> MaxSupportedGeneration \<and> w_metadata w = sc_meta sc
     \<and> check_live (md_LatestSnapshotIndex (sc_meta sc)) False (md_LatestSnapshotIndex (sc_meta sc)) (sc_logIndices sc) = Inr (w_nextLogIndex w - 1)
     \<and> w_firstLogIndex w = md_LatestSnapshotIndex (sc_meta sc) + 1 \<and> w_latestHardState w = sc_latestHS sc \<and> \<not> w_closed w"

definition recovers :: "Record list \<Rightarrow> WAL \<Rightarrow> bool" where
  "recovers rs w \<longleftrightarrow> (\<exists>sc. scan_records rs scan_start = Inr sc \<and> recovered_as sc w)"

text \<open>The open log whose state is what recovery computes from its segments.\<close>

definition wal_ok :: "WAL \<Rightarrow> layout \<Rightarrow> bool" where
  "wal_ok w lay \<longleftrightarrow> laid (w_dir w) lay [] \<and> w_current w = fst (last lay) \<and> recovers (records lay) w"

lemma finish_open_recovered:
  assumes "recovered_as sc w"
  shows "finish_open (w_segmentMaxSize w) c d sc = Inr (w\<lparr>w_dir := d, w_current := c\<rparr>)"
  using assms by (cases w) (simp add: finish_open_def recovered_as_def Let_def not_less)

lemma recovers_dir: "recovers rs w \<Longrightarrow> recovers rs (w\<lparr>w_dir := d, w_current := c\<rparr>)"
  by (simp add: recovers_def recovered_as_def)

lemma seg_Truncate_laid:
  assumes "laid dir lay t"
  shows "laid (seg_Truncate (length (frames (snd (last lay)))) (fst (last lay)) dir) lay []"
proof -
  obtain s where s: "mget dir (fst (last lay)) = Some s" "seg_data s = frames (snd (last lay)) @ t"
    using laid_current [OF assms(1)] by auto
  define s1 where "s1 = s\<lparr>seg_data := take (length (frames (snd (last lay)))) (seg_data s)\<rparr>"
  have "laid (mput (fst (last lay)) s1 dir) (butlast lay @ [(fst (last lay), snd (last lay))]) []"
    using s by (intro laid_last [OF assms torn_tail_Nil laid_small [OF assms] s(1)]) (simp add: s1_def)
  then have "laid (mput (fst (last lay)) s1 dir) lay []" unfolding laid_same [OF assms] .
  from laid_sync [OF this] show ?thesis using s(1) by (simp add: seg_Truncate_def seg_update_def s1_def)
qed

lemma wal_Open_laid:
  assumes laid: "laid dir lay t" and rec: "recovers (records lay) w" and mx: "0 < w_segmentMaxSize w"
  obtains rep d where "wal_Open nid (w_segmentMaxSize w) dir = Inr (w\<lparr>w_dir := d, w_current := fst (last lay)\<rparr>, rep)"
    "wal_ok (w\<lparr>w_dir := d, w_current := fst (last lay)\<rparr>) lay" "rr_TornTailTruncated rep = (t \<noteq> [])"
    "t = [] \<Longrightarrow> d = dir"
proof -
  define cur where "cur = fst (last lay)"
  define d where "d = (if t = [] then dir else seg_Truncate (length (frames (snd (last lay)))) cur dir)"
  have laid_d: "laid d lay []" using seg_Truncate_laid [OF laid] laid by (cases "t = []") (simp_all add: d_def cur_def)
  have r: "recovers (records lay) (w\<lparr>w_dir := d, w_current := cur\<rparr>)" by (rule recovers_dir [OF rec])
  obtain sc where sc: "scan_records (records lay) scan_start = Inr sc"
      "finish_open (w_segmentMaxSize w) cur d sc = Inr (w\<lparr>w_dir := d, w_current := cur\<rparr>)"
    using rec finish_open_recovered by (auto simp: recovers_def)
  have ids: "ListSegmentIDs dir = map fst lay" "lay \<noteq> []" "last (map fst lay) = cur"
    using laid by (simp_all add: laid_def cur_def last_map)
  have "scan_dir dir (map fst lay) scan_start = Inr (sc, if t = [] then None else Some (length (frames (snd (last lay)))))"
    using scan_dir_laid [of dir lay t scan_start] laid sc(1) by (simp add: laid_def)
  then have "\<exists>rep. wal_Open nid (w_segmentMaxSize w) dir = Inr (w\<lparr>w_dir := d, w_current := cur\<rparr>, rep) \<and> rr_TornTailTruncated rep = (t \<noteq> [])"
    using ids mx sc(2) unfolding wal_Open_def Let_def by (cases "t = []") (simp_all add: d_def)
  moreover have "wal_ok (w\<lparr>w_dir := d, w_current := cur\<rparr>) lay" using laid_d r by (simp add: wal_ok_def cur_def)
  ultimately show ?thesis using that [of d] unfolding cur_def by (auto simp: d_def)
qed

end
