(* ===== verification/Wal_Replay.thy ===== *)
theory Wal_Replay
  imports Wal_Log
begin

text \<open>
  Reading the log back: the loop of \<^verbatim>\<open>OpenWALStorage\<close> (\<^verbatim>\<open>internal/node/storage.go\<close>) over the iterator of
  \<^verbatim>\<open>internal/wal/replay.go\<close>. Every call of \<open>Next\<close> that returns a record moves forward, so the loop ends;
  on a log that was written by the operations it returns the log entries in order.
\<close>

section \<open>Progress\<close>

definition it_rest :: "Iterator \<Rightarrow> nat" where
  "it_rest it = (case it_seg it of None \<Rightarrow> 0 | Some (seg, off) \<Rightarrow> Suc (length seg - off))"

abbreviation it_before :: "(Iterator \<times> Iterator) set" where
  "it_before \<equiv> measures [\<lambda>it. length (it_ids it), it_rest]"

lemma Next_before: "Next dir it = (Inr (Some r), it') \<Longrightarrow> (it', it) \<in> it_before"
proof (induction dir it rule: Next.induct)
  case (1 dir it)
  show ?case
  proof (cases "it_seg it")
    case None
    then obtain i ids seg where i: "it_ids it = i # ids" "OpenSegment i dir = Inr seg"
        "Next dir (it\<lparr>it_ids := ids, it_seg := Some (seg, 0)\<rparr>) = (Inr (Some r), it')"
      using "1.prems" by (subst (asm) Next.simps) (auto split: list.splits sum.splits)
    then have "(it', it\<lparr>it_ids := ids, it_seg := Some (seg, 0)\<rparr>) \<in> it_before" by (rule "1.IH"(1) [OF None])
    then show ?thesis using i(1) by auto
  next
    case (Some p)
    obtain seg off where p: "p = (seg, off)" by (cases p)
    note seg = Some [unfolded p]
    have closed: "(it', it) \<in> it_before" if "(it', it\<lparr>it_seg := None\<rparr>) \<in> it_before"
      using that seg by (auto simp: it_rest_def)
    consider (torn) "readFrame seg off = Inl ErrTornTail" | (eof) "readFrame seg off = Inr None"
      | (rec) r1 n where "readFrame seg off = Inr (Some (r1, n))"
      using "1.prems" seg by (subst (asm) Next.simps) (auto split: sum.splits option.splits if_splits)
    then show ?thesis
    proof cases
      case torn
      then have "Next dir (it\<lparr>it_seg := None\<rparr>) = (Inr (Some r), it')" using "1.prems" seg by (subst (asm) Next.simps) simp
      then show ?thesis using "1.IH"(2) [OF seg refl torn refl] by (intro closed) simp
    next
      case eof
      then have "Next dir (it\<lparr>it_seg := None\<rparr>) = (Inr (Some r), it')" using "1.prems" seg by (subst (asm) Next.simps) simp
      then show ?thesis using "1.IH"(3) [OF seg refl eof refl] by (intro closed) simp
    next
      case rec
      let ?it = "it\<lparr>it_seg := Some (seg, off + n)\<rparr>"
      have less: "length seg - (off + n) < length seg - off" by (rule readFrame_decreases [OF rec])
      have "it' = ?it \<or> Next dir ?it = (Inr (Some r), it') \<and> (rec_Type r1 \<noteq> RecordTypeLogEntry \<or> rec_Index r1 < it_fromIndex it)"
        using "1.prems" seg rec by (subst (asm) Next.simps) (auto simp: Let_def split: if_splits)
      then have "it' = ?it \<or> (it', ?it) \<in> it_before"
        using "1.IH"(4) [OF seg refl rec refl refl refl] by blast
      then show ?thesis using less seg by (auto simp: it_rest_def)
    qed
  qed
qed

function drain :: "segdir \<Rightarrow> Iterator \<Rightarrow> wal_error + Record list" where
  "drain dir it =
     (case Next dir it of
        (Inl e, it') \<Rightarrow> Inl e
      | (Inr None, it') \<Rightarrow> Inr []
      | (Inr (Some r), it') \<Rightarrow> bindR (drain dir it') (\<lambda>rs. Inr (r # rs)))"
  by auto
termination
  by (relation "inv_image it_before snd") (auto simp: in_inv_image dest!: Next_before [OF sym])

declare drain.simps [simp del]

section \<open>What is read\<close>

definition wanted :: "u64 \<Rightarrow> Record \<Rightarrow> bool" where
  "wanted from r \<longleftrightarrow> rec_Type r = RecordTypeLogEntry \<and> from \<le> rec_Index r"

lemma drain_cong: "Next dir it = Next dir it1 \<Longrightarrow> drain dir it = drain dir it1"
  by (simp add: drain.simps [of dir])

lemma drain_segment:
  assumes "\<forall>r \<in> set rs. small r" "torn_tail t"
  shows "drain dir \<lparr>it_ids = ids, it_fromIndex = from, it_seg = Some (pre @ frames rs @ t, length pre)\<rparr>
     = bindR (drain dir \<lparr>it_ids = ids, it_fromIndex = from, it_seg = None\<rparr>) (\<lambda>xs. Inr (filter (wanted from) rs @ xs))"
  using assms(1)
proof (induction rs arbitrary: pre)
  case Nil
  have "drain dir \<lparr>it_ids = ids, it_fromIndex = from, it_seg = Some (pre @ t, length pre)\<rparr>
      = drain dir \<lparr>it_ids = ids, it_fromIndex = from, it_seg = None\<rparr>"
    using readFrame_tail [OF assms(2), of pre] by (intro drain_cong, subst Next.simps) simp
  then show ?case by (simp add: bindR_def split: sum.splits)
next
  case (Cons r rs)
  let ?seg = "pre @ frame_of r @ frames rs @ t"
  let ?it = "\<lparr>it_ids = ids, it_fromIndex = from, it_seg = Some (?seg, length pre + length (frame_of r))\<rparr>"
  have frame: "readFrame ?seg (length pre) = Inr (Some (r, length (frame_of r)))" using readFrame_at [of r pre] Cons.prems by simp
  have rest: "drain dir ?it = bindR (drain dir \<lparr>it_ids = ids, it_fromIndex = from, it_seg = None\<rparr>) (\<lambda>xs. Inr (filter (wanted from) rs @ xs))"
    using Cons.IH [of "pre @ frame_of r"] Cons.prems by simp
  show ?case
  proof (cases "wanted from r")
    case True
    then have "Next dir \<lparr>it_ids = ids, it_fromIndex = from, it_seg = Some (?seg, length pre)\<rparr> = (Inr (Some r), ?it)"
      using frame by (subst Next.simps) (simp add: Let_def wanted_def leD)
    then show ?thesis using True rest by (subst drain.simps) (simp add: bindR_def split: sum.splits)
  next
    case False
    then have "Next dir \<lparr>it_ids = ids, it_fromIndex = from, it_seg = Some (?seg, length pre)\<rparr> = Next dir ?it"
      using frame by (subst Next.simps) (auto simp: Let_def wanted_def not_less)
    from drain_cong [OF this] show ?thesis using False rest by simp
  qed
qed

lemma drain_laid:
  assumes "segs_laid dir lay t" "torn_tail t"
  shows "drain dir \<lparr>it_ids = map fst lay, it_fromIndex = from, it_seg = None\<rparr> = Inr (filter (wanted from) (records lay))"
  using assms(1)
proof (induction lay)
  case Nil
  then show ?case by (subst drain.simps, subst Next.simps) simp
next
  case (Cons x lay)
  obtain i rs where x: "x = (i, rs)" by (cases x)
  define t1 where "t1 = (if lay = [] then t else [])"
  have seg: "OpenSegment i dir = Inr (frames rs @ t1)" "\<forall>r \<in> set rs. small r" "torn_tail t1"
    using Cons.prems assms(2) by (simp_all add: x t1_def)
  have IH: "drain dir \<lparr>it_ids = map fst lay, it_fromIndex = from, it_seg = None\<rparr> = Inr (filter (wanted from) (records lay))"
  proof (cases "lay = []")
    case True
    then show ?thesis by (subst drain.simps, subst Next.simps) simp
  next
    case False
    then show ?thesis using Cons by (simp add: x)
  qed
  have "drain dir \<lparr>it_ids = map fst (x # lay), it_fromIndex = from, it_seg = None\<rparr>
      = drain dir \<lparr>it_ids = map fst lay, it_fromIndex = from, it_seg = Some (frames rs @ t1, 0)\<rparr>"
    using seg(1) by (intro drain_cong, subst Next.simps) (simp add: x)
  then show ?case using drain_segment [OF seg(2,3), of dir _ "from" "[]"] IH by (simp add: x)
qed

definition read_log :: "u64 \<Rightarrow> WAL \<Rightarrow> wal_error + Record list" where
  "read_log from w = bindR (Replay from w) (drain (w_dir w))"

lemma read_log_ok: "wal_ok w lay \<Longrightarrow> read_log from w = Inr (filter (wanted from) (records lay))"
  using drain_laid [of "w_dir w" lay "[]" "from"]
  by (auto simp: read_log_def Replay_def wal_ok_def laid_def recovers_def recovered_as_def)

end
