(* ===== verification/Wal_Recovery.thy ===== *)
theory Wal_Recovery
  imports Wal_Replay
begin

text \<open>
  What survives. Every operation that appends keeps the log in the state recovery would compute.
  If the closed segments are on disk, a crash brings the log back to the state after some prefix of
  the operations that reaches at least the last sync. The two theorems after that show what the code
  does not guarantee: a sync does not cover a segment that was closed by rotation in the meantime,
  and truncation removes the hard state and metadata records that lie behind the cut.
\<close>

section \<open>Appends\<close>

lemma seg_Size_laid: "laid dir lay [] \<Longrightarrow> seg_Size (fst (last lay)) dir = length (frames (snd (last lay)))"
  by (erule laid_current) (simp add: seg_Size_def)

text \<open>An append adds one record, to the last segment or to a new one.\<close>

lemma appendLocked_ok:
  assumes laid: "laid (w_dir w) lay []" and cur: "w_current w = fst (last lay)" and small: "length payload \<le> MaxRecordPayloadSize"
    and r: "r = \<lparr>rec_Type = rt, rec_Index = (if rt = RecordTypeLogEntry then w_nextLogIndex w else 0), rec_Payload = payload\<rparr>"
    and safe: "safe (w_dir w) lay m" "m \<le> length (records lay)"
  obtains d c lay' where "appendLocked rt payload w = Inr (w\<lparr>w_dir := d, w_current := c\<rparr>)" "laid d lay' []" "c = fst (last lay')"
    "records lay' = records lay @ [r]" "safe d lay' m" "lay' = lay_add r lay \<or> lay' = lay @ [(w_nextLogIndex w, [r])]"
proof -
  have sm: "small r" and fr: "frame_of r = encodeRecord rt (if rt = RecordTypeLogEntry then w_nextLogIndex w else 0) payload"
    using small by (simp_all add: small_def frame_of_def r)
  have ne: "lay \<noteq> []" using laid by (simp add: laid_def)
  consider (same) "maybeRotateLocked (length (frame_of r)) w = Inr w"
    | (rotate) d where "maybeRotateLocked (length (frame_of r)) w = Inr (w\<lparr>w_dir := d, w_current := w_nextLogIndex w\<rparr>)"
        "laid d (lay @ [(w_nextLogIndex w, [])]) []"
  proof (cases "fst (last lay) < w_nextLogIndex w")
    case True
    obtain d where d: "CreateSegment (w_nextLogIndex w) (w_dir w) = Inr d" "laid d (lay @ [(w_nextLogIndex w, [])]) []"
      by (rule laid_create [OF laid True]) blast
    have "maybeRotateLocked (length (frame_of r)) w = Inr w
        \<or> maybeRotateLocked (length (frame_of r)) w = Inr (w\<lparr>w_dir := seg_Sync (w_nextLogIndex w) d, w_current := w_nextLogIndex w\<rparr>)"
      using d(1) by (simp add: maybeRotateLocked_def Let_def)
    then show thesis using that laid_sync [OF d(2)] by auto
  next
    case False
    have "maybeRotateLocked (length (frame_of r)) w = Inr w" using False cur by (simp add: maybeRotateLocked_def Let_def not_less)
    then show thesis by (rule that(1))
  qed
  then show thesis
  proof cases
    case same
    have "safe (seg_Append (frame_of r) (w_current w) (w_dir w)) (lay_add r lay) m"
    proof -
      obtain k where k: "k \<le> length (snd (last lay))" "m \<le> length (records (butlast lay)) + k"
          "length (frames (take k (snd (last lay)))) \<le> current_synced (fst (last lay)) (w_dir w)" using safe by (auto simp: safe_def)
      have "current_synced (fst (last lay)) (seg_Append (frame_of r) (w_current w) (w_dir w)) = current_synced (fst (last lay)) (w_dir w)"
        by (simp add: current_synced_def seg_Append_def seg_update_def split: option.splits)
      then show ?thesis using k by (auto simp: safe_def lay_add_def intro!: exI [of _ k])
    qed
    moreover have "appendLocked rt payload w = Inr (w\<lparr>w_dir := seg_Append (frame_of r) (w_current w) (w_dir w), w_current := w_current w\<rparr>)"
      using same small by (simp add: appendLocked_def Let_def fr)
    ultimately show ?thesis
      using that [OF _ laid_append [OF laid sm]] records_lay_add [OF ne] cur by (simp add: lay_add_def)
  next
    case (rotate d)
    let ?lay = "lay @ [(w_nextLogIndex w, [])]"
    have "safe (seg_Append (frame_of r) (w_nextLogIndex w) d) (lay_add r ?lay) m"
      using safe(2) by (auto simp: safe_def lay_add_def intro!: exI [of _ 0])
    moreover have "appendLocked rt payload w = Inr (w\<lparr>w_dir := seg_Append (frame_of r) (w_nextLogIndex w) d, w_current := w_nextLogIndex w\<rparr>)"
      using rotate small by (simp add: appendLocked_def Let_def fr)
    ultimately show ?thesis
      using that [OF _ laid_append [OF rotate(2) sm]] records_lay_add [of ?lay r] by (simp add: lay_add_def)
  qed
qed

section \<open>The recovered state after one more record\<close>

lemma check_live_ge: "check_live b h l is = Inr x \<Longrightarrow> b \<le> l \<Longrightarrow> b \<le> x"
  by (induction b h l "is" rule: check_live.induct) (auto split: if_splits)

lemma check_live_snoc:
  "check_live b h l is = Inr x \<Longrightarrow> (h \<or> l = b) \<Longrightarrow> i = x + 1 \<Longrightarrow> b < i \<Longrightarrow> check_live b h l (is @ [i]) = Inr i"
  by (induction b h l "is" rule: check_live.induct) (auto split: if_splits)

lemma be_get_bound: "be_get b < 256 ^ length b"
proof (induction b rule: rev_induct)
  case (snoc c b)
  have "of_char c < (256 :: nat)" by simp
  moreover have "be_get b * 256 + 256 \<le> 256 * 256 ^ length b"
    using mult_le_mono2 [OF Suc_leI [OF snoc], of 256] by simp
  ultimately have "be_get b * 256 + of_char c < 256 * 256 ^ length b" by linarith
  then show ?case by (simp add: be_get_snoc)
qed (simp add: be_get_def)

lemma decodeMetadata_NodeID:
  assumes "decodeMetadata b = Inr m"
  shows "length (md_NodeID m) < 65536"
proof -
  have "be_get (take 2 (drop 9 b)) < 256 ^ 2"
    using be_get_bound [of "take 2 (drop 9 b)"] power_increasing [of "length (take 2 (drop 9 b))" 2 "256 :: nat"] by simp
  then show ?thesis using assms by (auto simp: decodeMetadata_def Uint16_def Let_def split: if_splits)
qed

lemma scan_records_NodeID:
  "scan_records rs sc = Inr sc' \<Longrightarrow> length (md_NodeID (sc_meta sc)) < 65536 \<Longrightarrow> length (md_NodeID (sc_meta sc')) < 65536"
proof (induction rs arbitrary: sc)
  case (Cons r rs)
  then obtain sc1 where sc1: "scan_record r sc = Inr sc1" "scan_records rs sc1 = Inr sc'" by (auto simp: bindR_eq_Inr)
  have "length (md_NodeID (sc_meta sc1)) < 65536"
    using sc1(1) Cons.prems(2) by (auto simp: scan_record_def decodeMetadata_NodeID split: RecordType.splits sum.splits)
  with Cons.IH [OF sc1(2)] show ?case .
qed simp

lemma recovers_NodeID: "recovers rs w \<Longrightarrow> length (md_NodeID (w_metadata w)) < 65536"
  by (auto simp: recovers_def recovered_as_def scan_start_def noMetadata_def dest!: scan_records_NodeID)

lemma recovers_bound: "recovers rs w \<Longrightarrow> md_LatestSnapshotIndex (w_metadata w) \<le> w_nextLogIndex w - 1"
  by (auto simp: recovers_def recovered_as_def dest!: check_live_ge)

lemma encodeMetadata_small: "length (md_NodeID m) < 65536 \<Longrightarrow> length (encodeMetadata m) \<le> MaxRecordPayloadSize"
  by (simp add: encodeMetadata_def MaxRecordPayloadSize_def)

lemma recovers_entry:
  assumes "recovers rs w" "w_nextLogIndex w \<noteq> 0" "rec_Type r = RecordTypeLogEntry" "rec_Index r = w_nextLogIndex w"
  shows "recovers (rs @ [r]) (w\<lparr>w_nextLogIndex := w_nextLogIndex w + 1\<rparr>)"
proof -
  obtain sc where sc: "scan_records rs scan_start = Inr sc" "recovered_as sc w" using assms(1) by (auto simp: recovers_def)
  let ?b = "md_LatestSnapshotIndex (sc_meta sc)"
  have c: "check_live ?b False ?b (sc_logIndices sc) = Inr (w_nextLogIndex w - 1)" using sc(2) by (simp add: recovered_as_def)
  have "w_nextLogIndex w - 1 < w_nextLogIndex w" using assms(2) by (metis measure_unat word_less_nat_alt)
  then have "?b < w_nextLogIndex w" using check_live_ge [OF c] by simp
  then have "check_live ?b False ?b (sc_logIndices sc @ [w_nextLogIndex w]) = Inr (w_nextLogIndex w)"
    using check_live_snoc [OF c] by simp
  then have "recovered_as (sc\<lparr>sc_logIndices := sc_logIndices sc @ [w_nextLogIndex w]\<rparr>) (w\<lparr>w_nextLogIndex := w_nextLogIndex w + 1\<rparr>)"
    using sc(2) by (simp add: recovered_as_def)
  then show ?thesis using sc(1) assms(3,4) by (simp add: recovers_def scan_records_append scan_record_def)
qed

lemma recovers_hardstate:
  assumes "recovers rs w" "rec_Type r = RecordTypeHardState"
  shows "recovers (rs @ [r]) (w\<lparr>w_latestHardState := copy_bytes (rec_Payload r)\<rparr>)"
  using assms by (auto simp: recovers_def recovered_as_def scan_records_append scan_record_def)

lemma recovers_generation:
  assumes "recovers rs w" "rec_Type r = RecordTypeMetadata" "rec_Payload r = encodeMetadata m"
    and "m = (w_metadata w)\<lparr>md_ClusterGeneration := g\<rparr>" "g \<le> MaxSupportedGeneration"
  shows "recovers (rs @ [r]) (w\<lparr>w_metadata := m\<rparr>)"
proof -
  have "decodeMetadata (encodeMetadata m) = Inr m"
    using recovers_NodeID [OF assms(1)] assms(4) by (intro decodeMetadata_encode) simp
  then show ?thesis using assms by (auto simp: recovers_def recovered_as_def scan_records_append scan_record_def)
qed

lemma less_inc: "c < b + 1 \<Longrightarrow> c \<le> (b :: u64)"
  using inc_le [of b c] by (cases "b < c") auto

lemma inc_greater: "c < b + 1 \<Longrightarrow> (b :: u64) < b + 1"
  using unatSuc [of b] by (cases "1 + b = 0") (auto simp: word_less_nat_alt add.commute)

lemma check_live_advance:
  "check_live b h l is = Inr x \<Longrightarrow> b \<le> b' \<Longrightarrow> b' \<le> x \<Longrightarrow> (if h then b < l else l = b)
     \<Longrightarrow> check_live b' (h \<and> b' < l) (if h \<and> b' < l then l else b') is = Inr x"
proof (induction b h l "is" rule: check_live.induct)
  case (2 b h l i "is")
  consider "i \<le> b" | "b < i" "\<not> h" "i = b + 1" "check_live b True i is = Inr x"
    | "b < i" "h" "i = l + 1" "check_live b True i is = Inr x"
    using "2.prems"(1) by (fastforce split: if_splits)
  then show ?case
  proof cases
    case 1
    then have "i \<le> b'" using "2.prems"(2) by simp
    then show ?thesis using 1 "2.IH"(1) "2.prems" by simp
  next
    case a: 2
    have "check_live b' (b' < i) (if b' < i then i else b') is = Inr x" using "2.IH"(2) a "2.prems" by simp
    moreover have "b' < i \<Longrightarrow> b' = b" using a(3) "2.prems"(2) less_inc [of b' b] by simp
    ultimately show ?thesis using a by (cases "b' < i") (simp_all add: not_less [symmetric] del: not_less)
  next
    case a: 3
    have "check_live b' (b' < i) (if b' < i then i else b') is = Inr x" using "2.IH"(3) a "2.prems" by simp
    moreover have "b' < i \<Longrightarrow> \<not> b' < l \<Longrightarrow> b' = l" using a(3) less_inc [of b' l] by simp
    moreover have "l < i" using a(1,3) inc_greater [of b l] by simp
    ultimately show ?thesis using a by (cases "b' < i"; cases "b' < l") (simp_all add: not_less [symmetric] del: not_less)
  qed
qed (auto split: if_splits)

lemma recovers_snapshot:
  assumes "recovers rs w" "rec_Type r = RecordTypeMetadata" "rec_Payload r = encodeMetadata m"
    and "m = (w_metadata w)\<lparr>md_LatestSnapshotIndex := u\<rparr>" "md_LatestSnapshotIndex (w_metadata w) \<le> u" "u \<le> w_nextLogIndex w - 1"
  shows "recovers (rs @ [r]) (w\<lparr>w_metadata := m, w_firstLogIndex := u + 1\<rparr>)"
proof -
  obtain sc where sc: "scan_records rs scan_start = Inr sc" "recovered_as sc w" using assms(1) by (auto simp: recovers_def)
  have "decodeMetadata (encodeMetadata m) = Inr m"
    using recovers_NodeID [OF assms(1)] assms(4) by (intro decodeMetadata_encode) simp
  moreover have "check_live u False u (sc_logIndices sc) = Inr (w_nextLogIndex w - 1)"
    using check_live_advance [of "md_LatestSnapshotIndex (sc_meta sc)" False _ "sc_logIndices sc" "w_nextLogIndex w - 1" u] sc(2) assms(5,6) by (simp add: recovered_as_def)
  ultimately show ?thesis using sc assms(2,3,4) by (simp add: recovers_def recovered_as_def scan_records_append scan_record_def)
qed

lemma unat_inc: "c < b + 1 \<Longrightarrow> unat (b + 1 :: u64) = Suc (unat b)"
  using unatSuc [of b] by (cases "1 + b = 0") (auto simp: add.commute)

lemma check_live_indices:
  "check_live b h l is = Inr x \<Longrightarrow> (if h then b < l else l = b) \<Longrightarrow> map unat (filter (\<lambda>i. b < i) is) = [Suc (unat l) ..< Suc (unat x)] \<and> l \<le> x"
proof (induction b h l "is" rule: check_live.induct)
  case (2 b h l i "is")
  show ?case
  proof (cases "i \<le> b")
    case True
    then have "\<not> b < i" by simp
    moreover have "check_live b h l is = Inr x" using True "2.prems"(1) by simp
    ultimately show ?thesis using "2.IH"(1) [OF True _ "2.prems"(2)] by (simp del: upt_Suc)
  next
    case False
    then have b: "b < i" by simp
    have i: "i = l + 1" "check_live b True i is = Inr x" using "2.prems" False by (auto split: if_splits)
    then have IH: "map unat (filter (\<lambda>i. b < i) is) = [Suc (unat i) ..< Suc (unat x)]" "i \<le> x"
      using "2.IH"(2,3) "2.prems" False b by (cases h; simp del: upt_Suc split: if_splits)+
    have u: "unat i = Suc (unat l)" using unat_inc [of b l] b i(1) by simp
    then have "unat l < unat x" using IH(2) by (simp add: word_le_nat_alt)
    then show ?thesis using IH u b by (simp add: upt_conv_Cons word_le_nat_alt del: upt_Suc)
  qed
qed simp

lemma scan_records_indices:
  "scan_records rs sc = Inr sc' \<Longrightarrow> sc_logIndices sc' = sc_logIndices sc @ map rec_Index (filter (\<lambda>r. rec_Type r = RecordTypeLogEntry) rs)"
proof (induction rs arbitrary: sc)
  case (Cons r rs)
  then obtain sc1 where sc1: "scan_record r sc = Inr sc1" "scan_records rs sc1 = Inr sc'" by (auto simp: bindR_eq_Inr)
  then show ?case using Cons.IH [OF sc1(2)] by (auto simp: scan_record_def split: RecordType.splits sum.splits)
qed simp

text \<open>All indices in the log are below the next one.\<close>

lemma recovers_below:
  assumes "recovers rs w" "0 < w_nextLogIndex w" "r \<in> set rs" "rec_Type r = RecordTypeLogEntry"
  shows "rec_Index r < w_nextLogIndex w"
proof -
  obtain sc where sc: "scan_records rs scan_start = Inr sc" "recovered_as sc w" using assms(1) by (auto simp: recovers_def)
  let ?b = "md_LatestSnapshotIndex (sc_meta sc)"
  have up: "w_nextLogIndex w - 1 < w_nextLogIndex w" using inc_greater [of 0 "w_nextLogIndex w - 1"] assms(2) by simp
  have mem: "rec_Index r \<in> set (sc_logIndices sc)" using assms(3,4) scan_records_indices [OF sc(1)] by force
  show ?thesis
  proof (cases "rec_Index r \<le> ?b")
    case True
    then show ?thesis using recovers_bound [OF assms(1)] sc(2) up by (simp add: recovered_as_def)
  next
    case False
    then have "unat (rec_Index r) \<in> set (map unat (filter (\<lambda>i. ?b < i) (sc_logIndices sc)))" using mem by simp
    moreover have "map unat (filter (\<lambda>i. ?b < i) (sc_logIndices sc)) = [Suc (unat ?b) ..< Suc (unat (w_nextLogIndex w - 1))]"
      using check_live_indices [of ?b False ?b] sc(2) by (simp add: recovered_as_def)
    ultimately have "unat (rec_Index r) \<in> set [Suc (unat ?b) ..< Suc (unat (w_nextLogIndex w - 1))]" by metis
    then show ?thesis using up by (simp add: word_less_nat_alt del: upt_Suc)
  qed
qed

text \<open>A segment is named after the first log index it may hold: entries in earlier segments are below its name.\<close>

definition named :: "layout \<Rightarrow> bool" where
  "named lay \<longleftrightarrow> (\<forall>l1 j rs l2. lay = l1 @ (j, rs) # l2 \<longrightarrow> (\<forall>r \<in> set (records l1). rec_Type r = RecordTypeLogEntry \<longrightarrow> rec_Index r < j))"

lemma named_add:
  assumes "named lay" "lay \<noteq> []"
  shows "named (lay_add r lay)"
  unfolding named_def
proof (intro allI impI)
  fix l1 j rs l2 assume e: "lay_add r lay = l1 @ (j, rs) # l2"
  obtain l0 i rs0 where l: "lay = l0 @ [(i, rs0)]" using assms(2) by (cases lay rule: rev_cases) auto
  have "\<exists>rs' l2'. lay = l1 @ (j, rs') # l2'"
    using e by (cases l2 rule: rev_cases) (auto simp: lay_add_def l)
  then show "\<forall>r \<in> set (records l1). rec_Type r = RecordTypeLogEntry \<longrightarrow> rec_Index r < j"
    using assms(1) unfolding named_def by blast
qed

lemma named_snoc:
  assumes "named lay" "\<And>r. r \<in> set (records lay) \<Longrightarrow> rec_Type r = RecordTypeLogEntry \<Longrightarrow> rec_Index r < i"
  shows "named (lay @ [(i, rs)])"
  unfolding named_def
proof (intro allI impI ballI)
  fix l1 j rs' l2 r assume e: "lay @ [(i, rs)] = l1 @ (j, rs') # l2" and r: "r \<in> set (records l1)" "rec_Type r = RecordTypeLogEntry"
  show "rec_Index r < j"
  proof (cases l2 rule: rev_cases)
    case Nil
    then show ?thesis using e r assms(2) by auto
  next
    case (snoc l2' x)
    then have "lay = l1 @ (j, rs') # l2'" using e by simp
    then show ?thesis using assms(1) r unfolding named_def by blast
  qed
qed

section \<open>Runs\<close>

datatype wal_op = DoAppend bytes | DoHardState bytes | DoSync | DoSnapshot u64 | DoGeneration u32

definition wal_do :: "wal_op \<Rightarrow> WAL \<Rightarrow> wal_error + WAL" where
  "wal_do op w = (case op of
     DoAppend p \<Rightarrow> bindR (AppendLogEntry p w) (\<lambda>(i, w1). Inr w1)
   | DoHardState p \<Rightarrow> AppendHardState p w
   | DoSync \<Rightarrow> wal_Sync w
   | DoSnapshot u \<Rightarrow> AppendMetadataSnapshot u w
   | DoGeneration g \<Rightarrow> SetClusterGeneration g w)"

fun wal_run :: "wal_op list \<Rightarrow> WAL \<Rightarrow> wal_error + WAL" where
  "wal_run [] w = Inr w"
| "wal_run (op # ops) w = bindR (wal_do op w) (wal_run ops)"

text \<open>A snapshot pointer does not run ahead of the log, and the index space is not exhausted.\<close>

definition op_fits :: "wal_op \<Rightarrow> WAL \<Rightarrow> bool" where
  "op_fits op w \<longleftrightarrow> 0 < w_nextLogIndex w \<and> (case op of DoSnapshot u \<Rightarrow> u < w_nextLogIndex w | _ \<Rightarrow> True)"

fun run_fits :: "wal_op list \<Rightarrow> WAL \<Rightarrow> bool" where
  "run_fits [] w = True"
| "run_fits (op # ops) w = (op_fits op w \<and> (case wal_do op w of Inl e \<Rightarrow> True | Inr w1 \<Rightarrow> run_fits ops w1))"

text \<open>The operations after which everything written so far is on disk.\<close>

definition syncs :: "wal_op \<Rightarrow> bool" where
  "syncs op \<longleftrightarrow> op = DoSync \<or> (\<exists>u. op = DoSnapshot u)"

lemma current_synced_sync: "laid dir lay [] \<Longrightarrow> safe (seg_Sync (fst (last lay)) dir) lay (length (records lay))"
proof -
  assume l: "laid dir lay []"
  obtain s where s: "mget dir (fst (last lay)) = Some s" "seg_data s = frames (snd (last lay))" using laid_current [OF l] by auto
  have "records lay = records (butlast lay) @ snd (last lay)" using l by (cases lay rule: rev_cases) (simp_all add: laid_def)
  then show ?thesis using s unfolding safe_def
    by (intro exI [of _ "length (snd (last lay))"]) (simp add: current_synced_def seg_Sync_def seg_update_def)
qed

text \<open>The record an operation writes.\<close>

definition op_records :: "wal_op \<Rightarrow> WAL \<Rightarrow> Record list" where
  "op_records op w = (case op of
     DoAppend p \<Rightarrow> [\<lparr>rec_Type = RecordTypeLogEntry, rec_Index = w_nextLogIndex w, rec_Payload = p\<rparr>]
   | DoHardState p \<Rightarrow> [\<lparr>rec_Type = RecordTypeHardState, rec_Index = 0, rec_Payload = p\<rparr>]
   | DoSync \<Rightarrow> []
   | DoSnapshot u \<Rightarrow> [\<lparr>rec_Type = RecordTypeMetadata, rec_Index = 0, rec_Payload = encodeMetadata ((w_metadata w)\<lparr>md_LatestSnapshotIndex := u\<rparr>)\<rparr>]
   | DoGeneration g \<Rightarrow> if g \<le> md_ClusterGeneration (w_metadata w) then []
       else [\<lparr>rec_Type = RecordTypeMetadata, rec_Index = 0, rec_Payload = encodeMetadata ((w_metadata w)\<lparr>md_ClusterGeneration := g\<rparr>)\<rparr>])"

lemma length_op_records: "length (op_records op w) \<le> 1"
  by (cases op) (simp_all add: op_records_def)

text \<open>One operation adds at most one record, keeps the invariant, and keeps what was on disk.\<close>

definition op_result :: "wal_op \<Rightarrow> WAL \<Rightarrow> WAL \<Rightarrow> layout \<Rightarrow> layout \<Rightarrow> nat \<Rightarrow> bool" where
  "op_result op w w' lay lay' m \<longleftrightarrow> wal_ok w' lay' \<and> records lay' = records lay @ op_records op w
     \<and> safe (w_dir w') lay' (if syncs op then length (records lay') else m) \<and> w_segmentMaxSize w' = w_segmentMaxSize w
     \<and> (named lay \<longrightarrow> named lay')"

lemma append_ok:
  assumes ok: "wal_ok w lay" and small: "length payload \<le> MaxRecordPayloadSize"
    and safe: "safe (w_dir w) lay m" "m \<le> length (records lay)" and pos: "0 < w_nextLogIndex w"
    and rec: "\<And>rs r d c. recovers rs w \<Longrightarrow> rec_Type r = rt \<Longrightarrow> rec_Payload r = payload
       \<Longrightarrow> rec_Index r = (if rt = RecordTypeLogEntry then w_nextLogIndex w else 0)
       \<Longrightarrow> recovers (rs @ [r]) (f (w\<lparr>w_dir := d, w_current := c\<rparr>))"
    and f: "\<And>w. w_dir (f w) = (if syn then seg_Sync (w_current w) (w_dir w) else w_dir w)" "\<And>w. w_current (f w) = w_current w"
      "\<And>w. w_segmentMaxSize (f w) = w_segmentMaxSize w" and syn: "syncs op \<longrightarrow> syn"
    and written: "op_records op w = [\<lparr>rec_Type = rt, rec_Index = (if rt = RecordTypeLogEntry then w_nextLogIndex w else 0), rec_Payload = payload\<rparr>]"
  obtains w1 lay' where "appendLocked rt payload w = Inr w1" "op_result op w (f w1) lay lay' m"
proof -
  have laid: "laid (w_dir w) lay []" and cur: "w_current w = fst (last lay)" and rc: "recovers (records lay) w"
    using ok by (simp_all add: wal_ok_def)
  define r where "r = \<lparr>rec_Type = rt, rec_Index = (if rt = RecordTypeLogEntry then w_nextLogIndex w else 0), rec_Payload = payload\<rparr>"
  obtain d c lay' where a: "appendLocked rt payload w = Inr (w\<lparr>w_dir := d, w_current := c\<rparr>)" "laid d lay' []" "c = fst (last lay')"
      "records lay' = records lay @ [r]" "safe d lay' m" "lay' = lay_add r lay \<or> lay' = lay @ [(w_nextLogIndex w, [r])]"
    by (rule appendLocked_ok [OF laid cur small r_def safe]) blast
  let ?w = "f (w\<lparr>w_dir := d, w_current := c\<rparr>)"
  have "recovers (records lay @ [r]) ?w" using rc by (rule rec) (simp_all add: r_def)
  then have "wal_ok ?w lay'" using a(2,3,4) laid_sync [OF a(2)] by (simp add: wal_ok_def f)
  moreover have "safe (w_dir ?w) lay' (if syncs op then length (records lay') else m)"
  proof (cases syn)
    case True
    have "safe (seg_Sync (fst (last lay')) d) lay' (length (records lay'))" using current_synced_sync [OF a(2)] .
    moreover have "safe dir l n \<Longrightarrow> k \<le> n \<Longrightarrow> safe dir l k" for dir l n k unfolding safe_def by (meson order_trans)
    ultimately show ?thesis using True a(3,4) safe(2) by (simp add: f)
  qed (use a syn in \<open>simp add: f\<close>)
  moreover have "named lay \<Longrightarrow> named lay'"
    using a(6) named_add [of lay r] named_snoc [OF _ recovers_below [OF rc pos], where rs = "[r]"] laid by (auto simp: laid_def)
  ultimately have "op_result op w ?w lay lay' m" using a(4) written by (simp add: op_result_def f r_def)
  then show thesis using that a(1) by blast
qed

lemma small_payload: "appendLocked rt p w = Inr w1 \<Longrightarrow> length p \<le> MaxRecordPayloadSize"
  by (auto simp: appendLocked_def split: if_splits)

lemma append_entry_ok:
  assumes ok: "wal_ok w lay" and fits: "op_fits (DoAppend p) w" and safe: "safe (w_dir w) lay m" "m \<le> length (records lay)"
    and run: "wal_do (DoAppend p) w = Inr w'"
  obtains lay' where "op_result (DoAppend p) w w' lay lay' m"
proof -
  have pos: "0 < w_nextLogIndex w" using fits by (simp add: op_fits_def)
  from run obtain w1 where w1: "appendLocked RecordTypeLogEntry p w = Inr w1" "w' = w1\<lparr>w_nextLogIndex := w_nextLogIndex w1 + 1\<rparr>"
    by (auto simp: wal_do_def AppendLogEntry_def bindR_eq_Inr split: if_splits)
  show thesis
  proof (rule append_ok [OF ok small_payload [OF w1(1)] safe pos,
        where f = "\<lambda>w1. w1\<lparr>w_nextLogIndex := w_nextLogIndex w1 + 1\<rparr>" and op = "DoAppend p" and syn = False])
    show "recovers (rs @ [r]) ((w\<lparr>w_dir := d, w_current := c\<rparr>)\<lparr>w_nextLogIndex := w_nextLogIndex (w\<lparr>w_dir := d, w_current := c\<rparr>) + 1\<rparr>)"
      if "recovers rs w" "rec_Type r = RecordTypeLogEntry" "rec_Payload r = p"
        "rec_Index r = (if RecordTypeLogEntry = RecordTypeLogEntry then w_nextLogIndex w else 0)" for rs r d c
      using recovers_entry [OF recovers_dir [OF that(1), of c d], of r] that fits by (simp add: op_fits_def word_gt_0)
  qed (use that w1 in \<open>auto simp: syncs_def op_records_def\<close>)
qed

lemma hardstate_ok:
  assumes ok: "wal_ok w lay" and fits: "op_fits (DoHardState p) w" and safe: "safe (w_dir w) lay m" "m \<le> length (records lay)"
    and run: "wal_do (DoHardState p) w = Inr w'"
  obtains lay' where "op_result (DoHardState p) w w' lay lay' m"
proof -
  have pos: "0 < w_nextLogIndex w" using fits by (simp add: op_fits_def)
  from run obtain w1 where w1: "appendLocked RecordTypeHardState p w = Inr w1" "w' = w1\<lparr>w_latestHardState := copy_bytes p\<rparr>"
    by (auto simp: wal_do_def AppendHardState_def bindR_eq_Inr split: if_splits)
  show thesis
  proof (rule append_ok [OF ok small_payload [OF w1(1)] safe pos,
        where f = "\<lambda>w1. w1\<lparr>w_latestHardState := copy_bytes p\<rparr>" and op = "DoHardState p" and syn = False])
    show "recovers (rs @ [r]) ((w\<lparr>w_dir := d, w_current := c\<rparr>)\<lparr>w_latestHardState := copy_bytes p\<rparr>)"
      if "recovers rs w" "rec_Type r = RecordTypeHardState" "rec_Payload r = p" for rs r d c
      using recovers_hardstate [OF recovers_dir [OF that(1), of c d] that(2)] that by simp
  qed (use that w1 in \<open>auto simp: syncs_def op_records_def\<close>)
qed

lemma sync_ok:
  assumes ok: "wal_ok w lay" and fits: "op_fits DoSync w" and safe: "safe (w_dir w) lay m" "m \<le> length (records lay)"
    and run: "wal_do DoSync w = Inr w'"
  obtains lay' where "op_result DoSync w w' lay lay' m"
proof -
  have w': "w' = w\<lparr>w_dir := seg_Sync (w_current w) (w_dir w)\<rparr>" using run by (auto simp: wal_do_def wal_Sync_def split: if_splits)
  have l: "laid (w_dir w) lay []" "w_current w = fst (last lay)" "recovers (records lay) w" using ok by (simp_all add: wal_ok_def)
  have "recovers (records lay) w'" using recovers_dir [OF l(3), of "w_current w" "seg_Sync (w_current w) (w_dir w)"] w' by simp
  then have "wal_ok w' lay" using l laid_sync [OF l(1)] by (simp add: wal_ok_def w')
  then have "op_result DoSync w w' lay lay m"
    using current_synced_sync [OF l(1)] l(2) by (auto simp: op_result_def syncs_def op_records_def w')
  then show thesis by (rule that)
qed

lemma snapshot_ok:
  assumes ok: "wal_ok w lay" and fits: "op_fits (DoSnapshot u) w" and safe: "safe (w_dir w) lay m" "m \<le> length (records lay)"
    and run: "wal_do (DoSnapshot u) w = Inr w'"
  obtains lay' where "op_result (DoSnapshot u) w w' lay lay' m"
proof -
  have pos: "0 < w_nextLogIndex w" using fits by (simp add: op_fits_def)
  define meta where "meta = (w_metadata w)\<lparr>md_LatestSnapshotIndex := u\<rparr>"
  define f where "f = (\<lambda>w1 :: WAL. w1\<lparr>w_dir := seg_Sync (w_current w1) (w_dir w1), w_metadata := meta, w_firstLogIndex := u + 1\<rparr>)"
  from run obtain w1 where w1: "appendLocked RecordTypeMetadata (encodeMetadata meta) w = Inr w1" "w' = f w1"
      and ge: "md_LatestSnapshotIndex (w_metadata w) \<le> u"
    by (auto simp: wal_do_def AppendMetadataSnapshot_def bindR_eq_Inr Let_def meta_def f_def not_less split: if_splits)
  have le: "u \<le> w_nextLogIndex w - 1" using fits by (simp add: op_fits_def word_gt_0 less_inc)
  show thesis
  proof (rule append_ok [OF ok small_payload [OF w1(1)] safe pos, where f = f and op = "DoSnapshot u" and syn = True])
    show "recovers (rs @ [r]) (f (w\<lparr>w_dir := d, w_current := c\<rparr>))"
      if "recovers rs w" "rec_Type r = RecordTypeMetadata" "rec_Payload r = encodeMetadata meta" for rs r d c
      using recovers_snapshot [OF recovers_dir [OF that(1), of c "seg_Sync c d"], of r meta u] that le ge by (cases w) (simp add: f_def meta_def)
  qed (use that w1 in \<open>auto simp: f_def op_records_def meta_def\<close>)
qed

lemma generation_ok:
  assumes ok: "wal_ok w lay" and fits: "op_fits (DoGeneration g) w" and safe: "safe (w_dir w) lay m" "m \<le> length (records lay)"
    and run: "wal_do (DoGeneration g) w = Inr w'"
  obtains lay' where "op_result (DoGeneration g) w w' lay lay' m"
proof -
  have pos: "0 < w_nextLogIndex w" using fits by (simp add: op_fits_def)
  define meta where "meta = (w_metadata w)\<lparr>md_ClusterGeneration := g\<rparr>"
  define f where "f = (\<lambda>w1 :: WAL. w1\<lparr>w_dir := seg_Sync (w_current w1) (w_dir w1), w_metadata := meta\<rparr>)"
  show thesis
  proof (cases "g \<le> md_ClusterGeneration (w_metadata w)")
    case True
    then have "w' = w" using run by (auto simp: wal_do_def SetClusterGeneration_def split: if_splits)
    then have "op_result (DoGeneration g) w w' lay lay m" using ok safe True by (simp add: op_result_def syncs_def op_records_def)
    then show thesis by (rule that)
  next
    case False
    with run obtain w1 where w1: "appendLocked RecordTypeMetadata (encodeMetadata meta) w = Inr w1" "w' = f w1"
        and le: "g \<le> MaxSupportedGeneration"
      by (auto simp: wal_do_def SetClusterGeneration_def bindR_eq_Inr Let_def meta_def f_def not_less split: if_splits)
    show thesis
    proof (rule append_ok [OF ok small_payload [OF w1(1)] safe pos, where f = f and op = "DoGeneration g" and syn = True])
      show "recovers (rs @ [r]) (f (w\<lparr>w_dir := d, w_current := c\<rparr>))"
        if "recovers rs w" "rec_Type r = RecordTypeMetadata" "rec_Payload r = encodeMetadata meta" for rs r d c
        using recovers_generation [OF recovers_dir [OF that(1), of c "seg_Sync c d"], of r meta g] that le by (cases w) (simp add: f_def meta_def)
    qed (use that w1 False in \<open>auto simp: f_def op_records_def meta_def\<close>)
  qed
qed

lemma op_ok:
  assumes ok: "wal_ok w lay" and fits: "op_fits op w" and safe: "safe (w_dir w) lay m" "m \<le> length (records lay)"
    and run: "wal_do op w = Inr w'"
  obtains lay' where "op_result op w w' lay lay' m"
  using ok fits safe run that
  by (cases op) (blast elim: append_entry_ok hardstate_ok sync_ok snapshot_ok generation_ok)+

lemma wal_run_snoc: "wal_run (ops @ [op]) w = bindR (wal_run ops w) (wal_do op)"
  by (induction ops arbitrary: w) (simp_all add: bindR_def split: sum.splits)

lemma run_fits_snoc: "run_fits (ops @ [op]) w \<Longrightarrow> run_fits ops w \<and> (\<forall>v. wal_run ops w = Inr v \<longrightarrow> op_fits op v)"
  by (induction ops arbitrary: w) (auto split: sum.splits)

text \<open>The state after every prefix of a run that keeps what is on disk is one that the records can be cut back to.\<close>

definition cut_points :: "wal_op list \<Rightarrow> WAL \<Rightarrow> layout \<Rightarrow> nat \<Rightarrow> bool" where
  "cut_points ops w lay m \<longleftrightarrow> (\<forall>j. m \<le> j \<and> j \<le> length (records lay) \<longrightarrow>
     (\<exists>pre post v layv. ops = pre @ post \<and> (\<forall>op \<in> set post. \<not> syncs op) \<and> wal_run pre w = Inr v \<and> wal_ok v layv
        \<and> records layv = take j (records lay) \<and> w_segmentMaxSize v = w_segmentMaxSize w))"

lemma cut_points_snoc:
  assumes cut: "cut_points ops w lay m" and run: "wal_run ops w = Inr v" "wal_do op v = Inr w'" and res: "op_result op v w' lay lay' m"
    and mx: "w_segmentMaxSize v = w_segmentMaxSize w"
  shows "cut_points (ops @ [op]) w lay' (if syncs op then length (records lay') else m)"
  unfolding cut_points_def
proof (intro allI impI)
  fix j assume j: "(if syncs op then length (records lay') else m) \<le> j \<and> j \<le> length (records lay')"
  obtain rs where rs: "length rs \<le> 1" "records lay' = records lay @ rs" using res length_op_records [of op v] by (auto simp: op_result_def)
  show "\<exists>pre post v layv. ops @ [op] = pre @ post \<and> (\<forall>op \<in> set post. \<not> syncs op) \<and> wal_run pre w = Inr v \<and> wal_ok v layv
        \<and> records layv = take j (records lay') \<and> w_segmentMaxSize v = w_segmentMaxSize w"
  proof (cases "j = length (records lay')")
    case True
    then show ?thesis using run res mx
      by (intro exI [of _ "ops @ [op]"] exI [of _ "[]"] exI [of _ w'] exI [of _ lay']) (simp add: op_result_def wal_run_snoc)
  next
    case False
    then have le: "j \<le> length (records lay)" "\<not> syncs op" using j rs by (auto split: if_splits)
    moreover have "m \<le> j" using j le by simp
    ultimately obtain pre post u layu where p: "ops = pre @ post" "\<forall>op \<in> set post. \<not> syncs op" "wal_run pre w = Inr u" "wal_ok u layu"
        "records layu = take j (records lay)" "w_segmentMaxSize u = w_segmentMaxSize w"
      using cut unfolding cut_points_def by blast
    then show ?thesis using le rs
      by (intro exI [of _ pre] exI [of _ "post @ [op]"] exI [of _ u] exI [of _ layu]) auto
  qed
qed

lemma run_ok:
  assumes ok: "wal_ok w lay" "safe (w_dir w) lay (length (records lay))" and run: "wal_run ops w = Inr w'" "run_fits ops w"
  obtains lay' m where "wal_ok w' lay'" "m \<le> length (records lay')" "safe (w_dir w') lay' m" "cut_points ops w lay' m"
    "w_segmentMaxSize w' = w_segmentMaxSize w"
  using run
proof (induction ops arbitrary: w' thesis rule: rev_induct)
  case Nil
  then have "cut_points [] w lay (length (records lay))" using ok by (auto simp: cut_points_def)
  then show ?case using Nil ok by auto
next
  case (snoc op ops)
  from snoc.prems(2) obtain v where v: "wal_run ops w = Inr v" "wal_do op v = Inr w'" by (auto simp: wal_run_snoc bindR_eq_Inr)
  have fits: "run_fits ops w" "op_fits op v" using run_fits_snoc [OF snoc.prems(3)] v(1) by simp_all
  obtain lay1 m where l: "wal_ok v lay1" "m \<le> length (records lay1)" "safe (w_dir v) lay1 m" "cut_points ops w lay1 m"
      "w_segmentMaxSize v = w_segmentMaxSize w"
    using snoc.IH [OF _ v(1) fits(1)] by blast
  obtain lay' where r: "op_result op v w' lay1 lay' m" by (rule op_ok [OF l(1) fits(2) l(3,2) v(2)])
  show ?case
    using r l(2,5) cut_points_snoc [OF l(4) v r l(5)]
    by (intro snoc.prems(1) [of lay' "if syncs op then length (records lay') else m"]) (auto simp: op_result_def)
qed

section \<open>A new log\<close>

lemma wal_Open_max: "wal_Open nid (if mx \<le> 0 then DefaultSegmentMaxSize else mx) dir = wal_Open nid mx dir"
  by (simp add: wal_Open_def DefaultSegmentMaxSize_def)

lemma wal_Open_new:
  assumes nid: "length nid < 65536" and open0: "wal_Open nid mx [] = Inr (w, rep)"
  obtains lay where "wal_ok w lay" "safe (w_dir w) lay (length (records lay))" "0 < w_segmentMaxSize w"
    "w_segmentMaxSize w = (if mx \<le> 0 then DefaultSegmentMaxSize else mx)"
proof -
  define meta where "meta = \<lparr>md_NodeID = nid, md_FormatVersion = FormatVersion, md_LatestSnapshotIndex = 0, md_ClusterGeneration = 0\<rparr>"
  define r where "r = \<lparr>rec_Type = RecordTypeMetadata, rec_Index = 0, rec_Payload = encodeMetadata meta\<rparr>"
  define d where "d = [(1 :: u64, \<lparr>seg_data = [] :: bytes, seg_synced = 0\<rparr>)]"
  have l0: "laid d [(1, [])] []" by (simp add: laid_def d_def ListSegmentIDs_def mkeys_def OpenSegment_def mget_def)
  have small: "small r" using encodeMetadata_small [of meta] nid by (simp add: small_def r_def meta_def)
  from laid_append [OF l0 small] have l1: "laid (seg_Append (frame_of r) 1 d) [(1, [r])] []" by (simp add: lay_add_def)
  have d: "seg_Append (frame_of r) 1 d = [(1, \<lparr>seg_data = frame_of r, seg_synced = 0\<rparr>)]"
    by (simp add: d_def seg_Append_def seg_update_def mget_def mput_def)
  have w: "w = \<lparr>w_dir = seg_Sync 1 (seg_Append (frame_of r) 1 d), w_segmentMaxSize = (if mx \<le> 0 then DefaultSegmentMaxSize else mx),
      w_current = 1, w_metadata = meta, w_nextLogIndex = 1, w_firstLogIndex = 1, w_latestHardState = None, w_closed = False\<rparr>"
    using open0 small by (simp add: wal_Open_def Let_def ListSegmentIDs_def mkeys_def appendLocked_def maybeRotateLocked_def
      seg_Size_def mget_def mput_def d_def frame_of_def r_def meta_def small_def)
  have "decodeMetadata (encodeMetadata meta) = Inr meta" using nid by (intro decodeMetadata_encode) (simp add: meta_def)
  then have "recovers [r] w"
    by (simp add: recovers_def recovered_as_def scan_record_def r_def w meta_def scan_start_def MaxSupportedGeneration_def)
  then have "wal_ok w [(1, [r])]" using laid_sync [OF l1] by (simp add: wal_ok_def w)
  moreover have "safe (w_dir w) [(1, [r])] 1" using current_synced_sync [OF l1] by (simp add: w)
  ultimately show thesis by (intro that [of "[(1, [r])]"]) (simp_all add: w DefaultSegmentMaxSize_def)
qed

section \<open>Recovery\<close>

lemma reopen_ok:
  assumes laid: "laid dir lay t" and rec: "recovers (records lay) v" and mx: "0 < w_segmentMaxSize v"
    and max: "w_segmentMaxSize v = (if mx \<le> 0 then DefaultSegmentMaxSize else mx)"
  obtains w rep where "wal_Open nid mx dir = Inr (w, rep)" "w = v\<lparr>w_dir := w_dir w, w_current := w_current w\<rparr>" "wal_ok w lay"
    "t = [] \<longrightarrow> w = v\<lparr>w_dir := dir, w_current := fst (last lay)\<rparr> \<and> \<not> rr_TornTailTruncated rep"
proof -
  obtain rep d where o: "wal_Open nid (w_segmentMaxSize v) dir = Inr (v\<lparr>w_dir := d, w_current := fst (last lay)\<rparr>, rep)"
      "wal_ok (v\<lparr>w_dir := d, w_current := fst (last lay)\<rparr>) lay" "rr_TornTailTruncated rep = (t \<noteq> [])" "t = [] \<Longrightarrow> d = dir"
    by (rule wal_Open_laid [OF laid rec mx]) blast
  have "wal_Open nid mx dir = Inr (v\<lparr>w_dir := d, w_current := fst (last lay)\<rparr>, rep)" using o(1) by (simp only: max wal_Open_max)
  then show thesis using o by (intro that) auto
qed

text \<open>A log with small segments: two entries, the second in a segment of its own.\<close>

definition demo_meta :: Metadata where
  "demo_meta = \<lparr>md_NodeID = ''n'', md_FormatVersion = FormatVersion, md_LatestSnapshotIndex = 0, md_ClusterGeneration = 0\<rparr>"

definition demo_frame :: "nat \<Rightarrow> bytes" where
  "demo_frame k = (if k = 0 then encodeRecord RecordTypeMetadata 0 (encodeMetadata demo_meta)
     else if k = 1 then encodeRecord RecordTypeLogEntry 1 ''a'' else encodeRecord RecordTypeLogEntry 2 ''b'')"

lemma demo_frame_length [simp]: "length (demo_frame 0) = 30" "length (demo_frame (Suc 0)) = 19" "length (demo_frame 2) = 19"
  by (simp_all add: demo_frame_def demo_meta_def encodeMetadata_def frame_sizes)

definition demo_wal :: WAL where
  "demo_wal = \<lparr>w_dir = [(1, \<lparr>seg_data = demo_frame 0, seg_synced = 30\<rparr>)], w_segmentMaxSize = 49, w_current = 1, w_metadata = demo_meta,
     w_nextLogIndex = 1, w_firstLogIndex = 1, w_latestHardState = None, w_closed = False\<rparr>"

lemma encodeRecord_nonempty [simp]: "encodeRecord rt i p \<noteq> []"
  by (simp add: encodeRecord_def Let_def)

lemmas wal_eval = word_le_nat_alt wal_do_def AppendLogEntry_def AppendHardState_def wal_Sync_def appendLocked_def maybeRotateLocked_def seg_Size_def
  mget_def mput_def seg_Append_def seg_Sync_def seg_update_def CreateSegment_def frame_sizes MaxRecordPayloadSize_def Let_def
  demo_wal_def demo_frame_def encodeMetadata_def demo_meta_def op_fits_def

lemma demo_open: "\<exists>rep. wal_Open ''n'' 49 [] = Inr (demo_wal, rep)"
  by (simp add: wal_Open_def ListSegmentIDs_def mkeys_def wal_eval)

definition demo_after :: WAL where
  "demo_after = demo_wal\<lparr>w_dir := [(1, \<lparr>seg_data = demo_frame 0 @ demo_frame 1, seg_synced = 30\<rparr>),
     (2, \<lparr>seg_data = demo_frame 2, seg_synced = 19\<rparr>)], w_current := 2, w_nextLogIndex := 3\<rparr>"

lemma demo_run: "wal_run [DoAppend ''a'', DoAppend ''b'', DoSync] demo_wal = Inr demo_after"
  by (simp add: wal_eval demo_after_def)

lemma demo_fits: "run_fits [DoAppend ''a'', DoAppend ''b'', DoSync] demo_wal"
  by (simp add: wal_eval)

text \<open>A crash cuts the records behind the last sync; what is left is the log after a prefix of the operations.\<close>

lemma crash_recovers:
  assumes "length nid < 65536" "wal_Open nid mx [] = Inr (w0, rep0)" "wal_run ops w0 = Inr w" "run_fits ops w0"
    and "\<And>i. i \<noteq> w_current w \<Longrightarrow> seg_Size i (w_dir w) \<le> keep i"
  shows "\<exists>pre post v w' rep. ops = pre @ post \<and> \<not> list_ex syncs post \<and> wal_run pre w0 = Inr v
     \<and> wal_Open nid' mx (crash keep (w_dir w)) = Inr (w', rep) \<and> w' = v\<lparr>w_dir := w_dir w', w_current := w_current w'\<rparr>
     \<and> read_log from w' = read_log from v"
proof -
  obtain lay0 where l0: "wal_ok w0 lay0" "safe (w_dir w0) lay0 (length (records lay0))" "0 < w_segmentMaxSize w0"
      "w_segmentMaxSize w0 = (if mx \<le> 0 then DefaultSegmentMaxSize else mx)"
    by (rule wal_Open_new [OF assms(1,2)])
  obtain lay m where l: "wal_ok w lay" "m \<le> length (records lay)" "safe (w_dir w) lay m" "cut_points ops w0 lay m"
    by (rule run_ok [OF l0(1,2) assms(3,4)])
  have w: "laid (w_dir w) lay []" "w_current w = fst (last lay)" using l(1) by (simp_all add: wal_ok_def)
  obtain j t lay' where c: "laid (crash keep (w_dir w)) lay' t" "records lay' = take j (records lay)" "m \<le> j"
    by (rule crash_laid [OF w(1) l(3), of keep]) (use assms(5) w(2) in auto)
  have "take j (records lay) = take (min j (length (records lay))) (records lay)" by (simp add: min_def)
  moreover have "m \<le> min j (length (records lay))" using l(2) c(3) by simp
  ultimately obtain pre post v layv where p: "ops = pre @ post" "\<forall>op \<in> set post. \<not> syncs op" "wal_run pre w0 = Inr v" "wal_ok v layv"
      "records layv = records lay'" "w_segmentMaxSize v = w_segmentMaxSize w0"
    using l(4) c(2) unfolding cut_points_def by (metis min.cobounded2)
  have "recovers (records lay') v" "0 < w_segmentMaxSize v" using p(4,5,6) l0(3) by (simp_all add: wal_ok_def)
  from reopen_ok [OF c(1) this, of mx] l0(4) p(6)
  obtain w' rep where o: "wal_Open nid' mx (crash keep (w_dir w)) = Inr (w', rep)" "w' = v\<lparr>w_dir := w_dir w', w_current := w_current w'\<rparr>"
      "wal_ok w' lay'" by metis
  have "\<not> list_ex syncs post" using p(2) by (simp add: list_ex_iff)
  then show ?thesis using o p(1,3) read_log_ok [OF o(3)] read_log_ok [OF p(4)] p(5) by metis
qed

lemma crash_recovers_synced:
  assumes "length nid < 65536" "wal_Open nid mx [] = Inr (w0, rep0)" "wal_run ops w0 = Inr w" "run_fits ops w0"
    and "\<And>i. i \<noteq> w_current w \<Longrightarrow> seg_Size i (w_dir w) \<le> keep i" "ops = [] \<or> last ops = DoSync"
  obtains w' rep where "wal_Open nid' mx (crash keep (w_dir w)) = Inr (w', rep)" "w' = w\<lparr>w_dir := w_dir w', w_current := w_current w'\<rparr>"
    "read_log from w' = read_log from w"
proof -
  obtain pre post v w' rep where c: "ops = pre @ post" "\<not> list_ex syncs post" "wal_run pre w0 = Inr v"
      "wal_Open nid' mx (crash keep (w_dir w)) = Inr (w', rep)" "w' = v\<lparr>w_dir := w_dir w', w_current := w_current w'\<rparr>" "read_log from w' = read_log from v"
    using crash_recovers [OF assms(1-5), of nid' "from"] by blast
  have "post = []" using c(1,2) assms(6) by (cases post rule: rev_cases) (auto simp: syncs_def)
  then have "v = w" using c(1,3) assms(3) by simp
  then show thesis using that c by blast
qed

text \<open>Claim C13. Crash recovery. A log is opened in an empty directory and operations run on it. A crash leaves the closed
  segments as they are and any prefix of the current segment that has what was synced. Opening the log again succeeds and
  restores the state after a prefix of the operations, metadata, indices, hard state and the log entries replay returns;
  the operations that are lost come after the last sync.\<close>

theorem crash_recovers_prefix:
  assumes "length nid < 65536" "wal_Open nid mx [] = Inr (w0, rep0)" "wal_run ops w0 = Inr w" "run_fits ops w0"
    and "\<And>i. i \<noteq> w_current w \<Longrightarrow> seg_Size i (w_dir w) \<le> keep i"
  shows "\<exists>pre post v w' rep. ops = pre @ post \<and> \<not> list_ex syncs post \<and> wal_run pre w0 = Inr v
     \<and> wal_Open nid' mx (crash keep (w_dir w)) = Inr (w', rep) \<and> w' = v\<lparr>w_dir := w_dir w', w_current := w_current w'\<rparr>
     \<and> read_log from w' = read_log from v"
  by (rule crash_recovers [OF assms])

lemma crash_recovers_prefix_witness:
  "\<exists>rep0 w. wal_Open ''n'' 49 [] = Inr (demo_wal, rep0) \<and> wal_run [DoAppend ''a'', DoAppend ''b'', DoSync] demo_wal = Inr w
     \<and> (\<exists>pre post v w' rep. [DoAppend ''a'', DoAppend ''b'', DoSync] = pre @ post \<and> \<not> list_ex syncs post \<and> wal_run pre demo_wal = Inr v
     \<and> wal_Open ''m'' 49 (crash (\<lambda>i. 60) (w_dir w)) = Inr (w', rep) \<and> w' = v\<lparr>w_dir := w_dir w', w_current := w_current w'\<rparr>
     \<and> read_log 1 w' = read_log 1 v)"
proof -
  obtain rep0 where o: "wal_Open ''n'' 49 [] = Inr (demo_wal, rep0)" using demo_open by blast
  have "seg_Size i (w_dir demo_after) \<le> 60" for i by (simp add: wal_eval demo_after_def)
  from crash_recovers_prefix [OF _ o demo_run demo_fits this, of "''m''" 1] show ?thesis
    by (intro exI [of _ rep0] exI [of _ demo_after] conjI o demo_run) simp
qed

text \<open>Reopening a log without a crash gives back exactly the state in memory, with nothing truncated.\<close>

theorem reopen_same:
  assumes "length nid < 65536" "wal_Open nid mx [] = Inr (w0, rep0)" "wal_run ops w0 = Inr w" "run_fits ops w0"
  shows "\<exists>rep. wal_Open nid' mx (w_dir w) = Inr (w, rep) \<and> \<not> rr_TornTailTruncated rep"
proof -
  obtain lay0 where l0: "wal_ok w0 lay0" "safe (w_dir w0) lay0 (length (records lay0))" "0 < w_segmentMaxSize w0"
      "w_segmentMaxSize w0 = (if mx \<le> 0 then DefaultSegmentMaxSize else mx)"
    by (rule wal_Open_new [OF assms(1,2)])
  obtain lay m where l: "wal_ok w lay" "w_segmentMaxSize w = w_segmentMaxSize w0"
    by (rule run_ok [OF l0(1,2) assms(3,4)])
  have w: "laid (w_dir w) lay []" "w_current w = fst (last lay)" "recovers (records lay) w" using l(1) by (simp_all add: wal_ok_def)
  from reopen_ok [OF w(1,3), of mx] l0(3,4) l(2)
  obtain w' rep where "wal_Open nid' mx (w_dir w) = Inr (w', rep)" "w' = w\<lparr>w_dir := w_dir w, w_current := fst (last lay)\<rparr>"
      "\<not> rr_TornTailTruncated rep" by metis
  then show ?thesis using w(2) by simp
qed

lemma reopen_same_witness:
  "\<exists>rep0 w rep. wal_Open ''n'' 49 [] = Inr (demo_wal, rep0) \<and> wal_run [DoAppend ''a'', DoAppend ''b'', DoSync] demo_wal = Inr w
     \<and> wal_Open ''m'' 49 (w_dir w) = Inr (w, rep) \<and> \<not> rr_TornTailTruncated rep"
proof -
  obtain rep0 where o: "wal_Open ''n'' 49 [] = Inr (demo_wal, rep0)" using demo_open by blast
  from reopen_same [OF _ o demo_run demo_fits, of "''m''"] show ?thesis using o demo_run by auto
qed

section \<open>Rotation\<close>

text \<open>Claim C36. A sync after a rotation covers only the new segment. Two entries are appended, the second of which rotates, and the
  log is synced; a crash may still drop the first entry, and recovery then refuses the log.\<close>

theorem rotation_unsynced:
  "\<exists>rep w. wal_Open ''n'' 49 [] = Inr (demo_wal, rep) \<and> wal_run [DoAppend ''a'', DoAppend ''b'', DoSync] demo_wal = Inr w
     \<and> wal_Open ''n'' 49 (crash (\<lambda>i. 0) (w_dir w)) = Inl (ErrCorrupt, crash (\<lambda>i. 0) (w_dir w))"
proof -
  obtain rep where o: "wal_Open ''n'' 49 [] = Inr (demo_wal, rep)" using demo_open by blast
  define r0 where "r0 = \<lparr>rec_Type = RecordTypeMetadata, rec_Index = 0, rec_Payload = encodeMetadata demo_meta\<rparr>"
  define r2 where "r2 = \<lparr>rec_Type = RecordTypeLogEntry, rec_Index = 2, rec_Payload = ''b''\<rparr>"
  have r: "frame_of r0 = demo_frame 0" "frame_of r2 = demo_frame 2" "small r0" "small r2"
    by (simp_all add: r0_def r2_def frame_of_def demo_frame_def small_def encodeMetadata_def demo_meta_def MaxRecordPayloadSize_def)
  have c: "crash (\<lambda>i. 0) (w_dir demo_after)
      = [(1, \<lparr>seg_data = demo_frame 0, seg_synced = 30\<rparr>), (2, \<lparr>seg_data = demo_frame 2, seg_synced = 19\<rparr>)]"
    by (simp add: crash_def demo_after_def Let_def)
  have ids: "ListSegmentIDs (crash (\<lambda>i. 0) (w_dir demo_after)) = [1, 2]"
    by (simp add: c ListSegmentIDs_def mkeys_def word_le_nat_alt)
  have "segs_laid (crash (\<lambda>i. 0) (w_dir demo_after)) [(1, [r0]), (2, [r2])] []"
    using r by (simp add: c OpenSegment_def mget_def)
  from scan_dir_laid [OF this, of scan_start]
  have "scan_dir (crash (\<lambda>i. 0) (w_dir demo_after)) [1, 2] scan_start
      = Inr (\<lparr>sc_haveMetadata = True, sc_meta = demo_meta, sc_latestHS = None, sc_logIndices = [2]\<rparr>, None)"
    using decodeMetadata_encode [of demo_meta] by (simp add: scan_record_def r0_def r2_def scan_start_def demo_meta_def)
  then have "wal_Open ''n'' 49 (crash (\<lambda>i. 0) (w_dir demo_after)) = Inl (ErrCorrupt, crash (\<lambda>i. 0) (w_dir demo_after))"
    unfolding wal_Open_def ids by (simp add: finish_open_def demo_meta_def MaxSupportedGeneration_def)
  then show ?thesis using o demo_run by blast
qed

section \<open>One operation of a client\<close>

lemma appendLocked_fields: "appendLocked rt p w = Inr w1 \<Longrightarrow> w1 = w\<lparr>w_dir := w_dir w1, w_current := w_current w1\<rparr>"
  by (cases w) (auto simp: appendLocked_def maybeRotateLocked_def Let_def bindR_eq_Inr split: if_splits)

lemma AppendLogEntry_fields:
  assumes "AppendLogEntry p w = Inr (i, w1)"
  shows "i = w_nextLogIndex w" "w_nextLogIndex w1 = w_nextLogIndex w + 1" "w_firstLogIndex w1 = w_firstLogIndex w"
    "w_latestHardState w1 = w_latestHardState w" "w_segmentMaxSize w1 = w_segmentMaxSize w" "wal_do (DoAppend p) w = Inr w1"
proof -
  obtain w2 where w2: "appendLocked RecordTypeLogEntry p w = Inr w2" "i = w_nextLogIndex w" "w1 = w2\<lparr>w_nextLogIndex := w_nextLogIndex w2 + 1\<rparr>"
    using assms by (auto simp: AppendLogEntry_def bindR_eq_Inr split: if_splits)
  note f = appendLocked_fields [OF w2(1)]
  show "i = w_nextLogIndex w" by (rule w2(2))
  show "w_nextLogIndex w1 = w_nextLogIndex w + 1" "w_firstLogIndex w1 = w_firstLogIndex w" "w_latestHardState w1 = w_latestHardState w"
    "w_segmentMaxSize w1 = w_segmentMaxSize w" unfolding w2(3) by (subst f, simp)+
  show "wal_do (DoAppend p) w = Inr w1" using assms by (simp add: wal_do_def)
qed

lemma wal_run_append: "wal_run (xs @ ys) w = bindR (wal_run xs w) (wal_run ys)"
  by (induction xs arbitrary: w) (simp_all add: bindR_def split: sum.splits)

lemma run_fits_append:
  "wal_run xs w = Inr v \<Longrightarrow> run_fits (xs @ ys) w \<longleftrightarrow> run_fits xs w \<and> run_fits ys v"
  by (induction xs arbitrary: w) (auto simp: bindR_eq_Inr)

lemma sync_mirrored:
  assumes ok: "wal_ok w lay" and pos: "0 < w_nextLogIndex w" and run: "wal_Sync w = Inr w1"
  shows "wal_ok w1 lay" "w1 = w\<lparr>w_dir := w_dir w1\<rparr>" "wal_do DoSync w = Inr w1" "op_fits DoSync w"
proof -
  show w1: "w1 = w\<lparr>w_dir := w_dir w1\<rparr>" using run by (cases w) (auto simp: wal_Sync_def split: if_splits)
  show do: "wal_do DoSync w = Inr w1" using run by (simp add: wal_do_def)
  show fits: "op_fits DoSync w" using pos by (simp add: op_fits_def)
  have l: "laid (w_dir w) lay []" "w_current w = fst (last lay)" "recovers (records lay) w" using ok by (simp_all add: wal_ok_def)
  have "w_dir w1 = seg_Sync (fst (last lay)) (w_dir w)" using run l(2) by (auto simp: wal_Sync_def split: if_splits)
  then show "wal_ok w1 lay" using l laid_sync [OF l(1)] by (subst w1) (simp add: wal_ok_def recovers_def recovered_as_def)
qed

section \<open>One segment\<close>

text \<open>A log that fits into its first segment.\<close>

definition one_segment :: "WAL \<Rightarrow> Record list \<Rightarrow> nat \<Rightarrow> bool" where
  "one_segment w rs k \<longleftrightarrow> w_dir w = [(1, \<lparr>seg_data = frames rs, seg_synced = k\<rparr>)] \<and> w_current w = 1 \<and> \<not> w_closed w"

lemma one_append:
  assumes "one_segment w rs k" "length p \<le> MaxRecordPayloadSize" "int (length (frames rs) + length p + 18) \<le> w_segmentMaxSize w"
  shows "appendLocked rt p w = Inr (w\<lparr>w_dir := [(1, \<lparr>seg_data = frames (rs @ [\<lparr>rec_Type = rt,
     rec_Index = (if rt = RecordTypeLogEntry then w_nextLogIndex w else 0), rec_Payload = p\<rparr>]), seg_synced = k\<rparr>)]\<rparr>)"
  using assms by (auto simp: one_segment_def appendLocked_def maybeRotateLocked_def Let_def seg_Size_def mget_def mput_def frame_sizes
      seg_Append_def seg_update_def frame_of_def)

lemma one_sync:
  assumes "one_segment w rs k"
  shows "wal_Sync w = Inr (w\<lparr>w_dir := [(1, \<lparr>seg_data = frames rs, seg_synced = length (frames rs)\<rparr>)]\<rparr>)"
  using assms by (auto simp: one_segment_def wal_Sync_def seg_Sync_def seg_update_def mget_def mput_def)

definition demo_log :: WAL where
  "demo_log = demo_wal\<lparr>w_segmentMaxSize := 1000\<rparr>"

definition demo_first :: Record where
  "demo_first = \<lparr>rec_Type = RecordTypeMetadata, rec_Index = 0, rec_Payload = encodeMetadata demo_meta\<rparr>"

lemma demo_log_open: "\<exists>rep. wal_Open ''n'' 1000 [] = Inr (demo_log, rep)"
  by (simp add: demo_log_def wal_Open_def ListSegmentIDs_def mkeys_def wal_eval)

definition with_records :: "Record list \<Rightarrow> u64 \<Rightarrow> bytes option \<Rightarrow> WAL" where
  "with_records rs n hs = demo_log\<lparr>w_dir := [(1, \<lparr>seg_data = frames rs, seg_synced = length (frames rs)\<rparr>)], w_nextLogIndex := n, w_latestHardState := hs\<rparr>"

lemma demo_with_records: "demo_log = with_records [demo_first] 1 None"
  by (simp add: with_records_def demo_log_def demo_wal_def demo_first_def frame_of_def demo_frame_def encodeMetadata_def demo_meta_def frame_sizes)

lemma with_records_log:
  assumes "length p \<le> MaxRecordPayloadSize" "length (frames rs) + length p + 18 \<le> 1000"
  obtains w where "AppendLogEntry p (with_records rs n hs) = Inr (n, w)"
    "wal_Sync w = Inr (with_records (rs @ [\<lparr>rec_Type = RecordTypeLogEntry, rec_Index = n, rec_Payload = p\<rparr>]) (n + 1) hs)"
proof -
  let ?r = "\<lparr>rec_Type = RecordTypeLogEntry, rec_Index = n, rec_Payload = p\<rparr>"
  let ?w = "(with_records rs n hs)\<lparr>w_dir := [(1, \<lparr>seg_data = frames (rs @ [?r]), seg_synced = length (frames rs)\<rparr>)]\<rparr>"
  have o: "one_segment (with_records rs n hs) rs (length (frames rs))" by (simp add: one_segment_def with_records_def demo_log_def demo_wal_def)
  have "appendLocked RecordTypeLogEntry p (with_records rs n hs) = Inr ?w"
    using one_append [OF o assms(1), of RecordTypeLogEntry] assms(2) by (simp add: with_records_def demo_log_def)
  then have a: "AppendLogEntry p (with_records rs n hs) = Inr (n, ?w\<lparr>w_nextLogIndex := n + 1\<rparr>)"
    by (simp add: AppendLogEntry_def with_records_def demo_log_def demo_wal_def)
  have "one_segment (?w\<lparr>w_nextLogIndex := n + 1\<rparr>) (rs @ [?r]) (length (frames rs))"
    by (simp add: one_segment_def with_records_def demo_log_def demo_wal_def)
  from one_sync [OF this] have "wal_Sync (?w\<lparr>w_nextLogIndex := n + 1\<rparr>) = Inr (with_records (rs @ [?r]) (n + 1) hs)"
    by (simp add: with_records_def)
  then show thesis using that a by blast
qed

end
