(* ===== verification/Wal_Cut.thy ===== *)
theory Wal_Cut
  imports Wal_Recovery
begin

text \<open>
  Cutting the log. \<open>Truncate\<close> cuts the sequence of records, of whatever type, before the record of the log
  index it is given; what remains reopens to the state in memory exactly when only log entries were cut
  off. Compaction drops whole segments from the front.
\<close>

section \<open>Finding a log index\<close>

definition hit :: "u64 \<Rightarrow> Record \<Rightarrow> bool" where
  "hit target r \<longleftrightarrow> rec_Type r = RecordTypeLogEntry \<and> rec_Index r = target"

lemma locate_in_frames:
  assumes "\<forall>r \<in> set rs. small r"
  shows "locate_in (pre @ frames rs) (length pre) target
     = Inr (if list_ex (hit target) rs then Some (length (pre @ frames (takeWhile (\<lambda>r. \<not> hit target r) rs))) else None)"
  using assms
proof (induction rs arbitrary: pre)
  case Nil
  then show ?case using readFrame_tail [of "[]" pre] by (subst locate_in.simps) simp
next
  case (Cons r rs)
  have frame: "readFrame (pre @ frame_of r @ frames rs) (length pre) = Inr (Some (r, length (frame_of r)))"
    using readFrame_at [of r pre] Cons.prems by simp
  then show ?case using Cons.IH [of "pre @ frame_of r"] Cons.prems by (subst locate_in.simps) (simp add: hit_def [symmetric])
qed

lemma locateLogIndex_laid:
  assumes "segs_laid dir (l1 @ (i, rs1 @ r # rs2) # l2) []" "\<not> list_ex (hit target) (records l1)" "\<not> list_ex (hit target) rs1" "hit target r"
  shows "locateLogIndex dir (map fst (l1 @ (i, rs1 @ r # rs2) # l2)) target = Inr (Some (i, length (frames rs1)))"
  using assms
proof (induction l1)
  case Nil
  have "takeWhile (\<lambda>r. \<not> hit target r) (rs1 @ r # rs2) = rs1"
    using Nil by (simp add: takeWhile_append2 list_ex_iff)
  then show ?case using Nil locate_in_frames [of "rs1 @ r # rs2" "[]" target] by simp
next
  case (Cons x l1)
  obtain j rs where x: "x = (j, rs)" by (cases x)
  then show ?case using Cons locate_in_frames [of rs "[]" target] by auto
qed

section \<open>Removing segments\<close>

lemma mget_filter: "mget (filter (\<lambda>p. P (fst p)) m) k = (if P k then mget m k else None)"
  by (induction m) (auto simp: mget_def)

lemma remove_newer_laid:
  assumes "\<forall>j \<in> set js. i < j \<and> mget dir j \<noteq> None" "distinct js"
  shows "remove_newer i (js @ i # rest) dir = Inr (filter (\<lambda>p. fst p \<notin> set js) dir)"
  using assms
proof (induction js arbitrary: dir)
  case (Cons j js)
  have "RemoveSegment j dir = Inr (filter (\<lambda>p. fst p \<noteq> j) dir)" using Cons.prems by (auto simp: RemoveSegment_def)
  moreover have "\<forall>k \<in> set js. i < k \<and> mget (filter (\<lambda>p. fst p \<noteq> j) dir) k \<noteq> None"
    using Cons.prems by (auto simp: mget_filter [of "\<lambda>k. k \<noteq> j"])
  ultimately show ?case using Cons by (auto simp: not_le intro!: filter_cong)
qed simp

lemma mkeys_filter: "mkeys (filter (\<lambda>p. P (fst p)) m) = filter P (mkeys m)"
  by (simp add: mkeys_def filter_map comp_def)

lemma filter_front: "distinct (xs @ ys) \<Longrightarrow> filter (\<lambda>k. k \<notin> set ys) (xs @ ys) = xs"
  by (induction xs) auto

lemma laid_filter:
  assumes laid: "laid dir (l1 @ x # l2) []"
  shows "laid (filter (\<lambda>p. fst p \<notin> set (map fst l2)) dir) (l1 @ [x]) []"
proof -
  let ?d = "filter (\<lambda>p. fst p \<notin> set (map fst l2)) dir"
  have dist: "distinct (map fst (l1 @ x # l2))" by (rule laid_ids(2) [OF laid])
  have "ListSegmentIDs ?d = filter (\<lambda>k. k \<notin> set (map fst l2)) (ListSegmentIDs dir)"
    unfolding ListSegmentIDs_def mkeys_filter [of "\<lambda>k. k \<notin> set (map fst l2)"] filter_sort ..
  also have "ListSegmentIDs dir = map fst (l1 @ [x]) @ map fst l2" using laid by (simp add: laid_def)
  also have "filter (\<lambda>k. k \<notin> set (map fst l2)) (map fst (l1 @ [x]) @ map fst l2) = map fst (l1 @ [x])"
    using dist by (intro filter_front) simp
  finally have ids: "ListSegmentIDs ?d = map fst (l1 @ [x])" .
  have "segs_laid dir (l1 @ [x]) []"
  proof -
    have "segs_laid dir (l1 @ x # l2) []" using laid by (simp add: laid_def)
    then show ?thesis by (induction l1) (cases x; auto)+
  qed
  moreover have "OpenSegment k ?d = OpenSegment k dir" if "k \<in> set (map fst (l1 @ [x]))" for k
  proof -
    have "distinct (map fst (l1 @ [x]) @ map fst l2)" using dist by simp
    then have "k \<notin> set (map fst l2)" using that unfolding distinct_append by blast
    then show ?thesis by (simp only: OpenSegment_def mget_filter [of "\<lambda>k. k \<notin> set (map fst l2)"] if_True not_False_eq_True simp_thms)
  qed
  ultimately have "segs_laid ?d (l1 @ [x]) []" by (rule segs_laid_cong)
  moreover have "mwf ?d" using laid by (simp add: laid_def distinct_map_filter)
  ultimately show ?thesis using ids by (simp add: laid_def)
qed

section \<open>The live entries\<close>

lemma wanted_first: "b + 1 \<noteq> 0 \<Longrightarrow> wanted (b + 1) r \<longleftrightarrow> rec_Type r = RecordTypeLogEntry \<and> b < rec_Index r"
  using unatSuc [of b] by (simp add: wanted_def word_le_nat_alt word_less_nat_alt Suc_le_eq add.commute)

lemma live_indices:
  assumes "recovers rs w" "w_firstLogIndex w \<noteq> 0"
  shows "map (\<lambda>r. unat (rec_Index r)) (filter (wanted (w_firstLogIndex w)) rs) = [unat (w_firstLogIndex w) ..< Suc (unat (w_nextLogIndex w - 1))]"
proof -
  obtain sc where sc: "scan_records rs scan_start = Inr sc" "recovered_as sc w" using assms(1) by (auto simp: recovers_def)
  let ?b = "md_LatestSnapshotIndex (sc_meta sc)"
  have f: "w_firstLogIndex w = ?b + 1" using sc(2) by (simp add: recovered_as_def)
  have u: "unat (?b + 1) = Suc (unat ?b)" using assms(2) unat_inc [of 0 ?b] unfolding f by (simp add: word_gt_0)
  have i: "sc_logIndices sc = map rec_Index (filter (\<lambda>r. rec_Type r = RecordTypeLogEntry) rs)"
    using scan_records_indices [OF sc(1)] by (simp add: scan_start_def)
  have wanted_eq: "wanted (?b + 1) = (\<lambda>r. rec_Type r = RecordTypeLogEntry \<and> ?b < rec_Index r)"
    using wanted_first assms(2) f by auto
  have "map unat (filter (\<lambda>i. ?b < i) (sc_logIndices sc)) = [Suc (unat ?b) ..< Suc (unat (w_nextLogIndex w - 1))]"
    using check_live_indices [of ?b False ?b] sc(2) by (simp add: recovered_as_def)
  moreover have "filter (\<lambda>i. ?b < i) (sc_logIndices sc) = map rec_Index (filter (wanted (?b + 1)) rs)"
    using assms(2) f by (simp add: i filter_map comp_def wanted_eq)
  ultimately show ?thesis by (simp add: f u comp_def del: upt_Suc)
qed

section \<open>Truncation\<close>

lemma split_hit:
  assumes "list_ex (hit t) (records lay)"
  obtains l1 i rs1 r rs2 l2 where "lay = l1 @ (i, rs1 @ r # rs2) # l2" "\<not> list_ex (hit t) (records l1)" "\<not> list_ex (hit t) rs1" "hit t r"
  using assms
proof (induction lay arbitrary: thesis)
  case (Cons x lay)
  obtain i rs where x: "x = (i, rs)" by (cases x)
  show ?case
  proof (cases "list_ex (hit t) rs")
    case True
    then obtain rs1 r rs2 where "rs = rs1 @ r # rs2" "hit t r" "\<forall>y \<in> set rs1. \<not> hit t y"
      using split_list_first_prop [of rs "hit t"] by (auto simp: list_ex_iff)
    then show ?thesis by (intro Cons.prems(1) [of "[]" i rs1 r rs2 lay]) (auto simp: x list_ex_iff)
  next
    case False
    then have "list_ex (hit t) (records lay)" using Cons.prems(2) by (simp add: x)
    then show ?thesis using Cons.IH [OF Cons.prems(1) [of "x # _"]] False by (auto simp: x)
  qed
qed simp

lemma seg_Truncate_front:
  assumes "laid dir (l1 @ [(i, rs1 @ rs2)]) []"
  shows "laid (seg_Truncate (length (frames rs1)) i dir) (l1 @ [(i, rs1)]) []"
proof -
  obtain s where s: "mget dir i = Some s" "seg_data s = frames rs1 @ frames rs2" using laid_current [OF assms] by auto
  define s1 where "s1 = s\<lparr>seg_data := frames rs1\<rparr>"
  have small: "\<forall>r \<in> set rs1. small r" using laid_small [OF assms] by simp
  have "laid (mput i s1 dir) (l1 @ [(i, rs1)]) []"
    using laid_last [OF assms torn_tail_Nil small, of s s1] s by (simp add: s1_def)
  from laid_sync [OF this] show ?thesis using s by (simp add: seg_Truncate_def seg_update_def s1_def)
qed

lemma truncate_laid:
  assumes ok: "wal_ok w lay" and hit: "list_ex (hit from) (records lay)" and lt: "1 \<le> from" "from < w_nextLogIndex w"
  obtains d lay' r post where "wal_Truncate from w = Inr (w\<lparr>w_dir := d, w_current := fst (last lay'), w_nextLogIndex := from\<rparr>)"
    "laid d lay' []" "records lay = records lay' @ r # post" "hit from r" "\<not> list_ex (hit from) (records lay')"
proof -
  obtain l1 i rs1 r rs2 l2 where l: "lay = l1 @ (i, rs1 @ r # rs2) # l2" "\<not> list_ex (hit from) (records l1)"
      "\<not> list_ex (hit from) rs1" "hit from r" by (rule split_hit [OF hit])
  have laid: "laid (w_dir w) (l1 @ (i, rs1 @ r # rs2) # l2) []" and open_: "\<not> w_closed w"
    using ok by (auto simp: wal_ok_def l(1) recovers_def recovered_as_def)
  have ids: "ListSegmentIDs (w_dir w) = map fst (l1 @ (i, rs1 @ r # rs2) # l2)" using laid by (simp add: laid_def)
  have loc: "locateLogIndex (w_dir w) (ListSegmentIDs (w_dir w)) from = Inr (Some (i, length (frames rs1)))"
    unfolding ids by (rule locateLogIndex_laid) (use laid l in \<open>simp_all add: laid_def\<close>)
  have "sorted_wrt (<) (map fst l1 @ i # map fst l2)" using laid_ids(1) [OF laid] by simp
  then have newer: "\<forall>j \<in> set (rev (map fst l2)). i < j \<and> mget (w_dir w) j \<noteq> None"
    using laid_ids(3) [OF laid] by (auto simp: sorted_wrt_append)
  have "distinct (rev (map fst l2))" using laid_ids(2) [OF laid] by simp
  from remove_newer_laid [OF newer this]
  have rem: "remove_newer i (rev (ListSegmentIDs (w_dir w))) (w_dir w) = Inr (filter (\<lambda>p. fst p \<notin> set (map fst l2)) (w_dir w))"
    unfolding ids by simp
  define d where "d = seg_Truncate (length (frames rs1)) i (filter (\<lambda>p. fst p \<notin> set (map fst l2)) (w_dir w))"
  have "laid d (l1 @ [(i, rs1)]) []"
    using seg_Truncate_front [OF laid_filter [OF laid]] by (simp add: d_def)
  moreover have "wal_Truncate from w = Inr (w\<lparr>w_dir := d, w_current := i, w_nextLogIndex := from\<rparr>)"
    using open_ leD [OF lt(1)] leD [of "w_nextLogIndex w" "from"] lt(2) loc rem by (auto simp: wal_Truncate_def Let_def d_def)
  ultimately show thesis using l by (intro that [where d = d and lay' = "l1 @ [(i, rs1)]" and r = r and post = "rs2 @ records l2"]) auto
qed

text \<open>An index of the live part is found.\<close>

lemma live_hit:
  assumes "recovers rs w" "w_firstLogIndex w \<noteq> 0" "w_firstLogIndex w \<le> i" "i < w_nextLogIndex w"
  shows "list_ex (hit i) rs"
proof -
  have "unat (w_nextLogIndex w) = Suc (unat (w_nextLogIndex w - 1))"
    using unat_inc [of i "w_nextLogIndex w - 1"] assms(4) by simp
  then have "unat i \<in> set (map (\<lambda>r. unat (rec_Index r)) (filter (wanted (w_firstLogIndex w)) rs))"
    using live_indices [OF assms(1,2)] assms(3,4) by (simp add: word_le_nat_alt word_less_nat_alt del: upt_Suc)
  then show ?thesis by (auto simp: list_ex_iff hit_def wanted_def word_unat_eq_iff)
qed

lemma first_nonzero:
  assumes "recovers rs w" "i < w_nextLogIndex w"
  shows "w_firstLogIndex w \<noteq> 0"
proof -
  have f: "w_firstLogIndex w = md_LatestSnapshotIndex (w_metadata w) + 1" using assms(1) by (auto simp: recovers_def recovered_as_def)
  have "md_LatestSnapshotIndex (w_metadata w) < w_nextLogIndex w"
    using recovers_bound [OF assms(1)] inc_greater [of i "w_nextLogIndex w - 1"] assms(2) by simp
  then have "md_LatestSnapshotIndex (w_metadata w) \<noteq> - 1" using leD [OF word_order.extremum, of "w_nextLogIndex w"] by metis
  then show ?thesis by (simp add: f eq_neg_iff_add_eq_0)
qed

lemma sorted_cut:
  assumes "sorted_wrt (<) (map f (xs @ r # ys))"
  shows "filter (\<lambda>x. f x < (f r :: nat)) (xs @ r # ys) = xs"
  using assms by (auto simp: sorted_wrt_append filter_empty_conv intro!: filter_True)

lemma truncate_live:
  assumes rec: "recovers (as @ r # bs) w" and hit: "hit from r" and first: "w_firstLogIndex w \<le> from" "from < w_nextLogIndex w"
  shows "filter (wanted (w_firstLogIndex w)) as = filter (\<lambda>r. rec_Index r < from) (filter (wanted (w_firstLogIndex w)) (as @ r # bs))"
proof -
  let ?W = "filter (wanted (w_firstLogIndex w))"
  have r: "wanted (w_firstLogIndex w) r" "rec_Index r = from" using hit first by (simp_all add: hit_def wanted_def)
  have "sorted_wrt (<) (map (\<lambda>r. unat (rec_Index r)) (?W (as @ r # bs)))"
    unfolding live_indices [OF rec first_nonzero [OF rec first(2)]] by (rule sorted_wrt_upt)
  then have "filter (\<lambda>x. unat (rec_Index x) < unat (rec_Index r)) (?W as @ r # ?W bs) = ?W as"
    using r(1) by (intro sorted_cut) simp
  then show ?thesis using r by (simp add: word_less_nat_alt)
qed

lemma run_from_new:
  assumes "length nid < 65536" "wal_Open nid mx [] = Inr (w0, rep0)" "wal_run ops w0 = Inr w" "run_fits ops w0"
  obtains lay where "wal_ok w lay" "0 < w_segmentMaxSize w" "w_segmentMaxSize w = (if mx \<le> 0 then DefaultSegmentMaxSize else mx)"
proof -
  obtain lay0 where l0: "wal_ok w0 lay0" "safe (w_dir w0) lay0 (length (records lay0))" "0 < w_segmentMaxSize w0"
      "w_segmentMaxSize w0 = (if mx \<le> 0 then DefaultSegmentMaxSize else mx)"
    by (rule wal_Open_new [OF assms(1,2)])
  show thesis by (rule run_ok [OF l0(1,2) assms(3,4)]) (use that l0 in auto)
qed

text \<open>Truncating at an index of the live part succeeds; replay then returns the entries below that index, unchanged, and the
  next entry gets that index.\<close>

theorem truncate_replay:
  assumes "length nid < 65536" "wal_Open nid mx [] = Inr (w0, rep0)" "wal_run ops w0 = Inr w" "run_fits ops w0"
    and "FirstIndex w \<le> from" "from < NextIndex w"
  shows "\<exists>w' rs. wal_Truncate from w = Inr w' \<and> NextIndex w' = from \<and> read_log (FirstIndex w) w = Inr rs
     \<and> map (\<lambda>r. unat (rec_Index r)) rs = [unat (FirstIndex w) ..< unat (NextIndex w)]
     \<and> read_log (FirstIndex w) w' = Inr (filter (\<lambda>r. rec_Index r < from) rs)"
proof -
  have lt: "w_firstLogIndex w \<le> from" "from < w_nextLogIndex w" using assms(5,6) by (simp_all add: FirstIndex_def NextIndex_def)
  obtain lay where ok: "wal_ok w lay" by (rule run_from_new [OF assms(1-4)])
  then have rec: "recovers (records lay) w" by (simp add: wal_ok_def)
  have nz: "w_firstLogIndex w \<noteq> 0" by (rule first_nonzero [OF rec lt(2)])
  have one: "1 \<le> from" using nz lt(1) by (metis inc_le add_0 word_gt_0 order.trans)
  obtain d lay' r post where t: "wal_Truncate from w = Inr (w\<lparr>w_dir := d, w_current := fst (last lay'), w_nextLogIndex := from\<rparr>)"
      "laid d lay' []" "records lay = records lay' @ r # post" "hit from r"
    by (rule truncate_laid [OF ok live_hit [OF rec nz lt] one lt(2)]) blast
  have "unat (w_nextLogIndex w) = Suc (unat (w_nextLogIndex w - 1))" using unat_inc [of "from" "w_nextLogIndex w - 1"] lt(2) by simp
  moreover have "read_log (w_firstLogIndex w) (w\<lparr>w_dir := d, w_current := fst (last lay'), w_nextLogIndex := from\<rparr>)
      = Inr (filter (wanted (w_firstLogIndex w)) (records lay'))"
    using t(2) drain_laid [of d lay' "[]"] rec by (auto simp: read_log_def Replay_def laid_def recovers_def recovered_as_def)
  moreover have "filter (wanted (w_firstLogIndex w)) (records lay')
      = filter (\<lambda>r. rec_Index r < from) (filter (wanted (w_firstLogIndex w)) (records lay))"
    unfolding t(3) by (rule truncate_live [OF rec [unfolded t(3)] t(4) lt])
  ultimately show ?thesis
    using t(1) read_log_ok [OF ok, of "w_firstLogIndex w"] live_indices [OF rec nz]
    by (simp add: FirstIndex_def NextIndex_def del: upt_Suc filter_filter)
qed

lemma truncate_replay_witness:
  "\<exists>rep0 w w' rs. wal_Open ''n'' 49 [] = Inr (demo_wal, rep0) \<and> wal_run [DoAppend ''a'', DoAppend ''b'', DoSync] demo_wal = Inr w
     \<and> wal_Truncate 2 w = Inr w' \<and> read_log 1 w = Inr rs \<and> map (\<lambda>r. unat (rec_Index r)) rs = [1, 2]
     \<and> read_log 1 w' = Inr (filter (\<lambda>r. rec_Index r < 2) rs)"
proof -
  obtain rep0 where o: "wal_Open ''n'' 49 [] = Inr (demo_wal, rep0)" using demo_open by blast
  have "FirstIndex demo_after = 1" "NextIndex demo_after = 3" by (simp_all add: FirstIndex_def NextIndex_def demo_after_def demo_wal_def)
  then show ?thesis using truncate_replay [OF _ o demo_run demo_fits, of 2] o demo_run
    by (fastforce simp: upt_rec word_le_nat_alt word_less_nat_alt)
qed

section \<open>Reopening after a truncation\<close>

lemma safe_zero: "safe dir lay 0"
  by (auto simp: safe_def intro!: exI [of _ 0])

lemma run_extends:
  assumes "wal_ok w lay" "wal_run ops w = Inr w'" "run_fits ops w"
  obtains lay' rs where "wal_ok w' lay'" "records lay' = records lay @ rs" "w_segmentMaxSize w' = w_segmentMaxSize w"
  using assms
proof (induction ops arbitrary: w lay thesis)
  case Nil
  then show ?case by auto
next
  case (Cons op ops)
  from Cons.prems(3) obtain w1 where w1: "wal_do op w = Inr w1" "wal_run ops w1 = Inr w'" by (auto simp: bindR_eq_Inr)
  have fits: "op_fits op w" "run_fits ops w1" using Cons.prems(4) w1(1) by simp_all
  obtain lay1 where l1: "op_result op w w1 lay lay1 0" by (rule op_ok [OF Cons.prems(2) fits(1) safe_zero _ w1(1)]) simp
  then obtain rs1 where r1: "wal_ok w1 lay1" "records lay1 = records lay @ rs1" "w_segmentMaxSize w1 = w_segmentMaxSize w"
    by (auto simp: op_result_def)
  show ?case by (rule Cons.IH [OF _ r1(1) w1(2) fits(2)]) (use r1 in \<open>auto intro: Cons.prems(1)\<close>)
qed

lemma fresh_index:
  assumes "recovers rs w" "0 < w_nextLogIndex w"
  shows "\<not> list_ex (hit (w_nextLogIndex w)) rs"
proof
  assume "list_ex (hit (w_nextLogIndex w)) rs"
  then obtain r where r: "r \<in> set rs" "rec_Type r = RecordTypeLogEntry" "rec_Index r = w_nextLogIndex w" by (auto simp: list_ex_iff hit_def)
  then show False using recovers_below [OF assms r(1,2)] by simp
qed

lemma append_hits:
  assumes ok: "wal_ok v lay" and run: "wal_do (DoAppend p) v = Inr w" "op_fits (DoAppend p) v" and nz: "w_nextLogIndex v + 1 \<noteq> 0"
  obtains lay' r where "wal_ok w lay'" "records lay' = records lay @ [r]" "hit (w_nextLogIndex v) r" "w_segmentMaxSize w = w_segmentMaxSize v"
proof -
  obtain lay1 where l1: "op_result (DoAppend p) v w lay lay1 0" by (rule op_ok [OF ok run(2) safe_zero _ run(1)]) simp
  then obtain rs where r: "wal_ok w lay1" "records lay1 = records lay @ rs" "length rs \<le> 1" "w_segmentMaxSize w = w_segmentMaxSize v"
    using length_op_records [of "DoAppend p" v] by (auto simp: op_result_def)
  have v: "recovers (records lay) v" "recovers (records lay1) w" using ok r(1) by (simp_all add: wal_ok_def)
  have w: "w_nextLogIndex w = w_nextLogIndex v + 1" "w_firstLogIndex w = w_firstLogIndex v"
    using run(1) by (auto simp: wal_do_def AppendLogEntry_def appendLocked_def maybeRotateLocked_def Let_def bindR_eq_Inr split: if_splits)
  have lt: "w_nextLogIndex v < w_nextLogIndex w" using inc_greater [of 0 "w_nextLogIndex v"] nz by (simp add: w word_gt_0)
  have pos: "0 < w_nextLogIndex v" using run(2) by (simp add: op_fits_def)
  have "md_LatestSnapshotIndex (w_metadata v) < w_nextLogIndex v"
    using recovers_bound [OF v(1)] inc_greater [of 0 "w_nextLogIndex v - 1"] pos by simp
  then have "w_firstLogIndex w \<le> w_nextLogIndex v" using v(1) inc_le by (auto simp: w recovers_def recovered_as_def)
  from live_hit [OF v(2) first_nonzero [OF v(2) lt] this lt]
  have "list_ex (hit (w_nextLogIndex v)) rs" using fresh_index [OF v(1) pos] by (simp add: r(2))
  with r(3) obtain r1 where "rs = [r1]" "hit (w_nextLogIndex v) r1" by (cases rs) auto
  then show thesis using that r by blast
qed

lemma split_unique:
  assumes "as @ a # xs = bs @ b # ys" "\<not> list_ex P as" "P a" "\<not> list_ex P bs" "P b"
  shows "as = bs"
proof -
  have "takeWhile (\<lambda>x. \<not> P x) (as @ a # xs) = as" "takeWhile (\<lambda>x. \<not> P x) (bs @ b # ys) = bs"
    using assms(2-5) by (simp_all add: takeWhile_append2 list_ex_iff)
  then show ?thesis using assms(1) by simp
qed

text \<open>Claim C31. Truncation takes the log on disk back to the moment before the entry was appended: whatever was written since, hard
  states and metadata included, is gone when the log is opened again.\<close>

theorem truncate_returns:
  assumes "length nid < 65536" "wal_Open nid mx [] = Inr (w0, rep0)" "wal_run pre w0 = Inr v"
    and "wal_run (DoAppend p # post) v = Inr w" "run_fits pre w0" "run_fits (DoAppend p # post) v"
    and "NextIndex v < NextIndex w" "NextIndex v + 1 \<noteq> 0"
  shows "\<exists>w' w'' rep. wal_Truncate (NextIndex v) w = Inr w' \<and> LatestHardState w' = LatestHardState w
     \<and> wal_Open nid' mx (w_dir w') = Inr (w'', rep) \<and> w'' = v\<lparr>w_dir := w_dir w'', w_current := w_current w''\<rparr>
     \<and> read_log from w'' = read_log from v"
proof -
  obtain lay0 where v: "wal_ok v lay0" "0 < w_segmentMaxSize v" "w_segmentMaxSize v = (if mx \<le> 0 then DefaultSegmentMaxSize else mx)"
    by (rule run_from_new [OF assms(1,2,3,5)])
  obtain w1 where w1: "wal_do (DoAppend p) v = Inr w1" "wal_run post w1 = Inr w" using assms(4) by (auto simp: bindR_eq_Inr)
  have fits: "op_fits (DoAppend p) v" "run_fits post w1" using assms(6) w1(1) by simp_all
  obtain lay1 r where l1: "wal_ok w1 lay1" "records lay1 = records lay0 @ [r]" "hit (w_nextLogIndex v) r"
    by (rule append_hits [OF v(1) w1(1) fits(1)]) (use assms(8) in \<open>auto simp: NextIndex_def\<close>)
  obtain lay rs where l: "wal_ok w lay" "records lay = records lay1 @ rs" by (rule run_extends [OF l1(1) w1(2) fits(2)])
  have pos: "0 < w_nextLogIndex v" using fits(1) by (simp add: op_fits_def)
  have "1 \<le> w_nextLogIndex v" using inc_le [OF pos] by simp
  moreover have "list_ex (hit (w_nextLogIndex v)) (records lay)" using l1(2,3) l(2) by simp
  ultimately obtain d lay' r' post' where
      t: "wal_Truncate (w_nextLogIndex v) w = Inr (w\<lparr>w_dir := d, w_current := fst (last lay'), w_nextLogIndex := w_nextLogIndex v\<rparr>)"
        "laid d lay' []" "records lay = records lay' @ r' # post'" "hit (w_nextLogIndex v) r'" "\<not> list_ex (hit (w_nextLogIndex v)) (records lay')"
    using truncate_laid [OF l(1), of "w_nextLogIndex v"] assms(7) unfolding NextIndex_def by metis
  have rec: "recovers (records lay0) v" using v(1) by (simp add: wal_ok_def)
  have "records lay' @ r' # post' = records lay0 @ r # rs" using t(3) l(2) l1(2) by simp
  from split_unique [OF this t(5,4) fresh_index [OF rec pos] l1(3)] have same: "records lay' = records lay0" .
  with rec obtain w'' rep where o: "wal_Open nid' mx d = Inr (w'', rep)" "w'' = v\<lparr>w_dir := w_dir w'', w_current := w_current w''\<rparr>" "wal_ok w'' lay'"
    using reopen_ok [OF t(2), of v mx] v(2,3) by metis
  then show ?thesis
    using t(1) read_log_ok [OF o(3), of "from"] read_log_ok [OF v(1), of "from"] same by (simp add: NextIndex_def LatestHardState_def)
qed

lemma truncate_returns_witness:
  "\<exists>rep0 w w' w'' rep. wal_Open ''n'' 49 [] = Inr (demo_wal, rep0) \<and> wal_run [DoAppend ''a'', DoHardState ''t'', DoSync] demo_wal = Inr w
     \<and> wal_Truncate 1 w = Inr w' \<and> LatestHardState w' = Some ''t''
     \<and> wal_Open ''n'' 49 (w_dir w') = Inr (w'', rep) \<and> LatestHardState w'' = None"
proof -
  obtain rep0 where o: "wal_Open ''n'' 49 [] = Inr (demo_wal, rep0)" using demo_open by blast
  obtain w where w: "wal_run [DoAppend ''a'', DoHardState ''t'', DoSync] demo_wal = Inr w" "NextIndex w = 2" "LatestHardState w = Some ''t''"
    by (simp add: wal_eval NextIndex_def LatestHardState_def copy_bytes_def)
  have "run_fits [DoAppend ''a'', DoHardState ''t'', DoSync] demo_wal" by (simp add: wal_eval)
  from truncate_returns [OF _ o _ w(1) _ this, of "[]" "''n''" 1]
  obtain w' w'' rep where t: "wal_Truncate 1 w = Inr w'" "LatestHardState w' = LatestHardState w"
      "wal_Open ''n'' 49 (w_dir w') = Inr (w'', rep)" "w'' = demo_wal\<lparr>w_dir := w_dir w'', w_current := w_current w''\<rparr>"
    using w(2) by (auto simp: NextIndex_def demo_wal_def word_less_nat_alt)
  have "LatestHardState w'' = None" by (subst t(4)) (simp add: LatestHardState_def demo_wal_def)
  then show ?thesis using o w t by auto
qed

end
