(* ===== verification/Wal_Compact.thy ===== *)
theory Wal_Compact
  imports Wal_Cut
begin

text \<open>
  Compaction. Whole segments are dropped from the front by their names alone. Nothing a later start needs is
  lost if the current segment holds the metadata and the hard state; the order of the callers, a snapshot
  pointer and then a hard state, does not guarantee that when the second of the two rotates.
\<close>

section \<open>Eligible segments\<close>

lemma eligible_prefix:
  "m \<le> length (eligible cur u ids) \<Longrightarrow> take m (eligible cur u ids) = take m ids \<and> cur \<notin> set (take m ids)
     \<and> (0 < m \<longrightarrow> m < length ids \<and> ids ! m - 1 \<le> u)"
proof (induction cur u ids arbitrary: m rule: eligible.induct)
  case (3 cur u i j ids)
  show ?case
  proof (cases "i = cur \<or> j - 1 > u")
    case True
    then show ?thesis using "3.prems" by auto
  next
    case False
    show ?thesis
    proof (cases m)
      case (Suc k)
      then have k: "k \<le> length (eligible cur u (j # ids))" using "3.prems" False by auto
      from "3.IH" [OF _ _ this] False
      have "take k (eligible cur u (j # ids)) = take k (j # ids) \<and> cur \<notin> set (take k (j # ids))
          \<and> (0 < k \<longrightarrow> k < length (j # ids) \<and> (j # ids) ! k - 1 \<le> u)" by auto
      then show ?thesis using False Suc by (cases k) (auto simp: not_less)
    qed simp
  qed
qed simp_all

lemma remove_all_laid:
  assumes "\<forall>j \<in> set js. mget dir j \<noteq> None" "distinct js"
  shows "remove_all js dir = Inr (filter (\<lambda>p. fst p \<notin> set js) dir)"
  using assms
proof (induction js arbitrary: dir)
  case (Cons j js)
  have "RemoveSegment j dir = Inr (filter (\<lambda>p. fst p \<noteq> j) dir)" using Cons.prems by (auto simp: RemoveSegment_def)
  moreover have "\<forall>k \<in> set js. mget (filter (\<lambda>p. fst p \<noteq> j) dir) k \<noteq> None"
    using Cons.prems by (auto simp: mget_filter [of "\<lambda>k. k \<noteq> j"])
  ultimately show ?case using Cons by (auto intro!: filter_cong)
qed simp

lemma filter_back: "distinct (xs @ ys) \<Longrightarrow> filter (\<lambda>k. k \<notin> set xs) (xs @ ys) = ys"
  by (induction xs) (auto simp: filter_empty_conv intro!: filter_True)

lemma laid_drop:
  assumes laid: "laid dir (l1 @ l2) []" and ne: "l2 \<noteq> []"
  shows "laid (filter (\<lambda>p. fst p \<notin> set (map fst l1)) dir) l2 []"
proof -
  let ?d = "filter (\<lambda>p. fst p \<notin> set (map fst l1)) dir"
  have dist: "distinct (map fst l1 @ map fst l2)" using laid_ids(2) [OF laid] by simp
  have "ListSegmentIDs ?d = filter (\<lambda>k. k \<notin> set (map fst l1)) (ListSegmentIDs dir)"
    unfolding ListSegmentIDs_def mkeys_filter [of "\<lambda>k. k \<notin> set (map fst l1)"] filter_sort ..
  also have "ListSegmentIDs dir = map fst l1 @ map fst l2" using laid by (simp add: laid_def)
  also have "filter (\<lambda>k. k \<notin> set (map fst l1)) (map fst l1 @ map fst l2) = map fst l2" by (rule filter_back [OF dist])
  finally have ids: "ListSegmentIDs ?d = map fst l2" .
  have "segs_laid dir (l1 @ l2) []" using laid by (simp add: laid_def)
  then have "segs_laid dir l2 []" using ne by (induction l1) (auto split: if_splits)
  moreover have "OpenSegment k ?d = OpenSegment k dir" if "k \<in> set (map fst l2)" for k
  proof -
    have "k \<notin> set (map fst l1)" using that dist unfolding distinct_append by blast
    then show ?thesis by (simp only: OpenSegment_def mget_filter [of "\<lambda>k. k \<notin> set (map fst l1)"] if_True not_False_eq_True simp_thms)
  qed
  ultimately have "segs_laid ?d l2 []" by (rule segs_laid_cong)
  moreover have "mwf ?d" using laid by (simp add: laid_def distinct_map_filter)
  ultimately show ?thesis using ids ne by (simp add: laid_def)
qed

lemma compact_laid:
  assumes laid: "laid (w_dir w) lay []" and open_: "\<not> w_closed w" and ret: "0 \<le> ret"
  obtains l1 l2 d where "CompactBeforeRetaining u ret w = Inr (w\<lparr>w_dir := d\<rparr>)" "lay = l1 @ l2" "laid d l2 []" "w_current w \<notin> set (map fst l1)"
    "l1 = [] \<or> (l2 \<noteq> [] \<and> fst (hd l2) - 1 \<le> u)"
proof -
  define el where "el = eligible (w_current w) u (map fst lay)"
  define m where "m = (if ret \<ge> int (length el) then 0 else length el - nat ret)"
  have ids: "ListSegmentIDs (w_dir w) = map fst lay" and ne: "lay \<noteq> []" using laid by (simp_all add: laid_def)
  have e: "take m el = take m (map fst lay)" "w_current w \<notin> set (take m (map fst lay))" "0 < m \<longrightarrow> m < length lay \<and> map fst lay ! m - 1 \<le> u"
    using eligible_prefix [of m "w_current w" u "map fst lay"] unfolding el_def [symmetric] by (auto simp: m_def)
  have l1: "map fst (take m lay) = take m el" using e(1) by (simp add: take_map)
  have ml: "m < length lay" using e(3) ne by (cases m) auto
  have "\<forall>j \<in> set (take m el). mget (w_dir w) j \<noteq> None"
    using laid_ids(3) [OF laid] unfolding e(1) by (auto dest: in_set_takeD)
  moreover have "distinct (take m el)" using laid_ids(2) [OF laid] e(1) by simp
  ultimately have rem: "remove_all (take m el) (w_dir w) = Inr (filter (\<lambda>p. fst p \<notin> set (map fst (take m lay))) (w_dir w))"
    unfolding l1 by (rule remove_all_laid)
  define d where "d = filter (\<lambda>p. fst p \<notin> set (map fst (take m lay))) (w_dir w)"
  have "CompactBeforeRetaining u ret w = Inr (w\<lparr>w_dir := d\<rparr>)"
    using open_ ret rem unfolding CompactBeforeRetaining_def ids el_def [symmetric] Let_def
    by (auto simp: m_def d_def)
  moreover have "laid d (drop m lay) []" unfolding d_def using laid ml by (intro laid_drop) simp_all
  moreover have "take m lay = [] \<or> drop m lay \<noteq> [] \<and> fst (hd (drop m lay)) - 1 \<le> u"
    using e(3) ml by (cases m) (auto simp: hd_drop_conv_nth)
  moreover have "w_current w \<notin> set (map fst (take m lay))" using e(2) by (simp add: take_map)
  ultimately show thesis using that [of d "take m lay" "drop m lay"] by simp
qed

section \<open>What the remaining records recover\<close>

abbreviation is_hs :: "Record \<Rightarrow> bool" where
  "is_hs r \<equiv> rec_Type r = RecordTypeHardState"

abbreviation is_md :: "Record \<Rightarrow> bool" where
  "is_md r \<equiv> rec_Type r = RecordTypeMetadata"

lemma scan_records_hs:
  "scan_records rs sc = Inr sc' \<Longrightarrow>
     sc_latestHS sc' = (if filter is_hs rs = [] then sc_latestHS sc else copy_bytes (rec_Payload (last (filter is_hs rs))))"
proof (induction rs arbitrary: sc)
  case (Cons r rs)
  then obtain sc1 where sc1: "scan_record r sc = Inr sc1" "scan_records rs sc1 = Inr sc'" by (auto simp: bindR_eq_Inr)
  then show ?case using Cons.IH [OF sc1(2)] by (auto simp: scan_record_def split: RecordType.splits sum.splits)
qed simp

lemma scan_records_md:
  "scan_records rs sc = Inr sc' \<Longrightarrow> sc_haveMetadata sc' = (sc_haveMetadata sc \<or> filter is_md rs \<noteq> [])
     \<and> (filter is_md rs \<noteq> [] \<longrightarrow> decodeMetadata (rec_Payload (last (filter is_md rs))) = Inr (sc_meta sc'))"
proof (induction rs arbitrary: sc)
  case (Cons r rs)
  then obtain sc1 where sc1: "scan_record r sc = Inr sc1" "scan_records rs sc1 = Inr sc'" by (auto simp: bindR_eq_Inr)
  have keep: "filter is_md rs = [] \<Longrightarrow> sc_meta sc' = sc_meta sc1"
    using sc1(2) by (induction rs arbitrary: sc1) (auto simp: scan_record_def bindR_eq_Inr split: RecordType.splits sum.splits if_splits)
  show ?case using Cons.IH [OF sc1(2)] sc1(1) keep by (auto simp: scan_record_def split: RecordType.splits sum.splits)
qed simp

lemma scan_records_any: "scan_records rs sc = Inr a \<Longrightarrow> \<exists>b. scan_records rs sc' = Inr b"
proof (induction rs arbitrary: sc sc')
  case (Cons r rs)
  then obtain sc1 where sc1: "scan_record r sc = Inr sc1" "scan_records rs sc1 = Inr a" by (auto simp: bindR_eq_Inr)
  then obtain sc2 where "scan_record r sc' = Inr sc2" by (auto simp: scan_record_def split: RecordType.splits sum.splits)
  then show ?case using Cons.IH [OF sc1(2)] by simp
qed simp

lemma check_live_skip: "\<forall>i \<in> set is1. i \<le> b \<Longrightarrow> check_live b h l (is1 @ is2) = check_live b h l is2"
  by (induction is1) simp_all

lemma recovers_drop:
  assumes rec: "recovers (rs1 @ rs2) w" and md: "filter is_md rs2 \<noteq> []" and hs: "filter is_hs rs2 = [] \<Longrightarrow> w_latestHardState w = None"
    and dead: "\<And>r. r \<in> set rs1 \<Longrightarrow> rec_Type r = RecordTypeLogEntry \<Longrightarrow> rec_Index r \<le> md_LatestSnapshotIndex (w_metadata w)"
  shows "recovers rs2 w"
proof -
  obtain sc where sc: "scan_records (rs1 @ rs2) scan_start = Inr sc" "recovered_as sc w" using rec by (auto simp: recovers_def)
  then obtain sc1 where sc1: "scan_records rs2 sc1 = Inr sc" by (auto simp: scan_records_append bindR_eq_Inr)
  obtain b where b: "scan_records rs2 scan_start = Inr b" using scan_records_any [OF sc1] by blast
  have "sc_meta b = sc_meta sc" "sc_haveMetadata b" using scan_records_md [OF b] scan_records_md [OF sc1] md by auto
  moreover have "sc_latestHS b = w_latestHardState w"
    using scan_records_hs [OF b] scan_records_hs [OF sc(1)] hs sc(2) by (auto simp: scan_start_def recovered_as_def)
  moreover have "check_live (md_LatestSnapshotIndex (sc_meta sc)) False (md_LatestSnapshotIndex (sc_meta sc)) (sc_logIndices b) = Inr (w_nextLogIndex w - 1)"
  proof -
    have i: "sc_logIndices sc = map rec_Index (filter (\<lambda>r. rec_Type r = RecordTypeLogEntry) rs1) @ sc_logIndices b"
      using scan_records_indices [OF sc(1)] scan_records_indices [OF b] by (simp add: scan_start_def)
    have "\<forall>i \<in> set (map rec_Index (filter (\<lambda>r. rec_Type r = RecordTypeLogEntry) rs1)). i \<le> md_LatestSnapshotIndex (sc_meta sc)"
      using dead sc(2) by (auto simp: recovered_as_def)
    from check_live_skip [OF this] show ?thesis using sc(2) i by (simp add: recovered_as_def)
  qed
  ultimately have "recovered_as b w" using sc(2) by (simp add: recovered_as_def)
  then show ?thesis using b by (auto simp: recovers_def)
qed

lemma run_named:
  assumes "wal_ok w lay" "named lay" "wal_run ops w = Inr w'" "run_fits ops w"
  obtains lay' where "wal_ok w' lay'" "named lay'" "w_segmentMaxSize w' = w_segmentMaxSize w"
  using assms
proof (induction ops arbitrary: w lay thesis)
  case Nil
  then show ?case by auto
next
  case (Cons op ops)
  from Cons.prems(4) obtain w1 where w1: "wal_do op w = Inr w1" "wal_run ops w1 = Inr w'" by (auto simp: bindR_eq_Inr)
  have fits: "op_fits op w" "run_fits ops w1" using Cons.prems(5) w1(1) by simp_all
  obtain lay1 where l1: "op_result op w w1 lay lay1 0" by (rule op_ok [OF Cons.prems(2) fits(1) safe_zero _ w1(1)]) simp
  then have r1: "wal_ok w1 lay1" "named lay1" "w_segmentMaxSize w1 = w_segmentMaxSize w" using Cons.prems(3) by (auto simp: op_result_def)
  show ?case by (rule Cons.IH [OF _ r1(1,2) w1(2) fits(2)]) (use r1 in \<open>auto intro: Cons.prems(1)\<close>)
qed

lemma new_named:
  assumes "wal_Open nid mx [] = Inr (w, rep)" "wal_ok w lay"
  shows "named lay"
proof -
  have "ListSegmentIDs (w_dir w) = [1]"
    using assms(1) by (auto simp: wal_Open_def Let_def ListSegmentIDs_def mkeys_def appendLocked_def maybeRotateLocked_def seg_Size_def
        mget_def mput_def seg_Append_def seg_Sync_def seg_update_def split: sum.splits if_splits)
  then have "map fst lay = [1]" using assms(2) by (simp add: wal_ok_def laid_def)
  then show ?thesis by (auto simp: named_def map_eq_Cons_conv Cons_eq_append_conv)
qed

lemma last_segment_scan:
  assumes "laid dir lay []" "OpenSegment (fst (last lay)) dir = Inr seg" "scan_segment seg 0 scan_start = Inr (sc, None)"
  shows "scan_records (snd (last lay)) scan_start = Inr sc"
proof -
  obtain s where "mget dir (fst (last lay)) = Some s" "seg_data s = frames (snd (last lay)) @ []" by (rule laid_current [OF assms(1)])
  then have seg: "seg = frames (snd (last lay))" using assms(2) by (simp add: OpenSegment_def)
  have "scan_segment (frames (snd (last lay))) 0 scan_start = bindR (scan_records (snd (last lay)) scan_start) (\<lambda>sc. Inr (sc, None))"
    using scan_segment_frames [OF laid_small [OF assms(1)] torn_tail_Nil, of "[]" scan_start] by simp
  then show ?thesis using assms(3) unfolding seg by (cases "scan_records (snd (last lay)) scan_start") simp_all
qed

text \<open>The entries of the dropped segments are below the boundary, and replay does not return them.\<close>

lemma dropped_dead:
  assumes "named lay" "lay = l1 @ l2" "l1 = [] \<or> (l2 \<noteq> [] \<and> fst (hd l2) - 1 \<le> u)" "r \<in> set (records l1)" "rec_Type r = RecordTypeLogEntry"
  shows "rec_Index r \<le> u"
proof -
  have l2: "l2 \<noteq> []" "fst (hd l2) - 1 \<le> u" using assms(3,4) by auto
  then have "lay = l1 @ (fst (hd l2), snd (hd l2)) # tl l2" using assms(2) by simp
  then have "rec_Index r < fst (hd l2)" using assms(1,4,5) unfolding named_def by blast
  then have "rec_Index r \<le> fst (hd l2) - 1" using less_inc [of "rec_Index r" "fst (hd l2) - 1"] by simp
  then show ?thesis using l2(2) by simp
qed

lemma dead_unwanted:
  assumes rec: "recovers rs w" and pos: "0 < w_nextLogIndex w"
    and dead: "\<And>r. r \<in> set rs1 \<Longrightarrow> rec_Type r = RecordTypeLogEntry \<Longrightarrow> rec_Index r \<le> md_LatestSnapshotIndex (w_metadata w)"
  shows "filter (wanted (w_firstLogIndex w)) rs1 = []"
proof -
  have f: "w_firstLogIndex w = md_LatestSnapshotIndex (w_metadata w) + 1" using rec by (auto simp: recovers_def recovered_as_def)
  have nz: "md_LatestSnapshotIndex (w_metadata w) + 1 \<noteq> 0" using first_nonzero [OF rec pos] f by simp
  show ?thesis unfolding f filter_empty_conv wanted_first [OF nz] using dead by (auto dest: leD)
qed

text \<open>Claim C32. Compaction up to the snapshot pointer is safe when the current segment alone carries the metadata and the latest hard
  state: the log reopens to the state in memory and replays the same entries, however many extra segments are retained.\<close>

theorem compaction_safe:
  assumes "length nid < 65536" "wal_Open nid mx [] = Inr (w0, rep0)" "wal_run ops w0 = Inr w" "run_fits ops w0" "0 < NextIndex w"
    and "uptoIndex \<le> md_LatestSnapshotIndex (w_metadata w)" "0 \<le> retain"
    and "OpenSegment (w_current w) (w_dir w) = Inr seg" "scan_segment seg 0 scan_start = Inr (sc, None)"
    and "sc_haveMetadata sc" "sc_latestHS sc = w_latestHardState w"
  shows "\<exists>w' rep. CompactBeforeRetaining uptoIndex retain w = Inr w' \<and> wal_Open nid' mx (w_dir w') = Inr (w', rep)
     \<and> w' = w\<lparr>w_dir := w_dir w'\<rparr> \<and> read_log (FirstIndex w) w' = read_log (FirstIndex w) w"
proof -
  obtain lay0 where l0: "wal_ok w0 lay0" "safe (w_dir w0) lay0 (length (records lay0))" "0 < w_segmentMaxSize w0"
      "w_segmentMaxSize w0 = (if mx \<le> 0 then DefaultSegmentMaxSize else mx)"
    by (rule wal_Open_new [OF assms(1,2)])
  obtain lay where l: "wal_ok w lay" "named lay" "w_segmentMaxSize w = w_segmentMaxSize w0"
    by (rule run_named [OF l0(1) new_named [OF assms(2) l0(1)] assms(3,4)])
  have w: "laid (w_dir w) lay []" "w_current w = fst (last lay)" "recovers (records lay) w" "\<not> w_closed w"
    using l(1) by (auto simp: wal_ok_def recovers_def recovered_as_def)
  obtain l1 l2 d where c: "CompactBeforeRetaining uptoIndex retain w = Inr (w\<lparr>w_dir := d\<rparr>)" "lay = l1 @ l2" "laid d l2 []"
      "w_current w \<notin> set (map fst l1)" "l1 = [] \<or> (l2 \<noteq> [] \<and> fst (hd l2) - 1 \<le> uptoIndex)"
    by (rule compact_laid [OF w(1,4) assms(7)]) blast
  have l2: "l2 \<noteq> []" "last l2 = last lay" using c(2,3) by (auto simp: laid_def)
  have dead: "rec_Index r \<le> md_LatestSnapshotIndex (w_metadata w)" if "r \<in> set (records l1)" "rec_Type r = RecordTypeLogEntry" for r
    using dropped_dead [OF l(2) c(2,5) that] assms(6) by simp
  note scl = last_segment_scan [OF w(1) assms(8) [unfolded w(2)] assms(9)]
  have suffix: "records l2 = records (butlast l2) @ snd (last lay)" using l2 by (cases l2 rule: rev_cases) auto
  have md: "filter is_md (records l2) \<noteq> []" using scan_records_md [OF scl] assms(10) by (auto simp: suffix scan_start_def)
  have hs: "filter is_hs (records l2) = [] \<Longrightarrow> w_latestHardState w = None"
    using scan_records_hs [OF scl] assms(11) by (auto simp: suffix scan_start_def)
  have "recovers (records l1 @ records l2) w" using w(3) c(2) by simp
  from recovers_drop [OF this md hs dead] have rec2: "recovers (records l2) w" .
  define w' where "w' = w\<lparr>w_dir := d\<rparr>"
  have ok': "wal_ok w' l2" using c(3) w(2) l2(2) rec2 by (simp add: wal_ok_def w'_def recovers_def recovered_as_def)
  have same: "w' = w\<lparr>w_dir := d, w_current := fst (last l2)\<rparr>" using w(2) l2(2) by (cases w) (simp add: w'_def)
  obtain rep where "wal_Open nid' mx d = Inr (w', rep)"
    using reopen_ok [OF c(3) rec2, of mx nid'] l0(3,4) l(3) unfolding same by metis
  moreover have "filter (wanted (w_firstLogIndex w)) (records l1) = []" by (rule dead_unwanted [OF w(3) _ dead]) (use assms(5) in \<open>simp_all add: NextIndex_def\<close>)
  then have "read_log (w_firstLogIndex w) w' = read_log (w_firstLogIndex w) w"
    using read_log_ok [OF l(1)] read_log_ok [OF ok'] c(2) by simp
  ultimately show ?thesis using c(1) by (intro exI [of _ w'] exI [of _ rep]) (simp add: w'_def FirstIndex_def)
qed

lemmas compact_eval = wal_eval AppendMetadataSnapshot_def copy_bytes_def

definition demo_snapshot :: Metadata where
  "demo_snapshot = demo_meta\<lparr>md_LatestSnapshotIndex := 1\<rparr>"

definition demo_tail :: "Record list" where
  "demo_tail = [\<lparr>rec_Type = RecordTypeMetadata, rec_Index = 0, rec_Payload = encodeMetadata demo_snapshot\<rparr>,
     \<lparr>rec_Type = RecordTypeHardState, rec_Index = 0, rec_Payload = ''t''\<rparr>]"

lemma demo_tail_scan:
  "scan_segment (frames demo_tail) 0 scan_start
     = Inr (\<lparr>sc_haveMetadata = True, sc_meta = demo_snapshot, sc_latestHS = Some ''t'', sc_logIndices = []\<rparr>, None)"
proof -
  have small: "\<forall>r \<in> set demo_tail. small r"
    by (simp add: demo_tail_def small_def encodeMetadata_def demo_snapshot_def demo_meta_def MaxRecordPayloadSize_def)
  show ?thesis
    using scan_segment_frames [OF small torn_tail_Nil, of "[]" scan_start] decodeMetadata_encode [of demo_snapshot]
    by (simp add: demo_tail_def scan_record_def scan_start_def copy_bytes_def demo_snapshot_def demo_meta_def)
qed

lemma compaction_safe_witness:
  "\<exists>rep0 w w' rep. wal_Open ''n'' 49 [] = Inr (demo_wal, rep0) \<and> wal_run [DoAppend ''a'', DoSnapshot 1, DoHardState ''t''] demo_wal = Inr w
     \<and> CompactBeforeRetaining 1 0 w = Inr w' \<and> ListSegmentIDs (w_dir w) = [1, 2] \<and> wal_Open ''m'' 49 (w_dir w') = Inr (w', rep)"
proof -
  obtain rep0 where o: "wal_Open ''n'' 49 [] = Inr (demo_wal, rep0)" using demo_open by blast
  define w where "w = demo_wal\<lparr>w_dir := [(1, \<lparr>seg_data = demo_frame 0 @ demo_frame 1, seg_synced = 30\<rparr>),
    (2, \<lparr>seg_data = frames demo_tail, seg_synced = 30\<rparr>)], w_current := 2, w_nextLogIndex := 2, w_firstLogIndex := 2,
    w_metadata := demo_snapshot, w_latestHardState := Some ''t''\<rparr>"
  have run: "wal_run [DoAppend ''a'', DoSnapshot 1, DoHardState ''t''] demo_wal = Inr w"
    by (simp add: compact_eval w_def demo_tail_def demo_snapshot_def frame_of_def)
  have fits: "run_fits [DoAppend ''a'', DoSnapshot 1, DoHardState ''t''] demo_wal"
    by (simp add: compact_eval word_less_nat_alt)
  have seg: "OpenSegment (w_current w) (w_dir w) = Inr (frames demo_tail)" by (simp add: w_def OpenSegment_def mget_def)
  have "ListSegmentIDs (w_dir w) = [1, 2]" by (simp add: w_def ListSegmentIDs_def mkeys_def word_le_nat_alt)
  moreover from compaction_safe [OF _ o run fits _ _ _ seg demo_tail_scan, of 1 0 "''m''"]
  have "\<exists>w' rep. CompactBeforeRetaining 1 0 w = Inr w' \<and> wal_Open ''m'' 49 (w_dir w') = Inr (w', rep)"
    by (simp add: w_def NextIndex_def demo_snapshot_def) blast
  ultimately show ?thesis using o run by blast
qed

text \<open>Claim C38. The order the callers use, a snapshot pointer, a hard state, then compaction, can delete the only metadata record: when the
  hard state rotates, the pointer stays in a segment whose name makes it eligible. The log then cannot be opened.\<close>

theorem compaction_loses_metadata:
  "\<exists>w0 rep0 w w'. wal_Open ''n'' 79 [] = Inr (w0, rep0) \<and> wal_run [DoAppend ''a'', DoSnapshot 1, DoHardState ''t'', DoSync] w0 = Inr w
     \<and> CompactBefore 1 w = Inr w' \<and> wal_Open ''n'' 79 (w_dir w') = Inl (ErrNoMetadata, w_dir w')"
proof -
  define w0 where "w0 = demo_wal\<lparr>w_segmentMaxSize := 79\<rparr>"
  define hs where "hs = \<lparr>rec_Type = RecordTypeHardState, rec_Index = 0, rec_Payload = ''t''\<rparr>"
  define d where "d = [(2 :: u64, \<lparr>seg_data = frame_of hs, seg_synced = 19\<rparr>)]"
  obtain rep0 where o: "wal_Open ''n'' 79 [] = Inr (w0, rep0)"
    by (simp add: wal_Open_def ListSegmentIDs_def mkeys_def wal_eval w0_def)
  obtain w where w: "wal_run [DoAppend ''a'', DoSnapshot 1, DoHardState ''t'', DoSync] w0 = Inr w" "CompactBefore 1 w = Inr (w\<lparr>w_dir := d\<rparr>)"
    by (simp add: compact_eval w0_def CompactBefore_def CompactBeforeRetaining_def ListSegmentIDs_def mkeys_def RemoveSegment_def d_def hs_def
        frame_of_def)
  have laid: "segs_laid d [(2, [hs])] []" by (simp add: d_def OpenSegment_def mget_def small_def hs_def MaxRecordPayloadSize_def)
  have "ListSegmentIDs d = [2]" by (simp add: d_def ListSegmentIDs_def mkeys_def)
  then have "wal_Open ''n'' 79 d = Inl (ErrNoMetadata, d)"
    using scan_dir_laid [OF laid, of scan_start]
    by (simp add: wal_Open_def Let_def scan_record_def hs_def finish_open_def scan_start_def)
  then show ?thesis using o w by (intro exI [of _ w0] exI [of _ rep0] exI [of _ w] exI [of _ "w\<lparr>w_dir := d\<rparr>"]) simp
qed

end
