(* ===== verification/Node_Storage.thy ===== *)
theory Node_Storage
  imports Wal_Compact Raft_Types
begin

text \<open>
  The production storage of the Raft core (\<^verbatim>\<open>WALStorage\<close> in \<^verbatim>\<open>internal/node/storage.go\<close>): hard states and entries as
  payloads of the write-ahead log, with a mirror in memory. Appends and hard states implement the storage
  contract of the core across crashes; truncation and the installation of a snapshot do not.

  Indices and terms of the core are naturals; here, where they are written to the log, they are 64-bit words.
  The test hook that strips the header of typed entries is off, as it is outside the tests.
\<close>

section \<open>Payloads\<close>

datatype node_error = NodeWal wal_error | ErrUnknownEntryType | ErrMalformedEntryPayload | NodeErrOther

definition wal_result :: "wal_error + 'a \<Rightarrow> node_error + 'a" where
  "wal_result r = (case r of Inl e \<Rightarrow> Inl (NodeWal e) | Inr x \<Rightarrow> Inr x)"

definition entryPayloadTypeSentinel :: char where
  "entryPayloadTypeSentinel = CHR 0xFF"

definition entryTypeByte :: "EntryType \<Rightarrow> char" where
  "entryTypeByte t = (case t of EntryNormal \<Rightarrow> CHR 0x00 | EntryConfig \<Rightarrow> CHR 0x01)"

definition encodeEntryPayload :: "Term \<Rightarrow> EntryType \<Rightarrow> bytes \<Rightarrow> bytes" where
  "encodeEntryPayload tm ty data =
     (if ty = EntryNormal then PutUint64 (word_of_nat tm) @ data
      else PutUint64 (word_of_nat tm) @ [entryPayloadTypeSentinel, entryTypeByte ty] @ data)"

definition decodeEntryPayload :: "bytes \<Rightarrow> node_error + Term \<times> EntryType \<times> bytes" where
  "decodeEntryPayload b =
     (if length b < 8 then Inl ErrMalformedEntryPayload
      else let tm = unat (Uint64 (take 8 b))
           in if length b \<ge> 10 \<and> b ! 8 = entryPayloadTypeSentinel
              then if b ! 9 = entryTypeByte EntryConfig then Inr (tm, EntryConfig, drop 10 b)
                   else Inl ErrUnknownEntryType
              else Inr (tm, EntryNormal, drop 8 b))"

definition encodeHardState :: "HardState \<Rightarrow> bytes" where
  "encodeHardState hs = PutUint64 (word_of_nat (hs_CurrentTerm hs)) @ PutUint32 (len32 (hs_VotedFor hs)) @ hs_VotedFor hs"

definition decodeHardState :: "bytes \<Rightarrow> node_error + HardState" where
  "decodeHardState b =
     (if length b < 12 then Inl NodeErrOther
      else let tm = Uint64 (take 8 b);
               idLen = Uint32 (drop 8 (take 12 b))
           in if unat idLen > length b - 12 then Inl NodeErrOther
              else Inr \<lparr>hs_CurrentTerm = unat tm, hs_VotedFor = drop 12 (take (12 + unat idLen) b)\<rparr>)"

section \<open>The storage\<close>

record WALStorage =
  st_w :: WAL
  st_hs :: HardState
  st_baseIndex :: u64
  st_entries :: "Entry list"

definition noHardState :: HardState where
  "noHardState = \<lparr>hs_CurrentTerm = 0, hs_VotedFor = noVote\<rparr>"

definition entry_of :: "Record \<Rightarrow> Term \<times> EntryType \<times> bytes \<Rightarrow> Entry" where
  "entry_of r p = (case p of (tm, ty, data) \<Rightarrow> \<lparr>ent_Index = unat (rec_Index r), ent_Term = tm, ent_Type = ty, ent_Data = data\<rparr>)"

function load_entries :: "segdir \<Rightarrow> Iterator \<Rightarrow> node_error + Entry list" where
  "load_entries dir it =
     (case Next dir it of
        (Inl e, it') \<Rightarrow> Inl (NodeWal e)
      | (Inr None, it') \<Rightarrow> Inr []
      | (Inr (Some r), it') \<Rightarrow>
          bindR (decodeEntryPayload (rec_Payload r)) (\<lambda>p.
          bindR (load_entries dir it') (\<lambda>es. Inr (entry_of r p # es))))"
  by auto
termination
  by (relation "inv_image it_before snd") (auto simp: in_inv_image dest!: Next_before [OF sym])

declare load_entries.simps [simp del]

definition OpenWALStorage :: "WAL \<Rightarrow> node_error + WALStorage" where
  "OpenWALStorage w =
     bindR (case LatestHardState w of None \<Rightarrow> Inr noHardState | Some raw \<Rightarrow> decodeHardState raw) (\<lambda>hs.
     bindR (wal_result (Replay (FirstIndex w) w)) (\<lambda>it.
     bindR (load_entries (w_dir w) it) (\<lambda>es.
       Inr \<lparr>st_w = w, st_hs = hs, st_baseIndex = FirstIndex w - 1, st_entries = es\<rparr>)))"

definition InitialState :: "WALStorage \<Rightarrow> HardState" where
  "InitialState s = st_hs s"

text \<open>An error comes with the storage as it is then.\<close>

type_synonym storage_result = "(node_error \<times> WALStorage) + WALStorage"

definition on_wal :: "(WAL \<Rightarrow> wal_error + WAL) \<Rightarrow> WALStorage \<Rightarrow> storage_result" where
  "on_wal f s = (case f (st_w s) of Inl e \<Rightarrow> Inl (NodeWal e, s) | Inr w \<Rightarrow> Inr (s\<lparr>st_w := w\<rparr>))"

definition SetHardState :: "HardState \<Rightarrow> WALStorage \<Rightarrow> storage_result" where
  "SetHardState hs s =
     (let payload = encodeHardState hs
      in bindR (on_wal (AppendHardState payload) s) (\<lambda>s1.
         bindR (on_wal wal_Sync s1) (\<lambda>s2.
           Inr (s2\<lparr>st_hs := hs\<rparr>))))"

definition Reaffirm :: "WALStorage \<Rightarrow> storage_result" where
  "Reaffirm s = SetHardState (st_hs s) s"

definition storage_Compact :: "Index \<Rightarrow> WALStorage \<Rightarrow> WALStorage" where
  "storage_Compact uptoIndex s =
     (if word_of_nat uptoIndex \<le> st_baseIndex s then s
      else let pos = word_of_nat uptoIndex - st_baseIndex s;
               pos1 = (if pos > word_of_nat (length (st_entries s)) then word_of_nat (length (st_entries s)) else pos)
           in s\<lparr>st_entries := drop (unat pos1) (st_entries s), st_baseIndex := word_of_nat uptoIndex\<rparr>)"

definition storage_InstallSnapshot :: "Index \<Rightarrow> WALStorage \<Rightarrow> storage_result" where
  "storage_InstallSnapshot uptoIndex s =
     bindR (on_wal (AppendMetadataSnapshot (word_of_nat uptoIndex)) s) (\<lambda>s1.
     bindR (Reaffirm s1) (\<lambda>s2.
     bindR (on_wal (wal_Truncate (word_of_nat uptoIndex + 1)) s2) (\<lambda>s3.
     bindR (on_wal (CompactBefore (word_of_nat uptoIndex)) s3) (\<lambda>s4.
       Inr (s4\<lparr>st_entries := [], st_baseIndex := word_of_nat uptoIndex\<rparr>)))))"

definition LastIndex :: "WALStorage \<Rightarrow> u64" where
  "LastIndex s = st_baseIndex s + word_of_nat (length (st_entries s))"

definition storage_Entries :: "u64 \<Rightarrow> u64 \<Rightarrow> WALStorage \<Rightarrow> Entry list" where
  "storage_Entries lo hi s =
     (let base = st_baseIndex s;
          lo1 = (if lo < base + 1 then base + 1 else lo);
          maxHi = base + word_of_nat (length (st_entries s)) + 1;
          hi1 = (if hi > maxHi then maxHi else hi)
      in if lo1 \<ge> hi1 then [] else take (unat (hi1 - lo1)) (drop (unat (lo1 - base - 1)) (st_entries s)))"

text \<open>The position is unsigned, so the source's test for a negative one never holds and is not repeated here.\<close>

definition storage_Truncate :: "Index \<Rightarrow> WALStorage \<Rightarrow> storage_result" where
  "storage_Truncate fromIndex s =
     bindR (on_wal (wal_Truncate (word_of_nat fromIndex)) s) (\<lambda>s1.
       let pos = word_of_nat fromIndex - st_baseIndex s1 - 1
       in Inr (if pos < word_of_nat (length (st_entries s1)) then s1\<lparr>st_entries := take (unat pos) (st_entries s1)\<rparr> else s1))"

fun contiguous_from :: "u64 \<Rightarrow> Entry list \<Rightarrow> bool" where
  "contiguous_from want [] = True"
| "contiguous_from want (e # es) = (word_of_nat (ent_Index e) = want \<and> contiguous_from (want + 1) es)"

fun append_entries :: "Entry list \<Rightarrow> WALStorage \<Rightarrow> storage_result" where
  "append_entries [] s = Inr s"
| "append_entries (e # es) s =
     (case AppendLogEntry (encodeEntryPayload (ent_Term e) (ent_Type e) (ent_Data e)) (st_w s) of
        Inl err \<Rightarrow> Inl (NodeWal err, s)
      | Inr (idx, w) \<Rightarrow>
          (let s1 = s\<lparr>st_w := w\<rparr>
           in if word_of_nat (ent_Index e) \<noteq> idx then Inl (NodeErrOther, s1) else append_entries es s1))"

definition storage_Append :: "Entry list \<Rightarrow> WALStorage \<Rightarrow> storage_result" where
  "storage_Append es s =
     (if es = [] then Inr s
      else if \<not> contiguous_from (st_baseIndex s + word_of_nat (length (st_entries s)) + 1) es then Inl (NodeErrOther, s)
      else bindR (append_entries es s) (\<lambda>s1.
           bindR (on_wal wal_Sync s1) (\<lambda>s2.
             Inr (s2\<lparr>st_entries := st_entries s2 @ es\<rparr>))))"

section \<open>Payloads round-trip\<close>

lemma unat_term: "t < 2 ^ 64 \<Longrightarrow> unat (word_of_nat t :: u64) = t"
  by (simp add: unsigned_of_nat take_bit_nat_eq_self)

text \<open>A payload a decoder reads back: the data of an untyped entry does not look like the header of a typed one.\<close>

definition plain_data :: "bytes \<Rightarrow> bool" where
  "plain_data data \<longleftrightarrow> length data < 2 \<or> data ! 0 \<noteq> entryPayloadTypeSentinel"

lemma decodeEntryPayload_encode:
  assumes "tm < 2 ^ 64" "ty = EntryNormal \<longrightarrow> plain_data data"
  shows "decodeEntryPayload (encodeEntryPayload tm ty data) = Inr (tm, ty, data)"
proof (cases ty)
  case EntryNormal
  have "Uint64 (PutUint64 (word_of_nat tm) @ []) = (word_of_nat tm :: u64)" by (rule Uint64_PutUint64)
  then show ?thesis using EntryNormal assms unat_term [OF assms(1)]
    by (auto simp: decodeEntryPayload_def encodeEntryPayload_def plain_data_def nth_append Let_def)
next
  case EntryConfig
  have "Uint64 (PutUint64 (word_of_nat tm) @ []) = (word_of_nat tm :: u64)" by (rule Uint64_PutUint64)
  then show ?thesis using EntryConfig unat_term [OF assms(1)]
    by (simp add: decodeEntryPayload_def encodeEntryPayload_def nth_append Let_def)
qed

lemma decodeHardState_encode:
  assumes "hs_CurrentTerm hs < 2 ^ 64" "length (hs_VotedFor hs) < 2 ^ 32"
  shows "decodeHardState (encodeHardState hs) = Inr hs"
proof -
  have u: "Uint64 (PutUint64 w @ []) = w" "Uint32 (PutUint32 v @ []) = v" for w v by (rule Uint64_PutUint64, rule Uint32_PutUint32)
  show ?thesis using assms u unat_term [OF assms(1)] unat_len32 [OF assms(2)]
    by (simp add: decodeHardState_def encodeHardState_def Let_def)
qed

section \<open>What opening reads\<close>

fun decode_records :: "Record list \<Rightarrow> node_error + Entry list" where
  "decode_records [] = Inr []"
| "decode_records (r # rs) =
     bindR (decodeEntryPayload (rec_Payload r)) (\<lambda>p. bindR (decode_records rs) (\<lambda>es. Inr (entry_of r p # es)))"

lemma decode_records_append:
  "decode_records (rs @ ss) = bindR (decode_records rs) (\<lambda>es. bindR (decode_records ss) (\<lambda>fs. Inr (es @ fs)))"
  by (induction rs) (simp_all add: bindR_def split: sum.splits)

lemma load_entries_drain: "drain dir it = Inr rs \<Longrightarrow> load_entries dir it = decode_records rs"
proof (induction dir it arbitrary: rs rule: drain.induct)
  case (1 dir it)
  obtain res it' where n: "Next dir it = (res, it')" by (cases "Next dir it")
  show ?case
  proof (cases "\<exists>r. res = Inr (Some r)")
    case True
    then obtain r where r: "res = Inr (Some r)" by blast
    then obtain rs' where rs': "drain dir it' = Inr rs'" "rs = r # rs'"
      using "1.prems" n by (subst (asm) drain.simps) (auto simp: bindR_eq_Inr)
    then show ?thesis using "1.IH" [OF n [unfolded r, symmetric] refl refl rs'(1)] n r
      by (subst load_entries.simps) simp
  next
    case False
    then have "res = Inr None" using "1.prems" n by (subst (asm) drain.simps) (auto split: sum.splits option.splits)
    then show ?thesis using "1.prems" n by (subst load_entries.simps, subst (asm) drain.simps) simp
  qed
qed

lemma OpenWALStorage_read:
  assumes "read_log (w_firstLogIndex w) w = Inr rs" "decode_records rs = Inr es"
    and "(case LatestHardState w of None \<Rightarrow> Inr noHardState | Some raw \<Rightarrow> decodeHardState raw) = Inr hs"
  shows "OpenWALStorage w = Inr \<lparr>st_w = w, st_hs = hs, st_baseIndex = w_firstLogIndex w - 1, st_entries = es\<rparr>"
proof -
  obtain it where it: "Replay (w_firstLogIndex w) w = Inr it" "drain (w_dir w) it = Inr rs"
    using assms(1) by (auto simp: read_log_def bindR_eq_Inr)
  then show ?thesis using load_entries_drain [OF it(2)] assms(2,3)
    by (simp add: OpenWALStorage_def wal_result_def FirstIndex_def)
qed

end
