(* ===== verification/Node_Durable.thy ===== *)
theory Node_Durable
  imports Node_Storage
begin

text \<open>
  The storage against the contract of the core. Every completed append and hard state is found again after a
  crash that leaves the closed segments, and the state is the one the contract's operations give. A
  truncation loses the hard states written after the entry it cuts, a snapshot installed over a longer log
  loses its own pointer.
\<close>

section \<open>Operations\<close>

datatype storage_op = StAppend "Entry list" | StHardState HardState

definition storage_do :: "storage_op \<Rightarrow> WALStorage \<Rightarrow> storage_result" where
  "storage_do op s = (case op of StAppend es \<Rightarrow> storage_Append es s | StHardState hs \<Rightarrow> SetHardState hs s)"

fun storage_run :: "storage_op list \<Rightarrow> WALStorage \<Rightarrow> storage_result" where
  "storage_run [] s = Inr s"
| "storage_run (op # ops) s = bindR (storage_do op s) (storage_run ops)"

definition contract :: "storage_op \<Rightarrow> Storage \<Rightarrow> Storage" where
  "contract op = (case op of StAppend es \<Rightarrow> sto_Append es | StHardState hs \<Rightarrow> sto_SetHardState hs)"

definition storage_view :: "WALStorage \<Rightarrow> Storage" where
  "storage_view s = \<lparr>sto_HardState = st_hs s, sto_Entries = st_entries s\<rparr>"

text \<open>Values the payload formats carry.\<close>

definition entry_fits :: "Entry \<Rightarrow> bool" where
  "entry_fits e \<longleftrightarrow> ent_Index e < 2 ^ 64 \<and> ent_Term e < 2 ^ 64 \<and> (ent_Type e = EntryNormal \<longrightarrow> plain_data (ent_Data e))"

definition op_carried :: "storage_op \<Rightarrow> bool" where
  "op_carried op = (case op of StAppend es \<Rightarrow> list_all entry_fits es
     | StHardState hs \<Rightarrow> hs_CurrentTerm hs < 2 ^ 64 \<and> length (hs_VotedFor hs) < 2 ^ 32)"

definition appended :: "storage_op \<Rightarrow> Entry list" where
  "appended op = (case op of StAppend es \<Rightarrow> es | StHardState hs \<Rightarrow> [])"

text \<open>The operations on the log behind one operation of the storage.\<close>

definition entry_payload :: "Entry \<Rightarrow> bytes" where
  "entry_payload e = encodeEntryPayload (ent_Term e) (ent_Type e) (ent_Data e)"

definition log_steps :: "storage_op \<Rightarrow> wal_op list" where
  "log_steps op = (case op of StAppend es \<Rightarrow> if es = [] then [] else map (\<lambda>e. DoAppend (entry_payload e)) es @ [DoSync]
     | StHardState hs \<Rightarrow> [DoHardState (encodeHardState hs), DoSync])"

section \<open>The mirror\<close>

text \<open>The mirror in memory is what the log holds.\<close>

definition mirrored :: "WALStorage \<Rightarrow> layout \<Rightarrow> bool" where
  "mirrored s lay \<longleftrightarrow> wal_ok (st_w s) lay \<and> w_firstLogIndex (st_w s) = 1 \<and> st_baseIndex s = 0
     \<and> decode_records (filter (wanted 1) (records lay)) = Inr (st_entries s)
     \<and> w_nextLogIndex (st_w s) = word_of_nat (Suc (length (st_entries s)))
     \<and> (case LatestHardState (st_w s) of None \<Rightarrow> Inr noHardState | Some raw \<Rightarrow> decodeHardState raw) = Inr (st_hs s)"

lemma append_mirrored:
  assumes ok: "wal_ok (st_w s) lay" "decode_records (filter (wanted 1) (records lay)) = Inr xs"
    and n: "w_nextLogIndex (st_w s) = word_of_nat (Suc n)" "Suc n < 2 ^ 64" and e: "entry_fits e"
    and run: "append_entries (e # es) s = Inr s'"
  obtains w lay' where "append_entries es (s\<lparr>st_w := w\<rparr>) = Inr s'" "wal_do (DoAppend (entry_payload e)) (st_w s) = Inr w"
    "op_fits (DoAppend (entry_payload e)) (st_w s)" "wal_ok w lay'" "decode_records (filter (wanted 1) (records lay')) = Inr (xs @ [e])"
    "w_nextLogIndex w = word_of_nat (Suc (Suc n))" "w_firstLogIndex w = w_firstLogIndex (st_w s)"
    "w_latestHardState w = w_latestHardState (st_w s)" "w_segmentMaxSize w = w_segmentMaxSize (st_w s)"
proof -
  obtain idx w where w: "AppendLogEntry (entry_payload e) (st_w s) = Inr (idx, w)" "word_of_nat (ent_Index e) = idx"
      "append_entries es (s\<lparr>st_w := w\<rparr>) = Inr s'"
    using run by (auto simp: entry_payload_def Let_def split: sum.splits if_splits)
  note f = AppendLogEntry_fields [OF w(1)]
  have pos: "unat (w_nextLogIndex (st_w s)) = Suc n" unfolding n(1) by (rule unat_term [OF n(2)])
  then have fits: "op_fits (DoAppend (entry_payload e)) (st_w s)" by (simp add: op_fits_def word_less_nat_alt)
  obtain lay' where l: "op_result (DoAppend (entry_payload e)) (st_w s) w lay lay' 0"
    by (rule op_ok [OF ok(1) fits safe_zero _ f(6)]) simp
  define r where "r = \<lparr>rec_Type = RecordTypeLogEntry, rec_Index = w_nextLogIndex (st_w s), rec_Payload = entry_payload e\<rparr>"
  have rec: "records lay' = records lay @ [r]" using l by (simp add: op_result_def op_records_def r_def)
  have "decodeEntryPayload (entry_payload e) = Inr (ent_Term e, ent_Type e, ent_Data e)"
    using e by (auto simp: entry_payload_def entry_fits_def intro!: decodeEntryPayload_encode)
  moreover have "unat (w_nextLogIndex (st_w s)) = ent_Index e"
    using unat_term [of "ent_Index e"] w(2) f(1) e by (simp add: entry_fits_def)
  ultimately have "decode_records [r] = Inr [e]" by (simp add: r_def entry_of_def)
  moreover have "wanted 1 r" using pos by (simp add: wanted_def r_def word_le_nat_alt)
  ultimately have "decode_records (filter (wanted 1) (records lay')) = Inr (xs @ [e])"
    using ok(2) by (simp add: rec decode_records_append del: decode_records.simps(2))
  moreover have "w_nextLogIndex w = word_of_nat (Suc (Suc n))" using f(2) n(1) by (simp add: add.commute)
  moreover have "wal_ok w lay'" using l by (simp add: op_result_def)
  ultimately show thesis by (intro that [OF w(3) f(6) fits]) (use f(3,4,5) in simp_all)
qed

lemma appends_mirrored:
  assumes "wal_ok (st_w s) lay" "decode_records (filter (wanted 1) (records lay)) = Inr xs"
    and "w_nextLogIndex (st_w s) = word_of_nat (Suc n)" "Suc n + length es < 2 ^ 64" "list_all entry_fits es" "append_entries es s = Inr s'"
  obtains lay' w where "s' = s\<lparr>st_w := w\<rparr>" "wal_run (map (\<lambda>e. DoAppend (entry_payload e)) es) (st_w s) = Inr w"
    "run_fits (map (\<lambda>e. DoAppend (entry_payload e)) es) (st_w s)" "wal_ok w lay'" "decode_records (filter (wanted 1) (records lay')) = Inr (xs @ es)"
    "w_nextLogIndex w = word_of_nat (Suc (n + length es))" "w_firstLogIndex w = w_firstLogIndex (st_w s)"
    "w_latestHardState w = w_latestHardState (st_w s)"
  using assms
proof (induction es arbitrary: s lay xs n thesis)
  case Nil
  then show ?case by (intro Nil.prems(1) [of "st_w s" lay]) auto
next
  case (Cons e es)
  have e: "entry_fits e" "list_all entry_fits es" "Suc n < 2 ^ 64" using Cons.prems(5,6) by simp_all
  obtain w lay1 where w: "append_entries es (s\<lparr>st_w := w\<rparr>) = Inr s'" "wal_do (DoAppend (entry_payload e)) (st_w s) = Inr w"
      "op_fits (DoAppend (entry_payload e)) (st_w s)" "wal_ok w lay1" "decode_records (filter (wanted 1) (records lay1)) = Inr (xs @ [e])"
      "w_nextLogIndex w = word_of_nat (Suc (Suc n))" "w_firstLogIndex w = w_firstLogIndex (st_w s)" "w_latestHardState w = w_latestHardState (st_w s)"
    by (rule append_mirrored [OF Cons.prems(2,3,4) e(3,1) Cons.prems(7)]) blast
  obtain lay' v where v: "s' = s\<lparr>st_w := w\<rparr>\<lparr>st_w := v\<rparr>" "wal_run (map (\<lambda>e. DoAppend (entry_payload e)) es) w = Inr v"
      "run_fits (map (\<lambda>e. DoAppend (entry_payload e)) es) w" "wal_ok v lay'" "decode_records (filter (wanted 1) (records lay')) = Inr ((xs @ [e]) @ es)"
      "w_nextLogIndex v = word_of_nat (Suc (Suc n + length es))" "w_firstLogIndex v = w_firstLogIndex w" "w_latestHardState v = w_latestHardState w"
    by (rule Cons.IH [where s = "s\<lparr>st_w := w\<rparr>" and lay = lay1 and xs = "xs @ [e]" and n = "Suc n"]) (use Cons.prems(5) w e in simp_all)
  show ?case using w v by (intro Cons.prems(1) [of v lay']) simp_all
qed

text \<open>What one operation of the storage does to the log and to the contract's state.\<close>

definition step_result :: "storage_op \<Rightarrow> WALStorage \<Rightarrow> WALStorage \<Rightarrow> layout \<Rightarrow> bool" where
  "step_result op s s' lay' \<longleftrightarrow> mirrored s' lay' \<and> wal_run (log_steps op) (st_w s) = Inr (st_w s') \<and> run_fits (log_steps op) (st_w s)
     \<and> storage_view s' = contract op (storage_view s) \<and> st_entries s' = st_entries s @ appended op"

lemma next_positive:
  assumes "w_nextLogIndex w = word_of_nat (Suc n)" "Suc n < 2 ^ 64"
  shows "0 < w_nextLogIndex w"
  using unat_term [OF assms(2)] unfolding assms(1) word_less_nat_alt by simp

lemma append_step:
  assumes m: "mirrored s lay" and op: "list_all entry_fits es" "Suc (length (st_entries s)) + length es < 2 ^ 64" "es \<noteq> []"
    and run: "storage_Append es s = Inr s'"
  obtains lay' where "step_result (StAppend es) s s' lay'"
proof -
  obtain s1 s2 where s: "append_entries es s = Inr s1" "on_wal wal_Sync s1 = Inr s2" "s' = s2\<lparr>st_entries := st_entries s2 @ es\<rparr>"
    using run op(3) by (auto simp: storage_Append_def bindR_eq_Inr split: if_splits)
  note m' = m [unfolded mirrored_def]
  obtain lay1 w where w: "s1 = s\<lparr>st_w := w\<rparr>" "wal_run (map (\<lambda>e. DoAppend (entry_payload e)) es) (st_w s) = Inr w"
      "run_fits (map (\<lambda>e. DoAppend (entry_payload e)) es) (st_w s)" "wal_ok w lay1" "decode_records (filter (wanted 1) (records lay1)) = Inr (st_entries s @ es)"
      "w_nextLogIndex w = word_of_nat (Suc (length (st_entries s) + length es))" "w_firstLogIndex w = w_firstLogIndex (st_w s)"
      "w_latestHardState w = w_latestHardState (st_w s)"
    by (rule appends_mirrored [of s lay "st_entries s" "length (st_entries s)" es s1]) (use m' op s(1) in simp_all)
  obtain w2 where w2: "wal_Sync w = Inr w2" "s2 = s\<lparr>st_w := w2\<rparr>" using s(2) w(1) by (auto simp: on_wal_def split: sum.splits)
  note y = sync_mirrored [OF w(4) next_positive [OF w(6)] w2(1)]
  have y': "wal_ok w2 lay1" "w2 = w\<lparr>w_dir := w_dir w2\<rparr>" "wal_do DoSync w = Inr w2" "op_fits DoSync w" using y op(2) by simp_all
  have f: "w_firstLogIndex w2 = w_firstLogIndex w" "w_nextLogIndex w2 = w_nextLogIndex w" "w_latestHardState w2 = w_latestHardState w"
    by (subst y'(2), simp)+
  have "mirrored s' lay1" using y'(1) w(5,6,7,8) m' s(3) w2(2) f by (simp add: mirrored_def LatestHardState_def)
  then have "step_result (StAppend es) s s' lay1"
    using w w2 s(3) y' op(3)
    by (simp add: step_result_def log_steps_def wal_run_append run_fits_append [OF w(2)] contract_def sto_Append_def storage_view_def appended_def)
  then show thesis by (rule that)
qed

lemma hardstate_step:
  assumes m: "mirrored s lay" and op: "hs_CurrentTerm hs < 2 ^ 64" "length (hs_VotedFor hs) < 2 ^ 32" "Suc (length (st_entries s)) < 2 ^ 64"
    and run: "SetHardState hs s = Inr s'"
  obtains lay' where "step_result (StHardState hs) s s' lay'"
proof -
  let ?p = "encodeHardState hs"
  obtain w1 w2 where s: "AppendHardState ?p (st_w s) = Inr w1" "wal_Sync w1 = Inr w2" "s' = s\<lparr>st_w := w2, st_hs := hs\<rparr>"
    using run by (auto simp: SetHardState_def on_wal_def bindR_eq_Inr split: sum.splits)
  note m' = m [unfolded mirrored_def]
  have pos: "0 < w_nextLogIndex (st_w s)" using m' by (intro next_positive [OF _ op(3)]) simp
  have do: "wal_do (DoHardState ?p) (st_w s) = Inr w1" using s(1) by (simp add: wal_do_def)
  have fits: "op_fits (DoHardState ?p) (st_w s)" using pos by (simp add: op_fits_def)
  obtain lay1 where l: "op_result (DoHardState ?p) (st_w s) w1 lay lay1 0"
    by (rule op_ok [of "st_w s" lay, OF _ fits safe_zero _ do]) (use m' in simp_all)
  have f1: "w_firstLogIndex w1 = w_firstLogIndex (st_w s)" "w_nextLogIndex w1 = w_nextLogIndex (st_w s)" "w_latestHardState w1 = copy_bytes ?p"
    using s(1) by (auto simp: AppendHardState_def appendLocked_def maybeRotateLocked_def Let_def bindR_eq_Inr split: if_splits)
  have ok1: "wal_ok w1 lay1" "records lay1 = records lay @ [\<lparr>rec_Type = RecordTypeHardState, rec_Index = 0, rec_Payload = ?p\<rparr>]"
    using l by (simp_all add: op_result_def op_records_def)
  note y = sync_mirrored [OF ok1(1) _ s(2)]
  have y': "wal_ok w2 lay1" "w2 = w1\<lparr>w_dir := w_dir w2\<rparr>" "wal_do DoSync w1 = Inr w2" "op_fits DoSync w1" using y pos f1(2) by simp_all
  have f: "w_firstLogIndex w2 = w_firstLogIndex w1" "w_nextLogIndex w2 = w_nextLogIndex w1" "w_latestHardState w2 = w_latestHardState w1"
    by (subst y'(2), simp)+
  have "?p \<noteq> []" by (simp add: encodeHardState_def flip: length_greater_0_conv)
  then have "LatestHardState w2 = Some ?p" using f(3) f1(3) by (simp add: LatestHardState_def copy_bytes_def)
  then have "mirrored s' lay1" using y'(1) m' s(3) f f1 ok1(2) decodeHardState_encode [OF op(1,2)] by (simp add: mirrored_def wanted_def)
  then have "step_result (StHardState hs) s s' lay1"
    using s(3) y' do fits by (simp add: step_result_def log_steps_def contract_def sto_SetHardState_def storage_view_def appended_def)
  then show thesis by (rule that)
qed

lemma step_mirrored:
  assumes m: "mirrored s lay" and op: "op_carried op" "Suc (length (st_entries s)) + length (appended op) < 2 ^ 64" and run: "storage_do op s = Inr s'"
  obtains lay' where "step_result op s s' lay'"
proof (cases op)
  case (StAppend es)
  show thesis
  proof (cases "es = []")
    case True
    then have "s' = s" using run by (simp add: storage_do_def StAppend storage_Append_def)
    then show thesis using that [of lay] m True
      by (simp add: StAppend step_result_def log_steps_def contract_def sto_Append_def storage_view_def appended_def)
  next
    case False
    then show thesis using append_step [OF m _ _ False] op run that
      by (auto simp: StAppend op_carried_def appended_def storage_do_def)
  qed
next
  case (StHardState hs)
  then show thesis using hardstate_step [OF m] op run that by (auto simp: op_carried_def appended_def storage_do_def)
qed

section \<open>Runs\<close>

lemma run_mirrored:
  assumes "mirrored s lay" "list_all op_carried ops" "Suc (length (st_entries s)) + length (concat (map appended ops)) < 2 ^ 64"
    and "storage_run ops s = Inr s'"
  obtains lay' where "mirrored s' lay'" "wal_run (concat (map log_steps ops)) (st_w s) = Inr (st_w s')"
    "run_fits (concat (map log_steps ops)) (st_w s)" "storage_view s' = foldl (\<lambda>st op. contract op st) (storage_view s) ops"
  using assms
proof (induction ops arbitrary: s lay thesis)
  case Nil
  then show ?case by auto
next
  case (Cons op ops)
  from Cons.prems(5) obtain s1 where s1: "storage_do op s = Inr s1" "storage_run ops s1 = Inr s'" by (auto simp: bindR_eq_Inr)
  obtain lay1 where r: "step_result op s s1 lay1"
    by (rule step_mirrored [OF Cons.prems(2) _ _ s1(1)]) (use Cons.prems(3,4) in simp_all)
  note r' = r [unfolded step_result_def]
  obtain lay' where l: "mirrored s' lay'" "wal_run (concat (map log_steps ops)) (st_w s1) = Inr (st_w s')"
      "run_fits (concat (map log_steps ops)) (st_w s1)" "storage_view s' = foldl (\<lambda>st op. contract op st) (storage_view s1) ops"
    by (rule Cons.IH [where s = s1 and lay = lay1]) (use Cons.prems(3,4) r' s1(2) in simp_all)
  show ?case
    using l r' run_fits_append [of "log_steps op" "st_w s" "st_w s1"]
    by (intro Cons.prems(1) [of lay']) (simp_all add: wal_run_append)
qed

lemma log_steps_synced:
  "concat (map log_steps ops) = [] \<or> last (concat (map log_steps ops)) = DoSync"
proof (induction ops)
  case (Cons op ops)
  have "log_steps op = [] \<or> last (log_steps op) = DoSync" by (simp add: log_steps_def split: storage_op.splits)
  then show ?case using Cons by (auto simp: last_append simp del: concat_eq_Nil_conv)
qed simp

lemma mirrored_open:
  assumes m: "mirrored s lay" and rd: "read_log 1 w = read_log 1 (st_w s)" and w: "w = (st_w s)\<lparr>w_dir := w_dir w, w_current := w_current w\<rparr>"
  shows "OpenWALStorage w = Inr (s\<lparr>st_w := w\<rparr>)"
proof -
  note m' = m [unfolded mirrored_def]
  have "read_log 1 w = Inr (filter (wanted 1) (records lay))" using rd read_log_ok [of "st_w s" lay 1] m' by simp
  moreover have f: "w_firstLogIndex w = 1" "LatestHardState w = LatestHardState (st_w s)"
    by (subst w, simp add: m' LatestHardState_def)+
  ultimately have "OpenWALStorage w = Inr \<lparr>st_w = w, st_hs = st_hs s, st_baseIndex = 0, st_entries = st_entries s\<rparr>"
    using OpenWALStorage_read [of w "filter (wanted 1) (records lay)" "st_entries s" "st_hs s"] m' by simp
  then show ?thesis using m' by (cases s) simp
qed

lemma new_storage:
  assumes "length nid < 65536" "wal_Open nid mx [] = Inr (w, rep)"
  obtains lay where "OpenWALStorage w = Inr \<lparr>st_w = w, st_hs = noHardState, st_baseIndex = 0, st_entries = []\<rparr>"
    "mirrored \<lparr>st_w = w, st_hs = noHardState, st_baseIndex = 0, st_entries = []\<rparr> lay"
proof -
  obtain lay where l: "wal_ok w lay" by (rule wal_Open_new [OF assms])
  have f: "w_firstLogIndex w = 1" "w_nextLogIndex w = 1" "w_latestHardState w = None"
    using assms(2) by (auto simp: wal_Open_def Let_def ListSegmentIDs_def mkeys_def appendLocked_def maybeRotateLocked_def seg_Size_def
        mget_def mput_def split: sum.splits if_splits)
  have "recovers (records lay) w" using l by (simp add: wal_ok_def)
  from live_indices [OF this] have none: "filter (wanted 1) (records lay) = []" by (simp add: f)
  have "OpenWALStorage w = Inr \<lparr>st_w = w, st_hs = noHardState, st_baseIndex = 0, st_entries = []\<rparr>"
    using OpenWALStorage_read [of w "[]" "[]" noHardState] read_log_ok [OF l, of 1] f none by (simp add: LatestHardState_def)
  then show thesis using that [of lay] l f none by (simp add: mirrored_def LatestHardState_def)
qed

text \<open>Claim C14. The storage implements the contract of the core across crashes. From an empty directory, any completed sequence of appends
  and hard states leaves in memory the state the contract's operations give, and that very state is read back after a crash that
  keeps the closed segments and any prefix of the current one that has what was synced. Terms and indices are below 2^64, a vote names a node
  of less than 2^32 bytes, and the data of a normal entry, when it has two or more bytes, does not start with 0xFF, the byte the payload
  format reserves for typed entries.\<close>

theorem storage_durable:
  assumes "length nid < 65536" "wal_Open nid mx [] = Inr (w0, rep0)" "OpenWALStorage w0 = Inr s0" "storage_run ops s0 = Inr s"
    and "list_all op_carried ops" "Suc (length (concat (map appended ops))) < 2 ^ 64"
    and "\<And>i. i \<noteq> w_current (st_w s) \<Longrightarrow> seg_Size i (w_dir (st_w s)) \<le> keep i"
  shows "storage_view s = foldl (\<lambda>st op. contract op st) \<lparr>sto_HardState = noHardState, sto_Entries = []\<rparr> ops
     \<and> (\<exists>w rep s'. wal_Open nid' mx (crash keep (w_dir (st_w s))) = Inr (w, rep) \<and> OpenWALStorage w = Inr s' \<and> storage_view s' = storage_view s)"
proof -
  obtain lay0 where n: "mirrored s0 lay0" "st_w s0 = w0" "storage_view s0 = \<lparr>sto_HardState = noHardState, sto_Entries = []\<rparr>"
    using new_storage [OF assms(1,2)] assms(3) by (force simp: storage_view_def)
  let ?steps = "concat (map log_steps ops)"
  obtain lay where r: "mirrored s lay" "wal_run ?steps w0 = Inr (st_w s)" "run_fits ?steps w0"
      "storage_view s = foldl (\<lambda>st op. contract op st) (storage_view s0) ops"
    by (rule run_mirrored [OF n(1) assms(5) _ assms(4)]) (use n assms(6) in \<open>simp_all add: storage_view_def\<close>)
  obtain w rep where c: "wal_Open nid' mx (crash keep (w_dir (st_w s))) = Inr (w, rep)"
      "w = (st_w s)\<lparr>w_dir := w_dir w, w_current := w_current w\<rparr>" "read_log 1 w = read_log 1 (st_w s)"
    by (rule crash_recovers_synced [OF assms(1,2) r(2,3) assms(7) log_steps_synced, of nid' 1])
  have "OpenWALStorage w = Inr (s\<lparr>st_w := w\<rparr>)" by (rule mirrored_open [OF r(1) c(3,2)])
  then show ?thesis using c(1) r(4) n(3) by (simp add: storage_view_def)
qed

section \<open>One segment\<close>

lemma one_snapshot:
  assumes o: "one_segment w rs k" and meta: "m = (w_metadata w)\<lparr>md_LatestSnapshotIndex := u\<rparr>" "\<not> u < md_LatestSnapshotIndex (w_metadata w)"
    and small: "length (encodeMetadata m) \<le> MaxRecordPayloadSize" "int (length (frames rs) + length (encodeMetadata m) + 18) \<le> w_segmentMaxSize w"
    and r: "r = \<lparr>rec_Type = RecordTypeMetadata, rec_Index = 0, rec_Payload = encodeMetadata m\<rparr>"
  shows "AppendMetadataSnapshot u w = Inr (w\<lparr>w_dir := [(1, \<lparr>seg_data = frames (rs @ [r]), seg_synced = length (frames (rs @ [r]))\<rparr>)],
     w_metadata := m, w_firstLogIndex := u + 1\<rparr>)"
proof -
  have "appendLocked RecordTypeMetadata (encodeMetadata m) w = Inr (w\<lparr>w_dir := [(1, \<lparr>seg_data = frames (rs @ [r]), seg_synced = k\<rparr>)]\<rparr>)"
    using one_append [OF o small, of RecordTypeMetadata] by (simp add: r)
  then show ?thesis using o meta
    by (simp add: AppendMetadataSnapshot_def one_segment_def Let_def seg_Sync_def seg_update_def mget_def mput_def)
qed

lemma one_truncate:
  assumes "one_segment w (rs @ r # ss) k" "\<forall>r \<in> set (rs @ r # ss). small r" "\<not> list_ex (hit i) rs" "hit i r" "1 \<le> i" "i < w_nextLogIndex w"
  shows "wal_Truncate i w = Inr (w\<lparr>w_dir := [(1, \<lparr>seg_data = frames rs, seg_synced = length (frames rs)\<rparr>)], w_nextLogIndex := i\<rparr>)"
proof -
  have ids: "ListSegmentIDs (w_dir w) = [1]" using assms(1) by (simp add: one_segment_def ListSegmentIDs_def mkeys_def)
  have "segs_laid (w_dir w) ([] @ (1, rs @ r # ss) # []) []" using assms(1,2) by (simp add: one_segment_def OpenSegment_def mget_def)
  from locateLogIndex_laid [OF this _ assms(3,4)] have loc: "locateLogIndex (w_dir w) [1] i = Inr (Some (1, length (frames rs)))" by simp
  have "\<not> i < 1" "\<not> w_nextLogIndex w \<le> i" using assms(5,6) by (auto dest: leD)
  then show ?thesis using assms(1) unfolding wal_Truncate_def Let_def ids loc
    by (simp add: one_segment_def seg_Truncate_def seg_Sync_def seg_update_def mget_def mput_def)
qed

section \<open>A lost vote\<close>

definition demo_storage :: WALStorage where
  "demo_storage = \<lparr>st_w = demo_log, st_hs = noHardState, st_baseIndex = 0, st_entries = []\<rparr>"

definition demo_entry :: "nat \<Rightarrow> nat \<Rightarrow> bytes \<Rightarrow> Entry" where
  "demo_entry i t d = \<lparr>ent_Index = i, ent_Term = t, ent_Type = EntryNormal, ent_Data = d\<rparr>"

definition demo_hs :: "nat \<Rightarrow> bytes \<Rightarrow> HardState" where
  "demo_hs t v = \<lparr>hs_CurrentTerm = t, hs_VotedFor = v\<rparr>"

definition log_rec :: "u64 \<Rightarrow> Entry \<Rightarrow> Record" where
  "log_rec i e = \<lparr>rec_Type = RecordTypeLogEntry, rec_Index = i, rec_Payload = entry_payload e\<rparr>"

definition hs_rec :: "HardState \<Rightarrow> Record" where
  "hs_rec hs = \<lparr>rec_Type = RecordTypeHardState, rec_Index = 0, rec_Payload = encodeHardState hs\<rparr>"

lemma demo_storage_open: "OpenWALStorage demo_log = Inr demo_storage"
proof -
  obtain rep where "wal_Open ''n'' 1000 [] = Inr (demo_log, rep)" using demo_log_open by blast
  from new_storage [OF _ this] show ?thesis by (auto simp: demo_storage_def)
qed

text \<open>The two operations on a log in one segment, as updates of its records.\<close>

lemma with_records_append:
  assumes "length (entry_payload e) \<le> MaxRecordPayloadSize" "length (frames rs) + length (entry_payload e) + 18 \<le> 1000"
    and "word_of_nat (ent_Index e) = n" "n = b + word_of_nat (length es) + 1"
  shows "storage_Append [e] \<lparr>st_w = with_records rs n hs, st_hs = h, st_baseIndex = b, st_entries = es\<rparr>
     = Inr \<lparr>st_w = with_records (rs @ [log_rec n e]) (n + 1) hs, st_hs = h, st_baseIndex = b, st_entries = es @ [e]\<rparr>"
proof -
  obtain w where w: "AppendLogEntry (entry_payload e) (with_records rs n hs) = Inr (n, w)" "wal_Sync w = Inr (with_records (rs @ [log_rec n e]) (n + 1) hs)"
    using with_records_log [OF assms(1,2)] unfolding log_rec_def by blast
  show ?thesis using assms(3,4) w by (simp add: storage_Append_def on_wal_def entry_payload_def)
qed

lemma one_hs:
  assumes o: "one_segment (st_w s) rs k" and small: "length (encodeHardState h) \<le> MaxRecordPayloadSize"
    and fits: "int (length (frames rs) + length (encodeHardState h) + 18) \<le> w_segmentMaxSize (st_w s)"
  shows "SetHardState h s = Inr (s\<lparr>st_w := (st_w s)\<lparr>w_dir := [(1, \<lparr>seg_data = frames (rs @ [hs_rec h]), seg_synced = length (frames (rs @ [hs_rec h]))\<rparr>)],
     w_latestHardState := copy_bytes (encodeHardState h)\<rparr>, st_hs := h\<rparr>)"
proof -
  let ?w = "(st_w s)\<lparr>w_dir := [(1, \<lparr>seg_data = frames (rs @ [hs_rec h]), seg_synced = k\<rparr>)]\<rparr>"
  have "appendLocked RecordTypeHardState (encodeHardState h) (st_w s) = Inr ?w"
    using one_append [OF o small fits, of RecordTypeHardState] by (simp add: hs_rec_def)
  then have a: "AppendHardState (encodeHardState h) (st_w s) = Inr (?w\<lparr>w_latestHardState := copy_bytes (encodeHardState h)\<rparr>)"
    using o by (simp add: AppendHardState_def one_segment_def)
  have "one_segment (?w\<lparr>w_latestHardState := copy_bytes (encodeHardState h)\<rparr>) (rs @ [hs_rec h]) k" using o by (simp add: one_segment_def)
  from one_sync [OF this] show ?thesis using a by (cases "st_w s") (simp add: SetHardState_def on_wal_def)
qed

lemma with_records_hs:
  assumes "length (encodeHardState h) \<le> MaxRecordPayloadSize" "length (frames rs) + length (encodeHardState h) + 18 \<le> 1000"
  shows "SetHardState h \<lparr>st_w = with_records rs n hs, st_hs = h0, st_baseIndex = b, st_entries = es\<rparr>
     = Inr \<lparr>st_w = with_records (rs @ [hs_rec h]) n (copy_bytes (encodeHardState h)), st_hs = h, st_baseIndex = b, st_entries = es\<rparr>"
proof -
  have "one_segment (with_records rs n hs) rs (length (frames rs))" by (simp add: one_segment_def with_records_def demo_log_def demo_wal_def)
  then show ?thesis using one_hs [of "\<lparr>st_w = with_records rs n hs, st_hs = h0, st_baseIndex = b, st_entries = es\<rparr>" rs _ h] assms
    by (simp add: with_records_def demo_log_def)
qed

lemma demo_entry_index [simp]: "ent_Index (demo_entry i t d) = i"
  by (simp add: demo_entry_def)

lemma demo_sizes:
  "length (frame_of demo_first) = 30" "length (encodeHardState (demo_hs t v)) = 12 + length v" "length (entry_payload (demo_entry i t d)) = 8 + length d"
  "length (frame_of (log_rec n (demo_entry i t d))) = 26 + length d" "length (frame_of (hs_rec (demo_hs t v))) = 30 + length v"
  by (simp_all add: length_frame_of demo_first_def log_rec_def hs_rec_def entry_payload_def encodeEntryPayload_def encodeHardState_def demo_entry_def
      demo_hs_def encodeMetadata_def demo_meta_def)

lemma demo_small:
  "small demo_first" "length d \<le> 100 \<Longrightarrow> small (log_rec n (demo_entry i t d))" "length v \<le> 100 \<Longrightarrow> small (hs_rec (demo_hs t v))"
  using demo_sizes(1,4,5) by (simp_all add: small_def length_frame_of MaxRecordPayloadSize_def)

lemma demo_hs_copy: "copy_bytes (encodeHardState h) = Some (encodeHardState h)"
  by (simp add: copy_bytes_def encodeHardState_def flip: length_greater_0_conv)

text \<open>Opening a log in one segment that was not cut short of its last hard state.\<close>

lemma with_records_open:
  assumes rec: "recovers rs (with_records rs n hs)" and small: "\<forall>r \<in> set rs. small r"
    and es: "decode_records (filter (wanted 1) rs) = Inr es"
    and h: "(case hs of None \<Rightarrow> Inr noHardState | Some raw \<Rightarrow> decodeHardState raw) = Inr h"
  shows "\<exists>rep. wal_Open nid 1000 (w_dir (with_records rs n hs')) = Inr (with_records rs n hs, rep)"
    "OpenWALStorage (with_records rs n hs) = Inr \<lparr>st_w = with_records rs n hs, st_hs = h, st_baseIndex = 0, st_entries = es\<rparr>"
proof -
  let ?w = "with_records rs n hs"
  have laid: "laid (w_dir ?w) [(1, rs)] []"
    using small by (simp add: laid_def with_records_def ListSegmentIDs_def mkeys_def OpenSegment_def mget_def)
  have cur: "w_current ?w = 1" "w_firstLogIndex ?w = 1" "w_segmentMaxSize ?w = 1000" "w_latestHardState ?w = hs"
    by (simp_all add: with_records_def demo_log_def demo_wal_def)
  have ok: "wal_ok ?w [(1, rs)]" using laid rec cur by (simp add: wal_ok_def)
  obtain w rep where "wal_Open nid 1000 (w_dir ?w) = Inr (w, rep)" "w = ?w\<lparr>w_dir := w_dir ?w, w_current := 1\<rparr>"
    by (rule reopen_ok [OF laid, of ?w 1000 nid]) (use rec cur in auto)
  then show "\<exists>rep. wal_Open nid 1000 (w_dir (with_records rs n hs')) = Inr (?w, rep)" using cur(1) by (auto simp: with_records_def)
  have "hs \<noteq> Some []" using h by (auto simp: decodeHardState_def)
  then show "OpenWALStorage ?w = Inr \<lparr>st_w = ?w, st_hs = h, st_baseIndex = 0, st_entries = es\<rparr>"
    using OpenWALStorage_read [of ?w "filter (wanted 1) rs" es h] read_log_ok [OF ok, of 1] es h cur
    by (auto simp: LatestHardState_def copy_bytes_def split: option.splits)
qed

lemma demo_decode: "t < 2 ^ 64 \<Longrightarrow> length v < 2 ^ 32 \<Longrightarrow> decodeHardState (encodeHardState (demo_hs t v)) = Inr (demo_hs t v)"
  by (rule decodeHardState_encode) (simp_all add: demo_hs_def)

lemma demo_meta_decode: "decodeMetadata (encodeMetadata demo_meta) = Inr demo_meta"
  by (rule decodeMetadata_encode) (simp add: demo_meta_def)

text \<open>Claim C37. Truncation does not implement the contract. A storage records a vote of term 2, then drops a conflicting entry of term 1 and
  appends the leader's entry; after a restart it is back in term 1 with no vote.\<close>

theorem truncate_loses_vote:
  "\<exists>rep0 s s1 s2 w rep s'. wal_Open ''n'' 1000 [] = Inr (demo_log, rep0) \<and> OpenWALStorage demo_log = Inr demo_storage
     \<and> storage_run [StHardState (demo_hs 1 ''''), StAppend [demo_entry 1 1 ''x''], StHardState (demo_hs 2 ''b'')] demo_storage = Inr s
     \<and> storage_Truncate 1 s = Inr s1 \<and> storage_Append [demo_entry 1 2 ''y''] s1 = Inr s2 \<and> InitialState s2 = demo_hs 2 ''b''
     \<and> wal_Open ''n'' 1000 (w_dir (st_w s2)) = Inr (w, rep) \<and> OpenWALStorage w = Inr s' \<and> st_entries s' = st_entries s2
     \<and> InitialState s' = demo_hs 1 ''''"
proof -
  let ?h1 = "demo_hs 1 ''''" and ?h2 = "demo_hs 2 ''b''" and ?e = "demo_entry 1 1 ''x''" and ?e' = "demo_entry 1 2 ''y''"
  let ?rs = "[demo_first, hs_rec ?h1, log_rec 1 ?e, hs_rec ?h2]" and ?rs' = "[demo_first, hs_rec ?h1, log_rec 1 ?e']"
  let ?s = "\<lparr>st_w = with_records ?rs 2 (Some (encodeHardState ?h2)), st_hs = ?h2, st_baseIndex = 0, st_entries = [?e]\<rparr>"
  let ?s1 = "\<lparr>st_w = with_records [demo_first, hs_rec ?h1] 1 (Some (encodeHardState ?h2)), st_hs = ?h2, st_baseIndex = 0, st_entries = []\<rparr>"
  let ?s2 = "\<lparr>st_w = with_records ?rs' 2 (Some (encodeHardState ?h2)), st_hs = ?h2, st_baseIndex = 0, st_entries = [?e']\<rparr>"
  obtain rep0 where o: "wal_Open ''n'' 1000 [] = Inr (demo_log, rep0)" using demo_log_open by blast
  have run: "storage_run [StHardState ?h1, StAppend [?e], StHardState ?h2] demo_storage = Inr ?s"
    by (simp add: storage_do_def demo_storage_def demo_with_records with_records_append with_records_hs demo_sizes demo_hs_copy
        MaxRecordPayloadSize_def)
  have "one_segment (with_records ?rs 2 (Some (encodeHardState ?h2))) ([demo_first, hs_rec ?h1] @ log_rec 1 ?e # [hs_rec ?h2]) (length (frames ?rs))"
    by (simp add: one_segment_def with_records_def demo_log_def demo_wal_def)
  from one_truncate [OF this, of 1]
  have "wal_Truncate 1 (with_records ?rs 2 (Some (encodeHardState ?h2))) = Inr (with_records [demo_first, hs_rec ?h1] 1 (Some (encodeHardState ?h2)))"
    using demo_small by (simp add: hit_def demo_first_def hs_rec_def log_rec_def with_records_def word_less_nat_alt)
  then have trunc: "storage_Truncate 1 ?s = Inr ?s1" by (simp add: storage_Truncate_def on_wal_def)
  have app: "storage_Append [?e'] ?s1 = Inr ?s2"
    by (simp add: with_records_append demo_sizes MaxRecordPayloadSize_def)
  have "recovers ?rs' (with_records ?rs' 2 (Some (encodeHardState ?h1)))"
    by (simp add: recovers_def recovered_as_def scan_record_def scan_start_def demo_first_def hs_rec_def log_rec_def demo_meta_decode [unfolded demo_meta_def] demo_hs_copy
        with_records_def demo_log_def demo_wal_def demo_meta_def MaxSupportedGeneration_def)
  moreover have "decode_records (filter (wanted 1) ?rs') = Inr [?e']"
    using decodeEntryPayload_encode [of 2 EntryNormal "''y''"]
    by (simp add: wanted_def demo_first_def hs_rec_def log_rec_def entry_payload_def demo_entry_def entry_of_def plain_data_def)
  moreover have "\<forall>r \<in> set ?rs'. small r" using demo_small by simp
  ultimately obtain rep where "wal_Open ''n'' 1000 (w_dir (st_w ?s2)) = Inr (with_records ?rs' 2 (Some (encodeHardState ?h1)), rep)"
      "OpenWALStorage (with_records ?rs' 2 (Some (encodeHardState ?h1)))
        = Inr \<lparr>st_w = with_records ?rs' 2 (Some (encodeHardState ?h1)), st_hs = ?h1, st_baseIndex = 0, st_entries = [?e']\<rparr>"
    using with_records_open [of ?rs' 2 "Some (encodeHardState ?h1)" "[?e']" ?h1] demo_decode [of 1 "''''"] by fastforce
  then show ?thesis using o demo_storage_open run trunc app unfolding InitialState_def by fastforce
qed

lemma storage_durable_witness:
  "\<exists>rep0 s w rep s'. wal_Open ''n'' 1000 [] = Inr (demo_log, rep0) \<and> OpenWALStorage demo_log = Inr demo_storage
     \<and> storage_run [StHardState (demo_hs 1 ''a''), StAppend [demo_entry 1 1 ''x'']] demo_storage = Inr s
     \<and> wal_Open ''m'' 1000 (crash (\<lambda>i. 0) (w_dir (st_w s))) = Inr (w, rep) \<and> OpenWALStorage w = Inr s'
     \<and> storage_view s' = \<lparr>sto_HardState = demo_hs 1 ''a'', sto_Entries = [demo_entry 1 1 ''x'']\<rparr>"
proof -
  let ?ops = "[StHardState (demo_hs 1 ''a''), StAppend [demo_entry 1 1 ''x'']]"
  obtain rep0 where o: "wal_Open ''n'' 1000 [] = Inr (demo_log, rep0)" using demo_log_open by blast
  define s where "s = \<lparr>st_w = with_records [demo_first, hs_rec (demo_hs 1 ''a''), log_rec 1 (demo_entry 1 1 ''x'')] 2
    (Some (encodeHardState (demo_hs 1 ''a''))), st_hs = demo_hs 1 ''a'', st_baseIndex = 0, st_entries = [demo_entry 1 1 ''x'']\<rparr>"
  have run: "storage_run ?ops demo_storage = Inr s"
    by (simp add: storage_do_def demo_storage_def demo_with_records with_records_append with_records_hs demo_sizes demo_hs_copy
        MaxRecordPayloadSize_def s_def)
  have "list_all op_carried ?ops" by (simp add: op_carried_def entry_fits_def demo_entry_def demo_hs_def plain_data_def)
  moreover have "Suc (length (concat (map appended ?ops))) < 2 ^ 64" by (simp add: appended_def)
  moreover have "seg_Size i (w_dir (st_w s)) \<le> 0" if "i \<noteq> w_current (st_w s)" for i
    using that by (simp add: s_def with_records_def seg_Size_def mget_def demo_log_def demo_wal_def)
  moreover have "storage_view s = \<lparr>sto_HardState = demo_hs 1 ''a'', sto_Entries = [demo_entry 1 1 ''x'']\<rparr>"
    by (simp add: s_def storage_view_def)
  ultimately show ?thesis
    using storage_durable [OF _ o demo_storage_open run, of "\<lambda>i. 0" "''m''"] o demo_storage_open run by fastforce
qed

text \<open>Claim C39. A snapshot installed over a log that is longer loses its own pointer: the truncation that drops the rest of the log also drops
  the metadata record just written, so a restart is back at the old boundary with the superseded entry.\<close>

theorem install_snapshot_loses_pointer:
  "\<exists>rep0 s s1 w rep s'. wal_Open ''n'' 1000 [] = Inr (demo_log, rep0) \<and> OpenWALStorage demo_log = Inr demo_storage
     \<and> storage_run [StAppend [demo_entry 1 1 ''x''], StAppend [demo_entry 2 1 ''y'']] demo_storage = Inr s
     \<and> storage_InstallSnapshot 1 s = Inr s1 \<and> st_baseIndex s1 = 1 \<and> st_entries s1 = []
     \<and> wal_Open ''n'' 1000 (w_dir (st_w s1)) = Inr (w, rep) \<and> OpenWALStorage w = Inr s' \<and> st_baseIndex s' = 0
     \<and> st_entries s' = [demo_entry 1 1 ''x'']"
proof -
  let ?e1 = "demo_entry 1 1 ''x''" and ?e2 = "demo_entry 2 1 ''y''"
  let ?l1 = "log_rec 1 ?e1" and ?l2 = "log_rec 2 ?e2"
  define snap where "snap = \<lparr>rec_Type = RecordTypeMetadata, rec_Index = 0, rec_Payload = encodeMetadata demo_snapshot\<rparr>"
  let ?s = "\<lparr>st_w = with_records [demo_first, ?l1, ?l2] 3 None, st_hs = noHardState, st_baseIndex = 0, st_entries = [?e1, ?e2]\<rparr>"
  define w1 where "w1 = (with_records [demo_first, ?l1, ?l2, snap] 3 None)\<lparr>w_metadata := demo_snapshot, w_firstLogIndex := 2\<rparr>"
  define rs2 where "rs2 = [demo_first, ?l1, ?l2, snap, hs_rec noHardState]"
  define w2 where "w2 = w1\<lparr>w_dir := [(1, \<lparr>seg_data = frames rs2, seg_synced = length (frames rs2)\<rparr>)],
    w_latestHardState := Some (encodeHardState noHardState)\<rparr>"
  define w3 where "w3 = w2\<lparr>w_dir := [(1, \<lparr>seg_data = frames [demo_first, ?l1], seg_synced = length (frames [demo_first, ?l1])\<rparr>)], w_nextLogIndex := 2\<rparr>"
  note defs = with_records_def demo_log_def demo_wal_def
  have no: "noHardState = demo_hs 0 []" by (simp add: noHardState_def demo_hs_def)
  have sizes: "length (encodeMetadata demo_snapshot) = 12" "length (frame_of snap) = 30"
    by (simp_all add: snap_def length_frame_of encodeMetadata_def demo_snapshot_def demo_meta_def)
  obtain rep0 where o: "wal_Open ''n'' 1000 [] = Inr (demo_log, rep0)" using demo_log_open by blast
  have run: "storage_run [StAppend [?e1], StAppend [?e2]] demo_storage = Inr ?s"
    by (simp add: storage_do_def demo_storage_def demo_with_records with_records_append demo_sizes MaxRecordPayloadSize_def)
  have o0: "one_segment (st_w ?s) [demo_first, ?l1, ?l2] (length (frames [demo_first, ?l1, ?l2]))" by (simp add: one_segment_def defs)
  have meta: "(w_metadata (st_w ?s))\<lparr>md_LatestSnapshotIndex := 1\<rparr> = demo_snapshot" by (simp add: defs demo_snapshot_def)
  have "AppendMetadataSnapshot 1 (st_w ?s) = Inr w1"
    using one_snapshot [OF o0 meta [symmetric] _ _ _ snap_def] sizes
    by (simp add: w1_def MaxRecordPayloadSize_def demo_sizes defs demo_meta_def)
  then have i1: "on_wal (AppendMetadataSnapshot (word_of_nat 1)) ?s = Inr (?s\<lparr>st_w := w1\<rparr>)" by (simp add: on_wal_def)
  have "one_segment w1 [demo_first, ?l1, ?l2, snap] (length (frames [demo_first, ?l1, ?l2, snap]))" by (simp add: one_segment_def w1_def defs)
  from one_hs [of "?s\<lparr>st_w := w1\<rparr>", simplified, OF this, of noHardState]
  have i2: "Reaffirm (?s\<lparr>st_w := w1\<rparr>) = Inr (?s\<lparr>st_w := w2\<rparr>)"
    using sizes by (simp add: Reaffirm_def w2_def rs2_def no demo_sizes demo_hs_copy MaxRecordPayloadSize_def w1_def defs)
  have "one_segment w2 ([demo_first, ?l1] @ ?l2 # [snap, hs_rec noHardState]) (length (frames rs2))" by (simp add: one_segment_def w2_def rs2_def w1_def defs)
  from one_truncate [OF this, of 2]
  have "wal_Truncate 2 w2 = Inr w3"
    using demo_small sizes by (simp add: hit_def demo_first_def hs_rec_def log_rec_def snap_def w3_def w2_def w1_def defs no
        small_def MaxRecordPayloadSize_def word_less_nat_alt word_le_nat_alt)
  then have i3: "on_wal (wal_Truncate (word_of_nat 1 + 1)) (?s\<lparr>st_w := w2\<rparr>) = Inr (?s\<lparr>st_w := w3\<rparr>)" by (simp add: on_wal_def)
  have i4: "on_wal (CompactBefore (word_of_nat 1)) (?s\<lparr>st_w := w3\<rparr>) = Inr (?s\<lparr>st_w := w3\<rparr>)"
    by (simp add: on_wal_def CompactBefore_def CompactBeforeRetaining_def w3_def w2_def w1_def defs ListSegmentIDs_def mkeys_def)
  have inst: "storage_InstallSnapshot 1 ?s = Inr (?s\<lparr>st_w := w3, st_entries := [], st_baseIndex := 1\<rparr>)"
    unfolding storage_InstallSnapshot_def i1 bindR_Inr i2 i3 i4 by simp
  have "recovers [demo_first, ?l1] (with_records [demo_first, ?l1] 2 None)"
    by (simp add: recovers_def recovered_as_def scan_record_def scan_start_def demo_first_def log_rec_def demo_meta_decode [unfolded demo_meta_def]
        defs demo_meta_def MaxSupportedGeneration_def)
  moreover have "decode_records (filter (wanted 1) [demo_first, ?l1]) = Inr [?e1]"
    using decodeEntryPayload_encode [of 1 EntryNormal "''x''"]
    by (simp add: wanted_def demo_first_def log_rec_def entry_payload_def demo_entry_def entry_of_def plain_data_def)
  ultimately obtain rep where "wal_Open ''n'' 1000 (w_dir w3) = Inr (with_records [demo_first, ?l1] 2 None, rep)"
      "OpenWALStorage (with_records [demo_first, ?l1] 2 None)
        = Inr \<lparr>st_w = with_records [demo_first, ?l1] 2 None, st_hs = noHardState, st_baseIndex = 0, st_entries = [?e1]\<rparr>"
    using with_records_open [of "[demo_first, ?l1]" 2 None "[?e1]" noHardState] demo_small
    by (fastforce simp: w3_def with_records_def)
  then show ?thesis using o demo_storage_open run inst by fastforce
qed

end
