(* ===== verification/Txn.thy ===== *)
theory Txn
  imports Fsm Wal_Recovery
begin

text \<open>
  The standalone transaction layer (\<^verbatim>\<open>internal/txn/txn.go\<close>): the manager that owns the log and the state
  machine, its recovery, the commit path, and the transaction sessions with their local write sets.

  A session is a record of its own; the operations that reach the manager through the session's pointer take
  the manager as an argument and return it. The mutexes of the two types are not modelled, each operation holds
  its lock for the whole body. The calls to the operating system succeed, as in the model of the log.
\<close>

section \<open>State\<close>

datatype txn_error =
    ErrAlreadyCommitted | ErrAlreadyAborted | ErrInvalidState | ErrConflict
  | TxnWal wal_error | TxnFsm fsm_error | TxnMvcc mvcc_error

datatype txn_state = StateActive | StateCommitted | StateAborted

record Manager =
  mg_walog :: WAL
  mg_fsm :: FSM
  mg_lastSeq :: u64
  mg_nextTxnID :: u64
  mg_TxnConflictsTotal :: u64
  mg_RequestIDDuplicatesTotal :: u64

record Txn =
  tx_id :: u64
  tx_startSeq :: u64
  tx_state :: txn_state
  tx_writes :: "(string, Mutation) gomap"
  tx_order :: "string list"

definition txn_wal :: "wal_error + 'a \<Rightarrow> txn_error + 'a" where
  "txn_wal r = (case r of Inl e \<Rightarrow> Inl (TxnWal e) | Inr x \<Rightarrow> Inr x)"

definition txn_fsm :: "fsm_error + 'a \<Rightarrow> txn_error + 'a" where
  "txn_fsm r = (case r of Inl e \<Rightarrow> Inl (TxnFsm e) | Inr x \<Rightarrow> Inr x)"

lemma txn_wrap_simps [simp]:
  "txn_wal (Inr x) = Inr x" "txn_wal (Inl e) = Inl (TxnWal e)"
  "txn_fsm (Inr y) = Inr y" "txn_fsm (Inl f) = Inl (TxnFsm f)"
  by (simp_all add: txn_wal_def txn_fsm_def)

section \<open>Recovery\<close>

text \<open>The body of the loop of \<open>recover\<close>: one record.\<close>

definition recover_record :: "Record \<Rightarrow> Manager \<Rightarrow> txn_error + Manager" where
  "recover_record rec m =
     bindR (txn_fsm (DecodeCommitTxn (rec_Payload rec))) (\<lambda>cmd.
       case Apply (rec_Index rec) cmd (mg_fsm m) of
         (f, Inl err) \<Rightarrow> Inl (TxnFsm err)
       | (f, Inr outcome) \<Rightarrow>
           let m1 = m\<lparr>mg_fsm := f\<rparr>
           in Inr (if rec_Index rec > mg_lastSeq m1 then m1\<lparr>mg_lastSeq := rec_Index rec\<rparr> else m1))"

function recover_loop :: "segdir \<Rightarrow> Iterator \<Rightarrow> Manager \<Rightarrow> txn_error + Manager" where
  "recover_loop dir it m =
     (case Next dir it of
        (Inl e, it') \<Rightarrow> Inl (TxnWal e)
      | (Inr None, it') \<Rightarrow> Inr m
      | (Inr (Some rec), it') \<Rightarrow> bindR (recover_record rec m) (recover_loop dir it'))"
  by auto
termination
  by (relation "inv_image it_before (\<lambda>(dir, it, m). it)") (auto simp: in_inv_image dest!: Next_before [OF sym])

declare recover_loop.simps [simp del]

definition recover :: "Manager \<Rightarrow> txn_error + Manager" where
  "recover m = bindR (txn_wal (Replay 1 (mg_walog m))) (\<lambda>it. recover_loop (w_dir (mg_walog m)) it m)"

definition NewManager :: "WAL \<Rightarrow> Store \<Rightarrow> txn_error + Manager" where
  "NewManager w store =
     recover \<lparr>mg_walog = w, mg_fsm = NewFSM store, mg_lastSeq = 0, mg_nextTxnID = 0,
       mg_TxnConflictsTotal = 0, mg_RequestIDDuplicatesTotal = 0\<rparr>"

section \<open>Commits\<close>

definition Begin :: "Manager \<Rightarrow> Txn \<times> Manager" where
  "Begin m =
     (let m1 = m\<lparr>mg_nextTxnID := mg_nextTxnID m + 1\<rparr>
      in (\<lparr>tx_id = mg_nextTxnID m1, tx_startSeq = mg_lastSeq m, tx_state = StateActive, tx_writes = [], tx_order = []\<rparr>, m1))"

definition GetRequestOutcome :: "Manager \<Rightarrow> string \<Rightarrow> txn_error + Outcome" where
  "GetRequestOutcome m requestID =
     (case GetOutcome (mg_fsm m) requestID of
        None \<Rightarrow> Inl (TxnFsm ErrRequestIDUnknown) | Some outcome \<Rightarrow> Inr outcome)"

text \<open>The result of \<open>commit\<close>: an outcome, or an error with the outcome that comes with it, if one does.\<close>

type_synonym commit_result = "(txn_error \<times> Outcome option) + Outcome"

definition commit_verdict :: "Outcome \<Rightarrow> commit_result" where
  "commit_verdict outcome = (if out_Status outcome = StatusAborted then Inl (ErrConflict, Some outcome) else Inr outcome)"

definition manager_commit :: "u64 \<Rightarrow> string \<Rightarrow> u64 \<Rightarrow> Mutation list \<Rightarrow> Manager \<Rightarrow> Manager \<times> commit_result" where
  "manager_commit txnID requestID startSeq mutations m =
     (if length mutations = 0 then (m, Inr (committed_outcome requestID (mg_lastSeq m)))
      else let cmd = \<lparr>cmd_RequestID = requestID, cmd_TxnID = txnID, cmd_StartSeq = startSeq, cmd_Mutations = mutations\<rparr>
           in case Precheck (mg_fsm m) cmd of
                Inr outcome \<Rightarrow>
                  (m\<lparr>mg_RequestIDDuplicatesTotal := mg_RequestIDDuplicatesTotal m + 1\<rparr>, commit_verdict outcome)
              | Inl err \<Rightarrow>
                  if err = ErrRequestIDUnknown
                  then (case AppendLogEntry (EncodeCommitTxn cmd) (mg_walog m) of
                          Inl aerr \<Rightarrow> (m, Inl (TxnWal aerr, None))
                        | Inr (idx, w1) \<Rightarrow>
                            (case wal_Sync w1 of
                               Inl serr \<Rightarrow> (m\<lparr>mg_walog := w1\<rparr>, Inl (TxnWal serr, None))
                             | Inr w2 \<Rightarrow>
                                 (case Apply idx cmd (mg_fsm m) of
                                    (f, Inl aerr) \<Rightarrow> (m\<lparr>mg_walog := w2, mg_fsm := f\<rparr>, Inl (TxnFsm aerr, None))
                                  | (f, Inr outcome) \<Rightarrow>
                                      let m1 = m\<lparr>mg_walog := w2, mg_fsm := f\<rparr>;
                                          m2 = (if out_Status outcome = StatusAborted
                                                then m1\<lparr>mg_TxnConflictsTotal := mg_TxnConflictsTotal m1 + 1\<rparr> else m1)
                                      in (m2\<lparr>mg_lastSeq := idx\<rparr>, commit_verdict outcome))))
                  else (m, Inl (TxnFsm err, None)))"

definition Resubmit :: "string \<Rightarrow> u64 \<Rightarrow> u64 \<Rightarrow> Mutation list \<Rightarrow> Manager \<Rightarrow> Manager \<times> commit_result" where
  "Resubmit requestID txnID startSeq mutations = manager_commit txnID requestID startSeq mutations"

section \<open>Sessions\<close>

definition terminalErr :: "Txn \<Rightarrow> txn_error" where
  "terminalErr t = (case tx_state t of StateCommitted \<Rightarrow> ErrAlreadyCommitted
     | StateAborted \<Rightarrow> ErrAlreadyAborted | _ \<Rightarrow> ErrInvalidState)"

definition txn_Read :: "Manager \<Rightarrow> Txn \<Rightarrow> string \<Rightarrow> txn_error + bytes option" where
  "txn_Read m t key =
     (if tx_state t \<noteq> StateActive then Inl (terminalErr t)
      else case mget (tx_writes t) key of
        Some mu \<Rightarrow> Inr (if mut_Tombstone mu then None else Some (mut_Value mu))
      | None \<Rightarrow> (case Visible (fsm_store (mg_fsm m)) key (tx_startSeq t) of Inl e \<Rightarrow> Inl (TxnMvcc e) | Inr v \<Rightarrow> Inr v))"

text \<open>The mutations of the write set, in the order of the first writes.\<close>

definition noMutation :: Mutation where
  "noMutation = \<lparr>mut_Key = [], mut_Value = [], mut_Tombstone = False\<rparr>"

definition write_set :: "Txn \<Rightarrow> Mutation list" where
  "write_set t = map (\<lambda>k. case mget (tx_writes t) k of None \<Rightarrow> noMutation | Some mu \<Rightarrow> mu) (tx_order t)"

definition LocalWrites :: "Txn \<Rightarrow> Mutation list" where
  "LocalWrites t = (if tx_state t \<noteq> StateActive then [] else write_set t)"

definition recordWriteLocked :: "string \<Rightarrow> bytes \<Rightarrow> bool \<Rightarrow> Txn \<Rightarrow> Txn" where
  "recordWriteLocked key val tombstone t =
     (let t1 = (if mget (tx_writes t) key = None then t\<lparr>tx_order := tx_order t @ [key]\<rparr> else t)
      in t1\<lparr>tx_writes := mput key \<lparr>mut_Key = key, mut_Value = val, mut_Tombstone = tombstone\<rparr> (tx_writes t1)\<rparr>)"

definition txn_Write :: "string \<Rightarrow> bytes \<Rightarrow> Txn \<Rightarrow> txn_error + Txn" where
  "txn_Write key val t =
     (if tx_state t \<noteq> StateActive then Inl (terminalErr t) else Inr (recordWriteLocked key val False t))"

definition txn_Delete :: "string \<Rightarrow> Txn \<Rightarrow> txn_error + Txn" where
  "txn_Delete key t =
     (if tx_state t \<noteq> StateActive then Inl (terminalErr t) else Inr (recordWriteLocked key [] True t))"

definition finish_txn :: "txn_state \<Rightarrow> Txn \<Rightarrow> Txn" where
  "finish_txn s t = t\<lparr>tx_state := s, tx_writes := [], tx_order := []\<rparr>"

definition txn_Commit :: "string \<Rightarrow> Manager \<Rightarrow> Txn \<Rightarrow> Manager \<times> Txn \<times> (txn_error + u64)" where
  "txn_Commit requestID m t =
     (if tx_state t \<noteq> StateActive then (m, t, Inl (terminalErr t))
      else case manager_commit (tx_id t) requestID (tx_startSeq t) (write_set t) m of
        (m1, Inl (cerr, outcome)) \<Rightarrow> (m1, finish_txn StateAborted t, Inl cerr)
      | (m1, Inr outcome) \<Rightarrow> (m1, finish_txn StateCommitted t, Inr (out_CommitSeq outcome)))"

definition txn_Abort :: "Txn \<Rightarrow> txn_error + Txn" where
  "txn_Abort t = (if tx_state t \<noteq> StateActive then Inl (terminalErr t) else Inr (finish_txn StateAborted t))"

section \<open>The local write set\<close>

text \<open>The write set and its order name the same keys, each once; a mutation is under its own key, and a tombstone has no value.\<close>

definition txn_ok :: "Txn \<Rightarrow> bool" where
  "txn_ok t \<longleftrightarrow> distinct (tx_order t) \<and> set (tx_order t) = {k. mget (tx_writes t) k \<noteq> None}
     \<and> (\<forall>k mu. mget (tx_writes t) k = Some mu \<longrightarrow> mut_Key mu = k \<and> (mut_Tombstone mu \<longrightarrow> mut_Value mu = []))"

lemma txn_ok_record: "txn_ok t \<Longrightarrow> (tombstone \<longrightarrow> val = []) \<Longrightarrow> txn_ok (recordWriteLocked key val tombstone t)"
  by (auto simp: txn_ok_def recordWriteLocked_def Let_def split: if_splits)

lemma txn_ok_finish: "txn_ok (finish_txn s t)"
  by (simp add: txn_ok_def finish_txn_def)

lemma write_set_keys: "txn_ok t \<Longrightarrow> map mut_Key (write_set t) = tx_order t"
  by (auto simp: txn_ok_def write_set_def intro!: map_idI split: option.splits)

lemma write_set_ok:
  assumes "txn_ok t"
  shows "distinct (map mut_Key (write_set t))" "tombstones_empty (write_set t)"
proof -
  show "distinct (map mut_Key (write_set t))" using write_set_keys [OF assms] assms by (simp add: txn_ok_def)
  show "tombstones_empty (write_set t)" using assms
    by (auto simp: txn_ok_def tombstones_empty_def write_set_def noMutation_def split: option.splits)
qed

lemma write_set_mem:
  assumes "txn_ok t"
  shows "mu \<in> set (write_set t) \<longleftrightarrow> mget (tx_writes t) (mut_Key mu) = Some mu"
proof
  assume "mu \<in> set (write_set t)"
  then obtain k where k: "k \<in> set (tx_order t)" "mu = (case mget (tx_writes t) k of None \<Rightarrow> noMutation | Some mu \<Rightarrow> mu)"
    by (auto simp: write_set_def)
  then show "mget (tx_writes t) (mut_Key mu) = Some mu" using assms by (auto simp: txn_ok_def)
next
  assume m: "mget (tx_writes t) (mut_Key mu) = Some mu"
  have "set (tx_order t) = {k. mget (tx_writes t) k \<noteq> None}" using assms by (simp add: txn_ok_def)
  then have "mut_Key mu \<in> set (tx_order t)" using m by simp
  then show "mu \<in> set (write_set t)" unfolding write_set_def set_map by (rule rev_image_eqI) (simp add: m)
qed

text \<open>What an open session sees: its own writes over the snapshot.\<close>

definition txn_view :: "Manager \<Rightarrow> Txn \<Rightarrow> string \<Rightarrow> bytes option" where
  "txn_view m t k = (case mget (tx_writes t) k of
     Some mu \<Rightarrow> if mut_Tombstone mu then None else Some (mut_Value mu)
   | None \<Rightarrow> read_at (fsm_store (mg_fsm m)) k (tx_startSeq t))"

definition session_live :: "Manager \<Rightarrow> Txn \<Rightarrow> bool" where
  "session_live m t \<longleftrightarrow> tx_state t = StateActive \<and> txn_ok t \<and> (\<exists>n. fsm_inv n (mg_fsm m)) \<and> gcWatermark (mg_fsm m) = 0"

lemma txn_Read_view: "session_live m t \<Longrightarrow> txn_Read m t k = Inr (txn_view m t k)"
  by (auto simp: session_live_def txn_Read_def txn_view_def fsm_Visible split: option.splits)

lemma txn_Write_view:
  assumes "session_live m t"
  shows "\<exists>t1. txn_Write k v t = Inr t1 \<and> session_live m t1 \<and> txn_view m t1 = (txn_view m t)(k \<mapsto> v)"
  using assms txn_ok_record [of t False v k]
  by (auto simp: session_live_def txn_Write_def txn_view_def recordWriteLocked_def Let_def fun_eq_iff split: option.split)

lemma txn_Delete_view:
  assumes "session_live m t"
  shows "\<exists>t1. txn_Delete k t = Inr t1 \<and> session_live m t1 \<and> txn_view m t1 = (txn_view m t)(k := None)"
  using assms txn_ok_record [of t True "[]" k]
  by (auto simp: session_live_def txn_Delete_def txn_view_def recordWriteLocked_def Let_def fun_eq_iff split: option.split)

end
