(* ===== verification/Txn_Durable.thy ===== *)
theory Txn_Durable
  imports Txn Wal_Cut
begin

text \<open>
  Databases in standalone mode: one manager and any number of sessions, whose operations interleave. A commit is in
  the log before it is in the state machine, so that recovery after a crash finds exactly the commits that were
  acknowledged; a session reads its own writes over the state at its start, whatever the other sessions commit.
\<close>

section \<open>Replaying a list of records\<close>

fun recover_records :: "Record list \<Rightarrow> Manager \<Rightarrow> txn_error + Manager" where
  "recover_records [] m = Inr m"
| "recover_records (r # rs) m = bindR (recover_record r m) (recover_records rs)"

lemma recover_records_append: "recover_records (rs @ rs') m = bindR (recover_records rs m) (recover_records rs')"
  by (induction rs arbitrary: m) (simp_all add: bindR_def split: sum.splits)

lemma recover_loop_drain: "drain dir it = Inr rs \<Longrightarrow> recover_loop dir it m = recover_records rs m"
proof (induction dir it arbitrary: rs m rule: drain.induct)
  case (1 dir it)
  obtain res it' where n: "Next dir it = (res, it')" by (cases "Next dir it")
  show ?case
  proof (cases "\<exists>r. res = Inr (Some r)")
    case True
    then obtain r where r: "res = Inr (Some r)" by blast
    then obtain rs' where rs': "drain dir it' = Inr rs'" "rs = r # rs'"
      using "1.prems" n by (subst (asm) drain.simps) (auto simp: bindR_eq_Inr)
    have "recover_loop dir it' = recover_records rs'"
      by (rule ext) (rule "1.IH" [OF n [unfolded r, symmetric] refl refl rs'(1)])
    then show ?thesis using n r rs'(2) by (subst recover_loop.simps) simp
  next
    case False
    then have "res = Inr None" using "1.prems" n by (subst (asm) drain.simps) (auto split: sum.splits option.splits)
    then show ?thesis using "1.prems" n by (subst recover_loop.simps, subst (asm) drain.simps) simp
  qed
qed

lemma recover_read: "read_log 1 (mg_walog m) = Inr rs \<Longrightarrow> recover m = recover_records rs m"
  by (auto simp: recover_def read_log_def bindR_eq_Inr recover_loop_drain)

section \<open>The invariant of the manager\<close>

definition fresh_manager :: "WAL \<Rightarrow> Manager" where
  "fresh_manager w = \<lparr>mg_walog = w, mg_fsm = NewFSM NewStore, mg_lastSeq = 0, mg_nextTxnID = 0,
     mg_TxnConflictsTotal = 0, mg_RequestIDDuplicatesTotal = 0\<rparr>"

definition logged :: "Record list \<Rightarrow> Manager \<Rightarrow> bool" where
  "logged rs m \<longleftrightarrow> (\<forall>w. recover_records rs (fresh_manager w) = Inr ((fresh_manager w)\<lparr>mg_fsm := mg_fsm m, mg_lastSeq := mg_lastSeq m\<rparr>))"

definition manager_ok :: "nat \<Rightarrow> layout \<Rightarrow> Manager \<Rightarrow> bool" where
  "manager_ok n lay m \<longleftrightarrow> wal_ok (mg_walog m) lay \<and> mg_lastSeq m = word_of_nat n \<and> w_nextLogIndex (mg_walog m) = word_of_nat (Suc n)
     \<and> logged (filter (wanted 1) (records lay)) m \<and> fsm_inv (mg_lastSeq m) (mg_fsm m) \<and> gcWatermark (mg_fsm m) = 0"

text \<open>The command the client hands over writes each key once, and a tombstone has no value.\<close>

definition write_set_fits :: "Mutation list \<Rightarrow> bool" where
  "write_set_fits mus \<longleftrightarrow> distinct (map mut_Key mus) \<and> tombstones_empty mus"

lemma manager_okD:
  assumes "manager_ok n lay m"
  shows "wal_ok (mg_walog m) lay" "mg_lastSeq m = word_of_nat n" "w_nextLogIndex (mg_walog m) = word_of_nat (Suc n)"
    "logged (filter (wanted 1) (records lay)) m" "fsm_inv (mg_lastSeq m) (mg_fsm m)" "gcWatermark (mg_fsm m) = 0"
  using assms by (auto simp only: manager_ok_def)

section \<open>Commits\<close>

text \<open>What a commit does: it changes nothing but a counter, or its command is in the log and in the state machine.\<close>

definition same_state :: "Manager \<Rightarrow> Manager \<Rightarrow> bool" where
  "same_state m m' \<longleftrightarrow> mg_walog m' = mg_walog m \<and> mg_fsm m' = mg_fsm m \<and> mg_lastSeq m' = mg_lastSeq m"

definition command_of :: "u64 \<Rightarrow> string \<Rightarrow> u64 \<Rightarrow> Mutation list \<Rightarrow> CommitTxnCommand" where
  "command_of txnID requestID startSeq mus = \<lparr>cmd_RequestID = requestID, cmd_TxnID = txnID, cmd_StartSeq = startSeq, cmd_Mutations = mus\<rparr>"

definition commit_step :: "CommitTxnCommand \<Rightarrow> Manager \<Rightarrow> Manager \<Rightarrow> commit_result \<Rightarrow> bool" where
  "commit_step cmd m m' r \<longleftrightarrow> (\<exists>w1 oc. AppendLogEntry (EncodeCommitTxn cmd) (mg_walog m) = Inr (w_nextLogIndex (mg_walog m), w1)
     \<and> wal_Sync w1 = Inr (mg_walog m') \<and> Precheck (mg_fsm m) cmd = Inl ErrRequestIDUnknown
     \<and> Apply (w_nextLogIndex (mg_walog m)) cmd (mg_fsm m) = (mg_fsm m', Inr oc) \<and> r = commit_verdict oc
     \<and> mg_lastSeq m' = w_nextLogIndex (mg_walog m))"

lemma AppendLogEntry_Sync:
  assumes "AppendLogEntry p w = Inr (i, w1)"
  obtains w2 where "wal_Sync w1 = Inr w2"
proof -
  obtain w0 where w0: "appendLocked RecordTypeLogEntry p w = Inr w0" "w1 = w0\<lparr>w_nextLogIndex := w_nextLogIndex w0 + 1\<rparr>" "\<not> w_closed w"
    using assms by (auto simp: AppendLogEntry_def bindR_eq_Inr split: if_splits)
  have "\<not> w_closed w1" using w0(3) unfolding w0(2) by (subst appendLocked_fields [OF w0(1)]) simp
  then show thesis using that by (simp add: wal_Sync_def)
qed

lemma next_seq:
  assumes "manager_ok n lay m" "Suc n < 2 ^ 64"
  shows "mg_lastSeq m < w_nextLogIndex (mg_walog m)" "0 < w_nextLogIndex (mg_walog m)"
    "unat (w_nextLogIndex (mg_walog m)) = Suc n"
proof -
  have "unat (word_of_nat (Suc n) :: u64) = Suc n" "unat (word_of_nat n :: u64) = n" using assms(2) by (simp_all add: unat_of_nat take_bit_nat_eq_self del: of_nat_Suc)
  then show "mg_lastSeq m < w_nextLogIndex (mg_walog m)" "0 < w_nextLogIndex (mg_walog m)" "unat (w_nextLogIndex (mg_walog m)) = Suc n"
    using manager_okD(2,3) [OF assms(1)] by (simp_all add: word_less_nat_alt del: of_nat_Suc)
qed

lemma commit_cases:
  assumes ok: "manager_ok n lay m" "Suc n < 2 ^ 64" and ws: "write_set_fits mus"
    and run: "manager_commit txnID requestID startSeq mus m = (m', r)"
  shows "same_state m m' \<or> commit_step (command_of txnID requestID startSeq mus) m m' r"
proof (cases "mus = [] \<or> Precheck (mg_fsm m) (command_of txnID requestID startSeq mus) \<noteq> Inl ErrRequestIDUnknown
    \<or> (\<exists>e. AppendLogEntry (EncodeCommitTxn (command_of txnID requestID startSeq mus)) (mg_walog m) = Inl e)")
  case True
  then have "same_state m m'" using run
    by (auto simp: manager_commit_def same_state_def Let_def command_of_def split: sum.splits if_splits)
  then show ?thesis ..
next
  case False
  let ?cmd = "command_of txnID requestID startSeq mus"
  obtain i w1 where a: "AppendLogEntry (EncodeCommitTxn ?cmd) (mg_walog m) = Inr (i, w1)"
    using False by (cases "AppendLogEntry (EncodeCommitTxn ?cmd) (mg_walog m)") auto
  have i: "i = w_nextLogIndex (mg_walog m)" by (rule AppendLogEntry_fields(1) [OF a])
  obtain w2 where w2: "wal_Sync w1 = Inr w2" by (rule AppendLogEntry_Sync [OF a])
  have pre: "Precheck (mg_fsm m) ?cmd = Inl ErrRequestIDUnknown" using False by simp
  have d: "distinct (map mut_Key (cmd_Mutations ?cmd))" using ws by (simp add: write_set_fits_def command_of_def)
  note inv = manager_okD(5) [OF ok(1)]
  obtain f oc where ap: "Apply i ?cmd (mg_fsm m) = (f, Inr oc)"
    using Apply_cases [OF inv next_seq(1) [OF ok] d] pre unfolding i Precheck_def by (auto split: option.splits if_splits)
  have "commit_step ?cmd m m' r"
    using run False a w2 pre ap i
    by (auto simp: manager_commit_def commit_step_def Let_def command_of_def split: if_splits)
  then show ?thesis ..
qed

text \<open>The invariant with the log's history: the operations on it since it was opened, each batch of them synced.\<close>

definition durable :: "WAL \<Rightarrow> nat \<Rightarrow> Manager \<Rightarrow> bool" where
  "durable w0 n m \<longleftrightarrow> (\<exists>lay steps. manager_ok n lay m \<and> wal_run steps w0 = Inr (mg_walog m) \<and> run_fits steps w0 \<and> (steps = [] \<or> last steps = DoSync))"

lemma same_state_ok:
  assumes "manager_ok n lay m" "same_state m m'"
  shows "manager_ok n lay m'"
  using manager_okD [OF assms(1)] assms(2) by (simp add: manager_ok_def same_state_def logged_def)

lemma same_state_durable: "durable w0 n m \<Longrightarrow> same_state m m' \<Longrightarrow> durable w0 n m'"
  unfolding durable_def using same_state_ok by (metis same_state_def)

lemma AppendLogEntry_small: "AppendLogEntry p w = Inr (i, w1) \<Longrightarrow> length p \<le> MaxRecordPayloadSize"
  by (auto simp: AppendLogEntry_def bindR_eq_Inr split: if_splits dest: small_payload)

lemma recover_new_record:
  assumes "DecodeCommitTxn p = Inr cmd" "Apply i cmd (mg_fsm m) = (f, Inr oc)" "mg_lastSeq m < i"
  shows "recover_record \<lparr>rec_Type = RecordTypeLogEntry, rec_Index = i, rec_Payload = p\<rparr> m = Inr (m\<lparr>mg_fsm := f, mg_lastSeq := i\<rparr>)"
  using assms by (simp add: recover_record_def Let_def)

lemma logged_step:
  assumes "logged rs m" "DecodeCommitTxn p = Inr cmd" "Apply i cmd (mg_fsm m) = (mg_fsm m', Inr oc)" "mg_lastSeq m < i" "mg_lastSeq m' = i"
  shows "logged (rs @ [\<lparr>rec_Type = RecordTypeLogEntry, rec_Index = i, rec_Payload = p\<rparr>]) m'"
  using assms(1,3-5) by (simp add: logged_def recover_records_append recover_new_record [OF assms(2)])

lemma commit_step_ok:
  assumes ok: "manager_ok n lay m" "Suc (Suc n) < 2 ^ 64" and ws: "write_set_fits (cmd_Mutations cmd)" and st: "commit_step cmd m m' r"
  obtains lay' where "manager_ok (Suc n) lay' m'" "wal_run [DoAppend (EncodeCommitTxn cmd), DoSync] (mg_walog m) = Inr (mg_walog m')"
    "run_fits [DoAppend (EncodeCommitTxn cmd), DoSync] (mg_walog m)"
proof -
  let ?w = "mg_walog m" and ?p = "EncodeCommitTxn cmd"
  obtain w1 oc where s: "AppendLogEntry ?p ?w = Inr (w_nextLogIndex ?w, w1)" "wal_Sync w1 = Inr (mg_walog m')"
      "Apply (w_nextLogIndex ?w) cmd (mg_fsm m) = (mg_fsm m', Inr oc)" "mg_lastSeq m' = w_nextLogIndex ?w"
    using st unfolding commit_step_def by (elim exE conjE) (rule that)
  note f = AppendLogEntry_fields [OF s(1)] and d = manager_okD [OF ok(1)]
  have nx: "mg_lastSeq m < w_nextLogIndex ?w" "0 < w_nextLogIndex ?w" "unat (w_nextLogIndex ?w) = Suc n"
    using next_seq [OF ok(1)] ok(2) by simp_all
  have fits: "op_fits (DoAppend ?p) ?w" using nx(2) by (simp add: op_fits_def)
  obtain lay' where l: "op_result (DoAppend ?p) ?w w1 lay lay' 0"
    by (rule op_ok [OF d(1) fits safe_zero _ f(6)]) simp
  have next1: "w_nextLogIndex w1 = word_of_nat (Suc (Suc n))" using f(2) d(3) by (simp add: add.commute)
  have "unat (word_of_nat (Suc (Suc n)) :: u64) = Suc (Suc n)" using ok(2) by (simp add: unat_of_nat take_bit_nat_eq_self del: of_nat_Suc)
  then have "0 < w_nextLogIndex w1" unfolding next1 word_less_nat_alt by simp
  note y = sync_mirrored [OF _ this s(2)]
  have wok: "wal_ok w1 lay'" and rec: "records lay' = records lay @ [\<lparr>rec_Type = RecordTypeLogEntry, rec_Index = w_nextLogIndex ?w, rec_Payload = ?p\<rparr>]"
    using l by (simp_all add: op_result_def op_records_def)
  have "length ?p < 2 ^ 32" using AppendLogEntry_small [OF s(1)] by (simp add: MaxRecordPayloadSize_def)
  then have dec: "DecodeCommitTxn ?p = Inr cmd" using ws by (intro DecodeCommitTxn_Encode) (simp_all add: write_set_fits_def)
  have "wanted 1 \<lparr>rec_Type = RecordTypeLogEntry, rec_Index = w_nextLogIndex ?w, rec_Payload = ?p\<rparr>"
    using nx(3) by (simp add: wanted_def word_le_nat_alt)
  then have "logged (filter (wanted 1) (records lay')) m'" using logged_step [OF d(4) dec s(3) nx(1) s(4)] by (simp add: rec)
  moreover have "fsm_inv (mg_lastSeq m') (mg_fsm m')"
    using fsm_inv_Apply [OF d(5) nx(1), of cmd] ws s(3,4) by (simp add: write_set_fits_def)
  moreover have "gcWatermark (mg_fsm m') = 0" using Apply_frame [of "w_nextLogIndex ?w" cmd "mg_fsm m"] s(3) d(6) by simp
  moreover have "w_nextLogIndex (mg_walog m') = word_of_nat (Suc (Suc n))" by (subst y(2) [OF wok], simp add: next1)
  ultimately have "manager_ok (Suc n) lay' m'" unfolding manager_ok_def using y(1) [OF wok] s(4) d(3) by (intro conjI) simp_all
  then show thesis using that f(6) fits y(3,4) [OF wok] by simp
qed

lemma commit_durable:
  assumes "durable w0 n m" "Suc (Suc n) < 2 ^ 64" "write_set_fits mus" "manager_commit txnID requestID startSeq mus m = (m', r)"
  shows "\<exists>n' \<le> Suc n. n \<le> n' \<and> durable w0 n' m'"
proof -
  obtain lay steps where d: "manager_ok n lay m" "wal_run steps w0 = Inr (mg_walog m)" "run_fits steps w0" "steps = [] \<or> last steps = DoSync"
    using assms(1) unfolding durable_def by (elim exE conjE) (rule that)
  consider (same) "same_state m m'" | (step) "commit_step (command_of txnID requestID startSeq mus) m m' r"
    using commit_cases [OF d(1) _ assms(3,4)] assms(2) by auto
  then show ?thesis
  proof cases
    case same
    then show ?thesis using same_state_durable [OF assms(1)] by (intro exI [of _ n]) simp
  next
    case step
    let ?cmd = "command_of txnID requestID startSeq mus"
    have ws: "write_set_fits (cmd_Mutations ?cmd)" using assms(3) by (simp add: command_of_def)
    obtain lay' where l: "manager_ok (Suc n) lay' m'" "wal_run [DoAppend (EncodeCommitTxn ?cmd), DoSync] (mg_walog m) = Inr (mg_walog m')"
        "run_fits [DoAppend (EncodeCommitTxn ?cmd), DoSync] (mg_walog m)"
      by (rule commit_step_ok [OF d(1) assms(2) ws step])
    have "durable w0 (Suc n) m'" unfolding durable_def
      by (intro exI [of _ lay'] exI [of _ "steps @ [DoAppend (EncodeCommitTxn ?cmd), DoSync]"] conjI)
        (use l d(2,3) run_fits_append [OF d(2)] in \<open>simp_all add: wal_run_append\<close>)
    then show ?thesis by (intro exI [of _ "Suc n"]) simp
  qed
qed

lemma commit_view:
  assumes "durable w0 n m" "Suc (Suc n) < 2 ^ 64" "write_set_fits mus" "manager_commit txnID requestID startSeq mus m = (m', r)" "q \<le> mg_lastSeq m"
  shows "mg_lastSeq m \<le> mg_lastSeq m'" "read_at (fsm_store (mg_fsm m')) k q = read_at (fsm_store (mg_fsm m)) k q"
proof -
  obtain lay where ok: "manager_ok n lay m" using assms(1) by (auto simp: durable_def)
  note d = manager_okD [OF ok] and nx = next_seq [OF ok Suc_lessD [OF assms(2)]]
  have "mg_lastSeq m \<le> mg_lastSeq m' \<and> read_at (fsm_store (mg_fsm m')) k q = read_at (fsm_store (mg_fsm m)) k q"
  proof (cases "same_state m m'")
    case False
    then have st: "commit_step (command_of txnID requestID startSeq mus) m m' r" using commit_cases [OF ok _ assms(3,4)] assms(2) by simp
    let ?e = "EvCommit (command_of txnID requestID startSeq mus)"
    have m': "mg_fsm m' = fsm_step (w_nextLogIndex (mg_walog m), ?e) (mg_fsm m)" "mg_lastSeq m' = w_nextLogIndex (mg_walog m)"
      using st by (auto simp: commit_step_def)
    have "event_ok ?e" using assms(3) by (simp add: command_of_def write_set_fits_def)
    from fsm_step_read_at [OF d(5) nx(1) this assms(5)] show ?thesis using m' nx(1) d(6) by simp
  qed (simp add: same_state_def)
  then show "mg_lastSeq m \<le> mg_lastSeq m'" "read_at (fsm_store (mg_fsm m')) k q = read_at (fsm_store (mg_fsm m)) k q" by simp_all
qed

section \<open>Opening and reopening\<close>

definition manager_view :: "Manager \<Rightarrow> string \<Rightarrow> bytes option" where
  "manager_view m k = read_at (fsm_store (mg_fsm m)) k (mg_lastSeq m)"

lemma NewManager_read: "read_log 1 w = Inr rs \<Longrightarrow> NewManager w NewStore = recover_records rs (fresh_manager w)"
  using recover_read [of "fresh_manager w" rs] by (simp add: NewManager_def fresh_manager_def)

lemma new_durable:
  assumes "length nid < 65536" "wal_Open nid mx [] = Inr (w, rep)"
  shows "NewManager w NewStore = Inr (fresh_manager w)" "durable w 0 (fresh_manager w)"
proof -
  obtain lay where l: "wal_ok w lay" by (rule wal_Open_new [OF assms])
  have f: "w_firstLogIndex w = 1" "w_nextLogIndex w = 1"
    using assms(2) by (auto simp: wal_Open_def Let_def ListSegmentIDs_def mkeys_def appendLocked_def maybeRotateLocked_def seg_Size_def
        mget_def mput_def split: sum.splits if_splits)
  have "recovers (records lay) w" using l by (simp add: wal_ok_def)
  from live_indices [OF this] have none: "filter (wanted 1) (records lay) = []" by (simp add: f)
  then show "NewManager w NewStore = Inr (fresh_manager w)" using NewManager_read [OF read_log_ok [OF l]] by simp
  have "manager_ok 0 lay (fresh_manager w)"
    using l f none fsm_inv_NewFSM by (simp add: manager_ok_def logged_def fresh_manager_def NewFSM_def)
  then show "durable w 0 (fresh_manager w)" unfolding durable_def
    by (intro exI [of _ lay] exI [of _ "[]"]) (simp add: fresh_manager_def)
qed

lemma durable_reopens:
  assumes "length nid < 65536" "wal_Open nid mx [] = Inr (w0, rep0)" "durable w0 n m"
    and "\<And>i. i \<noteq> w_current (mg_walog m) \<Longrightarrow> seg_Size i (w_dir (mg_walog m)) \<le> keep i"
  shows "\<exists>w rep m'. wal_Open nid' mx (crash keep (w_dir (mg_walog m))) = Inr (w, rep) \<and> NewManager w NewStore = Inr m'
    \<and> mg_fsm m' = mg_fsm m \<and> mg_lastSeq m' = mg_lastSeq m"
proof -
  obtain lay steps where d: "manager_ok n lay m" "wal_run steps w0 = Inr (mg_walog m)" "run_fits steps w0" "steps = [] \<or> last steps = DoSync"
    using assms(3) unfolding durable_def by (elim exE conjE) (rule that)
  obtain w rep where o: "wal_Open nid' mx (crash keep (w_dir (mg_walog m))) = Inr (w, rep)" "read_log 1 w = read_log 1 (mg_walog m)"
    by (rule crash_recovers_synced [OF assms(1,2) d(2,3) assms(4) d(4), of nid' 1])
  note k = manager_okD [OF d(1)]
  have "NewManager w NewStore = Inr ((fresh_manager w)\<lparr>mg_fsm := mg_fsm m, mg_lastSeq := mg_lastSeq m\<rparr>)"
    using NewManager_read [of w] read_log_ok [OF k(1), of 1] o(2) k(4) by (simp add: logged_def)
  then show ?thesis using o(1) by (intro exI [of _ w] exI [of _ rep] exI) (auto intro: conjI)
qed

section \<open>Interleaved sessions\<close>

datatype db_op =
    OpBegin | OpWrite nat string bytes | OpDelete nat string | OpCommit nat string | OpAbort nat
  | OpResubmit string u64 u64 "Mutation list"

record database_state =
  db_mgr :: Manager
  db_sessions :: "Txn list"

definition on_session :: "nat \<Rightarrow> (Txn \<Rightarrow> txn_error + Txn) \<Rightarrow> database_state \<Rightarrow> database_state" where
  "on_session i f d = (if i < length (db_sessions d)
     then case f (db_sessions d ! i) of Inl e \<Rightarrow> d | Inr t \<Rightarrow> d\<lparr>db_sessions := (db_sessions d)[i := t]\<rparr> else d)"

definition commit_session :: "nat \<Rightarrow> string \<Rightarrow> database_state \<Rightarrow> database_state" where
  "commit_session i rid d = (if i < length (db_sessions d)
     then case txn_Commit rid (db_mgr d) (db_sessions d ! i) of (m, t, r) \<Rightarrow> d\<lparr>db_mgr := m, db_sessions := (db_sessions d)[i := t]\<rparr> else d)"

definition db_step :: "db_op \<Rightarrow> database_state \<Rightarrow> database_state" where
  "db_step op d = (case op of
     OpBegin \<Rightarrow> (case Begin (db_mgr d) of (t, m) \<Rightarrow> d\<lparr>db_mgr := m, db_sessions := db_sessions d @ [t]\<rparr>)
   | OpWrite i k v \<Rightarrow> on_session i (txn_Write k v) d
   | OpDelete i k \<Rightarrow> on_session i (txn_Delete k) d
   | OpCommit i rid \<Rightarrow> commit_session i rid d
   | OpAbort i \<Rightarrow> on_session i txn_Abort d
   | OpResubmit rid txnID startSeq mus \<Rightarrow> d\<lparr>db_mgr := fst (Resubmit rid txnID startSeq mus (db_mgr d))\<rparr>)"

definition db_run :: "db_op list \<Rightarrow> database_state \<Rightarrow> database_state" where
  "db_run ops d = foldl (\<lambda>d op. db_step op d) d ops"

lemma db_run_simps [simp]: "db_run [] d = d" "db_run (op # ops) d = db_run ops (db_step op d)"
  by (simp_all add: db_run_def)

lemma db_run_append: "db_run (xs @ ys) d = db_run ys (db_run xs d)"
  by (simp add: db_run_def)

text \<open>A resubmitted write set is one that a session could have built.\<close>

definition op_submits :: "db_op \<Rightarrow> bool" where
  "op_submits op = (case op of OpResubmit rid txnID startSeq mus \<Rightarrow> write_set_fits mus | _ \<Rightarrow> True)"

definition db_ok :: "WAL \<Rightarrow> nat \<Rightarrow> database_state \<Rightarrow> bool" where
  "db_ok w0 n d \<longleftrightarrow> durable w0 n (db_mgr d) \<and> (\<forall>t \<in> set (db_sessions d). txn_ok t)"

lemma Begin_same: "Begin m = (t, m') \<Longrightarrow> same_state m m' \<and> txn_ok t"
  by (auto simp: Begin_def Let_def same_state_def txn_ok_def)

lemma write_set_fits: "txn_ok t \<Longrightarrow> write_set_fits (write_set t)"
  by (simp add: write_set_fits_def write_set_ok)

lemma txn_Commit_commits:
  assumes "txn_Commit rid m t = (m', t', r)"
  shows "m' = m \<and> t' = t \<or> m' = fst (manager_commit (tx_id t) rid (tx_startSeq t) (write_set t) m) \<and> (\<exists>s. s \<noteq> StateActive \<and> t' = finish_txn s t)"
  using assms by (auto simp: txn_Commit_def split: if_splits prod.splits sum.splits)

lemma session_ops_ok:
  assumes "txn_ok t"
  shows "txn_Write k v t = Inr t' \<Longrightarrow> txn_ok t'" "txn_Delete k t = Inr t' \<Longrightarrow> txn_ok t'" "txn_Abort t = Inr t' \<Longrightarrow> txn_ok t'"
  using assms by (auto simp: txn_Write_def txn_Delete_def txn_Abort_def txn_ok_record txn_ok_finish split: if_splits)

lemma on_session_ok:
  assumes "db_ok w0 n d" "\<And>t t'. txn_ok t \<Longrightarrow> f t = Inr t' \<Longrightarrow> txn_ok t'"
  shows "db_ok w0 n (on_session i f d)"
  using assms(1) assms(2) [of "db_sessions d ! i"] nth_mem [of i "db_sessions d"]
  by (auto simp: db_ok_def on_session_def split: sum.split dest!: set_update_subset_insert [THEN subsetD])

lemma db_step_ok:
  assumes ok: "db_ok w0 n d" "Suc (Suc n) < 2 ^ 64" and op: "op_submits op"
  shows "\<exists>n' \<le> Suc n. db_ok w0 n' (db_step op d)"
proof -
  have mgr: "durable w0 n (db_mgr d)" and ses: "\<And>t. t \<in> set (db_sessions d) \<Longrightarrow> txn_ok t" using ok(1) by (auto simp: db_ok_def)
  show ?thesis
  proof (cases op)
    case OpBegin
    obtain t m where b: "Begin (db_mgr d) = (t, m)" by (cases "Begin (db_mgr d)")
    have "db_ok w0 n (db_step op d)"
      using Begin_same [OF b] same_state_durable [OF mgr] ses by (auto simp: db_ok_def db_step_def OpBegin b)
    then show ?thesis using le_SucI by blast
  next
    case (OpCommit i rid)
    show ?thesis
    proof (cases "i < length (db_sessions d)")
      case True
      let ?t = "db_sessions d ! i"
      obtain m t r where c: "txn_Commit rid (db_mgr d) ?t = (m, t, r)" by (cases "txn_Commit rid (db_mgr d) ?t")
      have t: "txn_ok ?t" using ses True by simp
      have "txn_ok t" using txn_Commit_commits [OF c] t txn_ok_finish by auto
      moreover have "\<exists>n' \<le> Suc n. durable w0 n' m"
        using txn_Commit_commits [OF c] mgr commit_durable [OF mgr ok(2) write_set_fits [OF t] prod.collapse [symmetric]] le_SucI by blast
      ultimately show ?thesis using ses
        by (auto simp: db_ok_def db_step_def OpCommit commit_session_def True c dest!: set_update_subset_insert [THEN subsetD])
    qed (use ok in \<open>auto simp: db_step_def OpCommit commit_session_def intro!: exI [of _ n]\<close>)
  next
    case (OpResubmit rid txnID startSeq mus)
    then have "write_set_fits mus" using op by (simp add: op_submits_def)
    from commit_durable [OF mgr ok(2) this prod.collapse [symmetric], where txnID = txnID and requestID = rid and startSeq = startSeq] show ?thesis using ses
      by (auto simp: db_ok_def db_step_def OpResubmit Resubmit_def)
  next
    case (OpWrite i k v)
    then have "db_ok w0 n (db_step op d)" using on_session_ok [OF ok(1) session_ops_ok(1)] by (simp add: db_step_def)
    then show ?thesis using le_SucI by blast
  next
    case (OpDelete i k)
    then have "db_ok w0 n (db_step op d)" using on_session_ok [OF ok(1) session_ops_ok(2)] by (simp add: db_step_def)
    then show ?thesis using le_SucI by blast
  next
    case (OpAbort i)
    then have "db_ok w0 n (db_step op d)" using on_session_ok [OF ok(1) session_ops_ok(3)] by (simp add: db_step_def)
    then show ?thesis using le_SucI by blast
  qed
qed

lemma db_run_ok:
  assumes "db_ok w0 n d" "list_all op_submits ops" "Suc (n + length ops) < 2 ^ 64"
  shows "\<exists>n' \<le> n + length ops. db_ok w0 n' (db_run ops d)"
  using assms
proof (induction ops arbitrary: n d)
  case (Cons op ops)
  obtain n1 where n1: "n1 \<le> Suc n" "db_ok w0 n1 (db_step op d)" using db_step_ok [OF Cons.prems(1)] Cons.prems(2,3) by auto
  from Cons.IH [OF n1(2)] Cons.prems(2,3) n1(1) obtain n2 where "n2 \<le> n1 + length ops" "db_ok w0 n2 (db_run ops (db_step op d))" by auto
  then show ?case using n1(1) by (intro exI [of _ n2]) simp
qed auto

definition opened :: "WAL \<Rightarrow> database_state" where
  "opened w = \<lparr>db_mgr = fresh_manager w, db_sessions = []\<rparr>"

text \<open>
  Claim C8. Committed transactions survive a crash, and nothing else appears. A log is opened in an empty directory, the manager recovers from it,
  and any number of sessions begin, write, delete, commit, abort and resubmit, interleaved in any order. After a crash that keeps the closed
  segments, and of the current one any prefix that has what was synced, the log opens, recovery succeeds, and the state machine (every
  version of every key, every recorded outcome) and the commit sequence are exactly those before the crash. The write sets of a session are
  arbitrary; one that is resubmitted has each key once and no value under a tombstone, as the write set of a session has; and there
  are fewer than 2^64 operations.
\<close>

theorem standalone_durable:
  assumes "length nid < 65536" "wal_Open nid mx [] = Inr (w0, rep0)" "NewManager w0 NewStore = Inr m0"
    and "list_all op_submits ops" "Suc (length ops) < 2 ^ 64" "d = db_run ops \<lparr>db_mgr = m0, db_sessions = []\<rparr>"
    and "\<And>i. i \<noteq> w_current (mg_walog (db_mgr d)) \<Longrightarrow> seg_Size i (w_dir (mg_walog (db_mgr d))) \<le> keep i"
  shows "\<exists>w rep m. wal_Open nid' mx (crash keep (w_dir (mg_walog (db_mgr d)))) = Inr (w, rep) \<and> NewManager w NewStore = Inr m
    \<and> mg_fsm m = mg_fsm (db_mgr d) \<and> mg_lastSeq m = mg_lastSeq (db_mgr d)"
proof -
  note new = new_durable [OF assms(1,2)]
  have "db_ok w0 0 \<lparr>db_mgr = m0, db_sessions = []\<rparr>" using new assms(3) by (simp add: db_ok_def)
  from db_run_ok [OF this assms(4)] assms(5) obtain n where "db_ok w0 n d" unfolding assms(6) by auto
  then have "durable w0 n (db_mgr d)" by (simp add: db_ok_def)
  from durable_reopens [OF assms(1,2) this assms(7)] show ?thesis .
qed

section \<open>What a session reads\<close>

text \<open>The last write of session \<open>i\<close> to the key, if there is one.\<close>

definition note_write :: "nat \<Rightarrow> string \<Rightarrow> bytes option option \<Rightarrow> db_op \<Rightarrow> bytes option option" where
  "note_write i k acc op = (case op of
     OpWrite j k' v \<Rightarrow> if j = i \<and> k' = k then Some (Some v) else acc
   | OpDelete j k' \<Rightarrow> if j = i \<and> k' = k then Some None else acc
   | _ \<Rightarrow> acc)"

definition own_write :: "nat \<Rightarrow> string \<Rightarrow> db_op list \<Rightarrow> bytes option option" where
  "own_write i k ops = foldl (note_write i k) None ops"

definition ends :: "nat \<Rightarrow> db_op \<Rightarrow> bool" where
  "ends i op = (case op of OpCommit j rid \<Rightarrow> j = i | OpAbort j \<Rightarrow> j = i | _ \<Rightarrow> False)"

definition local_value :: "Txn \<Rightarrow> string \<Rightarrow> bytes option option" where
  "local_value t k = map_option (\<lambda>mu. if mut_Tombstone mu then None else Some (mut_Value mu)) (mget (tx_writes t) k)"

text \<open>An open session and the snapshot it started from.\<close>

definition open_at :: "u64 \<Rightarrow> bytes option \<Rightarrow> string \<Rightarrow> nat \<Rightarrow> bytes option option \<Rightarrow> database_state \<Rightarrow> bool" where
  "open_at q v k i own d \<longleftrightarrow> i < length (db_sessions d) \<and> tx_state (db_sessions d ! i) = StateActive \<and> tx_startSeq (db_sessions d ! i) = q
     \<and> q \<le> mg_lastSeq (db_mgr d) \<and> read_at (fsm_store (mg_fsm (db_mgr d))) k q = v \<and> local_value (db_sessions d ! i) k = own"

lemma local_value_record:
  "local_value (recordWriteLocked k' v tomb t) k = (if k' = k then Some (if tomb then None else Some v) else local_value t k)"
  by (simp add: local_value_def recordWriteLocked_def Let_def)

lemma recordWriteLocked_fields [simp]:
  "tx_state (recordWriteLocked k v tomb t) = tx_state t" "tx_startSeq (recordWriteLocked k v tomb t) = tx_startSeq t"
  by (simp_all add: recordWriteLocked_def Let_def)

lemma db_step_open:
  assumes ok: "db_ok w0 n d" "Suc (Suc n) < 2 ^ 64" and op: "op_submits op" "\<not> ends i op" and at: "open_at q v k i own d"
  shows "open_at q v k i (note_write i k own op) (db_step op d)"
proof -
  have mgr: "durable w0 n (db_mgr d)" and ses: "\<And>t. t \<in> set (db_sessions d) \<Longrightarrow> txn_ok t" using ok(1) by (auto simp: db_ok_def)
  have le: "q \<le> mg_lastSeq (db_mgr d)" and i: "i < length (db_sessions d)" "tx_state (db_sessions d ! i) = StateActive" using at by (simp_all add: open_at_def)
  show ?thesis
  proof (cases op)
    case OpBegin
    obtain t m where b: "Begin (db_mgr d) = (t, m)" by (cases "Begin (db_mgr d)")
    then show ?thesis using at Begin_same [OF b] by (simp add: note_write_def db_step_def OpBegin open_at_def same_state_def nth_append)
  next
    case (OpWrite j k' u)
    then show ?thesis using at i
      by (cases "j = i") (auto simp: note_write_def db_step_def open_at_def on_session_def txn_Write_def local_value_record split: if_splits)
  next
    case (OpDelete j k')
    then show ?thesis using at i
      by (cases "j = i") (auto simp: note_write_def db_step_def open_at_def on_session_def txn_Delete_def local_value_record split: if_splits)
  next
    case (OpAbort j)
    then show ?thesis using at op(2) by (auto simp: note_write_def db_step_def open_at_def on_session_def ends_def split: sum.split)
  next
    case (OpCommit j rid)
    then have ji: "j \<noteq> i" using op(2) by (simp add: ends_def)
    show ?thesis
    proof (cases "j < length (db_sessions d)")
      case True
      let ?t = "db_sessions d ! j"
      obtain m t r where c: "txn_Commit rid (db_mgr d) ?t = (m, t, r)" by (cases "txn_Commit rid (db_mgr d) ?t")
      have "txn_ok ?t" using ses True by simp
      note v = commit_view [OF mgr ok(2) write_set_fits [OF this] prod.collapse [symmetric] le]
      have "mg_lastSeq (db_mgr d) \<le> mg_lastSeq m" "read_at (fsm_store (mg_fsm m)) k q = read_at (fsm_store (mg_fsm (db_mgr d))) k q"
        using txn_Commit_commits [OF c] v by auto
      then show ?thesis using at ji True by (auto simp: note_write_def db_step_def OpCommit commit_session_def c open_at_def)
    qed (use at OpCommit in \<open>simp add: note_write_def db_step_def commit_session_def\<close>)
  next
    case (OpResubmit rid txnID startSeq mus)
    then have "write_set_fits mus" using op by (simp add: op_submits_def)
    from commit_view [OF mgr ok(2) this prod.collapse [symmetric] le, where txnID = txnID and requestID = rid and startSeq = startSeq] show ?thesis
      using at by (auto simp: note_write_def db_step_def OpResubmit Resubmit_def open_at_def)
  qed
qed

lemma db_run_open:
  assumes "db_ok w0 n d" "list_all op_submits ops" "Suc (n + length ops) < 2 ^ 64" "\<not> list_ex (ends i) ops" "open_at q v k i None d"
  shows "open_at q v k i (own_write i k ops) (db_run ops d)"
  using assms(2-4)
proof (induction ops rule: rev_induct)
  case Nil
  then show ?case using assms(5) by (simp add: own_write_def)
next
  case (snoc op ops)
  obtain n' where n': "n' \<le> n + length ops" "db_ok w0 n' (db_run ops d)" using db_run_ok [OF assms(1), of ops] snoc.prems(1,2) by auto
  have "open_at q v k i (own_write i k ops) (db_run ops d)" using snoc by simp
  from db_step_open [OF n'(2) _ _ _ this, of op] n'(1) snoc.prems show ?case
    by (simp add: db_run_append own_write_def)
qed

text \<open>
  Claim C18. A session reads its own writes over the state at its start. Whatever the other sessions write, commit, abort or resubmit
  while it is open, the read of a key returns the last value the session itself wrote or deleted, and otherwise the
  value that was committed when the session began.
\<close>

theorem session_reads_snapshot:
  assumes "length nid < 65536" "wal_Open nid mx [] = Inr (w0, rep0)" "NewManager w0 NewStore = Inr m0"
    and "list_all op_submits pre" "list_all op_submits ops" "Suc (Suc (length pre + length ops)) < 2 ^ 64"
    and "d0 = db_run pre \<lparr>db_mgr = m0, db_sessions = []\<rparr>" "i = length (db_sessions d0)" "\<not> list_ex (ends i) ops"
    and "d = db_run (OpBegin # ops) d0"
  shows "txn_Read (db_mgr d) (db_sessions d ! i) k = Inr (case own_write i k ops of Some v \<Rightarrow> v | None \<Rightarrow> manager_view (db_mgr d0) k)"
proof -
  have "db_ok w0 0 \<lparr>db_mgr = m0, db_sessions = []\<rparr>" using new_durable [OF assms(1,2)] assms(3) by (simp add: db_ok_def)
  from db_run_ok [OF this assms(4)] assms(6) obtain n where n: "db_ok w0 n d0" "n \<le> length pre" unfolding assms(7) by auto
  obtain n1 where n1: "n1 \<le> Suc n" "db_ok w0 n1 (db_step OpBegin d0)" using db_step_ok [OF n(1), of OpBegin] n(2) assms(6) by (auto simp: op_submits_def)
  have b: "open_at (mg_lastSeq (db_mgr d0)) (manager_view (db_mgr d0) k) k i None (db_step OpBegin d0)"
    by (simp add: open_at_def db_step_def Begin_def Let_def assms(8) manager_view_def local_value_def)
  have at: "open_at (mg_lastSeq (db_mgr d0)) (manager_view (db_mgr d0) k) k i (own_write i k ops) d"
    using db_run_open [OF n1(2) assms(5) _ assms(9) b] n1(1) n(2) assms(6) by (simp add: assms(10))
  obtain n2 where "db_ok w0 n2 d" using db_run_ok [OF n1(2) assms(5)] n1(1) n(2) assms(6) by (auto simp: assms(10))
  moreover have "i < length (db_sessions d)" "tx_state (db_sessions d ! i) = StateActive" using at by (simp_all add: open_at_def)
  ultimately have "session_live (db_mgr d) (db_sessions d ! i)"
    using manager_okD(5,6) by (fastforce simp: db_ok_def durable_def session_live_def)
  from txn_Read_view [OF this] show ?thesis using at
    by (auto simp: open_at_def txn_view_def local_value_def split: option.splits)
qed

section \<open>A commit evaluated\<close>

lemma fresh_commit:
  assumes "mg_walog m = with_records rs n hs" "mus \<noteq> []" "mget (outcomes (mg_fsm m)) rid = None" "startSeq \<ge> gcWatermark (mg_fsm m)"
    and "fsm_inv q (mg_fsm m)" "q < n" "distinct (map mut_Key mus)" "CheckConflicts (fsm_store (mg_fsm m)) startSeq mus = None"
    and "cmd = command_of txnID rid startSeq mus" "length (frames rs) + length (EncodeCommitTxn cmd) + 18 \<le> 1000"
  shows "manager_commit txnID rid startSeq mus m = (m\<lparr>mg_walog := with_records (rs @ [\<lparr>rec_Type = RecordTypeLogEntry, rec_Index = n, rec_Payload = EncodeCommitTxn cmd\<rparr>]) (n + 1) hs,
     mg_fsm := record_outcome cmd (committed_outcome rid n) ((mg_fsm m)\<lparr>fsm_store := apply_all n mus (fsm_store (mg_fsm m))\<rparr>), mg_lastSeq := n\<rparr>,
     Inr (committed_outcome rid n))"
proof -
  have "length (EncodeCommitTxn cmd) \<le> MaxRecordPayloadSize" using assms(10) by (simp add: MaxRecordPayloadSize_def)
  then obtain w where w: "AppendLogEntry (EncodeCommitTxn cmd) (mg_walog m) = Inr (n, w)"
      "wal_Sync w = Inr (with_records (rs @ [\<lparr>rec_Type = RecordTypeLogEntry, rec_Index = n, rec_Payload = EncodeCommitTxn cmd\<rparr>]) (n + 1) hs)"
    using with_records_log [of "EncodeCommitTxn cmd" rs] assms(1,10) by metis
  have cmd: "cmd_RequestID cmd = rid" "cmd_StartSeq cmd = startSeq" "cmd_Mutations cmd = mus" using assms(9) by (simp_all add: command_of_def)
  have pre: "Precheck (mg_fsm m) cmd = Inl ErrRequestIDUnknown" using assms(3) cmd by (simp add: Precheck_def lookupLocked_def)
  have "Apply n cmd (mg_fsm m) = (record_outcome cmd (committed_outcome rid n) ((mg_fsm m)\<lparr>fsm_store := apply_all n mus (fsm_store (mg_fsm m))\<rparr>), Inr (committed_outcome rid n))"
    using Apply_cases [OF assms(5,6), of cmd] assms(3,4,7,8) cmd by (simp add: lookupLocked_def)
  then show ?thesis using assms(2) w pre assms(9)
    by (simp add: manager_commit_def command_of_def Let_def commit_verdict_def committed_outcome_def)
qed

definition demo_ops :: "db_op list" where
  "demo_ops = [OpBegin, OpWrite 0 ''k'' ''v'', OpCommit 0 ''r'']"

definition demo_command :: CommitTxnCommand where
  "demo_command = command_of 1 ''r'' 0 [\<lparr>mut_Key = ''k'', mut_Value = ''v'', mut_Tombstone = False\<rparr>]"

definition demo_committed :: Manager where
  "demo_committed = (fresh_manager (with_records [demo_first, \<lparr>rec_Type = RecordTypeLogEntry, rec_Index = 1, rec_Payload = EncodeCommitTxn demo_command\<rparr>] 2 None))
     \<lparr>mg_fsm := record_outcome demo_command (committed_outcome ''r'' 1) ((NewFSM NewStore)\<lparr>fsm_store := apply_all 1 (cmd_Mutations demo_command) NewStore\<rparr>),
      mg_lastSeq := 1, mg_nextTxnID := 1\<rparr>"

lemma demo_commit:
  "manager_commit 1 ''r'' 0 [\<lparr>mut_Key = ''k'', mut_Value = ''v'', mut_Tombstone = False\<rparr>] ((fresh_manager demo_log)\<lparr>mg_nextTxnID := 1\<rparr>)
     = (demo_committed, Inr (committed_outcome ''r'' 1))"
proof -
  let ?m = "(fresh_manager demo_log)\<lparr>mg_nextTxnID := 1\<rparr>"
  let ?mus = "[\<lparr>mut_Key = ''k'', mut_Value = ''v'', mut_Tombstone = False\<rparr>]"
  have w: "mg_walog ?m = with_records [demo_first] 1 None" by (simp add: fresh_manager_def demo_with_records)
  have f: "mg_fsm ?m = NewFSM NewStore" by (simp add: fresh_manager_def)
  have c: "CheckConflicts (fsm_store (NewFSM NewStore)) 0 ?mus = None"
    by (simp add: NewFSM_def CheckConflicts_None LatestCommitSeq_def NewStore_def chain_of_def)
  have l: "length (frames [demo_first]) + length (EncodeCommitTxn demo_command) + 18 \<le> 1000"
    by (simp add: demo_first_def demo_command_def command_of_def EncodeCommitTxn_def encodeCommitBody_def length_encodeMutation frame_of_def frame_sizes encodeMetadata_def demo_meta_def)
  have n: "mget (outcomes (NewFSM NewStore)) ''r'' = None" "gcWatermark (NewFSM NewStore) \<le> 0" by (simp_all add: NewFSM_def)
  show ?thesis
    using fresh_commit [OF w _ _ _ _ _ _ _ demo_command_def l, where q = 0, unfolded f] n fsm_inv_NewFSM c
    by (simp add: demo_committed_def fresh_manager_def demo_command_def command_of_def) (simp add: NewFSM_def)
qed

lemma demo_state: "db_mgr (db_run demo_ops (opened demo_log)) = demo_committed" "length (db_sessions (db_run demo_ops (opened demo_log))) = 1"
proof -
  define t where "t = \<lparr>tx_id = 1, tx_startSeq = 0, tx_state = StateActive,
    tx_writes = [(''k'', \<lparr>mut_Key = ''k'', mut_Value = ''v'', mut_Tombstone = False\<rparr>)], tx_order = [''k'']\<rparr>"
  have "db_run demo_ops (opened demo_log) = db_step (OpCommit 0 ''r'') \<lparr>db_mgr = (fresh_manager demo_log)\<lparr>mg_nextTxnID := 1\<rparr>, db_sessions = [t]\<rparr>"
    by (simp add: demo_ops_def opened_def db_step_def Begin_def on_session_def txn_Write_def recordWriteLocked_def mput_def t_def fresh_manager_def)
  moreover have "write_set t = [\<lparr>mut_Key = ''k'', mut_Value = ''v'', mut_Tombstone = False\<rparr>]" by (simp add: write_set_def t_def mget_def)
  then have "txn_Commit ''r'' ((fresh_manager demo_log)\<lparr>mg_nextTxnID := 1\<rparr>) t = (demo_committed, finish_txn StateCommitted t, Inr 1)"
    using demo_commit by (simp add: txn_Commit_def t_def committed_outcome_def)
  ultimately show "db_mgr (db_run demo_ops (opened demo_log)) = demo_committed" "length (db_sessions (db_run demo_ops (opened demo_log))) = 1"
    by (simp_all add: db_step_def commit_session_def)
qed

lemma demo_view: "manager_view demo_committed ''k'' = Some ''v''"
proof -
  have "read_at (apply_all 1 [\<lparr>mut_Key = ''k'', mut_Value = ''v'', mut_Tombstone = False\<rparr>] NewStore) ''k'' 1 = Some ''v''" by code_simp
  then show ?thesis by (simp add: manager_view_def demo_committed_def record_outcome_def demo_command_def command_of_def)
qed

theorem standalone_durable_witness:
  "\<exists>rep0 w rep m. wal_Open ''n'' 1000 [] = Inr (demo_log, rep0) \<and> NewManager demo_log NewStore = Inr (fresh_manager demo_log)
     \<and> wal_Open ''m'' 1000 (crash (\<lambda>i. 0) (w_dir (mg_walog (db_mgr (db_run demo_ops \<lparr>db_mgr = fresh_manager demo_log, db_sessions = []\<rparr>))))) = Inr (w, rep)
     \<and> NewManager w NewStore = Inr m \<and> mg_lastSeq m = 1 \<and> manager_view m ''k'' = Some ''v''"
proof -
  obtain rep0 where o: "wal_Open ''n'' 1000 [] = Inr (demo_log, rep0)" using demo_log_open by blast
  note new = new_durable(1) [OF _ o, simplified]
  have "\<exists>w rep m. wal_Open ''m'' 1000 (crash (\<lambda>i. 0) (w_dir (mg_walog (db_mgr (db_run demo_ops (opened demo_log)))))) = Inr (w, rep)
     \<and> NewManager w NewStore = Inr m \<and> mg_fsm m = mg_fsm demo_committed \<and> mg_lastSeq m = mg_lastSeq demo_committed"
    using standalone_durable [OF _ o new _ _ refl, where ops = demo_ops and keep = "\<lambda>i. 0" and nid' = "''m''"] demo_state(1)
    by (simp add: opened_def demo_ops_def op_submits_def demo_committed_def fresh_manager_def with_records_def demo_log_def demo_wal_def seg_Size_def mget_def)
  then show ?thesis using o new demo_view by (auto simp: opened_def manager_view_def demo_committed_def)
qed

definition demo_others :: "db_op list" where
  "demo_others = [OpWrite 1 ''a'' ''x'', OpBegin, OpWrite 2 ''k'' ''w'', OpCommit 2 ''r2'']"

theorem session_reads_snapshot_witness:
  "txn_Read (db_mgr (db_run (OpBegin # demo_others) (db_run demo_ops (opened demo_log))))
     (db_sessions (db_run (OpBegin # demo_others) (db_run demo_ops (opened demo_log))) ! 1) ''k'' = Inr (Some ''v'')"
proof -
  obtain rep0 where o: "wal_Open ''n'' 1000 [] = Inr (demo_log, rep0)" using demo_log_open by blast
  note new = new_durable(1) [OF _ o, simplified]
  have "own_write 1 ''k'' demo_others = None" by (simp add: own_write_def demo_others_def note_write_def)
  then show ?thesis
    using session_reads_snapshot [OF _ o new, of demo_ops demo_others "db_run demo_ops (opened demo_log)" 1 _ "''k''"] demo_state demo_view
    by (simp add: opened_def demo_ops_def demo_others_def op_submits_def ends_def del: db_run_simps)
qed

end
