(* ===== verification/Sql_Ast.thy ===== *)
theory Sql_Ast
  imports Chronicle_Prelude
begin

text \<open>
  The data of the SQL frontend (\<^verbatim>\<open>internal/sql\<close>): column types and values (\<^verbatim>\<open>value.go\<close>), tokens
  (\<^verbatim>\<open>token.go\<close>), the syntax trees of the statements (\<^verbatim>\<open>ast.go\<close>), the fixed limits and the errors. An
  error keeps its sentinel and, where the code gives one, its byte offset; the message is dropped.
\<close>

section \<open>Limits and errors\<close>

definition MaxStatementBytes :: nat where "MaxStatementBytes = 64 * 1024"

definition MaxIdentifierBytes :: nat where "MaxIdentifierBytes = 128"

definition MaxStringLiteralBytes :: nat where "MaxStringLiteralBytes = 64 * 1024"

definition MaxColumns :: nat where "MaxColumns = 64"

definition MaxIntegerDigits :: nat where "MaxIntegerDigits = 32"

datatype sql_sentinel =
    ErrSyntax | ErrUnsupportedStatement | ErrUnsupportedFeature | ErrInvalidIdentifier | ErrLimitExceeded
  | ErrUnknownTable | ErrDuplicateTable | ErrUnknownColumn | ErrDuplicateColumn | ErrTypeMismatch
  | ErrMissingPrimaryKey | ErrMultiplePrimaryKeys | ErrDuplicatePrimaryKey | ErrInvalidPredicate | ErrRowNotFound
  | ErrNoActiveTransaction | ErrTransactionAlreadyActive | ErrConflict

text \<open>A sentinel with a position, or a wrapped sentinel.\<close>

datatype sql_error = PositionError nat sql_sentinel | SqlError sql_sentinel

section \<open>Values\<close>

text \<open>\<open>ColumnType\<close> is a byte with three named values. \<open>int64\<close> is a 64-bit word read with \<open>sint\<close>.\<close>

type_synonym i64 = "64 word"

datatype ColumnType = TypeInteger | TypeText | TypeBoolean | TypeOther char

definition ColumnType_of :: "char \<Rightarrow> ColumnType" where
  "ColumnType_of c = (if c = CHR 0x01 then TypeInteger else if c = CHR 0x02 then TypeText
     else if c = CHR 0x03 then TypeBoolean else TypeOther c)"

fun type_code :: "ColumnType \<Rightarrow> char" where
  "type_code TypeInteger = CHR 0x01"
| "type_code TypeText = CHR 0x02"
| "type_code TypeBoolean = CHR 0x03"
| "type_code (TypeOther c) = c"

definition valid_ctype :: "ColumnType \<Rightarrow> bool" where
  "valid_ctype t \<longleftrightarrow> t = TypeInteger \<or> t = TypeText \<or> t = TypeBoolean"

definition columnTypeFromKeyword :: "string \<Rightarrow> ColumnType option" where
  "columnTypeFromKeyword kw = (if kw = ''integer'' then Some TypeInteger else if kw = ''text'' then Some TypeText
     else if kw = ''boolean'' then Some TypeBoolean else None)"

record Value =
  val_Type :: ColumnType
  val_Int :: i64
  val_Text :: string
  val_Bool :: bool

definition noValue :: Value where
  "noValue = \<lparr>val_Type = TypeOther (CHR 0x00), val_Int = 0, val_Text = [], val_Bool = False\<rparr>"

definition intValue :: "i64 \<Rightarrow> Value" where "intValue i = noValue\<lparr>val_Type := TypeInteger, val_Int := i\<rparr>"

definition textValue :: "string \<Rightarrow> Value" where "textValue s = noValue\<lparr>val_Type := TypeText, val_Text := s\<rparr>"

definition boolValue :: "bool \<Rightarrow> Value" where "boolValue b = noValue\<lparr>val_Type := TypeBoolean, val_Bool := b\<rparr>"

lemma ColumnType_of_code [simp]: "valid_ctype t \<Longrightarrow> ColumnType_of (type_code t) = t"
  by (auto simp: valid_ctype_def ColumnType_of_def)

section \<open>Tokens\<close>

datatype tokenKind = tokEOF | tokError | tokIdent | tokInt | tokString | tokLParen | tokRParen | tokComma | tokSemicolon | tokEquals | tokStar

record token =
  tok_kind :: tokenKind
  tok_text :: string
  tok_pos :: nat

definition sql_keywords :: "string list" where
  "sql_keywords = [''create'', ''table'', ''insert'', ''into'', ''values'', ''select'', ''from'', ''where'', ''update'', ''set'',
     ''delete'', ''primary'', ''key'', ''integer'', ''text'', ''boolean'', ''true'', ''false'', ''begin'', ''commit'', ''rollback'', ''null'']"

definition isKeyword :: "string \<Rightarrow> bool" where
  "isKeyword folded \<longleftrightarrow> folded \<in> set sql_keywords"

section \<open>Statements\<close>

record ColumnDef =
  cd_Name :: string
  cd_Type :: ColumnType
  cd_PrimaryKey :: bool

datatype LiteralKind = LiteralInt | LiteralString | LiteralBool | LiteralOther int

record Literal =
  lit_Kind :: LiteralKind
  lit_Int :: i64
  lit_Str :: string
  lit_Bool :: bool

record Predicate =
  pred_Column :: string
  pred_Value :: Literal

record Assignment =
  asg_Column :: string
  asg_Value :: Literal

text \<open>A nil column list is \<open>None\<close>.\<close>

datatype Statement =
    CreateTableStmt string "ColumnDef list"
  | InsertStmt string "string list option" "Literal list"
  | SelectStmt string "string list option" "Predicate option"
  | UpdateStmt string "Assignment list" Predicate
  | DeleteStmt string Predicate
  | BeginStmt
  | CommitStmt
  | RollbackStmt

end
