(* ===== verification/Sql_Schema.thy ===== *)
theory Sql_Schema
  imports Sql_Ast Codec
begin

text \<open>
  How tables are stored: the schema record (\<^verbatim>\<open>internal/sql/schema.go\<close>), the keys of schemas and rows and the row
  record (\<^verbatim>\<open>internal/sql/row.go\<close>). The formats are read back exactly, and the keys of different tables, rows and
  schemas never meet.
\<close>

section \<open>Schemas\<close>

record Column =
  col_Name :: string
  col_Type :: ColumnType

record Schema =
  sch_Table :: string
  sch_Columns :: "Column list"
  sch_PrimaryKey :: nat

fun find_column :: "nat \<Rightarrow> Column list \<Rightarrow> string \<Rightarrow> (Column \<times> nat) option" where
  "find_column i [] name = None"
| "find_column i (c # cs) name = (if col_Name c = name then Some (c, i) else find_column (Suc i) cs name)"

definition schema_column :: "Schema \<Rightarrow> string \<Rightarrow> (Column \<times> nat) option" where
  "schema_column s name = find_column 0 (sch_Columns s) name"

definition primaryKeyColumn :: "Schema \<Rightarrow> Column" where
  "primaryKeyColumn s = sch_Columns s ! sch_PrimaryKey s"

text \<open>The loop of \<open>buildSchema\<close>: the columns seen so far and the index of the primary key among them.\<close>

fun build_columns :: "Column list \<Rightarrow> nat option \<Rightarrow> ColumnDef list \<Rightarrow> sql_error + Column list \<times> nat option" where
  "build_columns cols pkIndex [] = Inr (cols, pkIndex)"
| "build_columns cols pkIndex (c # cs) =
     (if cd_Name c \<in> set (map col_Name cols) then Inl (SqlError ErrDuplicateColumn)
      else if \<not> valid_ctype (cd_Type c) then Inl (SqlError ErrUnsupportedFeature)
      else if cd_PrimaryKey c \<and> pkIndex \<noteq> None then Inl (SqlError ErrMultiplePrimaryKeys)
      else build_columns (cols @ [\<lparr>col_Name = cd_Name c, col_Type = cd_Type c\<rparr>])
             (if cd_PrimaryKey c then Some (length cols) else pkIndex) cs)"

definition buildSchema :: "string \<Rightarrow> ColumnDef list \<Rightarrow> sql_error + Schema" where
  "buildSchema tbl columns =
     (if length columns = 0 then Inl (SqlError ErrUnsupportedFeature)
      else if length columns > MaxColumns then Inl (SqlError ErrLimitExceeded)
      else bindR (build_columns [] None columns) (\<lambda>(cols, pkIndex).
             case pkIndex of
               None \<Rightarrow> Inl (SqlError ErrMissingPrimaryKey)
             | Some i \<Rightarrow> Inr \<lparr>sch_Table = tbl, sch_Columns = cols, sch_PrimaryKey = i\<rparr>))"

definition schemaRecordVersion :: char where "schemaRecordVersion = CHR 0x01"

definition encode_column :: "Column \<Rightarrow> bytes" where
  "encode_column c = PutUint16 (length (col_Name c)) @ col_Name c @ [type_code (col_Type c)]"

definition encodeSchema :: "Schema \<Rightarrow> bytes" where
  "encodeSchema s = [schemaRecordVersion] @ PutUint16 (length (sch_Table s)) @ sch_Table s
     @ PutUint16 (length (sch_Columns s)) @ PutUint16 (sch_PrimaryKey s) @ concat (map encode_column (sch_Columns s))"

definition decode_column :: "bytes \<Rightarrow> sql_error + Column \<times> bytes" where
  "decode_column b =
     bindR (take_u16 (SqlError ErrSyntax) b) (\<lambda>(nameLen, b).
     bindR (take_n (SqlError ErrSyntax) nameLen b) (\<lambda>(name, b).
     bindR (take_byte (SqlError ErrSyntax) b) (\<lambda>(c, b).
       let ct = ColumnType_of c
       in if \<not> valid_ctype ct then Inl (SqlError ErrUnsupportedFeature)
          else Inr (\<lparr>col_Name = name, col_Type = ct\<rparr>, b))))"

definition decodeSchema :: "bytes \<Rightarrow> sql_error + Schema" where
  "decodeSchema b =
     (if length b < 1 + 2 then Inl (SqlError ErrSyntax)
      else if b ! 0 \<noteq> schemaRecordVersion then Inl (SqlError ErrUnsupportedFeature)
      else bindR (take_u16 (SqlError ErrSyntax) (drop 1 b)) (\<lambda>(tableLen, b).
           bindR (take_n (SqlError ErrSyntax) tableLen b) (\<lambda>(tbl, b).
             if length b < 2 + 2 then Inl (SqlError ErrSyntax)
             else bindR (take_u16 (SqlError ErrSyntax) b) (\<lambda>(numCols, b).
                  bindR (take_u16 (SqlError ErrSyntax) b) (\<lambda>(pkIndex, b).
                    if numCols > length b div (2 + 1) then Inl (SqlError ErrSyntax)
                    else if pkIndex \<ge> numCols then Inl (SqlError ErrSyntax)
                    else bindR (dec_many decode_column numCols b) (\<lambda>(cols, b).
                      if b \<noteq> [] then Inl (SqlError ErrSyntax)
                      else Inr \<lparr>sch_Table = tbl, sch_Columns = cols, sch_PrimaryKey = pkIndex\<rparr>))))))"

section \<open>Keys\<close>

definition schemaKeyTag :: char where "schemaKeyTag = CHR 0x01"

definition rowKeyTag :: char where "rowKeyTag = CHR 0x02"

definition schemaKey :: "string \<Rightarrow> string" where
  "schemaKey tbl = schemaKeyTag # tbl"

definition rowKeyPrefix :: "string \<Rightarrow> string" where
  "rowKeyPrefix tbl = rowKeyTag # tbl @ [CHR 0x00]"

text \<open>\<open>None\<close> is the panic of \<open>encodePKValue\<close>.\<close>

definition encodePKValue :: "Value \<Rightarrow> bytes option" where
  "encodePKValue v = (case val_Type v of
     TypeInteger \<Rightarrow> Some (type_code TypeInteger # PutUint64 (val_Int v))
   | TypeBoolean \<Rightarrow> Some [type_code TypeBoolean, if val_Bool v then CHR 0x01 else CHR 0x00]
   | TypeText \<Rightarrow> Some (type_code TypeText # val_Text v)
   | TypeOther c \<Rightarrow> None)"

definition rowKey :: "string \<Rightarrow> Value \<Rightarrow> string option" where
  "rowKey tbl pk = map_option (\<lambda>b. rowKeyPrefix tbl @ b) (encodePKValue pk)"

section \<open>Rows\<close>

definition rowRecordVersion :: char where "rowRecordVersion = CHR 0x01"

definition encode_value :: "Value \<Rightarrow> bytes" where
  "encode_value v = type_code (val_Type v) # (case val_Type v of
     TypeInteger \<Rightarrow> PutUint64 (val_Int v)
   | TypeBoolean \<Rightarrow> [if val_Bool v then CHR 0x01 else CHR 0x00]
   | TypeText \<Rightarrow> PutUint32 (len32 (val_Text v)) @ val_Text v
   | TypeOther c \<Rightarrow> [])"

definition encodeRow :: "Value list \<Rightarrow> bytes" where
  "encodeRow vals = [rowRecordVersion] @ PutUint16 (length vals) @ concat (map encode_value vals)"

definition decode_value :: "ColumnType \<Rightarrow> bytes \<Rightarrow> sql_error + Value \<times> bytes" where
  "decode_value ct b = (case ct of
     TypeInteger \<Rightarrow> bindR (take_u64 (SqlError ErrSyntax) b) (\<lambda>(w, b). Inr (intValue w, b))
   | TypeBoolean \<Rightarrow> bindR (take_byte (SqlError ErrSyntax) b) (\<lambda>(c, b). Inr (boolValue (c \<noteq> CHR 0x00), b))
   | TypeText \<Rightarrow> bindR (take_u32 (SqlError ErrSyntax) b) (\<lambda>(strLen, b).
       bindR (take_n (SqlError ErrSyntax) (unat strLen) b) (\<lambda>(s, b). Inr (textValue s, b)))
   | TypeOther c \<Rightarrow> Inl (SqlError ErrUnsupportedFeature))"

fun decode_columns :: "Column list \<Rightarrow> bytes \<Rightarrow> sql_error + Value list \<times> bytes" where
  "decode_columns [] b = Inr ([], b)"
| "decode_columns (c # cs) b =
     bindR (take_byte (SqlError ErrSyntax) b) (\<lambda>(t, b).
       let ct = ColumnType_of t
       in if ct \<noteq> col_Type c then Inl (SqlError ErrTypeMismatch)
          else bindR (decode_value ct b) (\<lambda>(v, b).
               bindR (decode_columns cs b) (\<lambda>(vs, b). Inr (v # vs, b))))"

definition decodeRow :: "Schema \<Rightarrow> bytes \<Rightarrow> sql_error + Value list" where
  "decodeRow schema b =
     (if length b < 1 + 2 then Inl (SqlError ErrSyntax)
      else if b ! 0 \<noteq> rowRecordVersion then Inl (SqlError ErrUnsupportedFeature)
      else bindR (take_u16 (SqlError ErrSyntax) (drop 1 b)) (\<lambda>(numCols, b).
             if numCols \<noteq> length (sch_Columns schema) then Inl (SqlError ErrSyntax)
             else bindR (decode_columns (sch_Columns schema) b) (\<lambda>(vals, b).
               if b \<noteq> [] then Inl (SqlError ErrSyntax) else Inr vals)))"

section \<open>Round trips\<close>

text \<open>The schemas the statements create: distinct names and valid types, within the format's widths.\<close>

definition column_fits :: "Column \<Rightarrow> bool" where
  "column_fits c \<longleftrightarrow> length (col_Name c) < 65536 \<and> valid_ctype (col_Type c)"

definition schema_ok :: "Schema \<Rightarrow> bool" where
  "schema_ok s \<longleftrightarrow> length (sch_Table s) < 65536 \<and> length (sch_Columns s) \<le> MaxColumns \<and> sch_PrimaryKey s < length (sch_Columns s)
     \<and> distinct (map col_Name (sch_Columns s)) \<and> list_all column_fits (sch_Columns s)"

interpretation colc: codec encode_column decode_column column_fits 3
  by unfold_locales (simp_all add: encode_column_def decode_column_def column_fits_def)

lemma decodeSchema_encodeSchema:
  assumes "schema_ok s"
  shows "decodeSchema (encodeSchema s) = Inr s"
proof -
  have cols: "\<forall>c \<in> set (sch_Columns s). column_fits c" and n: "length (sch_Columns s) < 65536" "sch_PrimaryKey s < length (sch_Columns s)"
    using assms by (simp_all add: schema_ok_def list_all_iff MaxColumns_def)
  have "length (sch_Columns s) \<le> length (concat (map encode_column (sch_Columns s))) div 3"
    using colc.count_bound [OF cols, of "[]"] by simp
  then show ?thesis
    using colc.dec_many_enc [OF cols, of "[]"] n assms
    by (simp add: decodeSchema_def encodeSchema_def schema_ok_def)
qed

lemma buildSchema_columns:
  "build_columns cols pk cs = Inr (cols', pk') \<Longrightarrow> distinct (map col_Name cols) \<Longrightarrow> list_all (\<lambda>c. valid_ctype (col_Type c)) cols
     \<Longrightarrow> pred_option (\<lambda>i. i < length cols) pk
     \<Longrightarrow> cols' = cols @ map (\<lambda>c. \<lparr>col_Name = cd_Name c, col_Type = cd_Type c\<rparr>) cs \<and> distinct (map col_Name cols')
       \<and> list_all (\<lambda>c. valid_ctype (col_Type c)) cols' \<and> pred_option (\<lambda>i. i < length cols') pk'"
proof (induction cols pk cs rule: build_columns.induct)
  case (2 cols pk c cs)
  let ?cols = "cols @ [\<lparr>col_Name = cd_Name c, col_Type = cd_Type c\<rparr>]"
  let ?pk = "if cd_PrimaryKey c then Some (length cols) else pk"
  have c: "cd_Name c \<notin> set (map col_Name cols)" "\<not> \<not> valid_ctype (cd_Type c)" "\<not> (cd_PrimaryKey c \<and> pk \<noteq> None)"
      "build_columns ?cols ?pk cs = Inr (cols', pk')"
    using "2.prems"(1) by (auto split: if_splits)
  have "distinct (map col_Name ?cols)" "list_all (\<lambda>c. valid_ctype (col_Type c)) ?cols" "pred_option (\<lambda>i. i < length ?cols) ?pk"
    using "2.prems"(2-4) c(1,2) by (cases pk; simp)+
  note IH = "2.IH" [OF c this]
  then have "cols' = cols @ map (\<lambda>c. \<lparr>col_Name = cd_Name c, col_Type = cd_Type c\<rparr>) (c # cs)" by simp
  then show ?case using IH by blast
qed simp

lemma buildSchema_ok:
  assumes "buildSchema tbl cs = Inr s" "length tbl < 65536" "\<forall>c \<in> set cs. length (cd_Name c) < 65536"
  shows "schema_ok s" "sch_Table s = tbl" "sch_Columns s = map (\<lambda>c. \<lparr>col_Name = cd_Name c, col_Type = cd_Type c\<rparr>) cs"
proof -
  obtain cols i where b: "build_columns [] None cs = Inr (cols, Some i)" "s = \<lparr>sch_Table = tbl, sch_Columns = cols, sch_PrimaryKey = i\<rparr>"
      "length cs \<le> MaxColumns"
    using assms(1) by (auto simp: buildSchema_def bindR_eq_Inr split: if_splits option.splits)
  from buildSchema_columns [OF b(1)] have c: "cols = map (\<lambda>c. \<lparr>col_Name = cd_Name c, col_Type = cd_Type c\<rparr>) cs" "distinct (map col_Name cols)"
      "list_all (\<lambda>c. valid_ctype (col_Type c)) cols" "i < length cols" by auto
  show "schema_ok s" using b(2,3) c assms(2,3) by (auto simp: schema_ok_def column_fits_def list_all_iff)
  show "sch_Table s = tbl" "sch_Columns s = map (\<lambda>c. \<lparr>col_Name = cd_Name c, col_Type = cd_Type c\<rparr>) cs" using b(2) c(1) by simp_all
qed

text \<open>A value of a type, as the binder and the decoder make them.\<close>

definition value_of_type :: "ColumnType \<Rightarrow> Value \<Rightarrow> bool" where
  "value_of_type t v \<longleftrightarrow> t = TypeInteger \<and> v = intValue (val_Int v) \<or> t = TypeText \<and> v = textValue (val_Text v) \<and> short (val_Text v)
     \<or> t = TypeBoolean \<and> v = boolValue (val_Bool v)"

definition row_typed :: "Column list \<Rightarrow> Value list \<Rightarrow> bool" where
  "row_typed cs vs \<longleftrightarrow> list_all2 (\<lambda>c v. value_of_type (col_Type c) v) cs vs"

lemma value_fields [simp]:
  "val_Type (intValue i) = TypeInteger" "val_Int (intValue i) = i" "val_Type (textValue s) = TypeText" "val_Text (textValue s) = s"
  "val_Type (boolValue b) = TypeBoolean" "val_Bool (boolValue b) = b"
  by (simp_all add: intValue_def textValue_def boolValue_def)

lemma value_of_typeE:
  assumes "value_of_type t v"
  obtains i where "t = TypeInteger" "v = intValue i" | s where "t = TypeText" "v = textValue s" "short s" | b where "t = TypeBoolean" "v = boolValue b"
  using assms unfolding value_of_type_def by blast

lemma decode_columns_encode: "row_typed cs vs \<Longrightarrow> decode_columns cs (concat (map encode_value vs) @ r) = Inr (vs, r)"
  unfolding row_typed_def
proof (induction rule: list_all2_induct)
  case (Cons c cs v vs)
  from Cons(1) have "\<exists>w. encode_value v = type_code (col_Type c) # w \<and> (\<forall>x. decode_value (col_Type c) (w @ x) = Inr (v, x)) \<and> valid_ctype (col_Type c)"
    by (cases rule: value_of_typeE) (simp_all add: decode_value_def encode_value_def short_def valid_ctype_def)
  then show ?case using Cons(3) by auto
qed simp

lemma decodeRow_encodeRow:
  assumes "row_typed (sch_Columns s) vs" "length (sch_Columns s) < 65536"
  shows "decodeRow s (encodeRow vs) = Inr vs"
  using assms list_all2_lengthD [OF assms(1) [unfolded row_typed_def]] decode_columns_encode [OF assms(1), of "[]"]
  by (simp add: decodeRow_def encodeRow_def)

lemma decode_columns_typed: "decode_columns cs b = Inr (vs, r) \<Longrightarrow> row_typed cs vs"
proof (induction cs arbitrary: b vs r)
  case Nil
  then show ?case by (simp add: row_typed_def)
next
  case (Cons c cs)
  from Cons.prems obtain t b1 v b2 vs' r' where d: "take_byte (SqlError ErrSyntax) b = Inr (t, b1)" "decode_value (col_Type c) b1 = Inr (v, b2)"
      "decode_columns cs b2 = Inr (vs', r')" "vs = v # vs'"
    by (auto simp: bindR_eq_Inr Let_def split: if_splits)
  have "unat (w :: u32) < 2 ^ 32" for w using unsigned_less [of w] by simp
  then have "value_of_type (col_Type c) v"
    using d(2) by (auto simp: decode_value_def value_of_type_def bindR_eq_Inr short_def split: ColumnType.splits dest!: take_n_Inr simp del: unsigned_less)
  then show ?case using Cons.IH d by (auto simp: row_typed_def)
qed

lemma decodeRow_typed: "decodeRow s b = Inr vs \<Longrightarrow> row_typed (sch_Columns s) vs"
  by (auto simp: decodeRow_def bindR_eq_Inr split: if_splits dest: decode_columns_typed)

section \<open>Keys never meet\<close>

lemma encodePKValue_typed: "value_of_type t v \<Longrightarrow> \<exists>b. encodePKValue v = Some b"
  by (erule value_of_typeE) (simp_all add: encodePKValue_def)

lemma encodePKValue_inj:
  assumes "value_of_type t v" "value_of_type t' v'" "encodePKValue v = encodePKValue v'"
  shows "v = v'"
  using assms u64c.enc_inj [of "val_Int v" "val_Int v'"]
  by (elim value_of_typeE) (auto simp: encodePKValue_def split: if_splits)

lemma prefix_split: "c \<notin> set xs \<Longrightarrow> c \<notin> set ys \<Longrightarrow> xs @ c # us = ys @ c # vs \<Longrightarrow> xs = ys \<and> us = vs"
  by (induction xs arbitrary: ys) (case_tac ys; auto)+

lemma rowKey_inj:
  assumes "CHR 0x00 \<notin> set tbl" "CHR 0x00 \<notin> set tbl'" "value_of_type t v" "value_of_type t' v'" "rowKey tbl v = rowKey tbl' v'"
  shows "tbl = tbl' \<and> v = v'"
proof -
  obtain b b' where b: "encodePKValue v = Some b" "encodePKValue v' = Some b'" using encodePKValue_typed assms(3,4) by blast
  then have "tbl @ CHR 0x00 # b = tbl' @ CHR 0x00 # b'" using assms(5) by (simp add: rowKey_def rowKeyPrefix_def)
  from prefix_split [OF assms(1,2) this] show ?thesis using b encodePKValue_inj [OF assms(3,4)] by simp
qed

lemma rowKey_prefix:
  assumes "CHR 0x00 \<notin> set tbl" "CHR 0x00 \<notin> set tbl'" "rowKey tbl' v = Some k"
  shows "take (length (rowKeyPrefix tbl)) k = rowKeyPrefix tbl \<longleftrightarrow> tbl' = tbl"
proof
  assume p: "take (length (rowKeyPrefix tbl)) k = rowKeyPrefix tbl"
  obtain b where b: "k = rowKeyPrefix tbl' @ b" using assms(3) by (auto simp: rowKey_def)
  have "k = rowKeyPrefix tbl @ drop (length (rowKeyPrefix tbl)) k" using p by (metis append_take_drop_id)
  then have "tbl' @ CHR 0x00 # b = tbl @ CHR 0x00 # drop (length (rowKeyPrefix tbl)) k" using b by (simp add: rowKeyPrefix_def)
  from prefix_split [OF assms(2,1) this] show "tbl' = tbl" by simp
next
  assume "tbl' = tbl"
  then show "take (length (rowKeyPrefix tbl)) k = rowKeyPrefix tbl" using assms(3) by (auto simp: rowKey_def)
qed

lemma schemaKey_inj [simp]: "schemaKey t = schemaKey t' \<longleftrightarrow> t = t'"
  by (simp add: schemaKey_def)

lemma schemaKey_rowKey: "rowKey tbl v \<noteq> Some (schemaKey tbl')" "take (length (rowKeyPrefix tbl)) (schemaKey tbl') \<noteq> rowKeyPrefix tbl"
  by (auto simp: rowKey_def rowKeyPrefix_def schemaKey_def schemaKeyTag_def rowKeyTag_def)

end
