(* ===== verification/Sql_Plan.thy ===== *)
theory Sql_Plan
  imports Sql_Schema
begin

text \<open>
  The binder of the SQL frontend (\<^verbatim>\<open>internal/sql/plan.go\<close>): names are resolved against a schema, literals are
  checked against the types of their columns, and the plans that come out are typed.
\<close>

section \<open>Literals and predicates\<close>

definition bindLiteral :: "Literal \<Rightarrow> ColumnType \<Rightarrow> sql_error + Value" where
  "bindLiteral lit want = (case lit_Kind lit of
     LiteralInt \<Rightarrow> if want \<noteq> TypeInteger then Inl (SqlError ErrTypeMismatch) else Inr (intValue (lit_Int lit))
   | LiteralString \<Rightarrow> if want \<noteq> TypeText then Inl (SqlError ErrTypeMismatch) else Inr (textValue (lit_Str lit))
   | LiteralBool \<Rightarrow> if want \<noteq> TypeBoolean then Inl (SqlError ErrTypeMismatch) else Inr (boolValue (lit_Bool lit))
   | LiteralOther k \<Rightarrow> Inl (SqlError ErrSyntax))"

definition bindPredicate :: "Schema \<Rightarrow> Predicate \<Rightarrow> sql_error + Value" where
  "bindPredicate schema pred =
     (if pred_Column pred \<noteq> col_Name (primaryKeyColumn schema) then Inl (SqlError ErrInvalidPredicate)
      else bindLiteral (pred_Value pred) (col_Type (primaryKeyColumn schema)))"

section \<open>Insert\<close>

record insertPlan =
  ip_schema :: Schema
  ip_pk :: Value
  ip_values :: "Value list"

text \<open>The loop over an explicit column list, with the names seen so far.\<close>

fun target_columns :: "Schema \<Rightarrow> string list \<Rightarrow> string list \<Rightarrow> sql_error + nat list" where
  "target_columns schema seenNames [] = Inr []"
| "target_columns schema seenNames (name # names) =
     (if name \<in> set seenNames then Inl (SqlError ErrDuplicateColumn)
      else case schema_column schema name of
        None \<Rightarrow> Inl (SqlError ErrUnknownColumn)
      | Some (c, idx) \<Rightarrow> bindR (target_columns schema (name # seenNames) names) (\<lambda>is. Inr (idx # is)))"

definition insert_targets :: "Schema \<Rightarrow> string list option \<Rightarrow> nat \<Rightarrow> sql_error + nat list" where
  "insert_targets schema columns numValues =
     (case columns of
        None \<Rightarrow> if numValues \<noteq> length (sch_Columns schema) then Inl (SqlError ErrUnsupportedFeature)
          else Inr [0..<length (sch_Columns schema)]
      | Some names \<Rightarrow>
          if length names \<noteq> numValues then Inl (SqlError ErrUnsupportedFeature)
          else bindR (target_columns schema [] names) (\<lambda>targets.
                 if length names \<noteq> length (sch_Columns schema) then Inl (SqlError ErrUnsupportedFeature) else Inr targets))"

text \<open>The loop that binds the values: the row so far and which of its columns are filled.\<close>

fun fill_row :: "Schema \<Rightarrow> (nat \<times> Literal) list \<Rightarrow> Value list \<Rightarrow> bool list \<Rightarrow> sql_error + Value list \<times> bool list" where
  "fill_row schema [] vals filled = Inr (vals, filled)"
| "fill_row schema ((colIdx, lit) # ls) vals filled =
     bindR (bindLiteral lit (col_Type (sch_Columns schema ! colIdx))) (\<lambda>v.
       fill_row schema ls (vals[colIdx := v]) (filled[colIdx := True]))"

definition planInsert :: "Schema \<Rightarrow> string list option \<Rightarrow> Literal list \<Rightarrow> sql_error + insertPlan" where
  "planInsert schema columns lits =
     bindR (insert_targets schema columns (length lits)) (\<lambda>targetCols.
     bindR (fill_row schema (zip targetCols lits) (replicate (length (sch_Columns schema)) noValue)
              (replicate (length (sch_Columns schema)) False)) (\<lambda>(vals, filled).
       if False \<in> set filled then Inl (SqlError ErrUnsupportedFeature)
       else Inr \<lparr>ip_schema = schema, ip_pk = vals ! sch_PrimaryKey schema, ip_values = vals\<rparr>))"

section \<open>Select\<close>

record selectPlan =
  sp_schema :: Schema
  sp_columnIdx :: "nat list"
  sp_pkPredicate :: "Value option"

fun projected_columns :: "Schema \<Rightarrow> string list \<Rightarrow> sql_error + nat list" where
  "projected_columns schema [] = Inr []"
| "projected_columns schema (name # names) =
     (case schema_column schema name of
        None \<Rightarrow> Inl (SqlError ErrUnknownColumn)
      | Some (c, ci) \<Rightarrow> bindR (projected_columns schema names) (\<lambda>is. Inr (ci # is)))"

definition planSelect :: "Schema \<Rightarrow> string list option \<Rightarrow> Predicate option \<Rightarrow> sql_error + selectPlan" where
  "planSelect schema columns whr =
     bindR (case columns of None \<Rightarrow> Inr [0..<length (sch_Columns schema)] | Some names \<Rightarrow> projected_columns schema names) (\<lambda>idx.
     bindR (case whr of None \<Rightarrow> Inr None | Some pred \<Rightarrow> bindR (bindPredicate schema pred) (\<lambda>v. Inr (Some v))) (\<lambda>pk.
       Inr \<lparr>sp_schema = schema, sp_columnIdx = idx, sp_pkPredicate = pk\<rparr>))"

section \<open>Update and delete\<close>

record columnAssignment =
  ca_Index :: nat
  ca_Value :: Value

record updatePlan =
  up_schema :: Schema
  up_pk :: Value
  up_assignments :: "columnAssignment list"

fun bind_assignments :: "Schema \<Rightarrow> nat list \<Rightarrow> Assignment list \<Rightarrow> sql_error + columnAssignment list" where
  "bind_assignments schema seen [] = Inr []"
| "bind_assignments schema seen (a # as) =
     (case schema_column schema (asg_Column a) of
        None \<Rightarrow> Inl (SqlError ErrUnknownColumn)
      | Some (c, idx) \<Rightarrow>
          if idx \<in> set seen then Inl (SqlError ErrDuplicateColumn)
          else if idx = sch_PrimaryKey schema then Inl (SqlError ErrUnsupportedFeature)
          else bindR (bindLiteral (asg_Value a) (col_Type (sch_Columns schema ! idx))) (\<lambda>v.
               bindR (bind_assignments schema (idx # seen) as) (\<lambda>cas. Inr (\<lparr>ca_Index = idx, ca_Value = v\<rparr> # cas))))"

definition planUpdate :: "Schema \<Rightarrow> Assignment list \<Rightarrow> Predicate \<Rightarrow> sql_error + updatePlan" where
  "planUpdate schema assigns whr =
     bindR (bindPredicate schema whr) (\<lambda>pk.
     bindR (bind_assignments schema [] assigns) (\<lambda>cas.
       Inr \<lparr>up_schema = schema, up_pk = pk, up_assignments = cas\<rparr>))"

record deletePlan =
  dp_schema :: Schema
  dp_pk :: Value

definition planDelete :: "Schema \<Rightarrow> Predicate \<Rightarrow> sql_error + deletePlan" where
  "planDelete schema whr = bindR (bindPredicate schema whr) (\<lambda>pk. Inr \<lparr>dp_schema = schema, dp_pk = pk\<rparr>)"

section \<open>Plans are typed\<close>

lemma find_column_Some:
  "find_column i cs name = Some (c, j) \<Longrightarrow> i \<le> j \<and> j < i + length cs \<and> c = cs ! (j - i) \<and> col_Name c = name"
  by (induction cs arbitrary: i) (fastforce split: if_splits simp: nth_Cons')+

lemma schema_column_Some: "schema_column s name = Some (c, j) \<Longrightarrow> j < length (sch_Columns s) \<and> c = sch_Columns s ! j \<and> col_Name c = name"
  using find_column_Some [of 0 "sch_Columns s" name c j] by (auto simp: schema_column_def)

lemma schema_column_bound: "schema_column s name = Some (c, j) \<Longrightarrow> j < length (sch_Columns s)"
  using schema_column_Some by blast

text \<open>A literal whose string fits the row format.\<close>

definition literal_fits :: "Literal \<Rightarrow> bool" where
  "literal_fits l \<longleftrightarrow> short (lit_Str l)"

lemma bindLiteral_typed: "bindLiteral lit t = Inr v \<Longrightarrow> literal_fits lit \<Longrightarrow> value_of_type t v"
  by (auto simp: bindLiteral_def literal_fits_def value_of_type_def split: LiteralKind.splits if_splits)

lemma bindPredicate_typed:
  "bindPredicate s q = Inr v \<Longrightarrow> literal_fits (pred_Value q) \<Longrightarrow> value_of_type (col_Type (primaryKeyColumn s)) v"
  by (auto simp: bindPredicate_def bindLiteral_typed split: if_splits)

lemma target_columns_bound: "target_columns s seen names = Inr is \<Longrightarrow> length is = length names \<and> (\<forall>i \<in> set is. i < length (sch_Columns s))"
  by (induction s seen names arbitrary: "is" rule: target_columns.induct)
    (force simp: bindR_eq_Inr split: if_splits option.splits dest: schema_column_bound)+

lemma insert_targets_bound: "insert_targets s cols n = Inr is \<Longrightarrow> length is = n \<and> (\<forall>i \<in> set is. i < length (sch_Columns s))"
  by (auto simp: insert_targets_def bindR_eq_Inr split: option.splits if_splits dest: target_columns_bound)

lemma fill_row_typed:
  assumes "fill_row s ls vals filled = Inr (vals', filled')" "\<forall>(i, l) \<in> set ls. i < length (sch_Columns s) \<and> literal_fits l"
    and "length vals = length (sch_Columns s)" "length filled = length (sch_Columns s)"
    and "\<forall>i < length (sch_Columns s). filled ! i \<longrightarrow> value_of_type (col_Type (sch_Columns s ! i)) (vals ! i)"
  shows "length vals' = length (sch_Columns s) \<and> length filled' = length (sch_Columns s)
     \<and> (\<forall>i < length (sch_Columns s). filled' ! i \<longrightarrow> value_of_type (col_Type (sch_Columns s ! i)) (vals' ! i))"
  using assms
proof (induction s ls vals filled rule: fill_row.induct)
  case (2 s i l ls vals filled)
  from "2.prems"(1) obtain v where v: "bindLiteral l (col_Type (sch_Columns s ! i)) = Inr v"
      "fill_row s ls (vals[i := v]) (filled[i := True]) = Inr (vals', filled')" by (auto simp: bindR_eq_Inr)
  have "value_of_type (col_Type (sch_Columns s ! i)) v" using bindLiteral_typed [OF v(1)] "2.prems"(2) by simp
  then show ?case using "2.prems" by (intro "2.IH" [OF v]) (auto simp: nth_list_update)
qed simp

lemma planInsert_typed:
  assumes "planInsert s cols lits = Inr p" "list_all literal_fits lits" "sch_PrimaryKey s < length (sch_Columns s)"
  shows "row_typed (sch_Columns s) (ip_values p)" "ip_pk p = ip_values p ! sch_PrimaryKey s"
    "value_of_type (col_Type (primaryKeyColumn s)) (ip_pk p)"
proof -
  let ?n = "length (sch_Columns s)"
  obtain "is" vals filled where f: "insert_targets s cols (length lits) = Inr is"
      "fill_row s (zip is lits) (replicate ?n noValue) (replicate ?n False) = Inr (vals, filled)" "False \<notin> set filled"
      and p: "p = \<lparr>ip_schema = s, ip_pk = vals ! sch_PrimaryKey s, ip_values = vals\<rparr>"
    using assms(1) by (auto simp: planInsert_def bindR_eq_Inr split: if_splits)
  have "\<forall>(i, l) \<in> set (zip is lits). i < ?n \<and> literal_fits l"
    using insert_targets_bound [OF f(1)] assms(2) by (auto simp: list_all_iff dest: set_zip_leftD set_zip_rightD)
  from fill_row_typed [OF f(2) this] have t: "length vals = ?n" "length filled = ?n"
      "\<forall>i < ?n. filled ! i \<longrightarrow> value_of_type (col_Type (sch_Columns s ! i)) (vals ! i)" by auto
  have "\<forall>i < ?n. filled ! i" using f(3) t(2) by (metis nth_mem)
  then have r: "row_typed (sch_Columns s) vals" using t by (simp add: row_typed_def list_all2_conv_all_nth)
  show "row_typed (sch_Columns s) (ip_values p)" "ip_pk p = ip_values p ! sch_PrimaryKey s" using r p by simp_all
  show "value_of_type (col_Type (primaryKeyColumn s)) (ip_pk p)"
    using r p assms(3) by (simp add: row_typed_def list_all2_conv_all_nth primaryKeyColumn_def)
qed

lemma projected_columns_bound: "projected_columns s names = Inr is \<Longrightarrow> \<forall>i \<in> set is. i < length (sch_Columns s)"
  by (induction s names arbitrary: "is" rule: projected_columns.induct)
    (force simp: bindR_eq_Inr split: option.splits dest: schema_column_bound)+

lemma planSelect_typed:
  assumes "planSelect s cols whr = Inr p" "pred_option (\<lambda>q. literal_fits (pred_Value q)) whr"
  shows "\<forall>i \<in> set (sp_columnIdx p). i < length (sch_Columns s)"
    "pred_option (value_of_type (col_Type (primaryKeyColumn s))) (sp_pkPredicate p)"
  using assms
  by (auto simp: planSelect_def bindR_eq_Inr split: option.splits dest: projected_columns_bound bindPredicate_typed)

lemma bind_assignments_typed:
  "bind_assignments s seen as = Inr cas \<Longrightarrow> list_all (\<lambda>a. literal_fits (asg_Value a)) as
     \<Longrightarrow> \<forall>a \<in> set cas. ca_Index a < length (sch_Columns s) \<and> ca_Index a \<noteq> sch_PrimaryKey s
          \<and> value_of_type (col_Type (sch_Columns s ! ca_Index a)) (ca_Value a)"
  by (induction s seen as arbitrary: cas rule: bind_assignments.induct)
    (force simp: bindR_eq_Inr split: option.splits if_splits dest: schema_column_bound bindLiteral_typed)+

end
