(* ===== verification/Sql_Exec.thy ===== *)
theory Sql_Exec
  imports Sql_Plan Mvcc
begin

text \<open>
  Execution of SQL statements (\<^verbatim>\<open>internal/sql/exec.go\<close>) over the interfaces \<open>Txn\<close> and \<open>Engine\<close> of
  \<^verbatim>\<open>engine.go\<close>. The interface is a record of its operations; the state of the deployment and the open
  transaction are passed through them.
\<close>

section \<open>The engine interface\<close>

datatype 'e exec_error = Frontend sql_error | EngineError 'e | Panic

record RequestOutcome =
  ro_Committed :: bool
  ro_CommitSeq :: u64

record ('m, 't, 'e) Engine =
  eng_Begin :: "'m \<Rightarrow> ('e + 't) \<times> 'm"
  eng_LookupOutcome :: "'m \<Rightarrow> string \<Rightarrow> RequestOutcome option"
  eng_Read :: "'m \<Rightarrow> 't \<Rightarrow> string \<Rightarrow> 'e + bytes option"
  eng_ScanPrefix :: "'m \<Rightarrow> 't \<Rightarrow> string \<Rightarrow> 'e + KV list"
  eng_Write :: "string \<Rightarrow> bytes \<Rightarrow> 't \<Rightarrow> 'e + 't"
  eng_Delete :: "string \<Rightarrow> 't \<Rightarrow> 'e + 't"
  eng_Commit :: "string \<Rightarrow> 'm \<Rightarrow> 't \<Rightarrow> 'm \<times> 't \<times> ('e exec_error + u64)"
  eng_Abort :: "'m \<Rightarrow> 't \<Rightarrow> 'm \<times> 't \<times> 'e option"

definition sql_part :: "sql_error + 'a \<Rightarrow> 'e exec_error + 'a" where
  "sql_part r = (case r of Inl e \<Rightarrow> Inl (Frontend e) | Inr x \<Rightarrow> Inr x)"

definition engine_part :: "'e + 'a \<Rightarrow> 'e exec_error + 'a" where
  "engine_part r = (case r of Inl e \<Rightarrow> Inl (EngineError e) | Inr x \<Rightarrow> Inr x)"

lemma parts_simps [simp]:
  "sql_part (Inl e) = Inl (Frontend e)" "sql_part (Inr x) = Inr x" "engine_part (Inl f) = Inl (EngineError f)" "engine_part (Inr y) = Inr y"
  by (simp_all add: sql_part_def engine_part_def)

section \<open>Results\<close>

datatype ResultKind = ResultOK | ResultRows

record Result =
  res_Kind :: ResultKind
  res_RowsAffected :: nat
  res_Columns :: "string list"
  res_Rows :: "Value list list"
  res_CommitSeq :: u64

definition okResult :: "nat \<Rightarrow> Result" where
  "okResult n = \<lparr>res_Kind = ResultOK, res_RowsAffected = n, res_Columns = [], res_Rows = [], res_CommitSeq = 0\<rparr>"

definition rowsResult :: "string list \<Rightarrow> Value list list \<Rightarrow> Result" where
  "rowsResult cols rows = \<lparr>res_Kind = ResultRows, res_RowsAffected = 0, res_Columns = cols, res_Rows = rows, res_CommitSeq = 0\<rparr>"

section \<open>Statements\<close>

definition getSchema :: "('m, 't, 'e) Engine \<Rightarrow> 'm \<Rightarrow> 't \<Rightarrow> string \<Rightarrow> 'e exec_error + Schema" where
  "getSchema eng m t tbl =
     bindR (engine_part (eng_Read eng m t (schemaKey tbl))) (\<lambda>found.
       case found of None \<Rightarrow> Inl (Frontend (SqlError ErrUnknownTable)) | Some b \<Rightarrow> sql_part (decodeSchema b))"

definition row_key :: "string \<Rightarrow> Value \<Rightarrow> 'e exec_error + string" where
  "row_key tbl pk = (case rowKey tbl pk of None \<Rightarrow> Inl Panic | Some k \<Rightarrow> Inr k)"

definition execCreateTable :: "('m, 't, 'e) Engine \<Rightarrow> 'm \<Rightarrow> 't \<Rightarrow> string \<Rightarrow> ColumnDef list \<Rightarrow> 'e exec_error + Result \<times> 't" where
  "execCreateTable eng m t tbl cols =
     bindR (sql_part (buildSchema tbl cols)) (\<lambda>schema.
     bindR (engine_part (eng_Read eng m t (schemaKey (sch_Table schema)))) (\<lambda>found.
       if found \<noteq> None then Inl (Frontend (SqlError ErrDuplicateTable))
       else bindR (engine_part (eng_Write eng (schemaKey (sch_Table schema)) (encodeSchema schema) t)) (\<lambda>t1.
              Inr (okResult 0, t1))))"

definition execInsert :: "('m, 't, 'e) Engine \<Rightarrow> 'm \<Rightarrow> 't \<Rightarrow> string \<Rightarrow> string list option \<Rightarrow> Literal list \<Rightarrow> 'e exec_error + Result \<times> 't" where
  "execInsert eng m t tbl cols lits =
     bindR (getSchema eng m t tbl) (\<lambda>schema.
     bindR (sql_part (planInsert schema cols lits)) (\<lambda>plan.
     bindR (row_key (sch_Table schema) (ip_pk plan)) (\<lambda>key.
     bindR (engine_part (eng_Read eng m t key)) (\<lambda>found.
       if found \<noteq> None then Inl (Frontend (SqlError ErrDuplicatePrimaryKey))
       else bindR (engine_part (eng_Write eng key (encodeRow (ip_values plan)) t)) (\<lambda>t1.
              Inr (okResult 1, t1))))))"

definition projectRow :: "Value list \<Rightarrow> nat list \<Rightarrow> Value list" where
  "projectRow vals idx = map (\<lambda>ci. vals ! ci) idx"

text \<open>The loop over the scanned rows.\<close>

fun decode_rows :: "Schema \<Rightarrow> nat list \<Rightarrow> KV list \<Rightarrow> sql_error + Value list list" where
  "decode_rows schema idx [] = Inr []"
| "decode_rows schema idx (kv # kvs) =
     bindR (decodeRow schema (kv_Value kv)) (\<lambda>vals.
     bindR (decode_rows schema idx kvs) (\<lambda>rows. Inr (projectRow vals idx # rows)))"

definition execSelect :: "('m, 't, 'e) Engine \<Rightarrow> 'm \<Rightarrow> 't \<Rightarrow> string \<Rightarrow> string list option \<Rightarrow> Predicate option \<Rightarrow> 'e exec_error + Result \<times> 't" where
  "execSelect eng m t tbl cols whr =
     bindR (getSchema eng m t tbl) (\<lambda>schema.
     bindR (sql_part (planSelect schema cols whr)) (\<lambda>plan.
       let columns = map (\<lambda>ci. col_Name (sch_Columns schema ! ci)) (sp_columnIdx plan)
       in case sp_pkPredicate plan of
            Some pk \<Rightarrow>
              bindR (row_key (sch_Table schema) pk) (\<lambda>key.
              bindR (engine_part (eng_Read eng m t key)) (\<lambda>found.
                case found of
                  None \<Rightarrow> Inr (rowsResult columns [], t)
                | Some b \<Rightarrow> bindR (sql_part (decodeRow schema b)) (\<lambda>vals.
                    Inr (rowsResult columns [projectRow vals (sp_columnIdx plan)], t))))
          | None \<Rightarrow>
              bindR (engine_part (eng_ScanPrefix eng m t (rowKeyPrefix (sch_Table schema)))) (\<lambda>kvs.
              bindR (sql_part (decode_rows schema (sp_columnIdx plan) kvs)) (\<lambda>rows.
                Inr (rowsResult columns rows, t)))))"

definition assign_all :: "columnAssignment list \<Rightarrow> Value list \<Rightarrow> Value list" where
  "assign_all as vals = foldl (\<lambda>vs a. vs[ca_Index a := ca_Value a]) vals as"

definition execUpdate :: "('m, 't, 'e) Engine \<Rightarrow> 'm \<Rightarrow> 't \<Rightarrow> string \<Rightarrow> Assignment list \<Rightarrow> Predicate \<Rightarrow> 'e exec_error + Result \<times> 't" where
  "execUpdate eng m t tbl assigns whr =
     bindR (getSchema eng m t tbl) (\<lambda>schema.
     bindR (sql_part (planUpdate schema assigns whr)) (\<lambda>plan.
     bindR (row_key (sch_Table schema) (up_pk plan)) (\<lambda>key.
     bindR (engine_part (eng_Read eng m t key)) (\<lambda>found.
       case found of
         None \<Rightarrow> Inl (Frontend (SqlError ErrRowNotFound))
       | Some b \<Rightarrow>
           bindR (sql_part (decodeRow schema b)) (\<lambda>vals.
           bindR (engine_part (eng_Write eng key (encodeRow (assign_all (up_assignments plan) vals)) t)) (\<lambda>t1.
             Inr (okResult 1, t1)))))))"

definition execDelete :: "('m, 't, 'e) Engine \<Rightarrow> 'm \<Rightarrow> 't \<Rightarrow> string \<Rightarrow> Predicate \<Rightarrow> 'e exec_error + Result \<times> 't" where
  "execDelete eng m t tbl whr =
     bindR (getSchema eng m t tbl) (\<lambda>schema.
     bindR (sql_part (planDelete schema whr)) (\<lambda>plan.
     bindR (row_key (sch_Table schema) (dp_pk plan)) (\<lambda>key.
     bindR (engine_part (eng_Read eng m t key)) (\<lambda>found.
       if found = None then Inl (Frontend (SqlError ErrRowNotFound))
       else bindR (engine_part (eng_Delete eng key t)) (\<lambda>t1. Inr (okResult 1, t1))))))"

definition execOne :: "('m, 't, 'e) Engine \<Rightarrow> 'm \<Rightarrow> 't \<Rightarrow> Statement \<Rightarrow> 'e exec_error + Result \<times> 't" where
  "execOne eng m t stmt = (case stmt of
     CreateTableStmt tbl cols \<Rightarrow> execCreateTable eng m t tbl cols
   | InsertStmt tbl cols vals \<Rightarrow> execInsert eng m t tbl cols vals
   | SelectStmt tbl cols whr \<Rightarrow> execSelect eng m t tbl cols whr
   | UpdateStmt tbl assigns whr \<Rightarrow> execUpdate eng m t tbl assigns whr
   | DeleteStmt tbl whr \<Rightarrow> execDelete eng m t tbl whr
   | _ \<Rightarrow> Inl (Frontend (SqlError ErrUnsupportedStatement)))"

end
