(* ===== verification/Sql_Refine.thy ===== *)
theory Sql_Refine
  imports Sql_Exec
begin

text \<open>
  What the statements mean, and that they do it. A database is a set of named tables, a table a schema and a
  finite map from primary keys to rows. Over any engine that keeps the contract of the \<open>Txn\<close> interface the
  executor implements these tables: every statement has the effect and the result, or the error, of the
  relational meaning, rows stay typed by their schema, and nothing panics.
\<close>

section \<open>Databases\<close>

type_synonym rows = "Value \<Rightarrow> Value list option"

type_synonym database = "string \<Rightarrow> (Schema \<times> rows) option"

text \<open>The tables in a key-value state.\<close>

definition rows_of :: "(string \<Rightarrow> bytes option) \<Rightarrow> Schema \<Rightarrow> rows" where
  "rows_of V s v = (if value_of_type (col_Type (primaryKeyColumn s)) v
     then case rowKey (sch_Table s) v of None \<Rightarrow> None
       | Some k \<Rightarrow> (case V k of None \<Rightarrow> None | Some b \<Rightarrow> (case decodeRow s b of Inl e \<Rightarrow> None | Inr vs \<Rightarrow> Some vs))
     else None)"

definition db_of :: "(string \<Rightarrow> bytes option) \<Rightarrow> database" where
  "db_of V tbl = (case V (schemaKey tbl) of None \<Rightarrow> None
     | Some b \<Rightarrow> (case decodeSchema b of Inl e \<Rightarrow> None | Inr s \<Rightarrow> Some (s, rows_of V s)))"

text \<open>The states the frontend produces: every schema key holds a schema of its table, and every key with the row tag is
  the key of a row that its table's schema types.\<close>

definition table_name :: "string \<Rightarrow> bool" where
  "table_name tbl \<longleftrightarrow> CHR 0x00 \<notin> set tbl \<and> length tbl < 65536"

definition schema_at :: "(string \<Rightarrow> bytes option) \<Rightarrow> string \<Rightarrow> Schema \<Rightarrow> bool" where
  "schema_at V tbl s \<longleftrightarrow> (\<exists>b. V (schemaKey tbl) = Some b \<and> decodeSchema b = Inr s) \<and> schema_ok s \<and> sch_Table s = tbl \<and> table_name tbl"

definition stored :: "(string \<Rightarrow> bytes option) \<Rightarrow> bool" where
  "stored V \<longleftrightarrow> (\<forall>tbl. V (schemaKey tbl) \<noteq> None \<longrightarrow> (\<exists>s. schema_at V tbl s))
     \<and> (\<forall>k b. V (rowKeyTag # k) = Some b \<longrightarrow> (\<exists>tbl s vs. schema_at V tbl s \<and> decodeRow s b = Inr vs
          \<and> rowKey tbl (vs ! sch_PrimaryKey s) = Some (rowKeyTag # k)))"

section \<open>The meaning of a statement\<close>

definition row_order :: "string \<Rightarrow> rows \<Rightarrow> Value list \<Rightarrow> bool" where
  "row_order tbl rows vs \<longleftrightarrow> set vs = dom rows \<and> sorted_wrt (\<lambda>v w. the (rowKey tbl v) < the (rowKey tbl w)) vs"

definition select_rows :: "string \<Rightarrow> rows \<Rightarrow> selectPlan \<Rightarrow> Value list list \<Rightarrow> bool" where
  "select_rows tbl rows p out = (case sp_pkPredicate p of
     Some v \<Rightarrow> out = (case rows v of None \<Rightarrow> [] | Some r \<Rightarrow> [projectRow r (sp_columnIdx p)])
   | None \<Rightarrow> (\<exists>vs. row_order tbl rows vs \<and> out = map (\<lambda>v. projectRow (the (rows v)) (sp_columnIdx p)) vs))"

definition on_table :: "database \<Rightarrow> string \<Rightarrow> (Schema \<Rightarrow> rows \<Rightarrow> sql_error + Result \<times> database \<Rightarrow> bool) \<Rightarrow> sql_error + Result \<times> database \<Rightarrow> bool" where
  "on_table db tbl f out = (case db tbl of None \<Rightarrow> out = Inl (SqlError ErrUnknownTable) | Some (s, rows) \<Rightarrow> f s rows out)"

fun means :: "Statement \<Rightarrow> database \<Rightarrow> sql_error + Result \<times> database \<Rightarrow> bool" where
  "means (CreateTableStmt tbl cols) db out = (out = bindR (buildSchema tbl cols) (\<lambda>s.
     if db tbl \<noteq> None then Inl (SqlError ErrDuplicateTable) else Inr (okResult 0, db(tbl \<mapsto> (s, Map.empty)))))"
| "means (InsertStmt tbl cols lits) db out = on_table db tbl (\<lambda>s rows out. out = bindR (planInsert s cols lits) (\<lambda>p.
     if rows (ip_pk p) \<noteq> None then Inl (SqlError ErrDuplicatePrimaryKey)
     else Inr (okResult 1, db(tbl \<mapsto> (s, rows(ip_pk p \<mapsto> ip_values p)))))) out"
| "means (SelectStmt tbl cols whr) db out = on_table db tbl (\<lambda>s rows out. case planSelect s cols whr of
     Inl e \<Rightarrow> out = Inl e
   | Inr p \<Rightarrow> \<exists>rs. select_rows tbl rows p rs
       \<and> out = Inr (rowsResult (map (\<lambda>ci. col_Name (sch_Columns s ! ci)) (sp_columnIdx p)) rs, db)) out"
| "means (UpdateStmt tbl assigns whr) db out = on_table db tbl (\<lambda>s rows out. out = bindR (planUpdate s assigns whr) (\<lambda>p.
     case rows (up_pk p) of None \<Rightarrow> Inl (SqlError ErrRowNotFound)
     | Some r \<Rightarrow> Inr (okResult 1, db(tbl \<mapsto> (s, rows(up_pk p \<mapsto> assign_all (up_assignments p) r)))))) out"
| "means (DeleteStmt tbl whr) db out = on_table db tbl (\<lambda>s rows out. out = bindR (planDelete s whr) (\<lambda>p.
     case rows (dp_pk p) of None \<Rightarrow> Inl (SqlError ErrRowNotFound)
     | Some r \<Rightarrow> Inr (okResult 1, db(tbl \<mapsto> (s, rows(dp_pk p := None)))))) out"
| "means st db out = (out = Inl (SqlError ErrUnsupportedStatement))"

text \<open>The statements the storage formats carry; the parser makes no others.\<close>

fun stmt_fits :: "Statement \<Rightarrow> bool" where
  "stmt_fits (CreateTableStmt tbl cols) = (table_name tbl \<and> list_all (\<lambda>c. length (cd_Name c) < 65536) cols)"
| "stmt_fits (InsertStmt tbl cols lits) = list_all literal_fits lits"
| "stmt_fits (SelectStmt tbl cols whr) = pred_option (\<lambda>q. literal_fits (pred_Value q)) whr"
| "stmt_fits (UpdateStmt tbl assigns whr) = (list_all (\<lambda>a. literal_fits (asg_Value a)) assigns \<and> literal_fits (pred_Value whr))"
| "stmt_fits (DeleteStmt tbl whr) = literal_fits (pred_Value whr)"
| "stmt_fits st = True"

section \<open>Stored states\<close>

lemma rowKey_tag: "rowKey tbl v = Some k \<Longrightarrow> \<exists>k'. k = rowKeyTag # k'"
  by (auto simp: rowKey_def rowKeyPrefix_def)

lemma storedD_schema: "stored V \<Longrightarrow> V (schemaKey tbl) \<noteq> None \<Longrightarrow> \<exists>s. schema_at V tbl s"
  by (auto simp: stored_def)

lemma storedD_row:
  assumes "stored V" "rowKey tbl v = Some k" "V k = Some b" "schema_at V tbl s" "value_of_type t v"
  shows "\<exists>vs. decodeRow s b = Inr vs \<and> vs ! sch_PrimaryKey s = v"
proof -
  obtain tbl' s' vs where r: "schema_at V tbl' s'" "decodeRow s' b = Inr vs" "rowKey tbl' (vs ! sch_PrimaryKey s') = Some k"
    using assms(1-3) rowKey_tag [OF assms(2)] unfolding stored_def by blast
  have n: "CHR 0x00 \<notin> set tbl" "CHR 0x00 \<notin> set tbl'" using assms(4) r(1) by (auto simp: schema_at_def table_name_def)
  have "row_typed (sch_Columns s') vs" by (rule decodeRow_typed [OF r(2)])
  then have "value_of_type (col_Type (sch_Columns s' ! sch_PrimaryKey s')) (vs ! sch_PrimaryKey s')"
    using r(1) by (simp add: row_typed_def list_all2_conv_all_nth schema_at_def schema_ok_def)
  from rowKey_inj [OF n assms(5) this] assms(2) r(3) have "tbl' = tbl" "vs ! sch_PrimaryKey s' = v" by simp_all
  moreover have "s' = s" using r(1) assms(4) \<open>tbl' = tbl\<close> by (auto simp: schema_at_def)
  ultimately show ?thesis using r(2) by simp
qed

lemma db_of_schema: "schema_at V tbl s \<Longrightarrow> db_of V tbl = Some (s, rows_of V s)"
  by (auto simp: db_of_def schema_at_def)

lemma rows_of_key:
  assumes "stored V" "schema_at V tbl s" "value_of_type (col_Type (primaryKeyColumn s)) v"
  shows "\<exists>k. rowKey tbl v = Some k \<and> (V k = None \<longleftrightarrow> rows_of V s v = None)
     \<and> (\<forall>b. V k = Some b \<longrightarrow> (\<exists>vs. decodeRow s b = Inr vs \<and> rows_of V s v = Some vs \<and> vs ! sch_PrimaryKey s = v))"
proof -
  obtain b where b: "encodePKValue v = Some b" using encodePKValue_typed [OF assms(3)] by blast
  define k where "k = rowKeyPrefix tbl @ b"
  have k: "rowKey tbl v = Some k" by (simp add: rowKey_def b k_def)
  have t: "sch_Table s = tbl" using assms(2) by (simp add: schema_at_def)
  have row: "\<exists>vs. decodeRow s b = Inr vs \<and> vs ! sch_PrimaryKey s = v" if "V k = Some b" for b
    by (rule storedD_row [OF assms(1) k that assms(2,3)])
  show ?thesis using row assms(3) k t by (intro exI [of _ k] conjI) (fastforce simp: rows_of_def split: option.splits)+
qed

section \<open>Updates of a stored state\<close>

lemma key_tags [simp]: "schemaKey tbl \<noteq> rowKeyTag # k" "rowKeyTag # k \<noteq> schemaKey tbl"
  by (simp_all add: schemaKey_def schemaKeyTag_def rowKeyTag_def)

lemma schema_at_row [simp]: "schema_at (V(rowKeyTag # k := x)) tbl s = schema_at V tbl s"
  by (simp add: schema_at_def)

lemma rows_of_row:
  assumes "schema_at V tbl s" "value_of_type t v" "rowKey tbl v = Some (rowKeyTag # k)" "schema_at V tbl' s'"
  shows "rows_of (V(rowKeyTag # k := x)) s' = (if tbl' = tbl \<and> value_of_type (col_Type (primaryKeyColumn s')) v
     then (rows_of V s')(v := (case x of None \<Rightarrow> None | Some b \<Rightarrow> (case decodeRow s' b of Inl e \<Rightarrow> None | Inr vs \<Rightarrow> Some vs))) else rows_of V s')"
proof (rule ext)
  fix w
  have n: "CHR 0x00 \<notin> set tbl" "CHR 0x00 \<notin> set tbl'" "sch_Table s' = tbl'" using assms(1,4) by (auto simp: schema_at_def table_name_def)
  show "rows_of (V(rowKeyTag # k := x)) s' w = (if tbl' = tbl \<and> value_of_type (col_Type (primaryKeyColumn s')) v
     then (rows_of V s')(v := (case x of None \<Rightarrow> None | Some b \<Rightarrow> (case decodeRow s' b of Inl e \<Rightarrow> None | Inr vs \<Rightarrow> Some vs))) else rows_of V s') w"
  proof (cases "value_of_type (col_Type (primaryKeyColumn s')) w")
    case True
    show ?thesis
    proof (cases "tbl' = tbl \<and> w = v")
      case eq: True
      then show ?thesis using True assms(3) n(3) by (simp add: rows_of_def split: option.splits)
    next
      case False
      then have "rowKey tbl' w \<noteq> Some (rowKeyTag # k)" using rowKey_inj [OF n(2,1) True assms(2)] assms(3) by auto
      then show ?thesis using False True n(3) by (auto simp: rows_of_def split: option.splits)
    qed
  next
    case False
    then show ?thesis by (auto simp: rows_of_def)
  qed
qed

lemma stored_row:
  assumes "stored V" "schema_at V tbl s" "rowKey tbl v = Some k" "x = None \<or> (\<exists>vs. x = Some (encodeRow vs) \<and> row_typed (sch_Columns s) vs \<and> vs ! sch_PrimaryKey s = v)"
  shows "stored (V(k := x))"
proof -
  obtain k' where k: "k = rowKeyTag # k'" using rowKey_tag [OF assms(3)] by blast
  have "length (sch_Columns s) < 65536" using assms(2) by (simp add: schema_at_def schema_ok_def MaxColumns_def)
  then have "x = None \<or> (\<exists>b vs. x = Some b \<and> decodeRow s b = Inr vs \<and> rowKey tbl (vs ! sch_PrimaryKey s) = Some (rowKeyTag # k'))"
    using assms(3,4) decodeRow_encodeRow k by auto
  then show ?thesis using assms(1,2) unfolding stored_def k schema_at_row by (auto split: if_splits)
qed

lemma db_of_row:
  assumes st: "stored V" and at: "schema_at V tbl s" and v: "value_of_type (col_Type (primaryKeyColumn s)) v" "rowKey tbl v = Some k"
    and x: "y = None \<and> x = None \<or> (\<exists>vs. x = Some (encodeRow vs) \<and> row_typed (sch_Columns s) vs \<and> y = Some vs)"
  shows "db_of (V(k := x)) = (db_of V)(tbl \<mapsto> (s, (rows_of V s)(v := y)))"
proof (rule ext)
  fix tbl'
  obtain k' where k: "k = rowKeyTag # k'" using rowKey_tag [OF v(2)] by blast
  have "length (sch_Columns s) < 65536" using at by (simp add: schema_at_def schema_ok_def MaxColumns_def)
  then have y: "(case x of None \<Rightarrow> None | Some b \<Rightarrow> (case decodeRow s b of Inl e \<Rightarrow> None | Inr vs \<Rightarrow> Some vs)) = y" using x decodeRow_encodeRow by auto
  show "db_of (V(k := x)) tbl' = ((db_of V)(tbl \<mapsto> (s, (rows_of V s)(v := y)))) tbl'"
  proof (cases "V (schemaKey tbl')")
    case None
    then have "tbl' \<noteq> tbl" using at by (auto simp: schema_at_def)
    then show ?thesis using None by (simp add: db_of_def k)
  next
    case (Some b)
    then obtain s' where s': "schema_at V tbl' s'" using storedD_schema [OF st] by blast
    have "tbl' = tbl \<Longrightarrow> s' = s" using s' at by (auto simp: schema_at_def)
    then show ?thesis
      using db_of_schema [OF s'] db_of_schema [of "V(k := x)" tbl' s'] s' rows_of_row [OF at v(1) v(2) [unfolded k] s', of x] v(1) y
      by (auto simp: k)
  qed
qed

lemma put_row:
  assumes "stored V" "schema_at V tbl s" "rowKey tbl v = Some k" "row_typed (sch_Columns s) vs" "vs ! sch_PrimaryKey s = v"
    and "value_of_type (col_Type (primaryKeyColumn s)) v"
  shows "stored (V(k \<mapsto> encodeRow vs))" "db_of (V(k \<mapsto> encodeRow vs)) = (db_of V)(tbl \<mapsto> (s, (rows_of V s)(v \<mapsto> vs)))"
  using stored_row [OF assms(1-3), of "Some (encodeRow vs)"] db_of_row [OF assms(1,2,6,3), of "Some vs" "Some (encodeRow vs)"] assms(4,5) by blast+

lemma drop_row:
  assumes "stored V" "schema_at V tbl s" "rowKey tbl v = Some k" "value_of_type (col_Type (primaryKeyColumn s)) v"
  shows "stored (V(k := None))" "db_of (V(k := None)) = (db_of V)(tbl \<mapsto> (s, (rows_of V s)(v := None)))"
  using stored_row [OF assms(1-3), of None] db_of_row [OF assms(1,2,4,3), of None None] by blast+

lemma no_rows:
  assumes "stored V" "V (schemaKey tbl) = None" "table_name tbl" "value_of_type t v" "rowKey tbl v = Some k"
  shows "V k = None"
proof (rule ccontr)
  assume "V k \<noteq> None"
  then obtain tbl' s' vs b where r: "schema_at V tbl' s'" "decodeRow s' b = Inr vs" "rowKey tbl' (vs ! sch_PrimaryKey s') = Some k"
    using assms(1) rowKey_tag [OF assms(5)] unfolding stored_def by blast
  have "row_typed (sch_Columns s') vs" by (rule decodeRow_typed [OF r(2)])
  then have "value_of_type (col_Type (sch_Columns s' ! sch_PrimaryKey s')) (vs ! sch_PrimaryKey s')"
    using r(1) by (simp add: row_typed_def list_all2_conv_all_nth schema_at_def schema_ok_def)
  from rowKey_inj [OF _ _ assms(4) this, of tbl tbl'] assms(3,5) r(1,3) have "tbl' = tbl" by (simp add: schema_at_def table_name_def)
  then show False using r(1) assms(2) by (simp add: schema_at_def)
qed

lemma create_stored:
  assumes st: "stored V" and none: "V (schemaKey tbl) = None" and s: "schema_ok s" "sch_Table s = tbl" "table_name tbl"
  shows "stored (V(schemaKey tbl \<mapsto> encodeSchema s))" "db_of (V(schemaKey tbl \<mapsto> encodeSchema s)) = (db_of V)(tbl \<mapsto> (s, Map.empty))"
proof -
  let ?V = "V(schemaKey tbl \<mapsto> encodeSchema s)"
  have dec: "decodeSchema (encodeSchema s) = Inr s" by (rule decodeSchema_encodeSchema [OF s(1)])
  have at: "schema_at ?V tbl' s' = (if tbl' = tbl then s' = s else schema_at V tbl' s')" for tbl' s'
    using dec s by (auto simp: schema_at_def)
  have old: "schema_at V tbl' s' \<Longrightarrow> schema_at ?V tbl' s'" for tbl' s' using none by (auto simp: at) (auto simp: schema_at_def)
  show "stored ?V" unfolding stored_def
  proof (intro conjI allI impI)
    fix tbl' assume "?V (schemaKey tbl') \<noteq> None"
    then show "\<exists>s. schema_at ?V tbl' s" using storedD_schema [OF st, of tbl'] at old by (cases "tbl' = tbl") auto
  next
    fix k b assume "?V (rowKeyTag # k) = Some b"
    then have "V (rowKeyTag # k) = Some b" by simp
    then show "\<exists>tbl' s' vs. schema_at ?V tbl' s' \<and> decodeRow s' b = Inr vs \<and> rowKey tbl' (vs ! sch_PrimaryKey s') = Some (rowKeyTag # k)"
      using st old unfolding stored_def by blast
  qed
  have rows: "rows_of ?V s' = rows_of V s'" for s' by (rule ext) (auto simp: rows_of_def schemaKey_rowKey split: option.splits dest: rowKey_tag)
  have "rows_of V s = Map.empty"
    using no_rows [OF st none s(3)] s(2) by (auto simp: rows_of_def split: option.splits)
  then show "db_of ?V = (db_of V)(tbl \<mapsto> (s, Map.empty))"
    using dec rows none by (auto simp: db_of_def fun_eq_iff split: option.splits sum.splits)
qed

lemma update_typed:
  assumes "row_typed cs vs" "\<forall>a \<in> set as. ca_Index a < length cs \<and> ca_Index a \<noteq> i \<and> value_of_type (col_Type (cs ! ca_Index a)) (ca_Value a)"
  shows "row_typed cs (assign_all as vs)" "assign_all as vs ! i = vs ! i"
proof -
  have "row_typed cs (assign_all as vs) \<and> assign_all as vs ! i = vs ! i"
    using assms
  proof (induction as arbitrary: vs)
    case Nil
    then show ?case by (simp add: assign_all_def)
  next
    case (Cons a as)
    let ?vs = "vs[ca_Index a := ca_Value a]"
    have "row_typed cs ?vs" using Cons.prems by (auto simp: row_typed_def list_all2_conv_all_nth nth_list_update)
    then have "row_typed cs (assign_all as ?vs) \<and> assign_all as ?vs ! i = ?vs ! i" using Cons.prems(2) by (intro Cons.IH) simp_all
    then show ?case using Cons.prems(2) by (simp add: assign_all_def)
  qed
  then show "row_typed cs (assign_all as vs)" "assign_all as vs ! i = vs ! i" by simp_all
qed

text \<open>The rows under the prefix of a table, read in key order.\<close>

lemma scanned_row:
  assumes st: "stored V" and at: "schema_at V tbl s" and k: "HasPrefix k (rowKeyPrefix tbl)" "V k = Some b"
  shows "\<exists>r. decodeRow s b = Inr r \<and> rowKey tbl (r ! sch_PrimaryKey s) = Some k \<and> rows_of V s (r ! sch_PrimaryKey s) = Some r"
proof -
  have pre: "take (length (rowKeyPrefix tbl)) k = rowKeyPrefix tbl" using k(1) by (simp add: HasPrefix_def)
  then obtain k' where "k = rowKeyTag # k'" by (cases k) (simp_all add: rowKeyPrefix_def)
  with st k(2) obtain tbl' s' r where r: "schema_at V tbl' s'" "decodeRow s' b = Inr r" "rowKey tbl' (r ! sch_PrimaryKey s') = Some k"
    unfolding stored_def by blast
  have "CHR 0x00 \<notin> set tbl" "CHR 0x00 \<notin> set tbl'" using at r(1) by (auto simp: schema_at_def table_name_def)
  from rowKey_prefix [OF this r(3)] pre have "tbl' = tbl" by simp
  moreover from this have "s' = s" using r(1) at by (auto simp: schema_at_def)
  moreover have "value_of_type (col_Type (primaryKeyColumn s)) (r ! sch_PrimaryKey s)"
    using decodeRow_typed [OF r(2)] at \<open>s' = s\<close> by (simp add: row_typed_def list_all2_conv_all_nth schema_at_def schema_ok_def primaryKeyColumn_def)
  ultimately show ?thesis using r k(2) at by (simp add: rows_of_def schema_at_def)
qed

lemma scanned_rows:
  assumes st: "stored V" and at: "schema_at V tbl s" and sorted: "sorted_wrt (<) (map kv_Key kvs)"
    and kvs: "\<forall>k v. \<lparr>kv_Key = k, kv_Value = v\<rparr> \<in> set kvs \<longleftrightarrow> HasPrefix k (rowKeyPrefix tbl) \<and> V k = Some v"
  shows "\<exists>vs. row_order tbl (rows_of V s) vs \<and> decode_rows s idx kvs = Inr (map (\<lambda>v. projectRow (the (rows_of V s v)) idx) vs)"
proof -
  define row where "row kv = (THE r. decodeRow s (kv_Value kv) = Inr r)" for kv :: KV
  define pk where "pk kv = row kv ! sch_PrimaryKey s" for kv
  have row: "decodeRow s (kv_Value kv) = Inr (row kv) \<and> rowKey tbl (pk kv) = Some (kv_Key kv) \<and> rows_of V s (pk kv) = Some (row kv)"
    if kv: "kv \<in> set kvs" for kv
  proof -
    have "\<lparr>kv_Key = kv_Key kv, kv_Value = kv_Value kv\<rparr> = kv" by (cases kv) simp
    with kv have "\<lparr>kv_Key = kv_Key kv, kv_Value = kv_Value kv\<rparr> \<in> set kvs" by metis
    then have "HasPrefix (kv_Key kv) (rowKeyPrefix tbl)" "V (kv_Key kv) = Some (kv_Value kv)" using kvs by blast+
    from scanned_row [OF st at this] show ?thesis by (auto simp: pk_def row_def)
  qed
  have "decode_rows s idx kvs' = Inr (map (\<lambda>kv. projectRow (row kv) idx) kvs')" if "set kvs' \<subseteq> set kvs" for kvs'
    using that row by (induction kvs') auto
  then have "decode_rows s idx kvs = Inr (map (\<lambda>v. projectRow (the (rows_of V s v)) idx) (map pk kvs))" using row by simp
  moreover have "v \<in> set (map pk kvs)" if v: "rows_of V s v = Some r" for v r
  proof -
    have t: "value_of_type (col_Type (primaryKeyColumn s)) v" using v by (auto simp: rows_of_def split: if_splits)
    from rows_of_key [OF st at t] obtain k where k: "rowKey tbl v = Some k" "V k \<noteq> None" using v by (elim exE conjE) auto
    then obtain b where b: "V k = Some b" by blast
    have "HasPrefix k (rowKeyPrefix tbl)" using k(1) by (auto simp: rowKey_def HasPrefix_def)
    then have kv: "\<lparr>kv_Key = k, kv_Value = b\<rparr> \<in> set kvs" using kvs b by blast
    have n: "CHR 0x00 \<notin> set tbl" using at by (simp add: schema_at_def table_name_def)
    have "rowKey tbl (pk \<lparr>kv_Key = k, kv_Value = b\<rparr>) = Some k" using row [OF kv] by simp
    moreover have "value_of_type (col_Type (primaryKeyColumn s)) (pk \<lparr>kv_Key = k, kv_Value = b\<rparr>)"
      using row [OF kv] by (auto simp: rows_of_def split: if_splits)
    ultimately have "v = pk \<lparr>kv_Key = k, kv_Value = b\<rparr>" using rowKey_inj [OF n n t] k(1) by metis
    then show ?thesis using kv by force
  qed
  moreover have "sorted_wrt (\<lambda>v w. the (rowKey tbl v) < the (rowKey tbl w)) (map pk kvs)"
    unfolding sorted_wrt_map by (rule sorted_wrt_mono_rel [OF _ sorted [unfolded sorted_wrt_map]]) (use row in auto)
  ultimately have "row_order tbl (rows_of V s) (map pk kvs)" using row by (auto simp: row_order_def dom_def)
  then show ?thesis using \<open>decode_rows s idx kvs = _\<close> by blast
qed

section \<open>The contract of the transaction interface\<close>

text \<open>The outcome of a statement is one its meaning allows. \<open>live\<close> holds of the open transactions and \<open>view\<close> is the state they show.\<close>

definition refines :: "('m \<Rightarrow> 't \<Rightarrow> bool) \<Rightarrow> ('m \<Rightarrow> 't \<Rightarrow> string \<Rightarrow> bytes option) \<Rightarrow> 'm \<Rightarrow> 't \<Rightarrow> Statement \<Rightarrow> 'e exec_error + Result \<times> 't \<Rightarrow> bool" where
  "refines live view m t st r \<longleftrightarrow> (\<exists>out. means st (db_of (view m t)) out \<and> (case out of
     Inl e \<Rightarrow> r = Inl (Frontend e)
   | Inr (res, db) \<Rightarrow> \<exists>t1. r = Inr (res, t1) \<and> live m t1 \<and> stored (view m t1) \<and> db_of (view m t1) = db))"

text \<open>A live transaction shows a key-value state: reads and scans read it, a write and a delete change one key of it.\<close>

locale sql_engine =
  fixes eng :: "('m, 't, 'e) Engine" and live :: "'m \<Rightarrow> 't \<Rightarrow> bool" and view :: "'m \<Rightarrow> 't \<Rightarrow> string \<Rightarrow> bytes option"
  assumes engine_read: "live m t \<Longrightarrow> eng_Read eng m t k = Inr (view m t k)"
    and engine_scan: "live m t \<Longrightarrow> \<exists>kvs. eng_ScanPrefix eng m t p = Inr kvs \<and> sorted_wrt (<) (map kv_Key kvs)
      \<and> (\<forall>k v. \<lparr>kv_Key = k, kv_Value = v\<rparr> \<in> set kvs \<longleftrightarrow> HasPrefix k p \<and> view m t k = Some v)"
    and engine_write: "live m t \<Longrightarrow> \<exists>t1. eng_Write eng k v t = Inr t1 \<and> live m t1 \<and> view m t1 = (view m t)(k \<mapsto> v)"
    and engine_delete: "live m t \<Longrightarrow> \<exists>t1. eng_Delete eng k t = Inr t1 \<and> live m t1 \<and> view m t1 = (view m t)(k := None)"
begin

lemma schema_read:
  assumes "live m t" "stored (view m t)"
  obtains s where "schema_at (view m t) tbl s" "getSchema eng m t tbl = Inr s"
  | "db_of (view m t) tbl = None" "getSchema eng m t tbl = Inl (Frontend (SqlError ErrUnknownTable))"
proof (cases "view m t (schemaKey tbl)")
  case None
  then show thesis using that(2) assms(1) by (simp add: getSchema_def engine_read db_of_def)
next
  case (Some b)
  then obtain s where s: "schema_at (view m t) tbl s" using storedD_schema [OF assms(2)] by blast
  then have "getSchema eng m t tbl = Inr s" using assms(1) by (auto simp: getSchema_def engine_read schema_at_def)
  then show thesis using that(1) s by blast
qed

lemma create_refines:
  assumes l: "live m t" and st: "stored (view m t)" and fits: "stmt_fits (CreateTableStmt tbl cols)"
  shows "refines live view m t (CreateTableStmt tbl cols) (execCreateTable eng m t tbl cols)"
proof (cases "buildSchema tbl cols")
  case (Inl e)
  then show ?thesis by (simp add: refines_def execCreateTable_def)
next
  case (Inr s)
  have s: "schema_ok s" "sch_Table s = tbl" using buildSchema_ok [OF Inr] fits by (simp_all add: table_name_def list_all_iff)
  show ?thesis
  proof (cases "view m t (schemaKey tbl)")
    case None
    obtain t1 where t1: "eng_Write eng (schemaKey tbl) (encodeSchema s) t = Inr t1" "live m t1"
        "view m t1 = (view m t)(schemaKey tbl \<mapsto> encodeSchema s)" using engine_write [OF l] by blast
    have "db_of (view m t) tbl = None" using None by (simp add: db_of_def)
    then show ?thesis using Inr s t1 None l fits create_stored [OF st None s]
      by (simp add: refines_def execCreateTable_def engine_read)
  next
    case (Some b)
    then obtain s' where "schema_at (view m t) tbl s'" using storedD_schema [OF st] by blast
    from db_of_schema [OF this] show ?thesis using Inr s Some l by (simp add: refines_def execCreateTable_def engine_read)
  qed
qed

lemma insert_refines:
  assumes l: "live m t" and st: "stored (view m t)" and fits: "stmt_fits (InsertStmt tbl cols lits)"
  shows "refines live view m t (InsertStmt tbl cols lits) (execInsert eng m t tbl cols lits)"
proof (cases rule: schema_read [OF l st, of tbl])
  case 2
  then show ?thesis by (simp add: refines_def on_table_def execInsert_def)
next
  case (1 s)
  note db = db_of_schema [OF 1(1)]
  have s: "sch_Table s = tbl" "sch_PrimaryKey s < length (sch_Columns s)" using 1(1) by (simp_all add: schema_at_def schema_ok_def)
  show ?thesis
  proof (cases "planInsert s cols lits")
    case (Inl e)
    then show ?thesis using 1(2) db by (simp add: refines_def on_table_def execInsert_def)
  next
    case (Inr p)
    note p = planInsert_typed [OF Inr _ s(2)]
    have typed: "row_typed (sch_Columns s) (ip_values p)" "ip_pk p = ip_values p ! sch_PrimaryKey s"
        "value_of_type (col_Type (primaryKeyColumn s)) (ip_pk p)" using p fits by simp_all
    from rows_of_key [OF st 1(1) typed(3)] obtain k where
      k: "rowKey tbl (ip_pk p) = Some k" "(view m t k = None) = (rows_of (view m t) s (ip_pk p) = None)" by (elim exE conjE) (rule that)
    obtain t1 where t1: "eng_Write eng k (encodeRow (ip_values p)) t = Inr t1" "live m t1" "view m t1 = (view m t)(k \<mapsto> encodeRow (ip_values p))"
      using engine_write [OF l] by blast
    note put_row [OF st 1(1) k(1) typed(1) typed(2) [symmetric] typed(3), folded t1(3)]
    then show ?thesis using 1(2) db Inr s(1) k t1(1,2) l
      by (cases "rows_of (view m t) s (ip_pk p)") (auto simp: refines_def on_table_def execInsert_def row_key_def engine_read)
  qed
qed

lemma update_refines:
  assumes l: "live m t" and st: "stored (view m t)" and fits: "stmt_fits (UpdateStmt tbl assigns whr)"
  shows "refines live view m t (UpdateStmt tbl assigns whr) (execUpdate eng m t tbl assigns whr)"
proof (cases rule: schema_read [OF l st, of tbl])
  case 2
  then show ?thesis by (simp add: refines_def on_table_def execUpdate_def)
next
  case (1 s)
  note db = db_of_schema [OF 1(1)]
  have s: "sch_Table s = tbl" using 1(1) by (simp add: schema_at_def)
  show ?thesis
  proof (cases "planUpdate s assigns whr")
    case (Inl e)
    then show ?thesis using 1(2) db by (simp add: refines_def on_table_def execUpdate_def)
  next
    case (Inr p)
    obtain pk: "bindPredicate s whr = Inr (up_pk p)" and as: "bind_assignments s [] assigns = Inr (up_assignments p)"
      using Inr by (auto simp: planUpdate_def bindR_eq_Inr)
    have v: "value_of_type (col_Type (primaryKeyColumn s)) (up_pk p)" using bindPredicate_typed [OF pk] fits by simp
    from rows_of_key [OF st 1(1) v] obtain k where
      k: "rowKey tbl (up_pk p) = Some k" "(view m t k = None) = (rows_of (view m t) s (up_pk p) = None)"
        "\<forall>b. view m t k = Some b \<longrightarrow> (\<exists>vs. decodeRow s b = Inr vs \<and> rows_of (view m t) s (up_pk p) = Some vs \<and> vs ! sch_PrimaryKey s = up_pk p)"
      by (elim exE conjE) (rule that)
    show ?thesis
    proof (cases "view m t k")
      case None
      then show ?thesis using 1(2) db Inr s k(1,2) l by (simp add: refines_def on_table_def execUpdate_def row_key_def engine_read)
    next
      case (Some b)
      then obtain vs where vs: "decodeRow s b = Inr vs" "rows_of (view m t) s (up_pk p) = Some vs" "vs ! sch_PrimaryKey s = up_pk p" using k(3) by blast
      let ?vs = "assign_all (up_assignments p) vs"
      have "list_all (\<lambda>a. literal_fits (asg_Value a)) assigns" using fits by simp
      from update_typed [OF decodeRow_typed [OF vs(1)] bind_assignments_typed [OF as this]]
      have u: "row_typed (sch_Columns s) ?vs" "?vs ! sch_PrimaryKey s = up_pk p" using vs(3) by simp_all
      obtain t1 where t1: "eng_Write eng k (encodeRow ?vs) t = Inr t1" "live m t1" "view m t1 = (view m t)(k \<mapsto> encodeRow ?vs)"
        using engine_write [OF l] by blast
      note put_row [OF st 1(1) k(1) u v, folded t1(3)]
      then show ?thesis using 1(2) db Inr s k(1) t1(1,2) l Some vs by (simp add: refines_def on_table_def execUpdate_def row_key_def engine_read)
    qed
  qed
qed

lemma delete_refines:
  assumes l: "live m t" and st: "stored (view m t)" and fits: "stmt_fits (DeleteStmt tbl whr)"
  shows "refines live view m t (DeleteStmt tbl whr) (execDelete eng m t tbl whr)"
proof (cases rule: schema_read [OF l st, of tbl])
  case 2
  then show ?thesis by (simp add: refines_def on_table_def execDelete_def)
next
  case (1 s)
  note db = db_of_schema [OF 1(1)]
  have s: "sch_Table s = tbl" using 1(1) by (simp add: schema_at_def)
  show ?thesis
  proof (cases "planDelete s whr")
    case (Inl e)
    then show ?thesis using 1(2) db by (simp add: refines_def on_table_def execDelete_def)
  next
    case (Inr p)
    then have pk: "bindPredicate s whr = Inr (dp_pk p)" by (auto simp: planDelete_def bindR_eq_Inr)
    have v: "value_of_type (col_Type (primaryKeyColumn s)) (dp_pk p)" using bindPredicate_typed [OF pk] fits by simp
    from rows_of_key [OF st 1(1) v] obtain k where
      k: "rowKey tbl (dp_pk p) = Some k" "(view m t k = None) = (rows_of (view m t) s (dp_pk p) = None)" by (elim exE conjE) (rule that)
    obtain t1 where t1: "eng_Delete eng k t = Inr t1" "live m t1" "view m t1 = (view m t)(k := None)" using engine_delete [OF l] by blast
    note put = drop_row [OF st 1(1) k(1) v, folded t1(3)]
    show ?thesis
      using 1(2) db Inr s k t1(1,2) l put
      by (cases "rows_of (view m t) s (dp_pk p)") (auto simp: refines_def on_table_def execDelete_def row_key_def engine_read)
  qed
qed

lemma select_refines:
  assumes l: "live m t" and st: "stored (view m t)" and fits: "stmt_fits (SelectStmt tbl cols whr)"
  shows "refines live view m t (SelectStmt tbl cols whr) (execSelect eng m t tbl cols whr)"
proof (cases rule: schema_read [OF l st, of tbl])
  case 2
  then show ?thesis by (simp add: refines_def on_table_def execSelect_def)
next
  case (1 s)
  note db = db_of_schema [OF 1(1)]
  have s: "sch_Table s = tbl" using 1(1) by (simp add: schema_at_def)
  show ?thesis
  proof (cases "planSelect s cols whr")
    case (Inl e)
    then show ?thesis using 1(2) db by (simp add: refines_def on_table_def execSelect_def)
  next
    case (Inr p)
    let ?cols = "map (\<lambda>ci. col_Name (sch_Columns s ! ci)) (sp_columnIdx p)"
    have "\<exists>rs. execSelect eng m t tbl cols whr = Inr (rowsResult ?cols rs, t) \<and> select_rows tbl (rows_of (view m t) s) p rs"
    proof (cases "sp_pkPredicate p")
      case None
      obtain kvs where kvs: "eng_ScanPrefix eng m t (rowKeyPrefix tbl) = Inr kvs" "sorted_wrt (<) (map kv_Key kvs)"
          "\<forall>k v. \<lparr>kv_Key = k, kv_Value = v\<rparr> \<in> set kvs \<longleftrightarrow> HasPrefix k (rowKeyPrefix tbl) \<and> view m t k = Some v"
        using engine_scan [OF l] by blast
      obtain vs where "row_order tbl (rows_of (view m t) s) vs"
          "decode_rows s (sp_columnIdx p) kvs = Inr (map (\<lambda>v. projectRow (the (rows_of (view m t) s v)) (sp_columnIdx p)) vs)"
        using scanned_rows [OF st 1(1) kvs(2,3)] by blast
      then show ?thesis using 1(2) Inr s None kvs(1) by (auto simp: execSelect_def select_rows_def)
    next
      case (Some v)
      have t: "value_of_type (col_Type (primaryKeyColumn s)) v" using planSelect_typed(2) [OF Inr] fits Some by simp
      from rows_of_key [OF st 1(1) t] obtain k where
        k: "rowKey tbl v = Some k" "(view m t k = None) = (rows_of (view m t) s v = None)"
          "\<forall>b. view m t k = Some b \<longrightarrow> (\<exists>vs. decodeRow s b = Inr vs \<and> rows_of (view m t) s v = Some vs \<and> vs ! sch_PrimaryKey s = v)"
        by (elim exE conjE) (rule that)
      show ?thesis
      proof (cases "view m t k")
        case none: None
        then show ?thesis using 1(2) Inr s Some k(1,2) l by (simp add: execSelect_def select_rows_def row_key_def engine_read)
      next
        case found: (Some b)
        then obtain vs where "decodeRow s b = Inr vs" "rows_of (view m t) s v = Some vs" using k(3) by blast
        then show ?thesis using 1(2) Inr s Some k(1) l found by (simp add: execSelect_def select_rows_def row_key_def engine_read)
      qed
    qed
    then obtain rs where "execSelect eng m t tbl cols whr = Inr (rowsResult ?cols rs, t)" "select_rows tbl (rows_of (view m t) s) p rs" by blast
    then show ?thesis using db Inr l st unfolding refines_def
      by (intro exI [of _ "Inr (rowsResult ?cols rs, db_of (view m t))"]) (auto simp: on_table_def)
  qed
qed

lemma execOne_refines:
  assumes "live m t" "stored (view m t)" "stmt_fits st"
  shows "refines live view m t st (execOne eng m t st)"
  using create_refines [OF assms(1,2)] insert_refines [OF assms(1,2)] select_refines [OF assms(1,2)] update_refines [OF assms(1,2)]
    delete_refines [OF assms(1,2)] assms(3)
  by (cases st) (simp_all add: execOne_def del: stmt_fits.simps, simp_all add: refines_def)

end

end
