(* ===== verification/Sql_Engine.thy ===== *)
theory Sql_Engine
  imports Sql_Refine Txn
begin

text \<open>
  The adapters of \<^verbatim>\<open>internal/sql/engine.go\<close>: the scan that merges a session's own writes into the committed rows,
  and the engine over the standalone transaction manager, which is shown to keep the contract of the SQL executor.
\<close>

section \<open>Scans over the local writes\<close>

text \<open>The loop over the local writes.\<close>

fun merge_local :: "string \<Rightarrow> Mutation list \<Rightarrow> (string, bytes) gomap \<Rightarrow> (string, bytes) gomap" where
  "merge_local p [] present = present"
| "merge_local p (mu # local) present =
     (if \<not> HasPrefix (mut_Key mu) p then merge_local p local present
      else merge_local p local
        (if mut_Tombstone mu then mdel (mut_Key mu) present else mput (mut_Key mu) (mut_Value mu) present))"

definition mergeLocalWrites :: "string \<Rightarrow> KV list \<Rightarrow> Mutation list \<Rightarrow> KV list" where
  "mergeLocalWrites p committed local =
     (let present = merge_local p local (mputs kv_Key kv_Value committed [])
      in map (\<lambda>k. \<lparr>kv_Key = k, kv_Value = (case mget present k of None \<Rightarrow> [] | Some v \<Rightarrow> v)\<rparr>) (sort (mkeys present)))"

lemma mwf_merge_local: "mwf present \<Longrightarrow> mwf (merge_local p local present)"
  by (induction local arbitrary: present) simp_all

lemma merge_local_other: "k \<notin> mut_Key ` set local \<Longrightarrow> mget (merge_local p local present) k = mget present k"
  by (induction local arbitrary: present) auto

lemma merge_local_in:
  "distinct (map mut_Key local) \<Longrightarrow> mu \<in> set local \<Longrightarrow> HasPrefix (mut_Key mu) p \<Longrightarrow>
     mget (merge_local p local present) (mut_Key mu) = (if mut_Tombstone mu then None else Some (mut_Value mu))"
proof (induction local arbitrary: present)
  case (Cons a local)
  show ?case
  proof (cases "mu = a")
    case True
    with Cons.prems show ?thesis by (simp add: merge_local_other)
  next
    case False
    with Cons.prems show ?thesis by (simp add: Cons.IH)
  qed
qed simp

lemma merge_local_skip: "\<not> HasPrefix k p \<Longrightarrow> mget (merge_local p local present) k = mget present k"
  by (induction local arbitrary: present) auto

text \<open>The committed rows under the prefix, as \<open>ScanVisible\<close> returns them: exactly the visible keys.\<close>

lemma mget_scan_loop:
  assumes "store_inv s"
  shows "mget (mputs kv_Key kv_Value (scan_loop s p q (orderedKeys s)) []) k = (if HasPrefix k p then read_at s k q else None)"
proof -
  let ?kvs = "scan_loop s p q (orderedKeys s)"
  have kvs: "?kvs = [\<lparr>kv_Key = k, kv_Value = the (read_at s k q)\<rparr>. k \<leftarrow> orderedKeys s, HasPrefix k p \<and> read_at s k q \<noteq> None]"
    by (rule scan_loop_eq [OF assms])
  have keys: "map kv_Key ?kvs = filter (\<lambda>k. HasPrefix k p \<and> read_at s k q \<noteq> None) ks"
    if "?kvs = [\<lparr>kv_Key = k, kv_Value = the (read_at s k q)\<rparr>. k \<leftarrow> ks, HasPrefix k p \<and> read_at s k q \<noteq> None]" for ks
    unfolding that by (induction ks) simp_all
  have d: "distinct (map kv_Key ?kvs)" unfolding keys [OF kvs] using assms by (simp add: store_inv_def strict_sorted_iff)
  show ?thesis
  proof (cases "HasPrefix k p \<and> read_at s k q \<noteq> None")
    case True
    then have "chain_of s k \<noteq> []" by (auto simp: read_at_def value_of_def vupto_def)
    then have "k \<in> set (orderedKeys s)" by (simp add: store_inv_key_iff [OF assms])
    then have "\<lparr>kv_Key = k, kv_Value = the (read_at s k q)\<rparr> \<in> set ?kvs" unfolding kvs using True by auto
    from mget_mputs_in [OF d this, of kv_Value "[]"] True show ?thesis by auto
  next
    case False
    then have "k \<notin> kv_Key ` set ?kvs" unfolding kvs by auto
    then have "mget (mputs kv_Key kv_Value ?kvs []) k = mget [] k" by (rule mget_mputs_other)
    then show ?thesis using False by (auto simp: mget_def)
  qed
qed

lemma mergeLocalWrites_sorted: "sorted_wrt (<) (map kv_Key (mergeLocalWrites p committed local))"
proof -
  have "mwf (merge_local p local (mputs kv_Key kv_Value committed []))" by (simp add: mwf_merge_local mwf_mputs)
  then show ?thesis by (simp add: mergeLocalWrites_def Let_def o_def mkeys_def strict_sorted_iff)
qed

lemma mergeLocalWrites_mem:
  "\<lparr>kv_Key = k, kv_Value = v\<rparr> \<in> set (mergeLocalWrites p committed local)
     \<longleftrightarrow> mget (merge_local p local (mputs kv_Key kv_Value committed [])) k = Some v"
  by (auto simp: mergeLocalWrites_def Let_def gm.set_keys split: option.splits)


section \<open>The standalone engine\<close>

definition standalone_LookupOutcome :: "Manager \<Rightarrow> string \<Rightarrow> RequestOutcome option" where
  "standalone_LookupOutcome m requestID =
     (case GetRequestOutcome m requestID of
        Inl err \<Rightarrow> None
      | Inr outcome \<Rightarrow> Some \<lparr>ro_Committed = (out_Status outcome = StatusCommitted), ro_CommitSeq = out_CommitSeq outcome\<rparr>)"

definition standalone_ScanPrefix :: "Manager \<Rightarrow> Txn \<Rightarrow> string \<Rightarrow> txn_error + KV list" where
  "standalone_ScanPrefix m t p =
     (case ScanVisible (fsm_store (mg_fsm m)) p (tx_startSeq t) of
        Inl e \<Rightarrow> Inl (TxnMvcc e)
      | Inr committed \<Rightarrow> Inr (mergeLocalWrites p committed (LocalWrites t)))"

definition standalone_Commit :: "string \<Rightarrow> Manager \<Rightarrow> Txn \<Rightarrow> Manager \<times> Txn \<times> (txn_error exec_error + u64)" where
  "standalone_Commit requestID m t =
     (case txn_Commit requestID m t of
        (m1, t1, Inl err) \<Rightarrow>
          (m1, t1, Inl (if err = txn_error.ErrConflict then Frontend (SqlError sql_sentinel.ErrConflict) else EngineError err))
      | (m1, t1, Inr commitSeq) \<Rightarrow> (m1, t1, Inr commitSeq))"

definition standalone_Abort :: "Manager \<Rightarrow> Txn \<Rightarrow> Manager \<times> Txn \<times> txn_error option" where
  "standalone_Abort m t = (case txn_Abort t of Inl err \<Rightarrow> (m, t, Some err) | Inr t1 \<Rightarrow> (m, t1, None))"

definition standalone_Begin :: "Manager \<Rightarrow> (txn_error + Txn) \<times> Manager" where
  "standalone_Begin m = (let (t, m1) = Begin m in (Inr t, m1))"

definition standaloneEngine :: "(Manager, Txn, txn_error) Engine" where
  "standaloneEngine = \<lparr>eng_Begin = standalone_Begin, eng_LookupOutcome = standalone_LookupOutcome, eng_Read = txn_Read,
     eng_ScanPrefix = standalone_ScanPrefix, eng_Write = txn_Write, eng_Delete = txn_Delete,
     eng_Commit = standalone_Commit, eng_Abort = standalone_Abort\<rparr>"

lemma standaloneEngine_simps [simp]:
  "eng_Begin standaloneEngine = standalone_Begin" "eng_LookupOutcome standaloneEngine = standalone_LookupOutcome"
  "eng_Read standaloneEngine = txn_Read" "eng_ScanPrefix standaloneEngine = standalone_ScanPrefix"
  "eng_Write standaloneEngine = txn_Write" "eng_Delete standaloneEngine = txn_Delete"
  "eng_Commit standaloneEngine = standalone_Commit" "eng_Abort standaloneEngine = standalone_Abort"
  by (simp_all add: standaloneEngine_def)

lemma local_writes_view:
  assumes "session_live m t" "HasPrefix k p"
    "mget present k = read_at (fsm_store (mg_fsm m)) k (tx_startSeq t)"
  shows "mget (merge_local p (LocalWrites t) present) k = txn_view m t k"
proof -
  have ok: "txn_ok t" and local: "LocalWrites t = write_set t" using assms(1) by (auto simp: session_live_def LocalWrites_def)
  show ?thesis
  proof (cases "mget (tx_writes t) k")
    case None
    then have "k \<notin> mut_Key ` set (write_set t)" using write_set_mem [OF ok] by auto
    then show ?thesis using None assms(3) by (simp add: local merge_local_other txn_view_def)
  next
    case (Some mu)
    then have k: "mut_Key mu = k" using ok by (auto simp: txn_ok_def)
    then have "mu \<in> set (write_set t)" using Some write_set_mem [OF ok, of mu] by simp
    from merge_local_in [OF write_set_ok(1) [OF ok] this, of p present] k assms(2) Some
    show ?thesis by (simp add: local txn_view_def)
  qed
qed

lemma standalone_scan:
  assumes "session_live m t"
  shows "\<exists>kvs. standalone_ScanPrefix m t p = Inr kvs \<and> sorted_wrt (<) (map kv_Key kvs)
    \<and> (\<forall>k v. \<lparr>kv_Key = k, kv_Value = v\<rparr> \<in> set kvs \<longleftrightarrow> HasPrefix k p \<and> txn_view m t k = Some v)"
proof -
  let ?s = "fsm_store (mg_fsm m)"
  let ?committed = "scan_loop ?s p (tx_startSeq t) (orderedKeys ?s)"
  obtain n where inv: "fsm_inv n (mg_fsm m)" "gcWatermark (mg_fsm m) = 0" using assms by (auto simp: session_live_def)
  note f = fsm_invD [OF inv(1)]
  have "ScanVisible ?s p (tx_startSeq t) = Inr ?committed" using f inv(2) by (simp add: ScanVisible_def)
  then have scan: "standalone_ScanPrefix m t p = Inr (mergeLocalWrites p ?committed (LocalWrites t))"
    by (simp add: standalone_ScanPrefix_def)
  have base: "mget (mputs kv_Key kv_Value ?committed []) k = (if HasPrefix k p then read_at ?s k (tx_startSeq t) else None)" for k
    using f by (intro mget_scan_loop) simp
  have "\<lparr>kv_Key = k, kv_Value = v\<rparr> \<in> set (mergeLocalWrites p ?committed (LocalWrites t)) \<longleftrightarrow> HasPrefix k p \<and> txn_view m t k = Some v" for k v
  proof (cases "HasPrefix k p")
    case True
    then show ?thesis using local_writes_view [OF assms True] base [of k] by (simp add: mergeLocalWrites_mem)
  next
    case False
    then show ?thesis using base [of k] by (simp add: mergeLocalWrites_mem merge_local_skip)
  qed
  then show ?thesis using scan mergeLocalWrites_sorted by blast
qed

text \<open>The standalone engine keeps the contract.\<close>

interpretation se: sql_engine standaloneEngine session_live txn_view
proof unfold_locales
  fix m t k v p
  assume l: "session_live m t"
  show "eng_Read standaloneEngine m t k = Inr (txn_view m t k)" using txn_Read_view [OF l] by simp
  show "\<exists>kvs. eng_ScanPrefix standaloneEngine m t p = Inr kvs \<and> sorted_wrt (<) (map kv_Key kvs)
    \<and> (\<forall>k v. \<lparr>kv_Key = k, kv_Value = v\<rparr> \<in> set kvs \<longleftrightarrow> HasPrefix k p \<and> txn_view m t k = Some v)"
    unfolding standaloneEngine_simps by (rule standalone_scan [OF l])
  show "\<exists>t1. eng_Write standaloneEngine k v t = Inr t1 \<and> session_live m t1 \<and> txn_view m t1 = (txn_view m t)(k \<mapsto> v)"
    unfolding standaloneEngine_simps by (rule txn_Write_view [OF l])
  show "\<exists>t1. eng_Delete standaloneEngine k t = Inr t1 \<and> session_live m t1 \<and> txn_view m t1 = (txn_view m t)(k := None)"
    unfolding standaloneEngine_simps by (rule txn_Delete_view [OF l])
qed

end
