(* ===== verification/Sql_Lexer.thy ===== *)
theory Sql_Lexer
  imports Sql_Ast
begin

text \<open>
  The lexer of the SQL frontend (\<^verbatim>\<open>internal/sql/lexer.go\<close>) over byte offsets, as the code has it, and the
  loop of \<open>Parse\<close> that collects the tokens. The lemmas read the same functions over the text that remains.
\<close>

section \<open>Characters\<close>

definition isSpace :: "char \<Rightarrow> bool" where
  "isSpace c \<longleftrightarrow> c = CHR '' '' \<or> c = CHR 0x09 \<or> c = CHR 0x0A \<or> c = CHR 0x0D"

definition between :: "char \<Rightarrow> char \<Rightarrow> char \<Rightarrow> bool" where
  "between a b c \<longleftrightarrow> (of_char a :: nat) \<le> of_char c \<and> (of_char c :: nat) \<le> of_char b"

definition isDigit :: "char \<Rightarrow> bool" where
  "isDigit c \<longleftrightarrow> between (CHR ''0'') (CHR ''9'') c"

definition isIdentStart :: "char \<Rightarrow> bool" where
  "isIdentStart c \<longleftrightarrow> c = CHR ''_'' \<or> between (CHR ''a'') (CHR ''z'') c \<or> between (CHR ''A'') (CHR ''Z'') c"

definition isIdentCont :: "char \<Rightarrow> bool" where
  "isIdentCont c \<longleftrightarrow> isIdentStart c \<or> isDigit c"

definition fold_char :: "char \<Rightarrow> char" where
  "fold_char c = (if between (CHR ''A'') (CHR ''Z'') c
     then char_of ((of_char c :: nat) - of_char (CHR ''A'') + of_char (CHR ''a'')) else c)"

definition foldIdent :: "string \<Rightarrow> string" where
  "foldIdent s = map fold_char s"

section \<open>The lexer\<close>

record lexer =
  lx_src :: string
  lx_pos :: nat

definition newLexer :: "string \<Rightarrow> sql_error + lexer" where
  "newLexer src = (if length src > MaxStatementBytes then Inl (PositionError MaxStatementBytes ErrLimitExceeded)
     else Inr \<lparr>lx_src = src, lx_pos = 0\<rparr>)"

definition peekByte :: "lexer \<Rightarrow> char option" where
  "peekByte l = (if lx_pos l \<ge> length (lx_src l) then None else Some (lx_src l ! lx_pos l))"

definition step_pos :: "lexer \<Rightarrow> lexer" where
  "step_pos l = l\<lparr>lx_pos := lx_pos l + 1\<rparr>"

text \<open>The loops \<open>for \<dots> { c, ok := l.peekByte(); if !ok || !p(c) { break }; l.pos++ }\<close>.\<close>

function scan_while :: "(char \<Rightarrow> bool) \<Rightarrow> lexer \<Rightarrow> lexer" where
  "scan_while p l =
     (case peekByte l of
        None \<Rightarrow> l
      | Some c \<Rightarrow> if \<not> p c then l else scan_while p (step_pos l))"
  by auto
termination
  by (relation "measure (\<lambda>(p, l). length (lx_src l) - lx_pos l)") (auto simp: peekByte_def step_pos_def split: if_splits)

declare scan_while.simps [simp del]

definition skipSpace :: "lexer \<Rightarrow> lexer" where
  "skipSpace = scan_while isSpace"

definition between_pos :: "lexer \<Rightarrow> nat \<Rightarrow> string" where
  "between_pos l start = take (lx_pos l - start) (drop start (lx_src l))"

definition hasDigitAfterSign :: "lexer \<Rightarrow> bool" where
  "hasDigitAfterSign l \<longleftrightarrow> lx_pos l + 1 < length (lx_src l) \<and> isDigit (lx_src l ! (lx_pos l + 1))"

definition lexIdent :: "nat \<Rightarrow> lexer \<Rightarrow> sql_error + token \<times> lexer" where
  "lexIdent start l =
     (let l1 = scan_while isIdentCont l
      in if lx_pos l1 - start > MaxIdentifierBytes then Inl (PositionError start ErrLimitExceeded)
         else Inr (\<lparr>tok_kind = tokIdent, tok_text = foldIdent (between_pos l1 start), tok_pos = start\<rparr>, l1))"

definition lexInt :: "nat \<Rightarrow> lexer \<Rightarrow> sql_error + token \<times> lexer" where
  "lexInt start l =
     (let l1 = (if peekByte l = Some (CHR ''-'') then step_pos l else l);
          digitsStart = lx_pos l1;
          l2 = scan_while isDigit l1
      in if lx_pos l2 = digitsStart then Inl (PositionError start ErrSyntax)
         else if lx_pos l2 - start > MaxIntegerDigits then Inl (PositionError start ErrLimitExceeded)
         else Inr (\<lparr>tok_kind = tokInt, tok_text = between_pos l2 start, tok_pos = start\<rparr>, l2))"

text \<open>The loop of \<open>lexString\<close> after the opening quote; \<open>b\<close> is the string builder.\<close>

function string_loop :: "nat \<Rightarrow> lexer \<Rightarrow> string \<Rightarrow> sql_error + string \<times> lexer" where
  "string_loop start l b =
     (case peekByte l of
        None \<Rightarrow> Inl (PositionError start ErrSyntax)
      | Some c \<Rightarrow>
          if c = CHR 0x27
          then let l1 = step_pos l
               in if peekByte l1 = Some (CHR 0x27) then string_loop start (step_pos l1) (b @ [CHR 0x27])
                  else Inr (b, l1)
          else if length (b @ [c]) > MaxStringLiteralBytes then Inl (PositionError start ErrLimitExceeded)
          else string_loop start (step_pos l) (b @ [c]))"
  by auto
termination
  by (relation "measure (\<lambda>(s, l, b). length (lx_src l) - lx_pos l)") (auto simp: peekByte_def step_pos_def split: if_splits)

declare string_loop.simps [simp del]

definition lexString :: "nat \<Rightarrow> lexer \<Rightarrow> sql_error + token \<times> lexer" where
  "lexString start l =
     bindR (string_loop start (step_pos l) []) (\<lambda>(b, l1).
       Inr (\<lparr>tok_kind = tokString, tok_text = b, tok_pos = start\<rparr>, l1))"

definition lex_symbol :: "char \<Rightarrow> tokenKind option" where
  "lex_symbol c = (if c = CHR ''('' then Some tokLParen else if c = CHR '')'' then Some tokRParen
     else if c = CHR '','' then Some tokComma else if c = CHR '';'' then Some tokSemicolon
     else if c = CHR ''='' then Some tokEquals else if c = CHR ''*'' then Some tokStar else None)"

definition lexer_next :: "lexer \<Rightarrow> sql_error + token \<times> lexer" where
  "lexer_next l0 =
     (let l = skipSpace l0; start = lx_pos l
      in case peekByte l of
           None \<Rightarrow> Inr (\<lparr>tok_kind = tokEOF, tok_text = [], tok_pos = start\<rparr>, l)
         | Some c \<Rightarrow>
             (case lex_symbol c of
                Some k \<Rightarrow> Inr (\<lparr>tok_kind = k, tok_text = [], tok_pos = start\<rparr>, step_pos l)
              | None \<Rightarrow>
                  if c = CHR 0x27 then lexString start l
                  else if isDigit c \<or> c = CHR ''-'' \<and> hasDigitAfterSign l then lexInt start l
                  else if isIdentStart c then lexIdent start l
                  else Inl (PositionError start ErrSyntax)))"

section \<open>Progress\<close>

lemma scan_while_pos:
  "lx_src (scan_while p l) = lx_src l" "lx_pos l \<le> lx_pos (scan_while p l)"
  by (induction p l rule: scan_while.induct; subst scan_while.simps; auto simp: step_pos_def split: option.splits)+

lemma scan_while_step: "peekByte l = Some c \<Longrightarrow> p c \<Longrightarrow> lx_pos l < lx_pos (scan_while p l)"
  using scan_while_pos(2) [of "step_pos l" p] by (subst scan_while.simps) (simp add: step_pos_def)

lemma string_loop_pos: "string_loop start l b = Inr (b', l') \<Longrightarrow> lx_src l' = lx_src l \<and> lx_pos l < lx_pos l'"
proof (induction start l b arbitrary: b' l' rule: string_loop.induct)
  case (1 start l b)
  note res = "1.prems" [unfolded string_loop.simps [of start l b]]
  then obtain c where c: "peekByte l = Some c" by (auto split: option.splits)
  show ?case
  proof (cases "c = CHR 0x27")
    case True
    let ?l1 = "step_pos l"
    show ?thesis
    proof (cases "peekByte ?l1 = Some (CHR 0x27)")
      case more: True
      then have "string_loop start (step_pos ?l1) (b @ [CHR 0x27]) = Inr (b', l')" using res c True by simp
      from "1.IH"(1) [OF c True refl more this] show ?thesis by (simp add: step_pos_def)
    next
      case False
      then show ?thesis using res c True by (auto simp: Let_def step_pos_def)
    qed
  next
    case False
    then have len: "\<not> MaxStringLiteralBytes < length (b @ [c])" and "string_loop start (step_pos l) (b @ [c]) = Inr (b', l')"
      using res c by (auto split: if_splits)
    from "1.IH"(2) [OF c False this] show ?thesis by (simp add: step_pos_def)
  qed
qed

text \<open>Every token but the end of the input takes at least one byte.\<close>

lemma lexIdent_pos:
  assumes "lexIdent start l = Inr (t, l')" "peekByte l = Some c" "isIdentStart c"
  shows "lx_src l' = lx_src l \<and> lx_pos l < lx_pos l'"
proof -
  have "isIdentCont c" using assms(3) by (simp add: isIdentCont_def)
  from scan_while_step [OF assms(2), of isIdentCont, OF this] show ?thesis
    using assms(1) by (auto simp: lexIdent_def Let_def scan_while_pos split: if_splits)
qed

lemma lexInt_pos:
  assumes "lexInt start l = Inr (t, l')"
  shows "lx_src l' = lx_src l \<and> lx_pos l < lx_pos l'"
proof -
  define l1 where "l1 = (if peekByte l = Some (CHR ''-'') then step_pos l else l)"
  have "lx_src l1 = lx_src l" "lx_pos l \<le> lx_pos l1" by (simp_all add: l1_def step_pos_def)
  then show ?thesis using assms scan_while_pos [where p = isDigit and l = l1]
    by (auto simp: lexInt_def Let_def split: if_splits simp flip: l1_def)
qed

lemma lexString_pos:
  assumes "lexString start l = Inr (t, l')"
  shows "lx_src l' = lx_src l \<and> lx_pos l < lx_pos l'"
  using assms string_loop_pos [of start "step_pos l" "[]"] by (force simp: lexString_def bindR_eq_Inr step_pos_def)

lemma lexer_next_pos:
  assumes "lexer_next l = Inr (t, l')"
  shows "lx_src l' = lx_src l" "tok_kind t \<noteq> tokEOF \<Longrightarrow> lx_pos l < lx_pos l' \<and> lx_pos l < length (lx_src l)"
proof -
  define l0 where "l0 = skipSpace l"
  have l0: "lx_src l0 = lx_src l" "lx_pos l \<le> lx_pos l0" by (simp_all add: l0_def skipSpace_def scan_while_pos)
  have "lx_src l' = lx_src l0 \<and> (tok_kind t \<noteq> tokEOF \<longrightarrow> lx_pos l0 < lx_pos l' \<and> lx_pos l0 < length (lx_src l0))"
  proof (cases "peekByte l0")
    case None
    then show ?thesis using assms by (auto simp: lexer_next_def Let_def simp flip: l0_def)
  next
    case (Some c)
    then have "lx_pos l0 < length (lx_src l0)" by (auto simp: peekByte_def split: if_splits)
    moreover have "lx_src l' = lx_src l0 \<and> lx_pos l0 < lx_pos l'"
    proof (cases "lex_symbol c")
      case None
      have "lexString (lx_pos l0) l0 = Inr (t, l') \<or> lexInt (lx_pos l0) l0 = Inr (t, l')
          \<or> isIdentStart c \<and> lexIdent (lx_pos l0) l0 = Inr (t, l')"
        using assms by (simp add: lexer_next_def Let_def None Some split: if_splits flip: l0_def)
      then show ?thesis using lexIdent_pos [OF _ Some] lexInt_pos lexString_pos by blast
    next
      case symbol: (Some k)
      then show ?thesis using assms by (auto simp: lexer_next_def Let_def Some step_pos_def simp flip: l0_def)
    qed
    ultimately show ?thesis by simp
  qed
  then show "lx_src l' = lx_src l" "tok_kind t \<noteq> tokEOF \<Longrightarrow> lx_pos l < lx_pos l' \<and> lx_pos l < length (lx_src l)"
    using l0 by auto
qed

lemma lexer_next_decreases:
  "lexer_next l = Inr (t, l') \<Longrightarrow> tok_kind t \<noteq> tokEOF \<Longrightarrow> length (lx_src l') - lx_pos l' < length (lx_src l) - lx_pos l"
  using lexer_next_pos [of l t l'] by auto

end
