(* ===== verification/Sql_Parser.thy ===== *)
theory Sql_Parser
  imports Sql_Lexer
begin

text \<open>
  The parser of the SQL frontend (\<^verbatim>\<open>internal/sql/parser.go\<close>): a recursive descent over the collected tokens.
  The five comma-separated lists of the grammar have the same loop in the code, with the same bound; it is one
  function of the item that is read.
\<close>

section \<open>Token access\<close>

record parser =
  ps_toks :: "token list"
  ps_pos :: nat

type_synonym 'a parsed = "sql_error + 'a \<times> parser"

definition peek :: "parser \<Rightarrow> token" where
  "peek p = ps_toks p ! ps_pos p"

definition at_kind :: "tokenKind \<Rightarrow> parser \<Rightarrow> bool" where
  "at_kind k p \<longleftrightarrow> tok_kind (peek p) = k"

definition advance :: "parser \<Rightarrow> parser" where
  "advance p = (if ps_pos p < length (ps_toks p) - 1 then p\<lparr>ps_pos := ps_pos p + 1\<rparr> else p)"

definition errf :: "parser \<Rightarrow> sql_error" where
  "errf p = PositionError (tok_pos (peek p)) ErrSyntax"

definition expect_tok :: "tokenKind \<Rightarrow> parser \<Rightarrow> token parsed" where
  "expect_tok k p = (if \<not> at_kind k p then Inl (errf p) else Inr (peek p, advance p))"

definition atKeyword :: "string \<Rightarrow> parser \<Rightarrow> bool" where
  "atKeyword kw p \<longleftrightarrow> at_kind tokIdent p \<and> tok_text (peek p) = kw"

definition expectKeyword :: "string \<Rightarrow> parser \<Rightarrow> sql_error + parser" where
  "expectKeyword kw p = (if \<not> at_kind tokIdent p \<or> tok_text (peek p) \<noteq> kw then Inl (errf p) else Inr (advance p))"

definition expectName :: "parser \<Rightarrow> string parsed" where
  "expectName p =
     (if \<not> at_kind tokIdent p then Inl (errf p)
      else if isKeyword (tok_text (peek p)) then Inl (PositionError (tok_pos (peek p)) ErrInvalidIdentifier)
      else Inr (tok_text (peek p), advance p))"

section \<open>Literals\<close>

text \<open>\<open>strconv.ParseInt(text, 10, 64)\<close>; \<open>None\<close> is either of its errors.\<close>

definition digit_val :: "char \<Rightarrow> nat" where
  "digit_val c = of_char c - of_char (CHR ''0'')"

definition ParseUint :: "string \<Rightarrow> nat option" where
  "ParseUint s = (if s = [] \<or> \<not> list_all isDigit s then None else Some (foldl (\<lambda>n c. 10 * n + digit_val c) 0 s))"

definition parseIntLiteral :: "string \<Rightarrow> i64 option" where
  "parseIntLiteral txt =
     (if txt = [] then None
      else let neg = (hd txt = CHR ''-'');
               s = (if hd txt = CHR ''+'' \<or> neg then tl txt else txt)
           in case ParseUint s of
                None \<Rightarrow> None
              | Some un \<Rightarrow>
                  if \<not> neg \<and> un \<ge> 2 ^ 63 then None
                  else if neg \<and> un > 2 ^ 63 then None
                  else Some (if neg then - word_of_nat un else word_of_nat un))"

definition noLiteral :: Literal where
  "noLiteral = \<lparr>lit_Kind = LiteralInt, lit_Int = 0, lit_Str = [], lit_Bool = False\<rparr>"

definition parseLiteral :: "parser \<Rightarrow> Literal parsed" where
  "parseLiteral p =
     (let t = peek p
      in if tok_kind t = tokInt
         then (case parseIntLiteral (tok_text t) of
                 None \<Rightarrow> Inl (PositionError (tok_pos t) ErrSyntax)
               | Some n \<Rightarrow> Inr (noLiteral\<lparr>lit_Kind := LiteralInt, lit_Int := n\<rparr>, advance p))
         else if tok_kind t = tokString then Inr (noLiteral\<lparr>lit_Kind := LiteralString, lit_Str := tok_text t\<rparr>, advance p)
         else if tok_kind t = tokIdent \<and> tok_text t = ''true'' then Inr (noLiteral\<lparr>lit_Kind := LiteralBool, lit_Bool := True\<rparr>, advance p)
         else if tok_kind t = tokIdent \<and> tok_text t = ''false'' then Inr (noLiteral\<lparr>lit_Kind := LiteralBool, lit_Bool := False\<rparr>, advance p)
         else if tok_kind t = tokIdent \<and> tok_text t = ''null'' then Inl (SqlError ErrUnsupportedFeature)
         else Inl (errf p))"

section \<open>Productions\<close>

text \<open>The loop of every comma-separated list.\<close>

function comma_loop :: "(parser \<Rightarrow> 'a parsed) \<Rightarrow> 'a list \<Rightarrow> parser \<Rightarrow> ('a list) parsed" where
  "comma_loop item xs p =
     bindR (item p) (\<lambda>(x, p1).
       if length (xs @ [x]) > MaxColumns then Inl (PositionError (tok_pos (peek p1)) ErrLimitExceeded)
       else if at_kind tokComma p1 then comma_loop item (xs @ [x]) (advance p1)
       else Inr (xs @ [x], p1))"
  by auto
termination
  by (relation "measure (\<lambda>(item, xs, p). Suc MaxColumns - length xs)") auto

declare comma_loop.simps [simp del]

definition parseColumnDef :: "parser \<Rightarrow> ColumnDef parsed" where
  "parseColumnDef p =
     bindR (expectName p) (\<lambda>(name, p).
       if \<not> at_kind tokIdent p then Inl (errf p)
       else case columnTypeFromKeyword (tok_text (peek p)) of
         None \<Rightarrow> Inl (SqlError ErrUnsupportedFeature)
       | Some ct \<Rightarrow>
           let p = advance p
           in if atKeyword ''primary'' p
              then bindR (expectKeyword ''key'' (advance p)) (\<lambda>p.
                     Inr (\<lparr>cd_Name = name, cd_Type = ct, cd_PrimaryKey = True\<rparr>, p))
              else Inr (\<lparr>cd_Name = name, cd_Type = ct, cd_PrimaryKey = False\<rparr>, p))"

definition parseCreateTable :: "parser \<Rightarrow> Statement parsed" where
  "parseCreateTable p =
     bindR (expectKeyword ''create'' p) (\<lambda>p.
     bindR (expectKeyword ''table'' p) (\<lambda>p.
     bindR (expectName p) (\<lambda>(tbl, p).
     bindR (expect_tok tokLParen p) (\<lambda>(t, p).
     bindR (comma_loop parseColumnDef [] p) (\<lambda>(cols, p).
     bindR (expect_tok tokRParen p) (\<lambda>(t, p).
       Inr (CreateTableStmt tbl cols, p)))))))"

definition parseInsert :: "parser \<Rightarrow> Statement parsed" where
  "parseInsert p =
     bindR (expectKeyword ''insert'' p) (\<lambda>p.
     bindR (expectKeyword ''into'' p) (\<lambda>p.
     bindR (expectName p) (\<lambda>(tbl, p).
     bindR (if at_kind tokLParen p
            then bindR (comma_loop expectName [] (advance p)) (\<lambda>(names, p).
                 bindR (expect_tok tokRParen p) (\<lambda>(t, p). Inr (Some names, p)))
            else Inr (None, p)) (\<lambda>(columns, p).
     bindR (expectKeyword ''values'' p) (\<lambda>p.
     bindR (expect_tok tokLParen p) (\<lambda>(t, p).
     bindR (comma_loop parseLiteral [] p) (\<lambda>(vals, p).
     bindR (expect_tok tokRParen p) (\<lambda>(t, p).
       Inr (InsertStmt tbl columns vals, p)))))))))"

definition parsePredicate :: "parser \<Rightarrow> Predicate parsed" where
  "parsePredicate p =
     bindR (expectName p) (\<lambda>(name, p).
     bindR (expect_tok tokEquals p) (\<lambda>(t, p).
     bindR (parseLiteral p) (\<lambda>(lit, p).
       Inr (\<lparr>pred_Column = name, pred_Value = lit\<rparr>, p))))"

definition parseSelect :: "parser \<Rightarrow> Statement parsed" where
  "parseSelect p =
     bindR (expectKeyword ''select'' p) (\<lambda>p.
     bindR (if at_kind tokStar p then Inr (None, advance p)
            else bindR (comma_loop expectName [] p) (\<lambda>(names, p). Inr (Some names, p))) (\<lambda>(columns, p).
     bindR (expectKeyword ''from'' p) (\<lambda>p.
     bindR (expectName p) (\<lambda>(tbl, p).
     bindR (if atKeyword ''where'' p
            then bindR (parsePredicate (advance p)) (\<lambda>(pred, p). Inr (Some pred, p))
            else Inr (None, p)) (\<lambda>(whr, p).
       Inr (SelectStmt tbl columns whr, p))))))"

definition parse_assignment :: "parser \<Rightarrow> Assignment parsed" where
  "parse_assignment p =
     bindR (expectName p) (\<lambda>(name, p).
     bindR (expect_tok tokEquals p) (\<lambda>(t, p).
     bindR (parseLiteral p) (\<lambda>(lit, p).
       Inr (\<lparr>asg_Column = name, asg_Value = lit\<rparr>, p))))"

definition parse_where :: "parser \<Rightarrow> Predicate parsed" where
  "parse_where p = (if \<not> atKeyword ''where'' p then Inl (SqlError ErrInvalidPredicate) else parsePredicate (advance p))"

definition parseUpdate :: "parser \<Rightarrow> Statement parsed" where
  "parseUpdate p =
     bindR (expectKeyword ''update'' p) (\<lambda>p.
     bindR (expectName p) (\<lambda>(tbl, p).
     bindR (expectKeyword ''set'' p) (\<lambda>p.
     bindR (comma_loop parse_assignment [] p) (\<lambda>(assigns, p).
     bindR (parse_where p) (\<lambda>(whr, p).
       Inr (UpdateStmt tbl assigns whr, p))))))"

definition parseDelete :: "parser \<Rightarrow> Statement parsed" where
  "parseDelete p =
     bindR (expectKeyword ''delete'' p) (\<lambda>p.
     bindR (expectKeyword ''from'' p) (\<lambda>p.
     bindR (expectName p) (\<lambda>(tbl, p).
     bindR (parse_where p) (\<lambda>(whr, p).
       Inr (DeleteStmt tbl whr, p)))))"

definition parseStatement :: "parser \<Rightarrow> Statement parsed" where
  "parseStatement p =
     (if \<not> at_kind tokIdent p then Inl (errf p)
      else let kw = tok_text (peek p)
           in if kw = ''create'' then parseCreateTable p
              else if kw = ''insert'' then parseInsert p
              else if kw = ''select'' then parseSelect p
              else if kw = ''update'' then parseUpdate p
              else if kw = ''delete'' then parseDelete p
              else if kw = ''begin'' then Inr (BeginStmt, advance p)
              else if kw = ''commit'' then Inr (CommitStmt, advance p)
              else if kw = ''rollback'' then Inr (RollbackStmt, advance p)
              else Inl (SqlError ErrUnsupportedStatement))"

text \<open>The loop of \<open>Parse\<close> that collects the tokens.\<close>

function lex_all :: "lexer \<Rightarrow> sql_error + token list" where
  "lex_all l =
     bindR (lexer_next l) (\<lambda>(t, l1).
       if tok_kind t = tokEOF then Inr [t] else bindR (lex_all l1) (\<lambda>ts. Inr (t # ts)))"
  by auto
termination
  by (relation "measure (\<lambda>l. length (lx_src l) - lx_pos l)") (auto intro: lexer_next_decreases)

declare lex_all.simps [simp del]

definition Parse :: "string \<Rightarrow> sql_error + Statement" where
  "Parse src =
     bindR (newLexer src) (\<lambda>lx.
     bindR (lex_all lx) (\<lambda>toks.
     bindR (parseStatement \<lparr>ps_toks = toks, ps_pos = 0\<rparr>) (\<lambda>(stmt, p).
       let p = (if at_kind tokSemicolon p then advance p else p)
       in if \<not> at_kind tokEOF p then Inl (errf p) else Inr stmt)))"

end
