(* ===== verification/Sql_Syntax.thy ===== *)
theory Sql_Syntax
  imports Sql_Parser
begin

text \<open>
  The concrete syntax of the SQL frontend. A statement is written out token by token, and \<open>Parse\<close> reads it
  back; what \<open>Parse\<close> accepts is always a statement within the grammar and its limits.
\<close>

section \<open>Lexing over the remaining text\<close>

definition rest :: "lexer \<Rightarrow> string" where
  "rest l = drop (lx_pos l) (lx_src l)"

lemma peekByte_rest: "peekByte l = (case rest l of [] \<Rightarrow> None | c # cs \<Rightarrow> Some c)"
  by (auto simp: peekByte_def rest_def Cons_nth_drop_Suc [symmetric])

definition skip_to :: "nat \<Rightarrow> lexer \<Rightarrow> lexer" where
  "skip_to n l = l\<lparr>lx_pos := lx_pos l + n\<rparr>"

lemma skip_to_simps [simp]:
  "skip_to 0 l = l" "skip_to m (skip_to n l) = skip_to (n + m) l" "lx_pos (skip_to n l) = lx_pos l + n" "step_pos l = skip_to 1 l"
  "lx_src (skip_to n l) = lx_src l" "rest (skip_to n l) = drop n (rest l)"
  by (simp_all add: skip_to_def step_pos_def rest_def add.commute add.left_commute)

lemma scan_while_rest: "scan_while p l = skip_to (length (takeWhile p (rest l))) l"
proof (induction p l rule: scan_while.induct)
  case (1 p l)
  show ?case
  proof (cases "rest l")
    case Nil
    then show ?thesis by (subst scan_while.simps) (simp add: peekByte_rest)
  next
    case (Cons c cs)
    then have "peekByte l = Some c" by (simp add: peekByte_rest)
    then show ?thesis using Cons 1 [of c] by (subst scan_while.simps) simp
  qed
qed

lemma between_pos_skip: "between_pos (skip_to n l) (lx_pos l) = take n (rest l)"
  by (simp add: between_pos_def rest_def)

lemma hasDigitAfterSign_rest:
  assumes "rest l = c # d # cs"
  shows "hasDigitAfterSign l = isDigit d"
proof -
  have "2 \<le> length (rest l)" "rest l ! 1 = d" using assms by simp_all
  then show ?thesis by (auto simp: hasDigitAfterSign_def rest_def)
qed

section \<open>Tokens and their text\<close>

type_synonym lexeme = "tokenKind \<times> string"

definition lexeme_of :: "token \<Rightarrow> lexeme" where
  "lexeme_of t = (tok_kind t, tok_text t)"

definition ident_ok :: "string \<Rightarrow> bool" where
  "ident_ok s \<longleftrightarrow> s \<noteq> [] \<and> isIdentStart (hd s) \<and> list_all isIdentCont s \<and> length s \<le> MaxIdentifierBytes \<and> foldIdent s = s"

definition int_ok :: "string \<Rightarrow> bool" where
  "int_ok s \<longleftrightarrow> (\<exists>ds. ds \<noteq> [] \<and> list_all isDigit ds \<and> (s = ds \<or> s = CHR ''-'' # ds)) \<and> length s \<le> MaxIntegerDigits"

fun lexeme_ok :: "lexeme \<Rightarrow> bool" where
  "lexeme_ok (tokIdent, s) = ident_ok s"
| "lexeme_ok (tokInt, s) = int_ok s"
| "lexeme_ok (tokString, s) = (length s \<le> MaxStringLiteralBytes)"
| "lexeme_ok (tokError, s) = False"
| "lexeme_ok (tokEOF, s) = False"
| "lexeme_ok (k, s) = (s = [])"

definition quoted :: "string \<Rightarrow> string" where
  "quoted s = concat (map (\<lambda>c. if c = CHR 0x27 then [c, c] else [c]) s)"

fun symbol_char :: "tokenKind \<Rightarrow> char" where
  "symbol_char tokLParen = CHR ''(''"
| "symbol_char tokRParen = CHR '')''"
| "symbol_char tokComma = CHR '',''"
| "symbol_char tokSemicolon = CHR '';''"
| "symbol_char tokEquals = CHR ''=''"
| "symbol_char k = CHR ''*''"

definition show_lexeme :: "lexeme \<Rightarrow> string" where
  "show_lexeme x = (case x of (k, s) \<Rightarrow>
     if k = tokIdent \<or> k = tokInt then s
     else if k = tokString then CHR 0x27 # quoted s @ [CHR 0x27]
     else [symbol_char k])"

definition show_lexemes :: "lexeme list \<Rightarrow> string" where
  "show_lexemes xs = concat (map (\<lambda>x. show_lexeme x @ '' '') xs)"

definition special :: "char list" where
  "special = [CHR ''('', CHR '')'', CHR '','', CHR '';'', CHR ''='', CHR ''*'', CHR 0x27, CHR ''-'', CHR '' '', CHR 0x09, CHR 0x0A, CHR 0x0D]"

lemma special_class: "list_all (\<lambda>c. \<not> isIdentCont c) special"
  by (simp add: special_def isIdentCont_def isIdentStart_def isDigit_def between_def)

lemma not_special: "c \<notin> set special \<Longrightarrow> lex_symbol c = None \<and> c \<noteq> CHR 0x27 \<and> c \<noteq> CHR ''-'' \<and> \<not> isSpace c"
  by (simp add: special_def lex_symbol_def isSpace_def)

lemma ident_start_digit: "isIdentStart c \<Longrightarrow> \<not> isDigit c"
  unfolding isIdentStart_def isDigit_def between_def
  by (elim disjE conjE) simp_all

lemma char_classes:
  "isIdentStart c \<Longrightarrow> lex_symbol c = None \<and> c \<noteq> CHR 0x27 \<and> \<not> isDigit c \<and> c \<noteq> CHR ''-'' \<and> \<not> isSpace c"
  "isDigit c \<Longrightarrow> lex_symbol c = None \<and> c \<noteq> CHR 0x27 \<and> c \<noteq> CHR ''-'' \<and> \<not> isSpace c"
  using special_class not_special [of c] ident_start_digit [of c] unfolding list_all_iff isIdentCont_def by blast+

lemma space_class: "\<not> isIdentCont (CHR '' '')" "\<not> isDigit (CHR '' '')" "isSpace (CHR '' '')"
  by (simp_all add: isIdentCont_def isIdentStart_def isDigit_def between_def isSpace_def)

lemma takeWhile_then: "list_all p s \<Longrightarrow> \<not> p c \<Longrightarrow> takeWhile p (s @ c # r) = s"
  by (induction s) simp_all

lemma skipSpace_none: "rest l = c # cs \<Longrightarrow> \<not> isSpace c \<Longrightarrow> skipSpace l = l"
  by (simp add: skipSpace_def scan_while_rest)

lemma lexer_next_space:
  assumes "rest l = CHR '' '' # cs"
  shows "lexer_next l = lexer_next (skip_to 1 l)"
proof -
  have "skipSpace l = skipSpace (skip_to 1 l)" using assms space_class by (simp add: skipSpace_def scan_while_rest)
  then show ?thesis by (simp add: lexer_next_def)
qed

lemma next_ident:
  assumes "ident_ok s" "rest l = s @ CHR '' '' # r"
  shows "lexer_next l = Inr (\<lparr>tok_kind = tokIdent, tok_text = s, tok_pos = lx_pos l\<rparr>, skip_to (length s) l)"
proof -
  obtain c cs where s: "s = c # cs" "isIdentStart c" using assms(1) by (cases s) (auto simp: ident_ok_def)
  have w: "scan_while isIdentCont l = skip_to (length s) l"
    using assms takeWhile_then [of isIdentCont s "CHR '' ''" r] space_class by (simp add: scan_while_rest ident_ok_def)
  have "lexIdent (lx_pos l) l = Inr (\<lparr>tok_kind = tokIdent, tok_text = s, tok_pos = lx_pos l\<rparr>, skip_to (length s) l)"
    using assms by (simp add: lexIdent_def Let_def w between_pos_skip ident_ok_def)
  then show ?thesis
    using char_classes(1) [OF s(2)] assms(2) s skipSpace_none [of l c "cs @ CHR '' '' # r"]
    by (simp add: lexer_next_def Let_def peekByte_rest)
qed

lemma next_int:
  assumes "int_ok s" "rest l = s @ CHR '' '' # r"
  shows "lexer_next l = Inr (\<lparr>tok_kind = tokInt, tok_text = s, tok_pos = lx_pos l\<rparr>, skip_to (length s) l)"
proof -
  obtain ds where ds: "ds \<noteq> []" "list_all isDigit ds" "s = ds \<or> s = CHR ''-'' # ds" "length s \<le> MaxIntegerDigits"
    using assms(1) by (auto simp: int_ok_def)
  obtain d ds' where d: "ds = d # ds'" "isDigit d" using ds by (cases ds) auto
  define k where "k = (if s = ds then 0 else 1 :: nat)"
  have l1: "(if peekByte l = Some (CHR ''-'') then step_pos l else l) = skip_to k l" "drop k s = ds" "length s = k + length ds"
    using assms(2) ds(3) d char_classes(2) [OF d(2)] by (auto simp: k_def peekByte_rest)
  have w: "scan_while isDigit (skip_to k l) = skip_to (length s) l"
    using assms(2) l1(2,3) takeWhile_then [OF ds(2), of "CHR '' ''" r] space_class by (simp add: scan_while_rest)
  have i: "lexInt (lx_pos l) l = Inr (\<lparr>tok_kind = tokInt, tok_text = s, tok_pos = lx_pos l\<rparr>, skip_to (length s) l)"
    unfolding lexInt_def Let_def l1(1) w using assms(2) l1(3) ds(1,4) by (simp add: between_pos_skip)
  show ?thesis
  proof (cases "s = ds")
    case True
    then show ?thesis using i char_classes(2) [OF d(2)] assms(2) d skipSpace_none [of l d "ds' @ CHR '' '' # r"]
      by (simp add: lexer_next_def Let_def peekByte_rest)
  next
    case False
    then have s: "s = CHR ''-'' # ds" using ds(3) by blast
    have "hasDigitAfterSign l"
      using assms(2) d s hasDigitAfterSign_rest [of l "CHR ''-''" d "ds' @ CHR '' '' # r"] by simp
    then show ?thesis using i assms(2) s skipSpace_none [of l "CHR ''-''" "ds @ CHR '' '' # r"]
      by (simp add: lexer_next_def Let_def peekByte_rest lex_symbol_def isSpace_def)
  qed
qed

lemma string_loop_quoted:
  assumes "rest l = quoted s @ CHR 0x27 # CHR '' '' # r" "length (b @ s) \<le> MaxStringLiteralBytes"
  shows "string_loop start l b = Inr (b @ s, skip_to (length (quoted s) + 1) l)"
  using assms
proof (induction s arbitrary: l b)
  case Nil
  then show ?case by (subst string_loop.simps) (simp add: peekByte_rest quoted_def Let_def)
next
  case (Cons c s)
  define n where "n = (if c = CHR 0x27 then 2 else 1 :: nat)"
  have q: "quoted (c # s) = replicate n c @ quoted s" by (simp add: quoted_def n_def numeral_2_eq_2)
  have "rest (skip_to n l) = quoted s @ CHR 0x27 # CHR '' '' # r" using Cons.prems(1) by (simp add: q)
  from Cons.IH [OF this, of "b @ [c]"] Cons.prems(2)
  have IH: "string_loop start (skip_to n l) (b @ [c]) = Inr (b @ c # s, skip_to (length (quoted (c # s)) + 1) l)" by (simp add: q add.assoc)
  have "string_loop start l b = string_loop start (skip_to n l) (b @ [c])"
    using Cons.prems by (subst string_loop.simps) (auto simp: peekByte_rest quoted_def n_def Let_def numeral_2_eq_2)
  then show ?case using IH by simp
qed

lemma next_string:
  assumes "length s \<le> MaxStringLiteralBytes" "rest l = show_lexeme (tokString, s) @ CHR '' '' # r"
  shows "lexer_next l = Inr (\<lparr>tok_kind = tokString, tok_text = s, tok_pos = lx_pos l\<rparr>, skip_to (length (show_lexeme (tokString, s))) l)"
proof -
  have r: "rest l = CHR 0x27 # quoted s @ CHR 0x27 # CHR '' '' # r" using assms(2) by (simp add: show_lexeme_def)
  then have "string_loop (lx_pos l) (skip_to 1 l) [] = Inr (s, skip_to (length (show_lexeme (tokString, s))) l)"
    using string_loop_quoted [of "skip_to 1 l" s r "[]"] assms(1) by (simp add: show_lexeme_def)
  then have "lexString (lx_pos l) l = Inr (\<lparr>tok_kind = tokString, tok_text = s, tok_pos = lx_pos l\<rparr>, skip_to (length (show_lexeme (tokString, s))) l)"
    by (simp add: lexString_def)
  then show ?thesis using r skipSpace_none [of l "CHR 0x27"] by (simp add: lexer_next_def Let_def peekByte_rest lex_symbol_def isSpace_def)
qed

lemma next_symbol:
  assumes "k \<notin> {tokEOF, tokError, tokIdent, tokInt, tokString}" "rest l = symbol_char k # r"
  shows "lexer_next l = Inr (\<lparr>tok_kind = k, tok_text = [], tok_pos = lx_pos l\<rparr>, skip_to 1 l)"
proof -
  have "lex_symbol (symbol_char k) = Some k \<and> \<not> isSpace (symbol_char k)" using assms(1) by (cases k) (simp_all add: lex_symbol_def isSpace_def)
  then show ?thesis using assms(2) skipSpace_none [of l "symbol_char k" r] by (simp add: lexer_next_def Let_def peekByte_rest)
qed

lemma lexer_next_lexeme:
  assumes "lexeme_ok x" "rest l = show_lexeme x @ CHR '' '' # r"
  shows "\<exists>t. lexer_next l = Inr (t, skip_to (length (show_lexeme x)) l) \<and> lexeme_of t = x \<and> tok_kind t \<noteq> tokEOF"
proof -
  obtain k s where x: "x = (k, s)" by (cases x)
  consider "k = tokIdent" | "k = tokInt" | "k = tokString" | "k \<notin> {tokEOF, tokError, tokIdent, tokInt, tokString}" "s = []"
    using assms(1) x by (cases k) auto
  then show ?thesis
  proof cases
    case 1
    then show ?thesis using next_ident [of s l r] assms x by (simp add: show_lexeme_def lexeme_of_def)
  next
    case 2
    then show ?thesis using next_int [of s l r] assms x by (simp add: show_lexeme_def lexeme_of_def)
  next
    case 3
    then show ?thesis using next_string [of s l r] assms x by (simp add: lexeme_of_def)
  next
    case 4
    then have sh: "show_lexeme x = [symbol_char k]" using x by (auto simp: show_lexeme_def)
    then show ?thesis using next_symbol [OF 4(1), of l "CHR '' '' # r"] assms x 4 by (auto simp: lexeme_of_def)
  qed
qed

lemma lex_all_lexemes:
  assumes "list_all lexeme_ok xs" "rest l = show_lexemes xs \<or> rest l = CHR '' '' # show_lexemes xs"
  shows "\<exists>ts. lex_all l = Inr ts \<and> map lexeme_of ts = xs @ [(tokEOF, [])]"
  using assms
proof (induction xs arbitrary: l)
  case Nil
  have "skipSpace l = skip_to (length (rest l)) l" using Nil(2) space_class by (auto simp: show_lexemes_def skipSpace_def scan_while_rest)
  then have "lexer_next l = Inr (\<lparr>tok_kind = tokEOF, tok_text = [], tok_pos = lx_pos l + length (rest l)\<rparr>, skip_to (length (rest l)) l)"
    by (simp add: lexer_next_def peekByte_rest)
  then show ?case by (subst lex_all.simps) (simp add: lexeme_of_def)
next
  case (Cons x xs)
  have "\<exists>l0. lexer_next l = lexer_next l0 \<and> rest l0 = show_lexeme x @ CHR '' '' # show_lexemes xs"
    using Cons.prems(2) lexer_next_space [of l] by (auto simp: show_lexemes_def)
  then obtain l0 where l0: "lexer_next l = lexer_next l0" "rest l0 = show_lexeme x @ CHR '' '' # show_lexemes xs" by blast
  obtain t where t: "lexer_next l0 = Inr (t, skip_to (length (show_lexeme x)) l0)" "lexeme_of t = x" "tok_kind t \<noteq> tokEOF"
    using lexer_next_lexeme [OF _ l0(2)] Cons.prems(1) by auto
  have "rest (skip_to (length (show_lexeme x)) l0) = CHR '' '' # show_lexemes xs" using l0(2) by simp
  with Cons.IH Cons.prems(1) obtain ts where ts: "lex_all (skip_to (length (show_lexeme x)) l0) = Inr ts" "map lexeme_of ts = xs @ [(tokEOF, [])]"
    by fastforce
  then show ?case using l0(1) t by (subst lex_all.simps) simp
qed

section \<open>Integers\<close>

definition show_int :: "i64 \<Rightarrow> string" where
  "show_int w = (if sint w < 0 then CHR ''-'' # show_nat (nat (- sint w)) else show_nat (nat (sint w)))"

lemma digit_char:
  assumes "n < 10"
  shows "isDigit (char_of (48 + n))" "digit_val (char_of (48 + n)) = n"
  using assms by (simp_all add: isDigit_def between_def digit_val_def)

lemma show_nat_digits: "show_nat n \<noteq> [] \<and> list_all isDigit (show_nat n) \<and> foldl (\<lambda>n c. 10 * n + digit_val c) 0 (show_nat n) = n"
proof (induction n rule: show_nat.induct)
  case (1 n)
  show ?case
  proof (cases "n < 10")
    case True
    then show ?thesis using digit_char [OF True] by (subst (1 2 3) show_nat.simps) simp
  next
    case False
    have "n mod 10 < 10" by simp
    from digit_char [OF this] 1 [OF False] show ?thesis by (subst (1 2 3) show_nat.simps) (simp add: False)
  qed
qed

lemma length_show_nat: "n < 10 ^ Suc k \<Longrightarrow> length (show_nat n) \<le> Suc k"
proof (induction k arbitrary: n)
  case 0
  then show ?case by (subst show_nat.simps) simp
next
  case (Suc k)
  then have "n div 10 < 10 ^ Suc k" by (simp add: less_mult_imp_div_less mult.commute)
  from Suc.IH [OF this] show ?case by (subst show_nat.simps) simp
qed

lemma ParseUint_show_nat: "ParseUint (show_nat n) = Some n"
  using show_nat_digits [of n] by (simp add: ParseUint_def)

lemma show_nat_head: "hd (show_nat n) \<noteq> CHR ''-''" "hd (show_nat n) \<noteq> CHR ''+''" "show_nat n \<noteq> []"
proof -
  obtain c cs where c: "show_nat n = c # cs" "isDigit c" using show_nat_digits [of n] by (cases "show_nat n") auto
  then show "hd (show_nat n) \<noteq> CHR ''-''" "hd (show_nat n) \<noteq> CHR ''+''" "show_nat n \<noteq> []"
    using c by (auto simp: isDigit_def between_def)
qed

lemma sint_bounds: "- (2 ^ 63) \<le> sint (w :: i64)" "sint (w :: i64) < 2 ^ 63"
  using sint_range_size [of w] by (simp_all add: size_word_def)

lemma parseIntLiteral_show: "parseIntLiteral (show_int w) = Some w"
proof (cases "sint w < 0")
  case True
  have "word_of_nat (nat (- sint w)) = - w" using True by (simp add: of_nat_nat)
  moreover have "nat (- sint w) \<le> 2 ^ 63" using sint_bounds [of w] by simp
  ultimately show ?thesis using True by (simp add: parseIntLiteral_def show_int_def ParseUint_show_nat)
next
  case False
  then have "word_of_nat (nat (sint w)) = w" by (simp add: of_nat_nat)
  moreover have "nat (sint w) < 2 ^ 63" using sint_bounds [of w] by simp
  ultimately show ?thesis using False show_nat_head [of "nat (sint w)"]
    by (simp add: parseIntLiteral_def show_int_def ParseUint_show_nat)
qed

lemma int_ok_show: "int_ok (show_int w)"
proof -
  have "nat (sint w) < 10 ^ Suc 18" "nat (- sint w) < 10 ^ Suc 18" using sint_bounds [of w] by simp_all
  then have "length (show_int w) \<le> MaxIntegerDigits"
    using length_show_nat [of "nat (sint w)" 18] length_show_nat [of "nat (- sint w)" 18] by (auto simp: show_int_def MaxIntegerDigits_def)
  then show ?thesis using show_nat_digits by (auto simp: int_ok_def show_int_def)
qed

end
