(* ===== verification/Sql_Grammar.thy ===== *)
theory Sql_Grammar
  imports Sql_Syntax
begin

text \<open>
  The statements of the grammar and the two directions of the parser: every statement within the limits is read
  back from its text, and \<open>Parse\<close> returns nothing else.
\<close>

section \<open>Statements within the limits\<close>

definition name_ok :: "string \<Rightarrow> bool" where
  "name_ok s \<longleftrightarrow> ident_ok s \<and> \<not> isKeyword s"

definition intLiteral :: "i64 \<Rightarrow> Literal" where "intLiteral n = noLiteral\<lparr>lit_Kind := LiteralInt, lit_Int := n\<rparr>"

definition stringLiteral :: "string \<Rightarrow> Literal" where "stringLiteral s = noLiteral\<lparr>lit_Kind := LiteralString, lit_Str := s\<rparr>"

definition boolLiteral :: "bool \<Rightarrow> Literal" where "boolLiteral b = noLiteral\<lparr>lit_Kind := LiteralBool, lit_Bool := b\<rparr>"

definition literal_ok :: "Literal \<Rightarrow> bool" where
  "literal_ok l \<longleftrightarrow> l = intLiteral (lit_Int l) \<or> l = stringLiteral (lit_Str l) \<and> length (lit_Str l) \<le> MaxStringLiteralBytes
     \<or> l = boolLiteral (lit_Bool l)"

definition column_ok :: "ColumnDef \<Rightarrow> bool" where
  "column_ok c \<longleftrightarrow> name_ok (cd_Name c) \<and> valid_ctype (cd_Type c)"

definition bounded :: "'a list \<Rightarrow> bool" where
  "bounded xs \<longleftrightarrow> xs \<noteq> [] \<and> length xs \<le> MaxColumns"

definition predicate_ok :: "Predicate \<Rightarrow> bool" where
  "predicate_ok q \<longleftrightarrow> name_ok (pred_Column q) \<and> literal_ok (pred_Value q)"

definition assignment_ok :: "Assignment \<Rightarrow> bool" where
  "assignment_ok a \<longleftrightarrow> name_ok (asg_Column a) \<and> literal_ok (asg_Value a)"

fun columns_ok :: "string list option \<Rightarrow> bool" where
  "columns_ok None = True"
| "columns_ok (Some ns) = (bounded ns \<and> list_all name_ok ns)"

fun stmt_ok :: "Statement \<Rightarrow> bool" where
  "stmt_ok (CreateTableStmt tbl cols) = (name_ok tbl \<and> bounded cols \<and> list_all column_ok cols)"
| "stmt_ok (InsertStmt tbl cols vals) = (name_ok tbl \<and> columns_ok cols \<and> bounded vals \<and> list_all literal_ok vals)"
| "stmt_ok (SelectStmt tbl cols whr) = (name_ok tbl \<and> columns_ok cols \<and> pred_option predicate_ok whr)"
| "stmt_ok (UpdateStmt tbl asgs whr) = (name_ok tbl \<and> bounded asgs \<and> list_all assignment_ok asgs \<and> predicate_ok whr)"
| "stmt_ok (DeleteStmt tbl whr) = (name_ok tbl \<and> predicate_ok whr)"
| "stmt_ok BeginStmt = True"
| "stmt_ok CommitStmt = True"
| "stmt_ok RollbackStmt = True"

section \<open>Their text\<close>

abbreviation kw :: "string \<Rightarrow> lexeme" where "kw s \<equiv> (tokIdent, s)"

abbreviation sym :: "tokenKind \<Rightarrow> lexeme" where "sym k \<equiv> (k, [])"

definition literal_lexeme :: "Literal \<Rightarrow> lexeme" where
  "literal_lexeme l = (case lit_Kind l of LiteralString \<Rightarrow> (tokString, lit_Str l)
     | LiteralBool \<Rightarrow> kw (if lit_Bool l then ''true'' else ''false'') | _ \<Rightarrow> (tokInt, show_int (lit_Int l)))"

fun type_keyword :: "ColumnType \<Rightarrow> string" where
  "type_keyword TypeInteger = ''integer''"
| "type_keyword TypeText = ''text''"
| "type_keyword t = ''boolean''"

fun commas :: "('a \<Rightarrow> lexeme list) \<Rightarrow> 'a list \<Rightarrow> lexeme list" where
  "commas f [] = []"
| "commas f [x] = f x"
| "commas f (x # y # xs) = f x @ sym tokComma # commas f (y # xs)"

definition name_lexemes :: "string \<Rightarrow> lexeme list" where "name_lexemes s = [kw s]"

definition column_lexemes :: "ColumnDef \<Rightarrow> lexeme list" where
  "column_lexemes c = [kw (cd_Name c), kw (type_keyword (cd_Type c))] @ (if cd_PrimaryKey c then [kw ''primary'', kw ''key''] else [])"

definition equation :: "string \<Rightarrow> Literal \<Rightarrow> lexeme list" where
  "equation col l = [kw col, sym tokEquals, literal_lexeme l]"

definition where_lexemes :: "Predicate \<Rightarrow> lexeme list" where
  "where_lexemes q = kw ''where'' # equation (pred_Column q) (pred_Value q)"

fun stmt_lexemes :: "Statement \<Rightarrow> lexeme list" where
  "stmt_lexemes (CreateTableStmt tbl cols) =
     [kw ''create'', kw ''table'', kw tbl, sym tokLParen] @ commas column_lexemes cols @ [sym tokRParen]"
| "stmt_lexemes (InsertStmt tbl cols vals) =
     [kw ''insert'', kw ''into'', kw tbl] @ (case cols of None \<Rightarrow> [] | Some ns \<Rightarrow> sym tokLParen # commas name_lexemes ns @ [sym tokRParen])
     @ [kw ''values'', sym tokLParen] @ commas (\<lambda>l. [literal_lexeme l]) vals @ [sym tokRParen]"
| "stmt_lexemes (SelectStmt tbl cols whr) =
     kw ''select'' # (case cols of None \<Rightarrow> [sym tokStar] | Some ns \<Rightarrow> commas name_lexemes ns) @ [kw ''from'', kw tbl]
     @ (case whr of None \<Rightarrow> [] | Some q \<Rightarrow> where_lexemes q)"
| "stmt_lexemes (UpdateStmt tbl asgs whr) =
     [kw ''update'', kw tbl, kw ''set''] @ commas (\<lambda>a. equation (asg_Column a) (asg_Value a)) asgs @ where_lexemes whr"
| "stmt_lexemes (DeleteStmt tbl whr) = [kw ''delete'', kw ''from'', kw tbl] @ where_lexemes whr"
| "stmt_lexemes BeginStmt = [kw ''begin'']"
| "stmt_lexemes CommitStmt = [kw ''commit'']"
| "stmt_lexemes RollbackStmt = [kw ''rollback'']"

definition show_stmt :: "Statement \<Rightarrow> string" where
  "show_stmt st = show_lexemes (stmt_lexemes st)"

section \<open>Reading\<close>

definition ahead :: "parser \<Rightarrow> lexeme list" where
  "ahead p = map lexeme_of (drop (ps_pos p) (ps_toks p))"

lemma ahead_peek [simp]:
  assumes "ahead p \<noteq> []"
  shows "tok_kind (peek p) = fst (hd (ahead p))" "tok_text (peek p) = snd (hd (ahead p))"
proof -
  have "ps_pos p < length (ps_toks p)" using assms by (simp add: ahead_def)
  then have "lexeme_of (peek p) = hd (ahead p)" by (simp add: ahead_def peek_def Cons_nth_drop_Suc [symmetric])
  then show "tok_kind (peek p) = fst (hd (ahead p))" "tok_text (peek p) = snd (hd (ahead p))"
    by (auto simp: lexeme_of_def prod_eq_iff)
qed

lemma ahead_advance [simp]: "ahead (advance p) = (case ahead p of x # y # xs \<Rightarrow> y # xs | _ \<Rightarrow> ahead p)"
proof (cases "ps_pos p < length (ps_toks p) - 1")
  case True
  then have "ahead p = lexeme_of (ps_toks p ! ps_pos p) # ahead (advance p)" "ahead (advance p) \<noteq> []"
    by (simp_all add: ahead_def advance_def Cons_nth_drop_Suc [symmetric])
  then show ?thesis by (auto split: list.splits)
next
  case False
  then have "length (ahead p) \<le> 1" by (auto simp: ahead_def)
  then show ?thesis using False by (auto simp: advance_def split: list.splits)
qed

lemmas reading = at_kind_def atKeyword_def expect_tok_def expectKeyword_def expectName_def

text \<open>A production reads a value from these lexemes when a lexeme follows that does not continue it.\<close>

definition reads :: "(parser \<Rightarrow> 'a parsed) \<Rightarrow> (lexeme \<Rightarrow> bool) \<Rightarrow> lexeme list \<Rightarrow> 'a \<Rightarrow> bool" where
  "reads f follow xs v \<longleftrightarrow> (\<forall>p y r. follow y \<longrightarrow> ahead p = xs @ y # r \<longrightarrow> (\<exists>p'. f p = Inr (v, p') \<and> ahead p' = y # r))"

lemma readsD: "reads f follow xs v \<Longrightarrow> ahead p = xs @ y # r \<Longrightarrow> follow y \<Longrightarrow> \<exists>p'. f p = Inr (v, p') \<and> ahead p' = y # r"
  unfolding reads_def by blast

lemma reads_name: "name_ok s \<Longrightarrow> reads expectName (\<lambda>y. True) (name_lexemes s) s"
  by (auto simp: reads_def reading name_lexemes_def name_ok_def)

lemma keyword_names: "isKeyword ''true''" "isKeyword ''false''" "isKeyword ''null''" "isKeyword ''where''" "isKeyword ''primary''"
  by (simp_all add: isKeyword_def sql_keywords_def)

lemma literal_okE:
  assumes "literal_ok l"
  obtains n where "l = intLiteral n" | s where "l = stringLiteral s" "length s \<le> MaxStringLiteralBytes" | b where "l = boolLiteral b"
  using assms unfolding literal_ok_def by blast

lemma literal_lexeme_simps [simp]:
  "literal_lexeme (intLiteral n) = (tokInt, show_int n)" "literal_lexeme (stringLiteral s) = (tokString, s)"
  "literal_lexeme (boolLiteral b) = kw (if b then ''true'' else ''false'')"
  by (simp_all add: literal_lexeme_def intLiteral_def stringLiteral_def boolLiteral_def)

lemma reads_literal:
  assumes "literal_ok l"
  shows "reads parseLiteral (\<lambda>y. True) [literal_lexeme l] l"
  using assms
  by (cases rule: literal_okE)
    (auto simp: reads_def parseLiteral_def Let_def parseIntLiteral_show intLiteral_def [symmetric] stringLiteral_def [symmetric] boolLiteral_def [symmetric])

lemma reads_column: "column_ok c \<Longrightarrow> reads parseColumnDef (\<lambda>y. fst y \<noteq> tokIdent) (column_lexemes c) c"
  by (cases c, cases "cd_PrimaryKey c")
    (auto simp: reads_def parseColumnDef_def column_lexemes_def reading column_ok_def name_ok_def valid_ctype_def columnTypeFromKeyword_def Let_def)

lemma reads_assignment: "assignment_ok a \<Longrightarrow> reads parse_assignment (\<lambda>y. True) (equation (asg_Column a) (asg_Value a)) a"
  unfolding reads_def
proof (intro allI impI)
  fix p y r assume a: "assignment_ok a" "ahead p = equation (asg_Column a) (asg_Value a) @ y # r"
  let ?p = "advance (advance p)"
  have "ahead ?p = [literal_lexeme (asg_Value a)] @ y # r" using a by (simp add: equation_def)
  then obtain p' where "parseLiteral ?p = Inr (asg_Value a, p')" "ahead p' = y # r"
    using readsD [OF reads_literal] a by (metis assignment_ok_def)
  then show "\<exists>p'. parse_assignment p = Inr (a, p') \<and> ahead p' = y # r"
    using a by (cases a) (simp add: parse_assignment_def reading equation_def assignment_ok_def name_ok_def)
qed

lemma comma_loop_reads:
  assumes "\<And>x. x \<in> set xs \<Longrightarrow> reads item P (f x) x" "P (sym tokComma)" "P y" "fst y \<noteq> tokComma"
    and "xs \<noteq> []" "length acc + length xs \<le> MaxColumns" "ahead p = commas f xs @ y # r"
  shows "\<exists>p'. comma_loop item acc p = Inr (acc @ xs, p') \<and> ahead p' = y # r"
  using assms
proof (induction f xs arbitrary: acc p rule: commas.induct)
  case (2 f x)
  then obtain p1 where p1: "item p = Inr (x, p1)" "ahead p1 = y # r" using readsD [of item P "f x" x p y r] by auto
  then show ?case using 2 by (subst comma_loop.simps) (simp add: reading)
next
  case (3 f x x' xs)
  let ?r = "commas f (x' # xs) @ y # r"
  have "ahead p = f x @ sym tokComma # ?r" using 3 by simp
  then obtain p1 where p1: "item p = Inr (x, p1)" "ahead p1 = sym tokComma # ?r" using readsD [of item P "f x" x p] 3 by auto
  then have "ahead (advance p1) = ?r" by (simp split: list.splits)
  then have "\<exists>p'. comma_loop item (acc @ [x]) (advance p1) = Inr ((acc @ [x]) @ x' # xs, p') \<and> ahead p' = y # r"
    using "3.prems"(6) by (intro "3.IH" "3.prems"(1-4)) simp_all
  then obtain p' where "comma_loop item (acc @ [x]) (advance p1) = Inr ((acc @ [x]) @ x' # xs, p')" "ahead p' = y # r" by blast
  then show ?case using p1 3 by (subst comma_loop.simps) (simp add: reading)
qed simp

lemma reads_predicate: "predicate_ok q \<Longrightarrow> reads parsePredicate (\<lambda>y. True) (equation (pred_Column q) (pred_Value q)) q"
  unfolding reads_def
proof (intro allI impI)
  fix p y r assume a: "predicate_ok q" "ahead p = equation (pred_Column q) (pred_Value q) @ y # r"
  let ?p = "advance (advance p)"
  have "ahead ?p = [literal_lexeme (pred_Value q)] @ y # r" using a by (simp add: equation_def)
  then obtain p' where "parseLiteral ?p = Inr (pred_Value q, p')" "ahead p' = y # r"
    using readsD [OF reads_literal] a by (metis predicate_ok_def)
  then show "\<exists>p'. parsePredicate p = Inr (q, p') \<and> ahead p' = y # r"
    using a by (cases q) (simp add: parsePredicate_def reading equation_def predicate_ok_def name_ok_def)
qed

lemma reads_where: "predicate_ok q \<Longrightarrow> reads parse_where (\<lambda>y. True) (where_lexemes q) q"
  unfolding reads_def
proof (intro allI impI)
  fix p y r assume a: "predicate_ok q" "ahead p = where_lexemes q @ y # r"
  then have "ahead (advance p) = equation (pred_Column q) (pred_Value q) @ y # r" by (simp add: where_lexemes_def equation_def)
  from readsD [OF reads_predicate this] a show "\<exists>p'. parse_where p = Inr (q, p') \<and> ahead p' = y # r"
    by (simp add: parse_where_def reading where_lexemes_def)
qed

lemma read_columns:
  assumes "bounded ns" "list_all name_ok ns" "ahead p = commas name_lexemes ns @ y # r" "fst y \<noteq> tokComma"
  shows "\<exists>p'. comma_loop expectName [] p = Inr (ns, p') \<and> ahead p' = y # r"
  using comma_loop_reads [of ns expectName "\<lambda>y. True" name_lexemes y "[]" p r] assms reads_name by (auto simp: bounded_def list_all_iff)

lemma read_create:
  assumes "stmt_ok (CreateTableStmt tbl cols)" "ahead p = stmt_lexemes (CreateTableStmt tbl cols) @ y # r"
  shows "\<exists>p'. parseCreateTable p = Inr (CreateTableStmt tbl cols, p') \<and> ahead p' = y # r"
proof -
  let ?p = "advance (advance (advance (advance p)))"
  obtain z zs where z: "commas column_lexemes cols @ sym tokRParen # y # r = z # zs" by (cases "commas column_lexemes cols") auto
  have p: "ahead ?p = commas column_lexemes cols @ sym tokRParen # y # r" using assms(2) z by simp
  obtain p' where "comma_loop parseColumnDef [] ?p = Inr (cols, p')" "ahead p' = sym tokRParen # y # r"
    using comma_loop_reads [of cols parseColumnDef "\<lambda>y. fst y \<noteq> tokIdent" column_lexemes, OF _ _ _ _ _ _ p, of "[]"]
      assms(1) reads_column by (auto simp: bounded_def list_all_iff)
  then show ?thesis using assms z by (simp add: parseCreateTable_def reading name_ok_def)
qed

lemma read_values:
  assumes "bounded vals" "list_all literal_ok vals" "ahead p = commas (\<lambda>l. [literal_lexeme l]) vals @ y # r" "fst y \<noteq> tokComma"
  shows "\<exists>p'. comma_loop parseLiteral [] p = Inr (vals, p') \<and> ahead p' = y # r"
  using comma_loop_reads [of vals parseLiteral "\<lambda>y. True" "\<lambda>l. [literal_lexeme l]" y "[]" p r] assms reads_literal
  by (auto simp: bounded_def list_all_iff)

lemma ahead_tail: "ahead p = x # xs \<Longrightarrow> xs \<noteq> [] \<Longrightarrow> ahead (advance p) = xs"
  by (cases xs) simp_all

lemma read_insert_tail:
  assumes "bounded vals" "list_all literal_ok vals"
    and "ahead p = [kw ''values'', sym tokLParen] @ commas (\<lambda>l. [literal_lexeme l]) vals @ [sym tokRParen] @ y # r"
  shows "\<exists>p'. bindR (expectKeyword ''values'' p) (\<lambda>p. bindR (expect_tok tokLParen p) (\<lambda>(t, p).
     bindR (comma_loop parseLiteral [] p) (\<lambda>(vals, p). bindR (expect_tok tokRParen p) (\<lambda>(t, p). Inr (InsertStmt tbl cols vals, p)))))
     = Inr (InsertStmt tbl cols vals, p') \<and> ahead p' = y # r"
proof -
  have "ahead (advance (advance p)) = commas (\<lambda>l. [literal_lexeme l]) vals @ [sym tokRParen] @ y # r"
    using assms(3) by (intro ahead_tail [where x = "sym tokLParen"] ahead_tail [where x = "kw ''values''"]) simp_all
  from read_values [OF assms(1,2), of "advance (advance p)" "sym tokRParen" "y # r"] this
  obtain p' where "comma_loop parseLiteral [] (advance (advance p)) = Inr (vals, p')" "ahead p' = sym tokRParen # y # r" by auto
  then show ?thesis using assms(3) by (simp add: reading)
qed

lemma read_insert:
  assumes "stmt_ok (InsertStmt tbl cols vals)" "ahead p = stmt_lexemes (InsertStmt tbl cols vals) @ y # r"
  shows "\<exists>p'. parseInsert p = Inr (InsertStmt tbl cols vals, p') \<and> ahead p' = y # r"
proof (cases cols)
  case None
  let ?p = "advance (advance (advance p))"
  have "ahead ?p = [kw ''values'', sym tokLParen] @ commas (\<lambda>l. [literal_lexeme l]) vals @ [sym tokRParen] @ y # r"
    using assms(2) None by simp
  from read_insert_tail [OF _ _ this, of tbl None] assms show ?thesis by (simp add: parseInsert_def reading name_ok_def None)
next
  case (Some ns)
  let ?p = "advance (advance (advance p))"
  let ?r = "[kw ''values'', sym tokLParen] @ commas (\<lambda>l. [literal_lexeme l]) vals @ [sym tokRParen] @ y # r"
  have p: "ahead ?p = sym tokLParen # commas name_lexemes ns @ sym tokRParen # ?r" using assms(2) Some by simp
  from ahead_tail [OF p] read_columns [of ns "advance ?p" "sym tokRParen" ?r] assms(1) Some
  obtain p1 where p1: "comma_loop expectName [] (advance ?p) = Inr (ns, p1)" "ahead p1 = sym tokRParen # ?r" by auto
  then have "ahead (advance p1) = ?r" by simp
  from read_insert_tail [OF _ _ this, of tbl cols] assms p p1 show ?thesis
    by (simp add: parseInsert_def reading name_ok_def Some)
qed

lemma read_select_tail:
  assumes "name_ok tbl" "pred_option predicate_ok whr" "y \<noteq> kw ''where''"
    and "ahead p = [kw ''from'', kw tbl] @ (case whr of None \<Rightarrow> [] | Some q \<Rightarrow> where_lexemes q) @ y # r"
  shows "\<exists>p'. bindR (expectKeyword ''from'' p) (\<lambda>p. bindR (expectName p) (\<lambda>(tbl, p).
     bindR (if atKeyword ''where'' p then bindR (parsePredicate (advance p)) (\<lambda>(pred, p). Inr (Some pred, p)) else Inr (None, p)) (\<lambda>(whr, p).
       Inr (SelectStmt tbl cols whr, p)))) = Inr (SelectStmt tbl cols whr, p') \<and> ahead p' = y # r"
proof (cases whr)
  case None
  then show ?thesis using assms by (cases y) (auto simp: reading name_ok_def)
next
  case (Some q)
  let ?p = "advance (advance p)"
  have p: "ahead ?p = kw ''where'' # equation (pred_Column q) (pred_Value q) @ y # r" using assms(4) Some by (simp add: where_lexemes_def)
  from ahead_tail [OF p] readsD [OF reads_predicate, of q "advance ?p" y r] assms(2) Some
  obtain p' where "parsePredicate (advance ?p) = Inr (q, p')" "ahead p' = y # r" by auto
  then show ?thesis using assms(1,4) Some p by (simp add: reading name_ok_def where_lexemes_def)
qed

lemma read_select:
  assumes "stmt_ok (SelectStmt tbl cols whr)" "y \<noteq> kw ''where''" "ahead p = stmt_lexemes (SelectStmt tbl cols whr) @ y # r"
  shows "\<exists>p'. parseSelect p = Inr (SelectStmt tbl cols whr, p') \<and> ahead p' = y # r"
proof (cases cols)
  case None
  let ?p = "advance (advance p)"
  have "ahead ?p = [kw ''from'', kw tbl] @ (case whr of None \<Rightarrow> [] | Some q \<Rightarrow> where_lexemes q) @ y # r" using assms(3) None by simp
  from read_select_tail [OF _ _ assms(2) this, of None] assms(1,3) show ?thesis by (simp add: parseSelect_def reading None)
next
  case (Some ns)
  let ?r = "kw tbl # (case whr of None \<Rightarrow> [] | Some q \<Rightarrow> where_lexemes q) @ y # r"
  have p: "ahead (advance p) = commas name_lexemes ns @ kw ''from'' # ?r"
    using assms(3) Some by (intro ahead_tail [where x = "kw ''select''"]) simp_all
  obtain n ns' where n: "ns = n # ns'" using assms(1) Some by (cases ns) (auto simp: bounded_def)
  have star: "fst (hd (ahead (advance p))) \<noteq> tokStar" "ahead (advance p) \<noteq> []" using p n by (cases ns'; simp add: name_lexemes_def)+
  from p read_columns [of ns "advance p" "kw ''from''" ?r] assms(1) Some
  obtain p1 where p1: "comma_loop expectName [] (advance p) = Inr (ns, p1)" "ahead p1 = kw ''from'' # ?r" by auto
  have "ahead p1 = [kw ''from'', kw tbl] @ (case whr of None \<Rightarrow> [] | Some q \<Rightarrow> where_lexemes q) @ y # r" using p1(2) by simp
  from read_select_tail [OF _ _ assms(2) this, of cols] assms(1,3) p1(1) star show ?thesis
    by (simp add: parseSelect_def reading Some del: ahead_advance)
qed

lemma read_update:
  assumes "stmt_ok (UpdateStmt tbl asgs whr)" "ahead p = stmt_lexemes (UpdateStmt tbl asgs whr) @ y # r"
  shows "\<exists>p'. parseUpdate p = Inr (UpdateStmt tbl asgs whr, p') \<and> ahead p' = y # r"
proof -
  let ?p = "advance (advance (advance p))"
  let ?f = "\<lambda>a. equation (asg_Column a) (asg_Value a)"
  let ?r = "equation (pred_Column whr) (pred_Value whr) @ y # r"
  have "ahead (advance (advance p)) = kw ''set'' # commas ?f asgs @ kw ''where'' # ?r" using assms(2) by (simp add: where_lexemes_def)
  from ahead_tail [OF this] have p: "ahead ?p = commas ?f asgs @ kw ''where'' # ?r" by simp
  obtain p1 where p1: "comma_loop parse_assignment [] ?p = Inr (asgs, p1)" "ahead p1 = kw ''where'' # ?r"
    using comma_loop_reads [of asgs parse_assignment "\<lambda>y. True" ?f, OF _ _ _ _ _ _ p, of "[]"]
      assms(1) reads_assignment by (auto simp: bounded_def list_all_iff)
  have "ahead p1 = where_lexemes whr @ y # r" using p1(2) by (simp add: where_lexemes_def)
  from readsD [OF reads_where this] assms(1) obtain p' where "parse_where p1 = Inr (whr, p')" "ahead p' = y # r" by auto
  then show ?thesis using assms p1(1) by (simp add: parseUpdate_def reading name_ok_def)
qed

lemma read_delete:
  assumes "stmt_ok (DeleteStmt tbl whr)" "ahead p = stmt_lexemes (DeleteStmt tbl whr) @ y # r"
  shows "\<exists>p'. parseDelete p = Inr (DeleteStmt tbl whr, p') \<and> ahead p' = y # r"
proof -
  have "ahead (advance (advance (advance p))) = where_lexemes whr @ y # r" using assms(2) by (simp add: where_lexemes_def)
  from readsD [OF reads_where this] assms(1)
  obtain p' where "parse_where (advance (advance (advance p))) = Inr (whr, p')" "ahead p' = y # r" by auto
  then show ?thesis using assms by (simp add: parseDelete_def reading name_ok_def)
qed

lemma read_statement:
  assumes "stmt_ok st" "fst y \<noteq> tokIdent" "ahead p = stmt_lexemes st @ y # r"
  shows "\<exists>p'. parseStatement p = Inr (st, p') \<and> ahead p' = y # r"
proof -
  have y: "y \<noteq> kw ''where''" using assms(2) by auto
  show ?thesis
    using assms read_create [of _ _ p y r] read_insert [of _ _ _ p y r] read_select [OF _ y, of _ _ _ p r] read_update [of _ _ _ p y r]
      read_delete [of _ _ p y r]
    by (cases st) (simp_all add: parseStatement_def at_kind_def del: stmt_ok.simps)
qed

lemma commas_ok: "list_all P xs \<Longrightarrow> (\<And>x. P x \<Longrightarrow> list_all lexeme_ok (f x)) \<Longrightarrow> list_all lexeme_ok (commas f xs)"
  by (induction f xs rule: commas.induct) simp_all

lemma keywords_ok: "list_all ident_ok sql_keywords"
  by (simp add: sql_keywords_def ident_ok_def isIdentStart_def isIdentCont_def isDigit_def between_def MaxIdentifierBytes_def foldIdent_def fold_char_def)

lemma keyword_ident: "isKeyword s \<Longrightarrow> ident_ok s"
  using keywords_ok by (simp add: isKeyword_def list_all_iff)

lemma keyword_idents [simp]:
  "ident_ok ''create''" "ident_ok ''table''" "ident_ok ''insert''" "ident_ok ''into''" "ident_ok ''values''" "ident_ok ''select''"
  "ident_ok ''from''" "ident_ok ''where''" "ident_ok ''update''" "ident_ok ''set''" "ident_ok ''delete''" "ident_ok ''primary''"
  "ident_ok ''key''" "ident_ok ''integer''" "ident_ok ''text''" "ident_ok ''boolean''" "ident_ok ''true''" "ident_ok ''false''"
  "ident_ok ''begin''" "ident_ok ''commit''" "ident_ok ''rollback''"
  by (rule keyword_ident, simp add: isKeyword_def sql_keywords_def)+

lemma literal_lexeme_ok: "literal_ok l \<Longrightarrow> lexeme_ok (literal_lexeme l)"
  by (erule literal_okE) (simp_all add: int_ok_show)

lemma item_lexemes_ok:
  "name_ok n \<Longrightarrow> list_all lexeme_ok (name_lexemes n)" "column_ok c \<Longrightarrow> list_all lexeme_ok (column_lexemes c)"
  "name_ok n \<Longrightarrow> literal_ok l \<Longrightarrow> list_all lexeme_ok (equation n l)"
  by (cases "cd_Type c"; simp add: name_lexemes_def name_ok_def column_lexemes_def column_ok_def equation_def literal_lexeme_ok)+

lemma commas_lexemes_ok:
  "list_all name_ok ns \<Longrightarrow> list_all lexeme_ok (commas name_lexemes ns)"
  "list_all column_ok cs \<Longrightarrow> list_all lexeme_ok (commas column_lexemes cs)"
  "list_all literal_ok ls \<Longrightarrow> list_all lexeme_ok (commas (\<lambda>l. [literal_lexeme l]) ls)"
  "list_all assignment_ok as \<Longrightarrow> list_all lexeme_ok (commas (\<lambda>a. equation (asg_Column a) (asg_Value a)) as)"
  by (erule commas_ok, simp add: item_lexemes_ok literal_lexeme_ok assignment_ok_def)+

lemma where_lexemes_ok: "predicate_ok q \<Longrightarrow> list_all lexeme_ok (where_lexemes q)"
  using item_lexemes_ok(3) by (simp add: where_lexemes_def predicate_ok_def)

lemma stmt_lexemes_ok: "stmt_ok st \<Longrightarrow> list_all lexeme_ok (stmt_lexemes st)"
  by (cases st) (auto simp: commas_lexemes_ok where_lexemes_ok name_ok_def split: option.splits)

lemma Parse_show:
  assumes "stmt_ok st" "length (show_stmt st) \<le> MaxStatementBytes"
  shows "Parse (show_stmt st) = Inr st"
proof -
  let ?l = "\<lparr>lx_src = show_stmt st, lx_pos = 0\<rparr>"
  obtain toks where t: "lex_all ?l = Inr toks" "map lexeme_of toks = stmt_lexemes st @ [sym tokEOF]"
    using lex_all_lexemes [OF stmt_lexemes_ok [OF assms(1)], of ?l] by (auto simp: rest_def show_stmt_def)
  let ?p = "\<lparr>ps_toks = toks, ps_pos = 0\<rparr>"
  have "ahead ?p = stmt_lexemes st @ sym tokEOF # []" using t(2) by (simp add: ahead_def)
  from read_statement [OF assms(1) _ this] obtain p' where "parseStatement ?p = Inr (st, p')" "ahead p' = [sym tokEOF]" by auto
  then show ?thesis using t(1) assms(2) by (simp add: Parse_def newLexer_def at_kind_def Let_def)
qed

section \<open>What the lexer returns\<close>

definition token_ok :: "token \<Rightarrow> bool" where
  "token_ok t \<longleftrightarrow> lexeme_of t = sym tokEOF \<or> lexeme_ok (lexeme_of t)"

lemma fold_char_class:
  "isIdentStart c \<Longrightarrow> isIdentStart (fold_char c)" "isIdentCont c \<Longrightarrow> isIdentCont (fold_char c)" "fold_char (fold_char c) = fold_char c"
  by (auto simp: fold_char_def isIdentCont_def isIdentStart_def isDigit_def between_def)

lemma foldIdent_ok:
  assumes "list_all isIdentCont s" "s \<noteq> []" "isIdentStart (hd s)" "length s \<le> MaxIdentifierBytes"
  shows "ident_ok (foldIdent s)"
  using assms fold_char_class by (auto simp: ident_ok_def foldIdent_def list_all_iff hd_map)

lemma take_takeWhile: "take (length (takeWhile p xs)) xs = takeWhile p xs"
  by (simp add: takeWhile_eq_take [symmetric])

lemma next_ident_ok:
  assumes "lexIdent (lx_pos l) l = Inr (t, l')" "rest l = c # cs" "isIdentStart c"
  shows "token_ok t"
proof -
  let ?s = "takeWhile isIdentCont (rest l)"
  have t: "t = \<lparr>tok_kind = tokIdent, tok_text = foldIdent ?s, tok_pos = lx_pos l\<rparr>" "length ?s \<le> MaxIdentifierBytes"
    using assms(1) by (auto simp: lexIdent_def Let_def scan_while_rest between_pos_skip take_takeWhile split: if_splits)
  have "?s \<noteq> []" "hd ?s = c" using assms(2,3) by (simp_all add: isIdentCont_def)
  then have "ident_ok (foldIdent ?s)" using t(2) assms(3) by (intro foldIdent_ok) (auto simp: list_all_iff dest: set_takeWhileD)
  then show ?thesis by (simp add: t(1) token_ok_def lexeme_of_def)
qed

lemma next_int_ok:
  assumes "lexInt (lx_pos l) l = Inr (t, l')"
  shows "token_ok t"
proof -
  define k where "k = (if peekByte l = Some (CHR ''-'') then 1 else 0 :: nat)"
  have l1: "(if peekByte l = Some (CHR ''-'') then step_pos l else l) = skip_to k l" by (simp add: k_def)
  let ?ds = "takeWhile isDigit (drop k (rest l))"
  have t: "t = \<lparr>tok_kind = tokInt, tok_text = take (k + length ?ds) (rest l), tok_pos = lx_pos l\<rparr>" "k + length ?ds \<le> MaxIntegerDigits" "?ds \<noteq> []"
    using assms unfolding lexInt_def Let_def l1 by (auto simp: scan_while_rest between_pos_skip split: if_splits)
  have "take (k + length ?ds) (rest l) = take k (rest l) @ ?ds" by (simp add: take_add take_takeWhile)
  moreover have "take k (rest l) = (if k = 0 then [] else [CHR ''-''])" by (auto simp: k_def peekByte_rest split: list.splits)
  moreover have "list_all isDigit ?ds" by (auto simp: list_all_iff dest: set_takeWhileD)
  ultimately have "int_ok (take (k + length ?ds) (rest l))"
    using t(2,3) by (auto simp: int_ok_def intro!: exI [of _ ?ds])
  then show ?thesis by (simp add: t(1) token_ok_def lexeme_of_def)
qed

lemma string_loop_length: "string_loop start l b = Inr (b', l') \<Longrightarrow> length b' + length (rest l') \<le> length b + length (rest l)"
proof (induction start l b arbitrary: b' l' rule: string_loop.induct)
  case (1 start l b)
  note res = "1.prems" [unfolded string_loop.simps [of start l b]]
  then obtain c cs where c: "rest l = c # cs" "peekByte l = Some c" by (auto simp: peekByte_rest split: list.splits)
  show ?case
  proof (cases "c = CHR 0x27")
    case True
    show ?thesis
    proof (cases "peekByte (step_pos l) = Some (CHR 0x27)")
      case more: True
      then have "string_loop start (step_pos (step_pos l)) (b @ [CHR 0x27]) = Inr (b', l')" using res c True by simp
      from "1.IH"(1) [OF c(2) True refl more this] show ?thesis using c(1) by simp
    next
      case False
      then show ?thesis using res c True by (auto simp: Let_def)
    qed
  next
    case False
    then have len: "\<not> MaxStringLiteralBytes < length (b @ [c])" and "string_loop start (step_pos l) (b @ [c]) = Inr (b', l')"
      using res c by (auto split: if_splits)
    from "1.IH"(2) [OF c(2) False this] show ?thesis using c(1) by simp
  qed
qed

lemma lexer_next_ok:
  assumes "lexer_next l = Inr (t, l')" "length (lx_src l) \<le> MaxStatementBytes"
  shows "token_ok t"
proof -
  define l0 where "l0 = skipSpace l"
  have src: "length (rest l0) \<le> MaxStringLiteralBytes"
    using assms(2) by (simp add: l0_def skipSpace_def scan_while_pos rest_def MaxStatementBytes_def MaxStringLiteralBytes_def)
  note n = assms(1) [unfolded lexer_next_def, folded l0_def]
  show ?thesis
  proof (cases "rest l0")
    case Nil
    then show ?thesis using n by (auto simp: Let_def peekByte_rest token_ok_def lexeme_of_def)
  next
    case (Cons c cs)
    show ?thesis
    proof (cases "lex_symbol c")
      case None
      have "lexString (lx_pos l0) l0 = Inr (t, l') \<or> lexInt (lx_pos l0) l0 = Inr (t, l')
          \<or> isIdentStart c \<and> lexIdent (lx_pos l0) l0 = Inr (t, l')"
        using n by (simp add: Let_def None peekByte_rest Cons split: if_splits)
      moreover have "token_ok t" if "lexString (lx_pos l0) l0 = Inr (t, l')"
        using that string_loop_length [of "lx_pos l0" "step_pos l0" "[]"] src Cons
        by (force simp: lexString_def bindR_eq_Inr token_ok_def lexeme_of_def)
      ultimately show ?thesis using next_ident_ok [OF _ Cons] next_int_ok by blast
    next
      case (Some k)
      then have "t = \<lparr>tok_kind = k, tok_text = [], tok_pos = lx_pos l0\<rparr>" using n Cons by (auto simp: Let_def peekByte_rest)
      moreover have "lexeme_ok (k, [])" using Some by (auto simp: lex_symbol_def split: if_splits)
      ultimately show ?thesis by (simp add: token_ok_def lexeme_of_def)
    qed
  qed
qed

lemma lex_all_ok:
  "lex_all l = Inr ts \<Longrightarrow> length (lx_src l) \<le> MaxStatementBytes \<Longrightarrow> ts \<noteq> [] \<and> list_all token_ok ts"
proof (induction l arbitrary: ts rule: lex_all.induct)
  case (1 l)
  from "1.prems"(1) obtain t l1 where n: "lexer_next l = Inr (t, l1)" by (subst (asm) lex_all.simps) (auto simp: bindR_eq_Inr)
  note t = lexer_next_ok [OF n "1.prems"(2)]
  show ?case
  proof (cases "tok_kind t = tokEOF")
    case True
    then show ?thesis using t n "1.prems"(1) by (subst (asm) lex_all.simps) auto
  next
    case False
    then obtain ts1 where ts1: "lex_all l1 = Inr ts1" "ts = t # ts1"
      using n "1.prems"(1) by (subst (asm) lex_all.simps) (auto simp: bindR_eq_Inr)
    have "length (lx_src l1) \<le> MaxStatementBytes" using lexer_next_pos(1) [OF n] "1.prems"(2) by simp
    from "1.IH" [OF n refl False ts1(1) this] show ?thesis using t ts1(2) by simp
  qed
qed

section \<open>What the parser returns\<close>

definition ps_ok :: "parser \<Rightarrow> bool" where
  "ps_ok p \<longleftrightarrow> list_all token_ok (ps_toks p) \<and> ps_pos p < length (ps_toks p)"

definition yields :: "(parser \<Rightarrow> 'a parsed) \<Rightarrow> ('a \<Rightarrow> bool) \<Rightarrow> bool" where
  "yields f Q \<longleftrightarrow> (\<forall>p v p'. ps_ok p \<longrightarrow> f p = Inr (v, p') \<longrightarrow> ps_ok p' \<and> Q v)"

lemma yieldsD: "yields f Q \<Longrightarrow> ps_ok p \<Longrightarrow> f p = Inr (v, p') \<Longrightarrow> ps_ok p' \<and> Q v"
  unfolding yields_def by blast

lemma ps_ok_advance [simp]: "ps_ok p \<Longrightarrow> ps_ok (advance p)"
  by (auto simp: ps_ok_def advance_def)

lemma ps_ok_peek: "ps_ok p \<Longrightarrow> token_ok (peek p)"
  by (simp add: ps_ok_def peek_def list_all_length)

lemma yields_expect: "yields (expect_tok k) (\<lambda>t. True)"
  by (auto simp: yields_def expect_tok_def split: if_splits)

lemma keyword_advance: "ps_ok p \<Longrightarrow> expectKeyword s p = Inr p' \<Longrightarrow> ps_ok p'"
  by (auto simp: expectKeyword_def split: if_splits)

lemma yields_name: "yields expectName name_ok"
  using ps_ok_peek by (force simp: yields_def expectName_def name_ok_def at_kind_def token_ok_def lexeme_of_def split: if_splits)

lemma literals_ok [simp]:
  "literal_ok (intLiteral n)" "length s \<le> MaxStringLiteralBytes \<Longrightarrow> literal_ok (stringLiteral s)" "literal_ok (boolLiteral b)"
  by (simp_all add: literal_ok_def intLiteral_def stringLiteral_def boolLiteral_def noLiteral_def)

lemma yields_literal: "yields parseLiteral literal_ok"
  unfolding yields_def
proof (intro allI impI)
  fix p v p' assume p: "ps_ok p" and r: "parseLiteral p = Inr (v, p')"
  have "token_ok (peek p)" by (rule ps_ok_peek [OF p])
  then have len: "tok_kind (peek p) = tokString \<Longrightarrow> length (tok_text (peek p)) \<le> MaxStringLiteralBytes" by (auto simp: token_ok_def lexeme_of_def)
  have "p' = advance p \<and> (v = intLiteral (lit_Int v) \<or> tok_kind (peek p) = tokString \<and> v = stringLiteral (tok_text (peek p)) \<or> v = boolLiteral (lit_Bool v))"
    using r by (auto simp: parseLiteral_def Let_def intLiteral_def stringLiteral_def boolLiteral_def noLiteral_def split: if_splits option.splits)
  then show "ps_ok p' \<and> literal_ok v" using p len by (metis ps_ok_advance literals_ok)
qed

lemma yields_comma:
  "yields item Q \<Longrightarrow> ps_ok p \<Longrightarrow> list_all Q acc \<Longrightarrow> comma_loop item acc p = Inr (xs, p') \<Longrightarrow> ps_ok p' \<and> list_all Q xs \<and> bounded xs"
proof (induction item acc p arbitrary: xs p' rule: comma_loop.induct)
  case (1 item acc p)
  note res = "1.prems"(4) [unfolded comma_loop.simps [of item acc p]]
  then obtain x p1 where x: "item p = Inr (x, p1)" by (auto simp: bindR_eq_Inr)
  have p1: "ps_ok p1" "list_all Q (acc @ [x])" using yieldsD [OF "1.prems"(1,2) x] "1.prems"(3) by simp_all
  have len: "\<not> MaxColumns < length (acc @ [x])" using res x by (auto split: if_splits)
  show ?case
  proof (cases "at_kind tokComma p1")
    case True
    then have "comma_loop item (acc @ [x]) (advance p1) = Inr (xs, p')" using res x len by simp
    from "1.IH" [OF x refl len True "1.prems"(1) _ p1(2) this] show ?thesis using p1(1) by simp
  next
    case False
    then show ?thesis using res x len p1 by (auto simp: bounded_def)
  qed
qed

lemma yields_column: "yields parseColumnDef column_ok"
  unfolding yields_def
proof (intro allI impI)
  fix p v p' assume p: "ps_ok p" and r: "parseColumnDef p = Inr (v, p')"
  obtain name p1 where n: "expectName p = Inr (name, p1)" using r by (auto simp: parseColumnDef_def bindR_eq_Inr)
  have n1: "ps_ok p1" "name_ok name" using yieldsD [OF yields_name p n] by simp_all
  obtain ct where ct: "columnTypeFromKeyword (tok_text (peek p1)) = Some ct" using r n by (auto simp: parseColumnDef_def split: if_splits option.splits)
  have v: "cd_Name v = name \<and> cd_Type v = ct \<and> ps_ok p'"
    using r n ct n1(1) by (auto simp: parseColumnDef_def Let_def bindR_eq_Inr split: if_splits dest: keyword_advance [rotated])
  have "valid_ctype ct" using ct by (auto simp: columnTypeFromKeyword_def valid_ctype_def split: if_splits)
  then show "ps_ok p' \<and> column_ok v" using v n1(2) by (simp add: column_ok_def)
qed

text \<open>One step of a production.\<close>

lemma yields_bind:
  assumes "yields f Q" "\<And>x. Q x \<Longrightarrow> yields (g x) R"
  shows "yields (\<lambda>p. bindR (f p) (\<lambda>(x, p). g x p)) R"
  unfolding yields_def
proof (intro allI impI)
  fix p v p' assume p: "ps_ok p" and r: "bindR (f p) (\<lambda>(x, p). g x p) = Inr (v, p')"
  obtain x p1 where x: "f p = Inr (x, p1)" "g x p1 = Inr (v, p')" using r by (auto simp: bindR_eq_Inr)
  have "ps_ok p1" "Q x" using yieldsD [OF assms(1) p x(1)] by simp_all
  then show "ps_ok p' \<and> R v" using yieldsD [OF assms(2) _ x(2)] by blast
qed

lemma yields_bind_keyword: "yields g R \<Longrightarrow> yields (\<lambda>p. bindR (expectKeyword s p) g) R"
  unfolding yields_def by (auto simp: bindR_eq_Inr dest: keyword_advance)

lemma yields_return: "R v \<Longrightarrow> yields (\<lambda>p. Inr (v, p)) R"
  by (simp add: yields_def)

lemma yields_advance: "yields f R \<Longrightarrow> yields (\<lambda>p. f (advance p)) R"
  using ps_ok_advance unfolding yields_def by blast

lemma yields_if: "yields f R \<Longrightarrow> yields g R \<Longrightarrow> yields (\<lambda>p. if b p then f p else g p) R"
  using yieldsD [of f R] yieldsD [of g R] unfolding yields_def by (metis (full_types))

lemma yields_list: "yields item Q \<Longrightarrow> yields (comma_loop item []) (\<lambda>xs. list_all Q xs \<and> bounded xs)"
proof -
  assume "yields item Q"
  from yields_comma [OF this, of _ "[]"] show ?thesis by (simp add: yields_def [of "comma_loop item []"])
qed

lemma yields_fail: "yields (\<lambda>p. Inl (e p)) R"
  by (simp add: yields_def)

lemmas yields_intros = yields_bind_keyword yields_bind [OF yields_name] yields_bind [OF yields_expect] yields_bind [OF yields_literal]
  yields_bind [OF yields_list [OF yields_name]] yields_bind [OF yields_list [OF yields_literal]] yields_bind [OF yields_list [OF yields_column]]

lemma yields_predicate: "yields parsePredicate predicate_ok"
  unfolding parsePredicate_def [abs_def] by (intro yields_intros yields_return) (simp add: predicate_ok_def)

lemma yields_assignment: "yields parse_assignment assignment_ok"
  unfolding parse_assignment_def [abs_def] by (intro yields_intros yields_return) (simp add: assignment_ok_def)

lemma yields_where: "yields parse_where predicate_ok"
  unfolding parse_where_def [abs_def] by (intro yields_if yields_fail yields_advance yields_predicate)

lemma yields_option: "yields f Q \<Longrightarrow> (\<And>x. Q x \<Longrightarrow> R (Some x)) \<Longrightarrow> yields (\<lambda>p. bindR (f p) (\<lambda>(x, p). Inr (Some x, p))) R"
  by (erule yields_bind) (simp add: yields_return)

lemma yields_create: "yields parseCreateTable stmt_ok"
  unfolding parseCreateTable_def [abs_def] by (intro yields_intros yields_return) simp

lemma yields_columns: "yields (\<lambda>p. if at_kind tokLParen p
            then bindR (comma_loop expectName [] (advance p)) (\<lambda>(names, p).
                 bindR (expect_tok tokRParen p) (\<lambda>(t, p). Inr (Some names, p)))
            else Inr (None, p)) columns_ok"
  by (intro yields_if yields_return yields_bind [OF yields_advance [OF yields_list [OF yields_name]]] yields_bind [OF yields_expect]) simp_all

lemma yields_insert: "yields parseInsert stmt_ok"
  unfolding parseInsert_def [abs_def] by (intro yields_intros yields_bind [OF yields_columns] yields_return) simp

lemma yields_projection: "yields (\<lambda>p. if at_kind tokStar p then Inr (None, advance p)
            else bindR (comma_loop expectName [] p) (\<lambda>(names, p). Inr (Some names, p))) columns_ok"
  using yields_option [OF yields_list [OF yields_name], of columns_ok]
  by (intro yields_if yields_advance [where f = "\<lambda>p. Inr (None, p)"] yields_return) simp_all

lemma yields_opt_where: "yields (\<lambda>p. if atKeyword ''where'' p
            then bindR (parsePredicate (advance p)) (\<lambda>(pred, p). Inr (Some pred, p))
            else Inr (None, p)) (pred_option predicate_ok)"
  by (intro yields_if yields_return yields_option [OF yields_advance [OF yields_predicate]]) simp_all

lemma yields_select: "yields parseSelect stmt_ok"
  unfolding parseSelect_def [abs_def]
  by (intro yields_intros yields_bind [OF yields_projection] yields_bind [OF yields_opt_where] yields_return) simp

lemma yields_update: "yields parseUpdate stmt_ok"
  unfolding parseUpdate_def [abs_def]
  by (intro yields_intros yields_bind [OF yields_list [OF yields_assignment]] yields_bind [OF yields_where] yields_return) simp

lemma yields_delete: "yields parseDelete stmt_ok"
  unfolding parseDelete_def [abs_def] by (intro yields_intros yields_bind [OF yields_where] yields_return) simp

lemma yields_statement: "yields parseStatement stmt_ok"
  unfolding parseStatement_def [abs_def] Let_def
  by (intro yields_if yields_fail yields_create yields_insert yields_select yields_update yields_delete
      yields_advance [where f = "\<lambda>p. Inr (st, p)" for st] yields_return) simp_all

lemma Parse_stmt_ok:
  assumes "Parse src = Inr st"
  shows "stmt_ok st" "length src \<le> MaxStatementBytes"
proof -
  show len: "length src \<le> MaxStatementBytes" using assms by (auto simp: Parse_def newLexer_def bindR_eq_Inr split: if_splits)
  obtain toks p where t: "lex_all \<lparr>lx_src = src, lx_pos = 0\<rparr> = Inr toks" "parseStatement \<lparr>ps_toks = toks, ps_pos = 0\<rparr> = Inr (st, p)"
    using assms len by (auto simp: Parse_def newLexer_def bindR_eq_Inr Let_def split: if_splits)
  have "ps_ok \<lparr>ps_toks = toks, ps_pos = 0\<rparr>" using lex_all_ok [OF t(1)] len by (simp add: ps_ok_def)
  from yieldsD [OF yields_statement this t(2)] show "stmt_ok st" by simp
qed

text \<open>
  Claim C29. The parser reads every documented statement and returns no other. What \<open>Parse\<close> returns is a statement of the grammar: names are
  folded identifiers of at most 128 bytes that are no keywords, lists have between one and 64 items, types are the three of the
  subset, literals are 64-bit integers, strings or booleans. And every such statement, written out with keywords, symbols, decimal
  integers and quoted strings within the length limit, is read back unchanged.
\<close>

theorem Parse_exact:
  "(Parse src = Inr st \<longrightarrow> stmt_ok st) \<and> (stmt_ok st \<and> length (show_stmt st) \<le> MaxStatementBytes \<longrightarrow> Parse (show_stmt st) = Inr st)"
  using Parse_stmt_ok Parse_show by blast

definition demo_insert :: Statement where
  "demo_insert = InsertStmt ''t'' (Some [''k'', ''v'', ''b'']) [intLiteral (- 7), stringLiteral [CHR ''i'', CHR 0x27, CHR ''s''], boolLiteral True]"

lemma demo_names: "list_all (\<lambda>s. s \<noteq> [] \<and> isIdentStart (hd s) \<and> list_all isIdentCont s \<and> foldIdent s = s \<and> \<not> isKeyword s) [''t'', ''k'', ''v'', ''b'']"
  by code_simp

lemma demo_insert_ok: "stmt_ok demo_insert"
  using demo_names
  by (simp add: demo_insert_def name_ok_def ident_ok_def bounded_def MaxColumns_def MaxIdentifierBytes_def literal_ok_def
      intLiteral_def stringLiteral_def boolLiteral_def noLiteral_def MaxStringLiteralBytes_def)

lemma show_demo_insert: "length (show_stmt demo_insert) \<le> MaxStatementBytes"
  using int_ok_show [of "- 7"]
  by (simp add: demo_insert_def show_stmt_def show_lexemes_def show_lexeme_def name_lexemes_def literal_lexeme_def
    intLiteral_def stringLiteral_def boolLiteral_def noLiteral_def MaxStatementBytes_def quoted_def
      int_ok_def MaxIntegerDigits_def)

theorem Parse_exact_witness:
  "stmt_ok demo_insert \<and> length (show_stmt demo_insert) \<le> MaxStatementBytes \<and> Parse (show_stmt demo_insert) = Inr demo_insert"
  using Parse_exact [of "[]" demo_insert] demo_insert_ok show_demo_insert by blast

end
