(* ===== verification/Sql_Session.thy ===== *)
theory Sql_Session
  imports Sql_Engine Sql_Grammar
begin

text \<open>
  SQL sessions (\<^verbatim>\<open>internal/sql/exec.go\<close>): explicit transactions, auto-commit, and the answer to a repeated
  request. The session's field \<open>txn\<close> is an option, passed through every call. The admission gate of the engine is not part
  of the session: what \<open>Acquire\<close> answers is an argument.
\<close>

section \<open>Transaction control\<close>

definition execBegin :: "('m, 't, 'e) Engine \<Rightarrow> 'm \<Rightarrow> 't option \<Rightarrow> 'm \<times> 't option \<times> ('e exec_error + Result)" where
  "execBegin eng m s =
     (if s \<noteq> None then (m, s, Inl (Frontend (SqlError ErrTransactionAlreadyActive)))
      else case eng_Begin eng m of
        (Inl err, m1) \<Rightarrow> (m1, s, Inl (EngineError err))
      | (Inr t, m1) \<Rightarrow> (m1, Some t, Inr (okResult 0)))"

definition execCommit :: "('m, 't, 'e) Engine \<Rightarrow> 'm \<Rightarrow> 't option \<Rightarrow> string \<Rightarrow> 'm \<times> 't option \<times> ('e exec_error + Result)" where
  "execCommit eng m s requestID =
     (case s of
        None \<Rightarrow> (m, s, Inl (Frontend (SqlError ErrNoActiveTransaction)))
      | Some t \<Rightarrow> (case eng_Commit eng requestID m t of
          (m1, t1, Inl err) \<Rightarrow> (m1, None, Inl err)
        | (m1, t1, Inr commitSeq) \<Rightarrow> (m1, None, Inr ((okResult 0)\<lparr>res_CommitSeq := commitSeq\<rparr>))))"

definition execRollback :: "('m, 't, 'e) Engine \<Rightarrow> 'm \<Rightarrow> 't option \<Rightarrow> 'm \<times> 't option \<times> ('e exec_error + Result)" where
  "execRollback eng m s =
     (case s of
        None \<Rightarrow> (m, s, Inl (Frontend (SqlError ErrNoActiveTransaction)))
      | Some t \<Rightarrow> (case eng_Abort eng m t of
          (m1, t1, Some err) \<Rightarrow> (m1, None, Inl (EngineError err))
        | (m1, t1, None) \<Rightarrow> (m1, None, Inr (okResult 0))))"

section \<open>Statements\<close>

definition isMutatingStatement :: "Statement \<Rightarrow> bool" where
  "isMutatingStatement stmt = (case stmt of
     CreateTableStmt tbl cols \<Rightarrow> True | InsertStmt tbl cols vals \<Rightarrow> True | UpdateStmt tbl assigns whr \<Rightarrow> True
   | DeleteStmt tbl whr \<Rightarrow> True | _ \<Rightarrow> False)"

definition mutationRetryResult :: "Statement \<Rightarrow> RequestOutcome \<Rightarrow> 'e exec_error + Result" where
  "mutationRetryResult stmt outcome =
     (if \<not> ro_Committed outcome then Inl (Frontend (SqlError sql_sentinel.ErrConflict))
      else case stmt of
        CreateTableStmt tbl cols \<Rightarrow> Inr ((okResult 0)\<lparr>res_CommitSeq := ro_CommitSeq outcome\<rparr>)
      | _ \<Rightarrow> Inr ((okResult 1)\<lparr>res_CommitSeq := ro_CommitSeq outcome\<rparr>))"

text \<open>A transaction whose statement failed is aborted; the errors of the abort are dropped. The writes of a statement
  come after its last check, so the transaction is the one the statement started with. A panic unwinds
  past the abort.\<close>

definition run_statement :: "('m, 't, 'e) Engine \<Rightarrow> bool \<Rightarrow> 'm \<Rightarrow> 't \<Rightarrow> Statement \<Rightarrow> string \<Rightarrow> 'm \<times> 't option \<times> ('e exec_error + Result)" where
  "run_statement eng explicit m t stmt requestID =
     (case execOne eng m t stmt of
        Inl Panic \<Rightarrow> (m, if explicit then Some t else None, Inl Panic)
      | Inl err \<Rightarrow> (let (m1, t1, e) = eng_Abort eng m t in (m1, None, Inl err))
      | Inr (result, t1) \<Rightarrow>
          if explicit then (m, Some t1, Inr result)
          else case eng_Commit eng requestID m t1 of
            (m1, t2, Inl err) \<Rightarrow> (m1, None, Inl err)
          | (m1, t2, Inr commitSeq) \<Rightarrow> (m1, None, Inr (result\<lparr>res_CommitSeq := commitSeq\<rparr>)))"

definition executeDML :: "('m, 't, 'e) Engine \<Rightarrow> 'm \<Rightarrow> 't option \<Rightarrow> Statement \<Rightarrow> string \<Rightarrow> 'm \<times> 't option \<times> ('e exec_error + Result)" where
  "executeDML eng m s stmt requestID =
     (case s of
        Some t \<Rightarrow> run_statement eng True m t stmt requestID
      | None \<Rightarrow> (case eng_Begin eng m of
          (Inl err, m1) \<Rightarrow> (m1, None, Inl (EngineError err))
        | (Inr t, m1) \<Rightarrow>
            (case (if requestID \<noteq> [] \<and> isMutatingStatement stmt then eng_LookupOutcome eng m1 requestID else None) of
               Some outcome \<Rightarrow> (let (m2, t1, e) = eng_Abort eng m1 t in (m2, None, mutationRetryResult stmt outcome))
             | None \<Rightarrow> run_statement eng False m1 t stmt requestID)))"

definition dispatch :: "('m, 't, 'e) Engine \<Rightarrow> 'm \<Rightarrow> 't option \<Rightarrow> Statement \<Rightarrow> string \<Rightarrow> 'm \<times> 't option \<times> ('e exec_error + Result)" where
  "dispatch eng m s stmt requestID = (case stmt of
     BeginStmt \<Rightarrow> execBegin eng m s
   | CommitStmt \<Rightarrow> execCommit eng m s requestID
   | RollbackStmt \<Rightarrow> execRollback eng m s
   | _ \<Rightarrow> executeDML eng m s stmt requestID)"

definition ExecuteStatement :: "('m, 't, 'e) Engine \<Rightarrow> 'e option \<Rightarrow> 'm \<Rightarrow> 't option \<Rightarrow> Statement \<Rightarrow> string
    \<Rightarrow> 'm \<times> 't option \<times> ('e exec_error + Result)" where
  "ExecuteStatement eng refused m s stmt requestID =
     (case refused of Some err \<Rightarrow> (m, s, Inl (EngineError err)) | None \<Rightarrow> dispatch eng m s stmt requestID)"

definition Execute :: "('m, 't, 'e) Engine \<Rightarrow> 'e option \<Rightarrow> 'm \<Rightarrow> 't option \<Rightarrow> string \<Rightarrow> string
    \<Rightarrow> 'm \<times> 't option \<times> ('e exec_error + Result)" where
  "Execute eng refused m s sqlText requestID =
     (case refused of Some err \<Rightarrow> (m, s, Inl (EngineError err))
      | None \<Rightarrow> (case Parse sqlText of
          Inl err \<Rightarrow> (m, s, Inl (Frontend err))
        | Inr stmt \<Rightarrow> dispatch eng m s stmt requestID))"

section \<open>What the parser makes fits the storage formats\<close>

lemma name_ok_table: "name_ok s \<Longrightarrow> table_name s"
proof -
  assume "name_ok s"
  then have "list_all isIdentCont s" "length s \<le> MaxIdentifierBytes" by (simp_all add: name_ok_def ident_ok_def)
  moreover have "\<not> isIdentCont (CHR 0x00)" by code_simp
  ultimately show ?thesis by (auto simp: table_name_def list_all_iff MaxIdentifierBytes_def)
qed

lemma literal_ok_fits: "literal_ok l \<Longrightarrow> literal_fits l"
  by (cases l) (auto simp: literal_ok_def literal_fits_def short_def intLiteral_def stringLiteral_def boolLiteral_def noLiteral_def MaxStringLiteralBytes_def)

lemma stmt_ok_fits: "stmt_ok st \<Longrightarrow> stmt_fits st"
  by (cases st) (auto simp: name_ok_table literal_ok_fits column_ok_def name_ok_def ident_ok_def MaxIdentifierBytes_def
      predicate_ok_def assignment_ok_def list_all_iff pred_option_def)

lemma Parse_fits: "Parse src = Inr st \<Longrightarrow> stmt_fits st"
  using Parse_stmt_ok(1) stmt_ok_fits by blast

section \<open>Statements do what they mean\<close>

text \<open>
  Claim C9. A SQL statement does what it means. In an open session of the standalone engine whose visible data is what SQL wrote,
  every statement the parser accepts has the result, the error and the effect on the tables that its relational
  meaning gives: the schemas and rows the session sees afterwards are those of the meaning, stay readable, and nothing panics.
  The meaning binds names and checks types with the planner's functions; what it specifies is the use of keys, encodings, scans
  and local writes. It is about one statement inside an open transaction, so BEGIN, COMMIT and ROLLBACK are refused there.
\<close>

theorem statement_refines:
  assumes "session_live m t" "stored (txn_view m t)" "Parse src = Inr st"
  shows "\<exists>out. means st (db_of (txn_view m t)) out \<and> (case out of
     Inl e \<Rightarrow> execOne standaloneEngine m t st = Inl (Frontend e)
   | Inr (res, db) \<Rightarrow> \<exists>t1. execOne standaloneEngine m t st = Inr (res, t1) \<and> session_live m t1
       \<and> stored (txn_view m t1) \<and> db_of (txn_view m t1) = db)"
  using se.execOne_refines [OF assms(1,2) Parse_fits [OF assms(3)]] unfolding refines_def .

definition demo_create :: Statement where
  "demo_create = CreateTableStmt ''t'' [\<lparr>cd_Name = ''k'', cd_Type = TypeInteger, cd_PrimaryKey = True\<rparr>]"

definition demo_schema :: Schema where
  "demo_schema = \<lparr>sch_Table = ''t'', sch_Columns = [\<lparr>col_Name = ''k'', col_Type = TypeInteger\<rparr>], sch_PrimaryKey = 0\<rparr>"

definition demo_manager :: Manager where
  "demo_manager = \<lparr>mg_walog = demo_wal, mg_fsm = NewFSM NewStore, mg_lastSeq = 0, mg_nextTxnID = 0,
     mg_TxnConflictsTotal = 0, mg_RequestIDDuplicatesTotal = 0\<rparr>"

lemma demo_create_parse: "Parse (show_stmt demo_create) = Inr demo_create"
proof (rule Parse_show)
  show "stmt_ok demo_create" using demo_names
    by (simp add: demo_create_def name_ok_def ident_ok_def bounded_def column_ok_def valid_ctype_def MaxColumns_def MaxIdentifierBytes_def)
  show "length (show_stmt demo_create) \<le> MaxStatementBytes"
    by (simp add: demo_create_def show_stmt_def show_lexemes_def show_lexeme_def column_lexemes_def MaxStatementBytes_def)
qed

lemma demo_create_means: "means demo_create Map.empty out \<longleftrightarrow> out = Inr (okResult 0, [''t'' \<mapsto> (demo_schema, Map.empty)])"
  by (simp add: demo_create_def buildSchema_def valid_ctype_def MaxColumns_def demo_schema_def)

lemma demo_session_live: "session_live demo_manager (fst (Begin demo_manager))"
  using fsm_inv_NewFSM by (auto simp: session_live_def demo_manager_def Begin_def Let_def txn_ok_def NewFSM_def)

lemma demo_session_empty: "txn_view demo_manager (fst (Begin demo_manager)) = Map.empty"
  by (simp add: txn_view_def demo_manager_def Begin_def Let_def NewFSM_def NewStore_def read_at_def chain_of_def vupto_def value_of_def fun_eq_iff)

lemma stored_empty: "stored Map.empty" "db_of Map.empty = Map.empty"
  by (simp_all add: stored_def db_of_def fun_eq_iff)

theorem statement_refines_witness:
  "\<exists>t1. execOne standaloneEngine demo_manager (fst (Begin demo_manager)) demo_create = Inr (okResult 0, t1)
     \<and> db_of (txn_view demo_manager t1) = [''t'' \<mapsto> (demo_schema, Map.empty)]"
  using statement_refines [OF demo_session_live _ demo_create_parse] stored_empty
  by (auto simp: demo_session_empty demo_create_means)

end
