(* ===== verification/Sql_System.thy ===== *)
theory Sql_System
  imports Sql_Session Txn_Durable
begin

text \<open>
  SQL sessions on one database. Any number of sessions send statements, interleaved in any order, over the standalone
  engine. The tables stay well typed under snapshot isolation, in the committed state and in what every open transaction sees; a
  statement outside a transaction has exactly its meaning on the committed tables; a repeated request gets its first answer;
  and the committed tables survive a crash.
\<close>

section \<open>Views\<close>

definition snapshot_of :: "Manager \<Rightarrow> u64 \<Rightarrow> string \<Rightarrow> bytes option" where
  "snapshot_of m q k = read_at (fsm_store (mg_fsm m)) k q"

definition overlay :: "(string, Mutation) gomap \<Rightarrow> (string \<Rightarrow> bytes option) \<Rightarrow> string \<Rightarrow> bytes option" where
  "overlay W V k = (case mget W k of Some mu \<Rightarrow> if mut_Tombstone mu then None else Some (mut_Value mu) | None \<Rightarrow> V k)"

lemma txn_view_overlay: "txn_view m t = overlay (tx_writes t) (snapshot_of m (tx_startSeq t))"
  by (simp add: txn_view_def overlay_def snapshot_of_def fun_eq_iff split: option.split)

lemma manager_view_snapshot: "manager_view m = snapshot_of m (mg_lastSeq m)"
  by (simp add: manager_view_def snapshot_of_def fun_eq_iff)

lemma overlay_empty [simp]: "overlay [] V = V"
  by (simp add: overlay_def fun_eq_iff)

lemma find_write_set:
  assumes "txn_ok t"
  shows "find (\<lambda>mu. mut_Key mu = k) (write_set t) = mget (tx_writes t) k"
proof (cases "mget (tx_writes t) k")
  case None
  then show ?thesis using write_set_mem [OF assms] by (auto simp: find_None_iff)
next
  case (Some mu)
  then have "mut_Key mu = k" using assms by (auto simp: txn_ok_def)
  then have "mu \<in> set (write_set t)" using Some write_set_mem [OF assms, of mu] by simp
  then obtain mu' where mu': "find (\<lambda>mu. mut_Key mu = k) (write_set t) = Some mu'"
    using \<open>mut_Key mu = k\<close> by (cases "find (\<lambda>mu. mut_Key mu = k) (write_set t)") (auto simp: find_None_iff)
  then have "mu' \<in> set (write_set t)" "mut_Key mu' = k" by (auto simp: find_Some_iff)
  then show ?thesis using mu' write_set_mem [OF assms, of mu'] by simp
qed

lemma read_current:
  assumes "fsm_inv n f" "\<And>l. LatestCommitSeq (fsm_store f) k = Some l \<Longrightarrow> l \<le> q"
  shows "read_at (fsm_store f) k q = value_of (chain_of (fsm_store f) k)"
  using vupto_above_latest [OF fsm_invD(1) [OF assms(1)] assms(2)] by (simp add: read_at_def)

lemma read_above:
  assumes "fsm_inv n f" "n \<le> q"
  shows "read_at (fsm_store f) k q = read_at (fsm_store f) k n"
proof -
  have l: "l \<le> n" if "LatestCommitSeq (fsm_store f) k = Some l" for l by (rule fsm_invD(4) [OF assms(1) that])
  then have "l \<le> q" if "LatestCommitSeq (fsm_store f) k = Some l" for l using that assms(2) order.trans by blast
  from read_current [OF assms(1) this] read_current [OF assms(1) l] show ?thesis by simp
qed

section \<open>What a commit does to the views\<close>

definition conflict_free :: "Manager \<Rightarrow> Txn \<Rightarrow> bool" where
  "conflict_free m t \<longleftrightarrow> (\<forall>k mu. mget (tx_writes t) k = Some mu \<longrightarrow> manager_view m k = snapshot_of m (tx_startSeq t) k)"

lemma step_effect:
  assumes ok: "manager_ok n lay m" "Suc n < 2 ^ 64" and live: "session_live m t" and q: "tx_startSeq t \<le> mg_lastSeq m"
    and st: "commit_step (command_of (tx_id t) rid (tx_startSeq t) (write_set t)) m m' r"
  shows "(\<exists>k l. r = Inl (txn_error.ErrConflict, Some (aborted_outcome rid k l)) \<and> tx_startSeq t < mg_lastSeq m \<and> manager_view m' = manager_view m)
    \<or> (r = Inr (committed_outcome rid (mg_lastSeq m')) \<and> manager_view m' = overlay (tx_writes t) (manager_view m) \<and> conflict_free m t)"
proof -
  let ?cmd = "command_of (tx_id t) rid (tx_startSeq t) (write_set t)" and ?s = "fsm_store (mg_fsm m)" and ?i = "w_nextLogIndex (mg_walog m)"
  have tok: "txn_ok t" using live by (simp add: session_live_def)
  note d = manager_okD [OF ok(1)] and nx = next_seq [OF ok]
  have ds: "distinct (map mut_Key (write_set t))" by (rule write_set_ok(1) [OF tok])
  obtain oc where s: "Apply ?i ?cmd (mg_fsm m) = (mg_fsm m', Inr oc)" "r = commit_verdict oc" "mg_lastSeq m' = ?i" "lookupLocked (mg_fsm m) ?cmd = Inl ErrRequestIDUnknown"
    using st unfolding commit_step_def Precheck_def by blast
  have cmd: "cmd_RequestID ?cmd = rid" "cmd_StartSeq ?cmd = tx_startSeq t" "cmd_Mutations ?cmd = write_set t" by (simp_all add: command_of_def)
  note cases = Apply_cases [OF d(5) nx(1), of ?cmd, unfolded cmd, OF ds]
  have above: "read_at ?s k ?i = manager_view m k" for k
    using read_above [OF d(5) less_imp_le [OF nx(1)]] by (simp add: manager_view_def)
  show ?thesis
  proof (cases "CheckConflicts ?s (tx_startSeq t) (write_set t)")
    case None
    have m': "fsm_store (mg_fsm m') = apply_all ?i (write_set t) ?s" "oc = committed_outcome rid ?i"
      using cases s(1,4) None d(6) by (auto simp: record_outcome_def)
    have "manager_view m' = overlay (tx_writes t) (manager_view m)"
      using read_at_commit [OF fsm_invD(1) [OF d(5)] ds fsm_inv_ApplyCommit(1) [OF d(5) nx(1) ds], of _ ?i] above
      by (simp add: fun_eq_iff overlay_def manager_view_def [of m'] m'(1) s(3) find_write_set [OF tok] split: option.split)
    moreover have "conflict_free m t" unfolding conflict_free_def
    proof (intro allI impI)
      fix k mu assume mu: "mget (tx_writes t) k = Some mu"
      then have "mut_Key mu = k" "mu \<in> set (write_set t)" using tok write_set_mem [OF tok, of mu] by (auto simp: txn_ok_def)
      then have l: "l \<le> tx_startSeq t" if "LatestCommitSeq ?s k = Some l" for l using None that by (auto simp: CheckConflicts_None)
      then show "manager_view m k = snapshot_of m (tx_startSeq t) k"
        using read_current [OF d(5) l] read_current [OF d(5) order.trans [OF l q]] by (simp add: manager_view_def snapshot_of_def)
    qed
    moreover have "r = Inr (committed_outcome rid (mg_lastSeq m'))" using s(2,3) m'(2) by (simp add: commit_verdict_def committed_outcome_def)
    ultimately show ?thesis by blast
  next
    case (Some kl)
    obtain k l where kl: "kl = (k, l)" by (cases kl)
    have m': "fsm_store (mg_fsm m') = ?s" "oc = aborted_outcome rid k l"
      using cases s(1,4) Some kl d(6) by (auto simp: record_outcome_def)
    obtain "LatestCommitSeq ?s k = Some l" "tx_startSeq t < l" using CheckConflicts_Some [OF Some [unfolded kl]] by blast
    then have "tx_startSeq t < mg_lastSeq m" using fsm_invD(4) [OF d(5)] by (meson less_le_trans)
    moreover have "manager_view m' = manager_view m" using above by (simp add: fun_eq_iff manager_view_def [of m'] m'(1) s(3))
    ultimately show ?thesis using s(2) m'(2) by (auto simp: commit_verdict_def aborted_outcome_def)
  qed
qed

text \<open>What other sessions rely on: the old snapshots and the recorded outcomes stay.\<close>

definition keeps :: "Manager \<Rightarrow> Manager \<Rightarrow> bool" where
  "keeps m m' \<longleftrightarrow> mg_lastSeq m \<le> mg_lastSeq m' \<and> (\<forall>q \<le> mg_lastSeq m. snapshot_of m' q = snapshot_of m q)
     \<and> (\<forall>rid e. mget (outcomes (mg_fsm m)) rid = Some e \<longrightarrow> mget (outcomes (mg_fsm m')) rid = Some e)"

lemma keeps_refl [simp]: "keeps m m"
  by (simp add: keeps_def)

lemma keeps_trans: "keeps m m1 \<Longrightarrow> keeps m1 m2 \<Longrightarrow> keeps m m2"
  by (auto simp: keeps_def)

lemma keeps_same: "same_state m m' \<Longrightarrow> keeps m m'"
  by (simp add: keeps_def same_state_def snapshot_of_def fun_eq_iff)

lemma commit_keeps:
  assumes "durable w0 n m" "Suc (Suc n) < 2 ^ 64" "write_set_fits mus" "manager_commit txnID rid startSeq mus m = (m', r)"
  shows "keeps m m'"
proof -
  obtain lay where ok: "manager_ok n lay m" using assms(1) by (auto simp: durable_def)
  note v = commit_view [OF assms]
  have "mget (outcomes (mg_fsm m')) rid' = Some e" if e: "mget (outcomes (mg_fsm m)) rid' = Some e" for rid' e
  proof (cases "same_state m m'")
    case True
    then show ?thesis using e by (simp add: same_state_def)
  next
    case False
    then have st: "commit_step (command_of txnID rid startSeq mus) m m' r" using commit_cases [OF ok _ assms(3,4)] assms(2) by simp
    then have "mg_fsm m' = fsm_step (w_nextLogIndex (mg_walog m), EvCommit (command_of txnID rid startSeq mus)) (mg_fsm m)"
      by (auto simp: commit_step_def)
    then show ?thesis using outcomes_persist [OF e] by metis
  qed
  then show ?thesis using v by (auto simp: keeps_def snapshot_of_def fun_eq_iff)
qed

section \<open>Tables under concurrent commits\<close>

lemma schema_at_cong: "V (schemaKey tbl) = V' (schemaKey tbl) \<Longrightarrow> schema_at V tbl s = schema_at V' tbl s"
  by (simp add: schema_at_def)

text \<open>SQL writes a schema only where its snapshot has none and never deletes one; everything else it writes are rows.\<close>

definition sql_writes :: "(string, Mutation) gomap \<Rightarrow> (string \<Rightarrow> bytes option) \<Rightarrow> bool" where
  "sql_writes W S \<longleftrightarrow> (\<forall>k mu. mget W k = Some mu \<longrightarrow>
     (\<exists>tbl. k = schemaKey tbl) \<and> \<not> mut_Tombstone mu \<and> S k = None \<or> (\<exists>k'. k = rowKeyTag # k'))"

lemma sql_writes_schema: "sql_writes W S \<Longrightarrow> mget W (schemaKey tbl) = Some mu \<Longrightarrow> \<not> mut_Tombstone mu \<and> S (schemaKey tbl) = None"
  unfolding sql_writes_def by (metis key_tags(1))

lemma overlay_stored:
  assumes V: "stored V" and S: "stored (overlay W S)" and stay: "\<And>tbl b. S (schemaKey tbl) = Some b \<Longrightarrow> V (schemaKey tbl) = Some b"
    and W: "sql_writes W S" and free: "\<And>k mu. mget W k = Some mu \<Longrightarrow> V k = S k"
  shows "stored (overlay W V)" "V (schemaKey tbl) = Some b \<Longrightarrow> overlay W V (schemaKey tbl) = Some b"
proof -
  have new: "V (schemaKey tbl) = None" if "mget W (schemaKey tbl) = Some mu" for tbl mu
    using sql_writes_schema [OF W that] free [OF that] by simp
  then show kept: "V (schemaKey tbl) = Some b \<Longrightarrow> overlay W V (schemaKey tbl) = Some b" for tbl b
    by (auto simp: overlay_def split: option.split)
  have fromV: "schema_at (overlay W V) tbl s" if "schema_at V tbl s" for tbl s
    using that kept [of tbl] by (auto simp: schema_at_def)
  have fromS: "schema_at (overlay W V) tbl s" if at: "schema_at (overlay W S) tbl s" for tbl s
  proof (cases "mget W (schemaKey tbl)")
    case None
    then have "overlay W V (schemaKey tbl) = overlay W S (schemaKey tbl)"
      using at stay [of tbl] by (auto simp: overlay_def schema_at_def)
    then show ?thesis using at schema_at_cong by metis
  next
    case (Some mu)
    then show ?thesis using at by (simp add: schema_at_def overlay_def)
  qed
  show "stored (overlay W V)" unfolding stored_def
  proof (intro conjI allI impI)
    fix tbl assume p: "overlay W V (schemaKey tbl) \<noteq> None"
    show "\<exists>s. schema_at (overlay W V) tbl s"
    proof (cases "mget W (schemaKey tbl)")
      case None
      then have "V (schemaKey tbl) \<noteq> None" using p by (simp add: overlay_def)
      then show ?thesis using storedD_schema [OF V] fromV by blast
    next
      case (Some mu)
      then have "overlay W S (schemaKey tbl) \<noteq> None" using p by (simp add: overlay_def)
      then show ?thesis using storedD_schema [OF S] fromS by blast
    qed
  next
    fix k b assume p: "overlay W V (rowKeyTag # k) = Some b"
    show "\<exists>tbl s vs. schema_at (overlay W V) tbl s \<and> decodeRow s b = Inr vs \<and> rowKey tbl (vs ! sch_PrimaryKey s) = Some (rowKeyTag # k)"
    proof (cases "mget W (rowKeyTag # k)")
      case None
      then have "V (rowKeyTag # k) = Some b" using p by (simp add: overlay_def)
      then show ?thesis using V fromV unfolding stored_def by blast
    next
      case (Some mu)
      then have "overlay W S (rowKeyTag # k) = Some b" using p by (simp add: overlay_def)
      then show ?thesis using S fromS unfolding stored_def by blast
    qed
  qed
qed

section \<open>The invariant\<close>

definition schemas_stay :: "Manager \<Rightarrow> bool" where
  "schemas_stay m \<longleftrightarrow> (\<forall>q tbl b. q \<le> mg_lastSeq m \<longrightarrow> snapshot_of m q (schemaKey tbl) = Some b \<longrightarrow> manager_view m (schemaKey tbl) = Some b)"

definition sql_manager :: "WAL \<Rightarrow> nat \<Rightarrow> Manager \<Rightarrow> bool" where
  "sql_manager w0 n m \<longleftrightarrow> durable w0 n m \<and> stored (manager_view m) \<and> schemas_stay m"

definition sql_session :: "Manager \<Rightarrow> Txn \<Rightarrow> bool" where
  "sql_session m t \<longleftrightarrow> session_live m t \<and> tx_startSeq t \<le> mg_lastSeq m \<and> sql_writes (tx_writes t) (snapshot_of m (tx_startSeq t))
     \<and> stored (txn_view m t)"

lemma durable_live: "durable w0 n m \<Longrightarrow> (\<exists>n. fsm_inv n (mg_fsm m)) \<and> gcWatermark (mg_fsm m) = 0"
  unfolding durable_def using manager_okD(5,6) by blast

lemma session_keeps:
  assumes "sql_session m t" "keeps m m'" "durable w0 n m'"
  shows "sql_session m' t" "txn_view m' t = txn_view m t"
proof -
  have q: "tx_startSeq t \<le> mg_lastSeq m" using assms(1) by (simp add: sql_session_def)
  then have s: "snapshot_of m' (tx_startSeq t) = snapshot_of m (tx_startSeq t)" using assms(2) by (simp add: keeps_def)
  then show v: "txn_view m' t = txn_view m t" by (simp add: txn_view_overlay)
  have "tx_startSeq t \<le> mg_lastSeq m'" using q assms(2) by (auto simp: keeps_def)
  moreover have "session_live m' t" using assms(1) durable_live [OF assms(3)] by (simp add: sql_session_def session_live_def)
  ultimately show "sql_session m' t" using assms(1) v s by (simp add: sql_session_def)
qed

lemma same_sql_manager:
  assumes "sql_manager w0 n m" "same_state m m'"
  shows "sql_manager w0 n m'"
proof -
  have "snapshot_of m' = snapshot_of m" "mg_lastSeq m' = mg_lastSeq m" using assms(2) by (simp_all add: same_state_def snapshot_of_def fun_eq_iff)
  moreover from this have "manager_view m' = manager_view m" by (simp add: manager_view_snapshot)
  ultimately show ?thesis using assms same_state_durable by (auto simp: sql_manager_def schemas_stay_def)
qed

lemma commit_sql_manager:
  assumes m: "sql_manager w0 n m" "Suc (Suc n) < 2 ^ 64" and t: "sql_session m t" and c: "txn_Commit rid m t = (m', t', res)"
  shows "\<exists>n' \<le> Suc n. sql_manager w0 n' m' \<and> keeps m m'"
proof -
  have d: "durable w0 n m" "stored (manager_view m)" "schemas_stay m" using m(1) by (simp_all add: sql_manager_def)
  have tt: "session_live m t" "tx_startSeq t \<le> mg_lastSeq m" "sql_writes (tx_writes t) (snapshot_of m (tx_startSeq t))" "stored (txn_view m t)" "txn_ok t"
    using t by (simp_all add: sql_session_def session_live_def)
  obtain r where r: "manager_commit (tx_id t) rid (tx_startSeq t) (write_set t) m = (m', r)"
    using c tt(1) by (auto simp: txn_Commit_def session_live_def split: prod.splits sum.splits)
  note ws = write_set_fits [OF tt(5)]
  obtain lay where ok: "manager_ok n lay m" using d(1) by (auto simp: durable_def)
  have k: "keeps m m'" by (rule commit_keeps [OF d(1) m(2) ws r])
  obtain n' where n': "n' \<le> Suc n" "durable w0 n' m'" using commit_durable [OF d(1) m(2) ws r] by blast
  consider (same) "same_state m m'" | (step) "commit_step (command_of (tx_id t) rid (tx_startSeq t) (write_set t)) m m' r"
    using commit_cases [OF ok _ ws r] m(2) by auto
  then show ?thesis
  proof cases
    case same
    then show ?thesis using same_sql_manager [OF m(1)] k by (intro exI [of _ n]) simp
  next
    case step
    have i: "mg_lastSeq m' = mg_lastSeq m + 1" using step manager_okD(2,3) [OF ok] by (auto simp: commit_step_def add.commute)
    have view: "manager_view m' = manager_view m \<or> manager_view m' = overlay (tx_writes t) (manager_view m) \<and> conflict_free m t"
      using step_effect [OF ok _ tt(1,2) step] m(2) by auto
    have old: "snapshot_of m (tx_startSeq t) (schemaKey tbl) = Some b \<Longrightarrow> manager_view m (schemaKey tbl) = Some b" for tbl b
      using d(3) tt(2) by (auto simp: schemas_stay_def)
    have new: "stored (manager_view m') \<and> (\<forall>tbl b. manager_view m (schemaKey tbl) = Some b \<longrightarrow> manager_view m' (schemaKey tbl) = Some b)"
      using view
    proof
      assume "manager_view m' = manager_view m"
      then show ?thesis using d(2) by simp
    next
      assume v: "manager_view m' = overlay (tx_writes t) (manager_view m) \<and> conflict_free m t"
      then show ?thesis using overlay_stored [OF d(2) tt(4) [unfolded txn_view_overlay] old tt(3)] by (auto simp: conflict_free_def)
    qed
    have "schemas_stay m'" unfolding schemas_stay_def
    proof (intro allI impI)
      fix q tbl b assume q: "q \<le> mg_lastSeq m'" and b: "snapshot_of m' q (schemaKey tbl) = Some b"
      show "manager_view m' (schemaKey tbl) = Some b"
      proof (cases "q = mg_lastSeq m'")
        case True
        then show ?thesis using b by (simp add: manager_view_snapshot)
      next
        case False
        then have "q \<le> mg_lastSeq m" using q i less_inc [of q "mg_lastSeq m"] by simp
        then show ?thesis using b k d(3) new by (auto simp: keeps_def schemas_stay_def)
      qed
    qed
    then show ?thesis using n' new k by (auto simp: sql_manager_def)
  qed
qed

section \<open>Statements in a session\<close>

lemma refines_cases:
  fixes r :: "'e exec_error + Result \<times> 't"
  assumes "refines live view m t st r"
  obtains (error) e where "r = Inl (Frontend e)" "means st (db_of (view m t)) (Inl e)"
  | (result) res t1 where "r = Inr (res, t1)" "means st (db_of (view m t)) (Inr (res, db_of (view m t1)))" "live m t1" "stored (view m t1)"
proof -
  obtain out where o: "means st (db_of (view m t)) out" "case out of Inl e \<Rightarrow> r = Inl (Frontend e)
      | Inr (res, db) \<Rightarrow> \<exists>t1. r = Inr (res, t1) \<and> live m t1 \<and> stored (view m t1) \<and> db_of (view m t1) = db"
    using assms unfolding refines_def by blast
  show thesis
  proof (cases out)
    case (Inl e)
    then show thesis using o error by simp
  next
    case (Inr x)
    then show thesis using o result by (cases x) auto
  qed
qed

lemma execOne_writes:
  assumes "execOne standaloneEngine m t st = Inr (res, t1)"
  shows "\<not> isMutatingStatement st \<and> t1 = t \<or> (\<exists>tbl v. txn_Write (schemaKey tbl) v t = Inr t1 \<and> txn_Read m t (schemaKey tbl) = Inr None)
    \<or> (\<exists>k v. txn_Write (rowKeyTag # k) v t = Inr t1) \<or> (\<exists>k. txn_Delete (rowKeyTag # k) t = Inr t1)"
proof -
  have key: "\<exists>k'. k = rowKeyTag # k'" if "row_key tbl pk = Inr k" for tbl k and pk :: Value
    using that rowKey_tag by (auto simp: row_key_def split: option.splits)
  have part: "engine_part e = Inr x \<longleftrightarrow> e = Inr x" for e :: "txn_error + 'x" and x by (cases e) simp_all
  show ?thesis
  proof (cases st)
    case (CreateTableStmt tbl cols)
    then show ?thesis using assms by (auto simp: isMutatingStatement_def execOne_def execCreateTable_def bindR_eq_Inr part split: if_splits)
  next
    case (InsertStmt tbl cols lits)
    then show ?thesis using assms by (auto simp: isMutatingStatement_def execOne_def execInsert_def bindR_eq_Inr part split: if_splits dest!: key)
  next
    case (SelectStmt tbl cols whr)
    then show ?thesis using assms by (auto simp: isMutatingStatement_def execOne_def execSelect_def bindR_eq_Inr part Let_def split: option.splits)
  next
    case (UpdateStmt tbl assigns whr)
    then show ?thesis using assms by (auto simp: isMutatingStatement_def execOne_def execUpdate_def bindR_eq_Inr part split: option.splits dest!: key)
  next
    case (DeleteStmt tbl whr)
    then show ?thesis using assms by (auto simp: isMutatingStatement_def execOne_def execDelete_def bindR_eq_Inr part split: if_splits dest!: key)
  qed (use assms in \<open>simp_all add: execOne_def\<close>)
qed

lemma sql_writes_put:
  assumes "sql_writes W S" "(\<exists>tbl. k = schemaKey tbl) \<and> \<not> mut_Tombstone mu \<and> S k = None \<or> (\<exists>k'. k = rowKeyTag # k')"
  shows "sql_writes (mput k mu W) S"
  using assms by (auto simp: sql_writes_def)

lemma session_statement:
  assumes t: "sql_session m t" and p: "stmt_fits st" and e: "execOne standaloneEngine m t st = Inr (res, t1)"
  shows "sql_session m t1" "tx_startSeq t1 = tx_startSeq t"
proof -
  have tt: "session_live m t" "tx_startSeq t \<le> mg_lastSeq m" "sql_writes (tx_writes t) (snapshot_of m (tx_startSeq t))" "stored (txn_view m t)"
    using t by (simp_all add: sql_session_def)
  have "session_live m t1 \<and> stored (txn_view m t1)"
    by (rule refines_cases [OF se.execOne_refines [OF tt(1,4) p]]) (use e in auto)
  moreover have w: "tx_startSeq t1 = tx_startSeq t \<and> sql_writes (tx_writes t1) (snapshot_of m (tx_startSeq t))"
    using execOne_writes [OF e]
  proof (elim disjE exE conjE)
    fix tbl v assume a: "txn_Write (schemaKey tbl) v t = Inr t1" and r: "txn_Read m t (schemaKey tbl) = Inr None"
    have "txn_view m t (schemaKey tbl) = None" using txn_Read_view [OF tt(1)] r by simp
    then have "snapshot_of m (tx_startSeq t) (schemaKey tbl) = None"
      using sql_writes_schema [OF tt(3), of tbl] by (auto simp: txn_view_overlay overlay_def split: option.splits if_splits)
    then show ?thesis using a tt(3) by (auto simp: txn_Write_def recordWriteLocked_def Let_def intro!: sql_writes_put split: if_splits)
  qed (use tt(3) in \<open>auto simp: txn_Write_def txn_Delete_def recordWriteLocked_def Let_def intro!: sql_writes_put split: if_splits\<close>)
  ultimately show "sql_session m t1" "tx_startSeq t1 = tx_startSeq t" using tt(2) by (simp_all add: sql_session_def)
qed

lemma Begin_session:
  assumes "sql_manager w0 n m" "Begin m = (t, m1)"
  shows "sql_session m1 t" "sql_manager w0 n m1" "same_state m m1" "txn_view m1 t = manager_view m" "tx_startSeq t = mg_lastSeq m"
proof -
  have b: "m1 = m\<lparr>mg_nextTxnID := mg_nextTxnID m + 1\<rparr>" "tx_startSeq t = mg_lastSeq m" "tx_writes t = []" "tx_state t = StateActive" "txn_ok t"
    using assms(2) Begin_same [OF assms(2)] by (auto simp: Begin_def Let_def)
  show s: "same_state m m1" by (simp add: b same_state_def)
  then show mm: "sql_manager w0 n m1" by (rule same_sql_manager [OF assms(1)])
  show v: "txn_view m1 t = manager_view m" by (simp add: txn_view_overlay b manager_view_snapshot) (simp add: snapshot_of_def fun_eq_iff)
  have "durable w0 n m1" using mm by (simp add: sql_manager_def)
  then have "session_live m1 t" using durable_live [of w0 n m1] b(4,5) by (simp add: session_live_def)
  then show "sql_session m1 t" using v b assms(1) by (auto simp: sql_session_def sql_writes_def sql_manager_def)
  show "tx_startSeq t = mg_lastSeq m" by (rule b(2))
qed

section \<open>Requests\<close>

type_synonym session_outcome = "Manager \<times> Txn option \<times> (txn_error exec_error + Result)"

text \<open>What a request leaves behind.\<close>

definition request_ok :: "WAL \<Rightarrow> nat \<Rightarrow> Manager \<Rightarrow> session_outcome \<Rightarrow> bool" where
  "request_ok w0 n m out \<longleftrightarrow> (case out of (m', s', r) \<Rightarrow> (\<exists>n' \<le> Suc n. sql_manager w0 n' m') \<and> keeps m m'
     \<and> (\<forall>t. s' = Some t \<longrightarrow> sql_session m' t) \<and> r \<noteq> Inl Panic)"

lemma request_ok_same:
  assumes "sql_manager w0 n m" "same_state m m'" "r \<noteq> Inl Panic" "\<forall>t. s' = Some t \<longrightarrow> sql_session m' t"
  shows "request_ok w0 n m (m', s', r)"
  using assms same_sql_manager [OF assms(1,2)] keeps_same [OF assms(2)] by (auto simp: request_ok_def intro!: exI [of _ n])

lemma request_ok_id:
  assumes "sql_manager w0 n m" "r \<noteq> Inl Panic" "\<forall>t. s' = Some t \<longrightarrow> sql_session m t"
  shows "request_ok w0 n m (m, s', r)"
  using request_ok_same [OF assms(1) _ assms(2,3)] by (simp add: same_state_def)

lemma request_ok_commit:
  assumes "sql_manager w0 n m" "Suc (Suc n) < 2 ^ 64" "sql_session m t" "standalone_Commit rid m t = (m', t', res)"
  shows "request_ok w0 n m (m', None, case res of Inl err \<Rightarrow> Inl err | Inr q \<Rightarrow> Inr (f q))"
proof -
  obtain res' where c: "txn_Commit rid m t = (m', t', res')" "res \<noteq> Inl Panic"
    using assms(4) by (auto simp: standalone_Commit_def split: prod.splits sum.splits)
  show ?thesis using commit_sql_manager [OF assms(1-3) c(1)] c(2) by (auto simp: request_ok_def split: sum.splits)
qed

lemma standalone_Abort_same: "\<exists>t1 e. standalone_Abort m t = (m, t1, e)"
  by (cases "txn_Abort t") (simp_all add: standalone_Abort_def)

lemma no_panic:
  assumes "sql_session m t" "stmt_fits st"
  shows "execOne standaloneEngine m t st \<noteq> Inl Panic"
  by (rule refines_cases [OF se.execOne_refines [of m t st]]) (use assms in \<open>auto simp: sql_session_def\<close>)

lemma run_statement_ok:
  assumes m: "sql_manager w0 n m" "Suc (Suc n) < 2 ^ 64" and t: "sql_session m t" and st: "stmt_fits st"
  shows "request_ok w0 n m (run_statement standaloneEngine explicit m t st rid)"
proof (cases "execOne standaloneEngine m t st")
  case (Inl err)
  obtain t1 e where a: "standalone_Abort m t = (m, t1, e)" using standalone_Abort_same by blast
  then have "run_statement standaloneEngine explicit m t st rid = (m, None, Inl err)"
    using no_panic [OF t st] Inl by (cases err) (simp_all add: run_statement_def)
  moreover have "err \<noteq> Panic" using no_panic [OF t st] Inl by auto
  ultimately show ?thesis by (simp add: request_ok_id [OF m(1)])
next
  case (Inr x)
  obtain res t1 where x: "x = (res, t1)" by (cases x)
  have t1: "sql_session m t1" by (rule session_statement(1) [OF t st Inr [unfolded x]])
  show ?thesis
  proof (cases explicit)
    case True
    then have "run_statement standaloneEngine explicit m t st rid = (m, Some t1, Inr res)" using Inr x by (simp add: run_statement_def)
    then show ?thesis using t1 by (simp add: request_ok_id [OF m(1)])
  next
    case False
    obtain m' t' r where c: "standalone_Commit rid m t1 = (m', t', r)" by (cases "standalone_Commit rid m t1")
    have "run_statement standaloneEngine explicit m t st rid = (m', None, case r of Inl err \<Rightarrow> Inl err | Inr q \<Rightarrow> Inr (res\<lparr>res_CommitSeq := q\<rparr>))"
      using Inr x False c by (simp add: run_statement_def split: sum.split)
    then show ?thesis using request_ok_commit [OF m t1 c, of "\<lambda>q. res\<lparr>res_CommitSeq := q\<rparr>"] by simp
  qed
qed

lemma request_ok_after:
  assumes "same_state m m1" "request_ok w0 n m1 out"
  shows "request_ok w0 n m out"
  using assms keeps_trans [OF keeps_same [OF assms(1)]] by (auto simp: request_ok_def)

lemma executeDML_ok:
  assumes m: "sql_manager w0 n m" "Suc (Suc n) < 2 ^ 64" and s: "\<And>t. s = Some t \<Longrightarrow> sql_session m t" and st: "stmt_fits st"
  shows "request_ok w0 n m (executeDML standaloneEngine m s st rid)"
proof (cases s)
  case (Some t)
  then show ?thesis using run_statement_ok [OF m s st] by (simp add: executeDML_def)
next
  case None
  obtain t m1 where b: "Begin m = (t, m1)" by (cases "Begin m")
  note bs = Begin_session [OF m(1) b]
  let ?look = "if rid \<noteq> [] \<and> isMutatingStatement st then standalone_LookupOutcome m1 rid else None"
  have e: "executeDML standaloneEngine m s st rid = (case ?look of
      Some outcome \<Rightarrow> (m1, None, mutationRetryResult st outcome) | None \<Rightarrow> run_statement standaloneEngine False m1 t st rid)"
    using standalone_Abort_same [of m1 t] by (auto simp: executeDML_def None standalone_Begin_def b split: option.split)
  show ?thesis
  proof (cases ?look)
    case None
    then show ?thesis unfolding e using request_ok_after [OF bs(3) run_statement_ok [OF bs(2) m(2) bs(1) st]] by simp
  next
    case (Some outcome)
    have "mutationRetryResult st outcome \<noteq> (Inl Panic :: txn_error exec_error + Result)" by (simp add: mutationRetryResult_def split: Statement.split)
    then show ?thesis unfolding e Some by (simp add: request_ok_same [OF m(1) bs(3)])
  qed
qed

lemma Execute_ok:
  assumes m: "sql_manager w0 n m" "Suc (Suc n) < 2 ^ 64" and s: "\<And>t. s = Some t \<Longrightarrow> sql_session m t"
  shows "request_ok w0 n m (Execute standaloneEngine None m s text rid)"
proof (cases "Parse text")
  case (Inl e)
  then show ?thesis using s by (simp add: Execute_def request_ok_id [OF m(1)])
next
  case (Inr st)
  have fits: "stmt_fits st" by (rule Parse_fits [OF Inr])
  have bg: "request_ok w0 n m (execBegin standaloneEngine m s)"
  proof (cases s)
    case None
    obtain t m1 where b: "Begin m = (t, m1)" by (cases "Begin m")
    then show ?thesis using Begin_session(1) [OF m(1) b] None
      by (simp add: execBegin_def standalone_Begin_def request_ok_same [OF m(1) Begin_session(3) [OF m(1) b]])
  qed (use s in \<open>simp add: execBegin_def request_ok_id [OF m(1)]\<close>)
  have commit: "request_ok w0 n m (execCommit standaloneEngine m s rid)"
  proof (cases s)
    case (Some t)
    obtain m' t' r where c: "standalone_Commit rid m t = (m', t', r)" by (cases "standalone_Commit rid m t")
    then have "execCommit standaloneEngine m s rid = (m', None, case r of Inl err \<Rightarrow> Inl err | Inr q \<Rightarrow> Inr ((okResult 0)\<lparr>res_CommitSeq := q\<rparr>))"
      by (simp add: execCommit_def Some split: sum.split)
    then show ?thesis using request_ok_commit [OF m s [OF Some] c, of "\<lambda>q. (okResult 0)\<lparr>res_CommitSeq := q\<rparr>"] by simp
  qed (simp add: execCommit_def request_ok_id [OF m(1)])
  have rollback: "request_ok w0 n m (execRollback standaloneEngine m s)"
  proof (cases s)
    case (Some t)
    obtain t1 e where "standalone_Abort m t = (m, t1, e)" using standalone_Abort_same by blast
    then show ?thesis by (cases e) (simp_all add: execRollback_def Some request_ok_id [OF m(1)])
  qed (simp add: execRollback_def request_ok_id [OF m(1)])
  show ?thesis using bg commit rollback executeDML_ok [OF m s fits] Inr
    by (cases st) (simp_all add: Execute_def dispatch_def)
qed

section \<open>Runs\<close>

text \<open>A request names the session it comes from, and has the text and the request identifier.\<close>

type_synonym request = "nat \<times> string \<times> string"

record sql_state =
  sq_mgr :: Manager
  sq_sessions :: "Txn option list"

definition sql_answer :: "request \<Rightarrow> sql_state \<Rightarrow> session_outcome" where
  "sql_answer req d = (case req of (i, text, rid) \<Rightarrow> Execute standaloneEngine None (sq_mgr d) (sq_sessions d ! i) text rid)"

definition sql_step :: "sql_state \<Rightarrow> request \<Rightarrow> sql_state" where
  "sql_step d req = (if fst req < length (sq_sessions d)
     then case sql_answer req d of (m, s, r) \<Rightarrow> d\<lparr>sq_mgr := m, sq_sessions := (sq_sessions d)[fst req := s]\<rparr> else d)"

definition sql_run :: "request list \<Rightarrow> sql_state \<Rightarrow> sql_state" where
  "sql_run reqs d = foldl sql_step d reqs"

definition sql_ok :: "WAL \<Rightarrow> nat \<Rightarrow> sql_state \<Rightarrow> bool" where
  "sql_ok w0 n d \<longleftrightarrow> sql_manager w0 n (sq_mgr d) \<and> (\<forall>t. Some t \<in> set (sq_sessions d) \<longrightarrow> sql_session (sq_mgr d) t)"

lemma sql_run_simps [simp]: "sql_run [] d = d" "sql_run (r # reqs) d = sql_run reqs (sql_step d r)"
  by (simp_all add: sql_run_def)

lemma sql_answer_ok:
  assumes "sql_ok w0 n d" "Suc (Suc n) < 2 ^ 64" "fst req < length (sq_sessions d)"
  shows "request_ok w0 n (sq_mgr d) (sql_answer req d)"
proof -
  obtain i src rid where req: "req = (i, src, rid)" by (cases req)
  have "sql_session (sq_mgr d) t" if "sq_sessions d ! i = Some t" for t
    using assms(1,3) that nth_mem [of i "sq_sessions d"] by (auto simp: sql_ok_def req)
  then show ?thesis using Execute_ok [of w0 n "sq_mgr d" "sq_sessions d ! i"] assms(1,2) by (simp add: sql_answer_def req sql_ok_def)
qed

lemma sql_step_ok:
  assumes "sql_ok w0 n d" "Suc (Suc n) < 2 ^ 64"
  shows "(\<exists>n' \<le> Suc n. sql_ok w0 n' (sql_step d req)) \<and> keeps (sq_mgr d) (sq_mgr (sql_step d req))"
proof (cases "fst req < length (sq_sessions d)")
  case True
  obtain m s r where a: "sql_answer req d = (m, s, r)" by (cases "sql_answer req d")
  have ok: "request_ok w0 n (sq_mgr d) (m, s, r)" using sql_answer_ok [OF assms True] a by simp
  then obtain n' where n': "n' \<le> Suc n" "sql_manager w0 n' m" "keeps (sq_mgr d) m" by (auto simp: request_ok_def)
  have "sql_session m t" if "Some t \<in> set ((sq_sessions d)[fst req := s])" for t
  proof -
    have "s = Some t \<or> Some t \<in> set (sq_sessions d)" using that set_update_subset_insert [of "sq_sessions d" "fst req" s] by auto
    then show ?thesis
      using ok assms(1) session_keeps(1) [OF _ n'(3)] n'(2) by (auto simp: request_ok_def sql_ok_def sql_manager_def)
  qed
  then have "sql_ok w0 n' (sql_step d req)" using n' True a by (simp add: sql_ok_def sql_step_def)
  then show ?thesis using n' True a by (auto simp: sql_step_def)
next
  case False
  then show ?thesis using assms(1) by (auto simp: sql_step_def intro!: exI [of _ n])
qed

lemma sql_run_ok:
  assumes "sql_ok w0 n d" "Suc (n + length reqs) < 2 ^ 64"
  shows "(\<exists>n' \<le> n + length reqs. sql_ok w0 n' (sql_run reqs d)) \<and> keeps (sq_mgr d) (sq_mgr (sql_run reqs d))"
  using assms
proof (induction reqs arbitrary: n d)
  case (Cons req reqs)
  obtain n1 where n1: "n1 \<le> Suc n" "sql_ok w0 n1 (sql_step d req)" "keeps (sq_mgr d) (sq_mgr (sql_step d req))"
    using sql_step_ok [OF Cons.prems(1), of req] Cons.prems(2) by auto
  from Cons.IH [OF n1(2)] Cons.prems(2) n1(1) obtain n2 where "n2 \<le> n1 + length reqs" "sql_ok w0 n2 (sql_run reqs (sql_step d req))"
      "keeps (sq_mgr (sql_step d req)) (sq_mgr (sql_run reqs (sql_step d req)))" by auto
  then show ?case using n1 keeps_trans by (auto intro!: exI [of _ n2])
qed auto

definition fresh_sessions :: "nat \<Rightarrow> Manager \<Rightarrow> sql_state" where
  "fresh_sessions k m = \<lparr>sq_mgr = m, sq_sessions = replicate k None\<rparr>"

lemma new_sql_ok:
  assumes "length nid < 65536" "wal_Open nid mx [] = Inr (w0, rep0)" "NewManager w0 NewStore = Inr m0"
  shows "sql_ok w0 0 (fresh_sessions k m0)"
proof -
  have m0: "m0 = fresh_manager w0" "durable w0 0 m0" using new_durable [OF assms(1,2)] assms(3) by simp_all
  have "snapshot_of m0 q = Map.empty" for q
    by (simp add: m0(1) snapshot_of_def fresh_manager_def NewFSM_def NewStore_def read_at_def chain_of_def vupto_def value_of_def fun_eq_iff)
  then show ?thesis using m0(2) stored_empty(1) by (auto simp: sql_ok_def fresh_sessions_def sql_manager_def schemas_stay_def manager_view_snapshot)
qed

lemma reachable:
  assumes "length nid < 65536" "wal_Open nid mx [] = Inr (w0, rep0)" "NewManager w0 NewStore = Inr m0" "Suc (Suc (length reqs)) < 2 ^ 64"
  obtains n where "n \<le> length reqs" "sql_ok w0 n (sql_run reqs (fresh_sessions k m0))"
  using sql_run_ok [OF new_sql_ok [OF assms(1-3)], of reqs k] assms(4) that by auto

section \<open>The tables are well typed\<close>

definition typed_database :: "database \<Rightarrow> bool" where
  "typed_database db \<longleftrightarrow> (\<forall>tbl s rows. db tbl = Some (s, rows) \<longrightarrow> schema_ok s \<and> sch_Table s = tbl
     \<and> (\<forall>v r. rows v = Some r \<longrightarrow> row_typed (sch_Columns s) r \<and> r ! sch_PrimaryKey s = v))"

lemma stored_typed:
  assumes "stored V"
  shows "typed_database (db_of V)"
  unfolding typed_database_def
proof (intro allI impI)
  fix tbl s rows assume db: "db_of V tbl = Some (s, rows)"
  then have "V (schemaKey tbl) \<noteq> None" by (auto simp: db_of_def split: option.splits)
  then obtain s' where at: "schema_at V tbl s'" using storedD_schema [OF assms] by blast
  then have s: "s' = s" "rows = rows_of V s" using db db_of_schema [OF at] by auto
  have "row_typed (sch_Columns s) r \<and> r ! sch_PrimaryKey s = v" if r: "rows_of V s v = Some r" for v r
  proof -
    have t: "value_of_type (col_Type (primaryKeyColumn s)) v" using r by (auto simp: rows_of_def split: if_splits)
    from rows_of_key [OF assms at [unfolded s(1)] t] obtain k where k: "rowKey tbl v = Some k"
        "V k = None \<longleftrightarrow> rows_of V s v = None" "\<forall>b. V k = Some b \<longrightarrow> (\<exists>vs. decodeRow s b = Inr vs \<and> rows_of V s v = Some vs \<and> vs ! sch_PrimaryKey s = v)"
      by (elim exE conjE) (rule that)
    then obtain b where "V k = Some b" using r by (cases "V k") auto
    then obtain vs where "decodeRow s b = Inr vs" "rows_of V s v = Some vs" "vs ! sch_PrimaryKey s = v" using k(3) by blast
    then show ?thesis using decodeRow_typed r by auto
  qed
  then show "schema_ok s \<and> sch_Table s = tbl \<and> (\<forall>v r. rows v = Some r \<longrightarrow> row_typed (sch_Columns s) r \<and> r ! sch_PrimaryKey s = v)"
    using at s by (auto simp: schema_at_def)
qed

text \<open>
  Claim C11. The tables are well typed at all times. From an empty log, any number of sessions send any texts with any request identifiers,
  one request after the other in any order, inside and outside of transactions. Then every schema and row key, in the committed state and in what every open transaction
  sees, holds a readable schema or row; every row has the columns and types of its table's schema and is stored under its primary key;
  and no further request panics.
\<close>

theorem sql_sessions_typed:
  assumes "length nid < 65536" "wal_Open nid mx [] = Inr (w0, rep0)" "NewManager w0 NewStore = Inr m0"
    and "Suc (Suc (length reqs)) < 2 ^ 64" "d = sql_run reqs (fresh_sessions k m0)"
  shows "stored (manager_view (sq_mgr d)) \<and> typed_database (db_of (manager_view (sq_mgr d)))
     \<and> (\<forall>t. Some t \<in> set (sq_sessions d) \<longrightarrow> stored (txn_view (sq_mgr d) t) \<and> typed_database (db_of (txn_view (sq_mgr d) t)))
     \<and> (\<forall>req. fst req < length (sq_sessions d) \<longrightarrow> snd (snd (sql_answer req d)) \<noteq> Inl Panic)"
proof -
  obtain n where n: "n \<le> length reqs" "sql_ok w0 n d" by (rule reachable [OF assms(1-4), of k]) (simp add: assms(5))
  have "stored (manager_view (sq_mgr d))" "\<And>t. Some t \<in> set (sq_sessions d) \<Longrightarrow> stored (txn_view (sq_mgr d) t)"
    using n(2) by (auto simp: sql_ok_def sql_manager_def sql_session_def)
  moreover have "snd (snd (sql_answer req d)) \<noteq> Inl Panic" if "fst req < length (sq_sessions d)" for req
    using sql_answer_ok [OF n(2) _ that] n(1) assms(4) by (auto simp: request_ok_def)
  ultimately show ?thesis using stored_typed by blast
qed

section \<open>The tables survive a crash\<close>

text \<open>
  The committed tables survive. After any interleaving of SQL sessions and a crash that keeps the closed log segments, the log opens,
  the manager recovers, and a new session finds exactly the tables that were committed before the crash; what open transactions had written is gone.
\<close>

theorem sql_tables_durable:
  assumes "length nid < 65536" "wal_Open nid mx [] = Inr (w0, rep0)" "NewManager w0 NewStore = Inr m0"
    and "Suc (Suc (length reqs)) < 2 ^ 64" "d = sql_run reqs (fresh_sessions k m0)"
    and "\<And>i. i \<noteq> w_current (mg_walog (sq_mgr d)) \<Longrightarrow> seg_Size i (w_dir (mg_walog (sq_mgr d))) \<le> keep i"
  shows "\<exists>w rep m. wal_Open nid' mx (crash keep (w_dir (mg_walog (sq_mgr d)))) = Inr (w, rep) \<and> NewManager w NewStore = Inr m
     \<and> db_of (txn_view m (fst (Begin m))) = db_of (manager_view (sq_mgr d))"
proof -
  obtain n where n: "sql_ok w0 n d" by (rule reachable [OF assms(1-4), of k]) (simp add: assms(5))
  then have "durable w0 n (sq_mgr d)" by (simp add: sql_ok_def sql_manager_def)
  from durable_reopens [OF assms(1,2) this assms(6)] obtain w rep m where m:
      "wal_Open nid' mx (crash keep (w_dir (mg_walog (sq_mgr d)))) = Inr (w, rep)" "NewManager w NewStore = Inr m"
      "mg_fsm m = mg_fsm (sq_mgr d)" "mg_lastSeq m = mg_lastSeq (sq_mgr d)" by blast
  have "txn_view m (fst (Begin m)) = manager_view (sq_mgr d)"
    using m(3,4) by (simp add: txn_view_overlay Begin_def Let_def) (simp add: snapshot_of_def manager_view_def fun_eq_iff)
  then show ?thesis using m(1,2) by auto
qed

section \<open>A statement outside a transaction\<close>

lemma commit_cases_fresh:
  assumes ok: "manager_ok n lay m" "Suc n < 2 ^ 64" and ws: "write_set_fits mus" and new: "mus \<noteq> [] \<longrightarrow> mget (outcomes (mg_fsm m)) rid = None"
    and run: "manager_commit txnID rid startSeq mus m = (m', r)"
  shows "mus = [] \<and> m' = m \<and> r = Inr (committed_outcome rid (mg_lastSeq m))
     \<or> (\<exists>e. m' = m \<and> r = Inl (TxnWal e, None)) \<or> commit_step (command_of txnID rid startSeq mus) m m' r"
proof -
  let ?cmd = "command_of txnID rid startSeq mus"
  have pre: "Precheck (mg_fsm m) ?cmd = Inl ErrRequestIDUnknown" if "mus \<noteq> []" using new that by (simp add: Precheck_def lookupLocked_def command_of_def)
  consider "mus = []" | e where "mus \<noteq> []" "AppendLogEntry (EncodeCommitTxn ?cmd) (mg_walog m) = Inl e"
    | i w1 where "mus \<noteq> []" "AppendLogEntry (EncodeCommitTxn ?cmd) (mg_walog m) = Inr (i, w1)"
    by (cases "AppendLogEntry (EncodeCommitTxn ?cmd) (mg_walog m)") auto
  then show ?thesis
  proof cases
    case 1
    then show ?thesis using run by (auto simp: manager_commit_def)
  next
    case (2 e)
    then show ?thesis using run pre [OF 2(1)] by (auto simp: manager_commit_def command_of_def Let_def)
  next
    case (3 i w1)
    obtain w2 where w2: "wal_Sync w1 = Inr w2" by (rule AppendLogEntry_Sync [OF 3(2)])
    have i: "i = w_nextLogIndex (mg_walog m)" by (rule AppendLogEntry_fields(1) [OF 3(2)])
    have d: "distinct (map mut_Key (cmd_Mutations ?cmd))" using ws by (simp add: write_set_fits_def command_of_def)
    obtain f oc where ap: "Apply i ?cmd (mg_fsm m) = (f, Inr oc)"
      using Apply_cases [OF manager_okD(5) [OF ok(1)] next_seq(1) [OF ok] d] pre [OF 3(1)] unfolding i Precheck_def by (auto split: option.splits if_splits)
    have "commit_step ?cmd m m' r" using run 3 w2 pre [OF 3(1)] ap i by (auto simp: manager_commit_def commit_step_def Let_def command_of_def split: if_splits)
    then show ?thesis by blast
  qed
qed

text \<open>A transaction that started at the newest commit, under a new identifier, commits all it wrote, unless the log refuses it.\<close>

lemma commit_head:
  assumes m: "sql_manager w0 n m" "Suc (Suc n) < 2 ^ 64" and t: "sql_session m t" "tx_startSeq t = mg_lastSeq m" and new: "write_set t \<noteq> [] \<longrightarrow> mget (outcomes (mg_fsm m)) rid = None"
    and c: "standalone_Commit rid m t = (m', t', res)"
  obtains (committed) "res = Inr (mg_lastSeq m')" "manager_view m' = txn_view m t" "tx_writes t \<noteq> [] \<Longrightarrow> GetOutcome (mg_fsm m') rid = Some (committed_outcome rid (mg_lastSeq m'))"
  | (refused) e where "res = Inl (EngineError (TxnWal e))" "manager_view m' = manager_view m"
proof -
  obtain lay where ok: "manager_ok n lay m" using m(1) by (auto simp: sql_manager_def durable_def)
  have tt: "session_live m t" "txn_ok t" "tx_state t = StateActive" using t(1) by (simp_all add: sql_session_def session_live_def)
  obtain r where r: "manager_commit (tx_id t) rid (tx_startSeq t) (write_set t) m = (m', r)"
      "res = (case r of Inl (e, oc) \<Rightarrow> Inl (if e = txn_error.ErrConflict then Frontend (SqlError sql_sentinel.ErrConflict) else EngineError e) | Inr oc \<Rightarrow> Inr (out_CommitSeq oc))"
    using c tt(3) by (auto simp: standalone_Commit_def txn_Commit_def split: prod.splits sum.splits)
  have view: "txn_view m t = overlay (tx_writes t) (manager_view m)" by (simp add: txn_view_overlay t(2) manager_view_snapshot)
  from commit_cases_fresh [OF ok Suc_lessD [OF m(2)] write_set_fits [OF tt(2)] new r(1)] show thesis
  proof (elim disjE exE conjE)
    assume e: "write_set t = []" "m' = m" "r = Inr (committed_outcome rid (mg_lastSeq m))"
    have "mget (tx_writes t) (fst (hd (tx_writes t))) = None" using find_write_set [OF tt(2)] e(1) by simp
    then have "tx_writes t = []" by (cases "tx_writes t") (auto simp: mget_def)
    then show thesis using committed e r(2) view by (simp add: committed_outcome_def)
  next
    fix e assume "m' = m" "r = Inl (TxnWal e, None)"
    then show thesis using refused r(2) by simp
  next
    assume st: "commit_step (command_of (tx_id t) rid (tx_startSeq t) (write_set t)) m m' r"
    from step_effect [OF ok Suc_lessD [OF m(2)] tt(1) _ st] t(2)
    have e: "r = Inr (committed_outcome rid (mg_lastSeq m'))" "manager_view m' = overlay (tx_writes t) (manager_view m)" by auto
    have "GetOutcome (mg_fsm m') rid = Some (committed_outcome rid (mg_lastSeq m'))"
    proof -
      obtain oc where oc: "Apply (w_nextLogIndex (mg_walog m)) (command_of (tx_id t) rid (tx_startSeq t) (write_set t)) (mg_fsm m) = (mg_fsm m', Inr oc)" "r = commit_verdict oc"
        using st unfolding commit_step_def by blast
      have "oc = committed_outcome rid (mg_lastSeq m')" using oc(2) e(1) by (simp add: commit_verdict_def split: if_splits)
      then show ?thesis using Apply_records [OF oc(1)] by (simp add: GetOutcome_def command_of_def)
    qed
    then show thesis using committed e r(2) view by (simp add: committed_outcome_def)
  qed
qed

lemma written_nonempty:
  assumes "execOne standaloneEngine m t st = Inr (res, t1)" "isMutatingStatement st"
  shows "tx_writes t1 \<noteq> []"
proof -
  have "mput k v w \<noteq> []" for k v and w :: "(string, Mutation) gomap"
    using gm.get_put_same [of k v w] by (auto simp: mget_def)
  then show ?thesis using execOne_writes [OF assms(1)] assms(2)
    by (auto simp: txn_Write_def txn_Delete_def recordWriteLocked_def Let_def split: if_splits)
qed

text \<open>The answer to a statement sent outside a transaction, with what it does to the committed tables.\<close>

definition autocommit :: "Statement \<Rightarrow> Manager \<Rightarrow> Manager \<Rightarrow> txn_error exec_error + Result \<Rightarrow> bool" where
  "autocommit st m m' r \<longleftrightarrow> (\<exists>out. means st (db_of (manager_view m)) out \<and> (case out of
       Inl e \<Rightarrow> r = Inl (Frontend e) \<and> manager_view m' = manager_view m
     | Inr (res, db) \<Rightarrow> r = Inr (res\<lparr>res_CommitSeq := mg_lastSeq m'\<rparr>) \<and> db_of (manager_view m') = db
         \<or> (\<exists>e. r = Inl (EngineError (TxnWal e)) \<and> manager_view m' = manager_view m)))"

lemma autocommit_result:
  assumes "autocommit st m m' (Inr res)"
  obtains res0 where "res = res0\<lparr>res_CommitSeq := mg_lastSeq m'\<rparr>" "means st (db_of (manager_view m)) (Inr (res0, db_of (manager_view m')))"
proof -
  obtain out where out: "means st (db_of (manager_view m)) out" "case out of Inl e \<Rightarrow> False
      | Inr (res0, db) \<Rightarrow> res = res0\<lparr>res_CommitSeq := mg_lastSeq m'\<rparr> \<and> db_of (manager_view m') = db"
    using assms by (auto simp: autocommit_def cong: sum.case_cong)
  show thesis
  proof (cases out)
    case (Inr x)
    then show thesis using out that by (cases x) simp
  qed (use out in simp)
qed

lemma executeDML_autocommit:
  assumes m: "sql_manager w0 n m" "Suc (Suc n) < 2 ^ 64" and st: "stmt_fits st"
    and new: "isMutatingStatement st \<longrightarrow> mget (outcomes (mg_fsm m)) rid = None"
    and run: "executeDML standaloneEngine m None st rid = (m', s', r)"
  shows "s' = None \<and> autocommit st m m' r"
    and "isMutatingStatement st \<Longrightarrow> r = Inr res \<Longrightarrow> GetOutcome (mg_fsm m') rid = Some (committed_outcome rid (res_CommitSeq res))"
proof -
  obtain t m1 where b: "Begin m = (t, m1)" by (cases "Begin m")
  note bs = Begin_session [OF m(1) b]
  have same: "mg_fsm m1 = mg_fsm m" "mg_lastSeq m1 = mg_lastSeq m" "manager_view m1 = manager_view m"
    using bs(3) by (simp_all add: same_state_def manager_view_def fun_eq_iff)
  have none: "\<not> (rid \<noteq> [] \<and> isMutatingStatement st) \<or> standalone_LookupOutcome m1 rid = None"
    using new same by (auto simp: standalone_LookupOutcome_def GetRequestOutcome_def GetOutcome_def)
  have e: "run_statement standaloneEngine False m1 t st rid = (m', s', r)"
    using run none standalone_Abort_same [of m1 t] by (auto simp: executeDML_def standalone_Begin_def b split: option.splits if_splits)
  have live: "session_live m1 t" "stored (txn_view m1 t)" using bs(1) by (simp_all add: sql_session_def)
  have "(s' = None \<and> autocommit st m m' r) \<and> (\<forall>res. isMutatingStatement st \<and> r = Inr res \<longrightarrow> GetOutcome (mg_fsm m') rid = Some (committed_outcome rid (res_CommitSeq res)))"
  proof (rule refines_cases [OF se.execOne_refines [OF live st]])
    fix err :: sql_error assume x: "execOne standaloneEngine m1 t st = Inl (Frontend err)" "means st (db_of (txn_view m1 t)) (Inl err)"
    obtain t2 e2 where "standalone_Abort m1 t = (m1, t2, e2)" using standalone_Abort_same by blast
    then have "m' = m1" "s' = None" "r = Inl (Frontend err)" using e x(1) by (simp_all add: run_statement_def)
    then show ?thesis using x(2) bs(4) same by (auto simp: autocommit_def intro!: exI [of _ "Inl err"])
  next
    fix res t1 assume x: "execOne standaloneEngine m1 t st = Inr (res, t1)" "means st (db_of (txn_view m1 t)) (Inr (res, db_of (txn_view m1 t1)))"
    have t1: "sql_session m1 t1" "tx_startSeq t1 = mg_lastSeq m1" using session_statement [OF bs(1) st x(1)] bs(5) same by simp_all
    have new1: "write_set t1 \<noteq> [] \<longrightarrow> mget (outcomes (mg_fsm m1)) rid = None"
    proof (intro impI, rule ccontr)
      assume that: "write_set t1 \<noteq> []" and "mget (outcomes (mg_fsm m1)) rid \<noteq> None"
      then have "\<not> isMutatingStatement st" using new same by auto
      then have "t1 = t" using execOne_writes [OF x(1)] by (cases st) (use x(1) in \<open>auto simp: execOne_def execSelect_def isMutatingStatement_def bindR_eq_Inr Let_def split: option.splits\<close>)
      then show False using that b by (auto simp: Begin_def Let_def write_set_def)
    qed
    obtain t2 c where c: "standalone_Commit rid m1 t1 = (m', t2, c)" "s' = None" "r = (case c of Inl err \<Rightarrow> Inl err | Inr q \<Rightarrow> Inr (res\<lparr>res_CommitSeq := q\<rparr>))"
      using e x(1) by (auto simp: run_statement_def split: prod.splits sum.splits)
    show ?thesis
    proof (rule commit_head [OF bs(2) m(2) t1 new1 c(1)])
      assume k: "c = Inr (mg_lastSeq m')" "manager_view m' = txn_view m1 t1" "tx_writes t1 \<noteq> [] \<Longrightarrow> GetOutcome (mg_fsm m') rid = Some (committed_outcome rid (mg_lastSeq m'))"
      then show ?thesis using x c(2,3) bs(4) written_nonempty [OF x(1)]
        by (auto simp: autocommit_def intro!: exI [of _ "Inr (res, db_of (txn_view m1 t1))"])
    next
      fix w assume "c = Inl (EngineError (TxnWal w))" "manager_view m' = manager_view m1"
      then show ?thesis using x c(2,3) bs(4) same by (auto simp: autocommit_def intro!: exI [of _ "Inr (res, db_of (txn_view m1 t1))"])
    qed
  qed
  then show "s' = None \<and> autocommit st m m' r"
    and "isMutatingStatement st \<Longrightarrow> r = Inr res \<Longrightarrow> GetOutcome (mg_fsm m') rid = Some (committed_outcome rid (res_CommitSeq res))" by auto
qed

definition is_control :: "Statement \<Rightarrow> bool" where
  "is_control st \<longleftrightarrow> st = BeginStmt \<or> st = CommitStmt \<or> st = RollbackStmt"

lemma answer_idle:
  assumes "sq_sessions d ! i = None" "Parse src = Inr st" "\<not> is_control st"
  shows "sql_answer (i, src, rid) d = executeDML standaloneEngine (sq_mgr d) None st rid"
  using assms by (cases st) (simp_all add: sql_answer_def Execute_def dispatch_def is_control_def)

lemma mutating_no_control: "isMutatingStatement st \<Longrightarrow> \<not> is_control st"
  by (auto simp: isMutatingStatement_def is_control_def)


lemma sessions_length [simp]: "length (sq_sessions (sql_step d req)) = length (sq_sessions d)" "length (sq_sessions (sql_run reqs d)) = length (sq_sessions d)"
proof -
  show *: "length (sq_sessions (sql_step d req)) = length (sq_sessions d)" for d req
    by (cases "sql_answer req d") (simp add: sql_step_def)
  show "length (sq_sessions (sql_run reqs d)) = length (sq_sessions d)" by (induction reqs arbitrary: d) (simp_all add: *)
qed

lemma mutation_result:
  assumes "isMutatingStatement st" "means st db (Inr (res, db'))"
  shows "res = (case st of CreateTableStmt tbl cols \<Rightarrow> okResult 0 | _ \<Rightarrow> okResult 1)"
proof -
  have eq: "Inr y = bindR a f \<longleftrightarrow> (\<exists>x. a = Inr x \<and> f x = Inr y)" for y and a :: "'e + 'x" and f :: "'x \<Rightarrow> 'e + 'y"
    by (metis bindR_eq_Inr)
  show ?thesis using assms by (cases st) (auto simp: isMutatingStatement_def on_table_def eq split: option.splits if_splits)
qed

text \<open>
  Claim C12. A retried mutation does not run again. Once a mutation outside a transaction has answered with a result under a request
  identifier, then after any further requests, a mutation with that identifier on a session with no open transaction changes nothing,
  and answers with the first one's commit sequence number. The same text gets the same answer. So does any other mutation: its
  text is not compared with the first one's, and it is reported as done (with its own row count) without having run.
\<close>

theorem retry_runs_once:
  assumes "length nid < 65536" "wal_Open nid mx [] = Inr (w0, rep0)" "NewManager w0 NewStore = Inr m0"
    and "Suc (Suc (Suc (length reqs + length later))) < 2 ^ 64" "d = sql_run reqs (fresh_sessions k m0)"
    and "i < k" "sq_sessions d ! i = None" "Parse src = Inr st" "isMutatingStatement st"
    and "rid \<noteq> []" "GetOutcome (mg_fsm (sq_mgr d)) rid = None" "sql_answer (i, src, rid) d = (m', s', Inr res)"
    and "d' = sql_run later (sql_step d (i, src, rid))" "j < k" "sq_sessions d' ! j = None"
    and "Parse src2 = Inr st2" "isMutatingStatement st2" "sql_answer (j, src2, rid) d' = (m2, s2, r2)"
  shows "same_state (sq_mgr d') m2 \<and> s2 = None
     \<and> r2 = Inr ((case st2 of CreateTableStmt tbl cols \<Rightarrow> okResult 0 | _ \<Rightarrow> okResult 1)\<lparr>res_CommitSeq := res_CommitSeq res\<rparr>)
     \<and> (src2 = src \<longrightarrow> r2 = Inr res)"
proof -
  have len: "Suc (Suc (length reqs)) < 2 ^ 64" using assms(4) by simp
  obtain n where n: "n \<le> length reqs" "sql_ok w0 n d" by (rule reachable [OF assms(1-3) len, of k]) (simp add: assms(5))
  have m: "sql_manager w0 n (sq_mgr d)" "Suc (Suc n) < 2 ^ 64" using n len by (simp_all add: sql_ok_def)
  have new: "isMutatingStatement st \<longrightarrow> mget (outcomes (mg_fsm (sq_mgr d))) rid = None" using assms(11) by (simp add: GetOutcome_def)
  note run = assms(12) [unfolded answer_idle [OF assms(7,8) mutating_no_control [OF assms(9)]]]
  note auto = executeDML_autocommit [OF m Parse_fits [OF assms(8)] new run]
  have step: "sq_mgr (sql_step d (i, src, rid)) = m'" using assms(5,6,12) by (simp add: sql_step_def fresh_sessions_def)
  obtain n1 where n1: "n1 \<le> Suc n" "sql_ok w0 n1 (sql_step d (i, src, rid))" using sql_step_ok [OF n(2) m(2)] by blast
  have "keeps m' (sq_mgr d')" using sql_run_ok [OF n1(2), of later] n1(1) n(1) assms(4) unfolding assms(13) step by simp
  then have got: "GetOutcome (mg_fsm (sq_mgr d')) rid = Some (committed_outcome rid (res_CommitSeq res))"
    using auto(2) [OF assms(9) refl] by (auto simp: keeps_def GetOutcome_def)
  obtain t m1 where b: "Begin (sq_mgr d') = (t, m1)" by (cases "Begin (sq_mgr d')")
  have same: "same_state (sq_mgr d') m1" using b by (auto simp: Begin_def Let_def same_state_def)
  have look: "standalone_LookupOutcome m1 rid = Some \<lparr>ro_Committed = True, ro_CommitSeq = res_CommitSeq res\<rparr>"
    using got same by (simp add: standalone_LookupOutcome_def GetRequestOutcome_def same_state_def committed_outcome_def)
  have ans: "(m2, s2, r2) = (m1, None, mutationRetryResult st2 \<lparr>ro_Committed = True, ro_CommitSeq = res_CommitSeq res\<rparr>)"
    using assms(18) look assms(10,17) standalone_Abort_same [of m1 t]
    unfolding answer_idle [OF assms(15,16) mutating_no_control [OF assms(17)]]
    by (auto simp: executeDML_def standalone_Begin_def b)
  have r2: "r2 = Inr ((case st2 of CreateTableStmt tbl cols \<Rightarrow> okResult 0 | _ \<Rightarrow> okResult 1)\<lparr>res_CommitSeq := res_CommitSeq res\<rparr>)"
    using ans by (simp add: mutationRetryResult_def split: Statement.split)
  obtain res0 where res: "res = res0\<lparr>res_CommitSeq := mg_lastSeq m'\<rparr>" "means st (db_of (manager_view (sq_mgr d))) (Inr (res0, db_of (manager_view m')))"
    using autocommit_result auto(1) by blast
  have "src2 = src \<longrightarrow> r2 = Inr res" using r2 mutation_result [OF assms(9) res(2)] res(1) assms(8,16) by (auto split: Statement.split)
  moreover have "m2 = m1" "s2 = None" using ans by simp_all
  ultimately show ?thesis using r2 same by blast
qed

section \<open>A run\<close>

definition demo_write :: Mutation where
  "demo_write = \<lparr>mut_Key = schemaKey ''t'', mut_Value = encodeSchema demo_schema, mut_Tombstone = False\<rparr>"

definition demo_ddl :: CommitTxnCommand where
  "demo_ddl = command_of 1 ''r'' 0 [demo_write]"

definition demo_created :: Manager where
  "demo_created = (fresh_manager (with_records [demo_first, \<lparr>rec_Type = RecordTypeLogEntry, rec_Index = 1, rec_Payload = EncodeCommitTxn demo_ddl\<rparr>] 2 None))
     \<lparr>mg_fsm := record_outcome demo_ddl (committed_outcome ''r'' 1) ((NewFSM NewStore)\<lparr>fsm_store := apply_all 1 [demo_write] NewStore\<rparr>),
      mg_lastSeq := 1, mg_nextTxnID := 1\<rparr>"

lemma demo_ddl_commit: "manager_commit 1 ''r'' 0 [demo_write] ((fresh_manager demo_log)\<lparr>mg_nextTxnID := 1\<rparr>) = (demo_created, Inr (committed_outcome ''r'' 1))"
proof -
  let ?m = "(fresh_manager demo_log)\<lparr>mg_nextTxnID := 1\<rparr>"
  have w: "mg_walog ?m = with_records [demo_first] 1 None" by (simp add: fresh_manager_def demo_with_records)
  have f: "mg_fsm ?m = NewFSM NewStore" by (simp add: fresh_manager_def)
  have c: "CheckConflicts (fsm_store (NewFSM NewStore)) 0 [demo_write] = None"
    by (simp add: NewFSM_def CheckConflicts_None LatestCommitSeq_def NewStore_def chain_of_def)
  have l: "length (frames [demo_first]) + length (EncodeCommitTxn demo_ddl) + 18 \<le> 1000"
    by (simp add: demo_first_def demo_ddl_def demo_write_def schemaKey_def encodeSchema_def encode_column_def demo_schema_def command_of_def EncodeCommitTxn_def encodeCommitBody_def
        length_encodeMutation frame_of_def frame_sizes encodeMetadata_def demo_meta_def)
  have n: "mget (outcomes (NewFSM NewStore)) ''r'' = None" "gcWatermark (NewFSM NewStore) \<le> 0" by (simp_all add: NewFSM_def)
  show ?thesis
    using fresh_commit [OF w _ _ _ _ _ _ _ demo_ddl_def l, where q = 0, unfolded f] n fsm_inv_NewFSM c
    by (simp add: demo_created_def fresh_manager_def) (simp add: NewFSM_def)
qed

lemma demo_answer: "sql_answer (0, show_stmt demo_create, ''r'') (fresh_sessions 1 (fresh_manager demo_log)) = (demo_created, None, Inr ((okResult 0)\<lparr>res_CommitSeq := 1\<rparr>))"
proof -
  define t where "t = \<lparr>tx_id = 1, tx_startSeq = 0, tx_state = StateActive, tx_writes = [(schemaKey ''t'', demo_write)], tx_order = [schemaKey ''t'']\<rparr>"
  let ?m = "(fresh_manager demo_log)\<lparr>mg_nextTxnID := 1\<rparr>"
  have "write_set t = [demo_write]" by (simp add: write_set_def t_def mget_def)
  then have c: "standalone_Commit ''r'' ?m t = (demo_created, finish_txn StateCommitted t, Inr 1)"
    using demo_ddl_commit by (simp add: standalone_Commit_def txn_Commit_def t_def committed_outcome_def)
  have b: "Begin (fresh_manager demo_log) = (t\<lparr>tx_writes := [], tx_order := []\<rparr>, ?m)" by (simp add: Begin_def t_def fresh_manager_def)
  have look: "standalone_LookupOutcome ?m ''r'' = None"
    by (simp add: standalone_LookupOutcome_def GetRequestOutcome_def GetOutcome_def fresh_manager_def NewFSM_def)
  have rd: "txn_Read ?m (t\<lparr>tx_writes := [], tx_order := []\<rparr>) (schemaKey ''t'') = Inr None"
    by (simp add: txn_Read_def t_def fresh_manager_def NewFSM_def NewStore_def Visible_def chain_of_def newest_idx_def sort_Search_def search_loop.simps)
  have "execOne standaloneEngine ?m (t\<lparr>tx_writes := [], tx_order := []\<rparr>) demo_create = Inr (okResult 0, t)"
    using rd by (simp add: execOne_def demo_create_def execCreateTable_def buildSchema_def valid_ctype_def MaxColumns_def
      txn_Write_def recordWriteLocked_def mput_def t_def demo_write_def demo_schema_def)
  then have "executeDML standaloneEngine (fresh_manager demo_log) None demo_create ''r'' = (demo_created, None, Inr ((okResult 0)\<lparr>res_CommitSeq := 1\<rparr>))"
    using c look by (simp add: executeDML_def standalone_Begin_def b run_statement_def)
  moreover have "\<not> is_control demo_create" by (simp add: is_control_def demo_create_def)
  ultimately show ?thesis using answer_idle [OF _ demo_create_parse, of "fresh_sessions 1 (fresh_manager demo_log)" 0 "''r''"] by (simp add: fresh_sessions_def)
qed

lemma demo_step: "sql_step (fresh_sessions 1 (fresh_manager demo_log)) (0, show_stmt demo_create, ''r'') = fresh_sessions 1 demo_created"
  unfolding sql_step_def demo_answer by (simp add: fresh_sessions_def)

lemma demo_opened:
  obtains rep0 where "wal_Open ''n'' 1000 [] = Inr (demo_log, rep0)" "NewManager demo_log NewStore = Inr (fresh_manager demo_log)"
  using demo_log_open new_durable(1) [of "''n''" 1000 demo_log] by auto

lemma demo_initial: "sq_sessions (fresh_sessions 1 (fresh_manager demo_log)) ! 0 = None" "GetOutcome (mg_fsm (sq_mgr (fresh_sessions 1 (fresh_manager demo_log)))) ''r'' = None"
  "isMutatingStatement demo_create" "manager_view (sq_mgr (fresh_sessions 1 (fresh_manager demo_log))) = Map.empty"
  by (simp_all add: fresh_sessions_def GetOutcome_def fresh_manager_def NewFSM_def demo_create_def isMutatingStatement_def manager_view_def NewStore_def
      read_at_def chain_of_def vupto_def value_of_def fun_eq_iff)


theorem retry_runs_once_witness:
  "snd (snd (sql_answer (0, show_stmt demo_insert, ''r'') (sql_step (fresh_sessions 1 (fresh_manager demo_log)) (0, show_stmt demo_create, ''r''))))
     = Inr ((okResult 1)\<lparr>res_CommitSeq := 1\<rparr>)"
proof -
  let ?d = "fresh_sessions 1 (fresh_manager demo_log)"
  obtain rep0 where o: "wal_Open ''n'' 1000 [] = Inr (demo_log, rep0)" "NewManager demo_log NewStore = Inr (fresh_manager demo_log)" by (rule demo_opened)
  have p: "Parse (show_stmt demo_insert) = Inr demo_insert" by (rule Parse_show [OF demo_insert_ok show_demo_insert])
  have i: "isMutatingStatement demo_insert" by (simp add: isMutatingStatement_def demo_insert_def)
  have none: "sq_sessions (sql_step ?d (0, show_stmt demo_create, ''r'')) ! 0 = None" unfolding demo_step sql_run_simps by (simp add: fresh_sessions_def)
  obtain m2 s2 r2 where a: "sql_answer (0, show_stmt demo_insert, ''r'') (sql_step ?d (0, show_stmt demo_create, ''r'')) = (m2, s2, r2)"
    by (metis prod_cases3)
  from retry_runs_once [OF _ o, of "[]" "[]" ?d 1 0 "show_stmt demo_create" demo_create "''r''" demo_created None _ _ 0,
      OF _ _ _ _ demo_initial(1) demo_create_parse demo_initial(3) _ demo_initial(2) demo_answer refl _ _ p i] a none
  show ?thesis by (simp add: demo_insert_def)
qed

theorem sql_sessions_typed_witness:
  "typed_database (db_of (manager_view demo_created))"
proof -
  obtain rep0 where o: "wal_Open ''n'' 1000 [] = Inr (demo_log, rep0)" "NewManager demo_log NewStore = Inr (fresh_manager demo_log)" by (rule demo_opened)
  have "sq_mgr (sql_run [(0, show_stmt demo_create, ''r'')] (fresh_sessions 1 (fresh_manager demo_log))) = demo_created"
    unfolding demo_step sql_run_simps by (simp add: fresh_sessions_def)
  then show ?thesis using sql_sessions_typed [OF _ o _ refl, of "[(0, show_stmt demo_create, ''r'')]" 1] by simp
qed

theorem sql_tables_durable_witness:
  "\<exists>w rep m. wal_Open ''m'' 1000 (crash (\<lambda>i. 0) (w_dir (mg_walog demo_created))) = Inr (w, rep) \<and> NewManager w NewStore = Inr m
     \<and> db_of (txn_view m (fst (Begin m))) = db_of (manager_view demo_created)"
proof -
  obtain rep0 where o: "wal_Open ''n'' 1000 [] = Inr (demo_log, rep0)" "NewManager demo_log NewStore = Inr (fresh_manager demo_log)" by (rule demo_opened)
  have d: "sq_mgr (sql_run [(0, show_stmt demo_create, ''r'')] (fresh_sessions 1 (fresh_manager demo_log))) = demo_created"
    unfolding demo_step sql_run_simps by (simp add: fresh_sessions_def)
  have "i \<noteq> w_current (mg_walog demo_created) \<Longrightarrow> seg_Size i (w_dir (mg_walog demo_created)) \<le> 0" for i
    by (simp add: demo_created_def fresh_manager_def with_records_def demo_log_def demo_wal_def seg_Size_def mget_def)
  from sql_tables_durable [OF _ o _ refl, of "[(0, show_stmt demo_create, ''r'')]" 1 "\<lambda>i. 0" "''m''", unfolded d, OF _ _ this]
  show ?thesis by simp
qed

end
