(* ===== verification/Spec2Isabelle.thy ===== *)
theory Spec2Isabelle
  imports Chronicle_Prelude Mvcc Codec Sha256 Fsm_Command Fsm Fsm_Gc Fsm_Snapshot Raft_Crash Raft_Safety Node_Durable Txn_Durable Sql_System
begin

text \<open>
  A verification development for ChronicleDB, a replicated transactional database in Go (\<^verbatim>\<open>src/internal\<close>).

  \<^bold>\<open>The program.\<close> A transaction reads a snapshot of a multi-version store (\<^verbatim>\<open>internal/mvcc\<close>) and collects its writes;
  its commit is one command of a deterministic state machine (\<^verbatim>\<open>internal/fsm\<close>), which checks it against later commits,
  applies it, and records its outcome under the client's request identifier. In standalone mode the transaction manager
  (\<^verbatim>\<open>internal/txn\<close>) appends the command to a write-ahead log (\<^verbatim>\<open>internal/wal\<close>, over segment files of
  \<^verbatim>\<open>internal/storage\<close>), syncs it, and applies it; after a restart it replays the log. In a cluster the command is an
  entry of a Raft log (\<^verbatim>\<open>internal/raft\<close>), which a node (\<^verbatim>\<open>internal/node\<close>) persists through the same write-ahead log and
  applies once it is committed; the machine's state is cut into snapshots. A SQL frontend (\<^verbatim>\<open>internal/sql\<close>) parses
  statements, binds them to schemas, and runs them as transactions over keys and rows.

  \<^bold>\<open>Conventions.\<close> Strings and byte slices are character lists, \<open>uint64\<close> and \<open>uint32\<close> are words (\<open>u64\<close>, \<open>u32\<close>), a
  Go map is an association list with unique keys (\<open>gomap\<close>; interface \<open>finite_map\<close>), structs are records and
  tagged unions are datatypes with the names of the source. An operation that changes its receiver returns the new
  record. An error is a left value that keeps the sentinel and drops the message; a panic is a left value too. Every
  operation that holds its lock for the whole of its body is one function; locks, contexts and metrics are not
  fields, except for the two counters of the transaction manager. In the consensus core terms, indices and the persist
  counter are natural numbers, so wrap-around near 2^64 is outside that part; the membership check reads the members of
  a map in insertion order where Go's order is random.

  \<^bold>\<open>Theories\<close>, from the bottom up. Each opens with what it holds.

  \<^item> \<^verbatim>\<open>Chronicle_Prelude\<close>, \<^verbatim>\<open>Codec\<close>, \<^verbatim>\<open>Sha256\<close>: maps, results, \<open>sort.Search\<close>; big-endian integers, length prefixes and
    counted lists with the interfaces \<open>bounded_codec\<close> and \<open>codec\<close>, whose law is that decoding gives back what was
    encoded and the rest of the input; SHA-256, which the state machine uses for fingerprints.
  \<^item> \<^verbatim>\<open>Mvcc\<close> (\<^verbatim>\<open>mvcc.go\<close>): the whole store. Its reads are the newest version at or below a snapshot, commits are atomic,
    reclamation removes superseded versions only, scans agree with point reads. The interface \<open>versioned_store\<close> carries
    the stability of snapshots and is interpreted on the store.
  \<^item> \<^verbatim>\<open>Fsm_Command\<close>, \<^verbatim>\<open>Fsm\<close>, \<^verbatim>\<open>Fsm_Gc\<close>, \<^verbatim>\<open>Fsm_Snapshot\<close> (\<^verbatim>\<open>command.go\<close>, \<^verbatim>\<open>fsm.go\<close>, \<^verbatim>\<open>clusterversion.go\<close>, \<^verbatim>\<open>membership.go\<close>,
    \<^verbatim>\<open>gc.go\<close>, \<^verbatim>\<open>snapshot.go\<close>): the commands with their formats, the state machine with its invariant over histories
    of all four kinds of entries, exactly-once outcomes, snapshot isolation, repeatable reads, bounded and complete garbage
    collection, and the snapshot format: a machine restored from a complete snapshot answers like the original. A machine that
    rejected a version request before generation 1 is not complete, and there replicas diverge.
  \<^item> \<^verbatim>\<open>Raft_Types\<close>, \<^verbatim>\<open>Raft_Membership\<close>, \<^verbatim>\<open>Raft_Core\<close> (\<^verbatim>\<open>types.go\<close>, \<^verbatim>\<open>messages.go\<close>, \<^verbatim>\<open>io.go\<close>, \<^verbatim>\<open>config.go\<close>, \<^verbatim>\<open>storage.go\<close>,
    \<^verbatim>\<open>membership.go\<close>, \<^verbatim>\<open>core.go\<close>): the consensus core with every handler of \<open>Step\<close>. \<^verbatim>\<open>Raft_Step\<close>, \<^verbatim>\<open>Raft_Log\<close>, \<^verbatim>\<open>Raft_Inv\<close>: one
    core over its inputs, configuration changes and compaction included. \<^verbatim>\<open>Raft_Cluster\<close>: nodes under the order of
    \<open>Node.processOutput\<close> on a network that delays, repeats, reorders and loses messages, with crashes after any prefix of the
    writes of a persist request. \<^verbatim>\<open>Raft_Protocol\<close>: the abstract protocol, over any \<open>quorum_system\<close>, with its history of
    leaders, votes and acknowledgements. \<^verbatim>\<open>Raft_Refine\<close>, \<^verbatim>\<open>Raft_Follower\<close>, \<^verbatim>\<open>Raft_Durable\<close>, \<^verbatim>\<open>Raft_Simulate\<close>, \<^verbatim>\<open>Raft_Safety\<close>: the
    cluster refines it when the configuration is fixed and a crash keeps all or none of a persist request that carries
    a hard state; from this follow state machine safety, freedom from panics, election safety over whole runs, log
    matching and leader completeness. \<^verbatim>\<open>Raft_Crash\<close>: a crash between two writes of a request can lose a committed entry.
  \<^item> \<^verbatim>\<open>Wal_Record\<close>, \<^verbatim>\<open>Wal\<close>, \<^verbatim>\<open>Wal_Log\<close>, \<^verbatim>\<open>Wal_Replay\<close>, \<^verbatim>\<open>Wal_Recovery\<close>, \<^verbatim>\<open>Wal_Cut\<close>, \<^verbatim>\<open>Wal_Compact\<close> (\<^verbatim>\<open>record.go\<close>, \<^verbatim>\<open>metadata.go\<close>,
    \<^verbatim>\<open>wal.go\<close>, \<^verbatim>\<open>replay.go\<close>): frames with CRC-32 over segments whose unsynced tails a crash may cut. Recovery finds the state
    after a prefix of the operations that reaches the last sync, if closed segments are whole; rotation does not
    sync the segment it closes. Truncation returns to an earlier state; compaction is safe when the current segment
    has the metadata and the hard state.
  \<^item> \<^verbatim>\<open>Node_Storage\<close>, \<^verbatim>\<open>Node_Durable\<close> (\<^verbatim>\<open>node/storage.go\<close>): the storage of the core over the log. Appends and hard states
    implement the contract of the core across crashes. \<open>Truncate\<close> and \<open>InstallSnapshot\<close> do not: one loses a vote, the
    other its own pointer. The cluster theorems are about the contract.
  \<^item> \<^verbatim>\<open>Txn\<close>, \<^verbatim>\<open>Txn_Durable\<close> (\<^verbatim>\<open>txn.go\<close>): the manager and its sessions, interleaved. Committed transactions survive
    a crash and nothing else appears; a session reads its own writes over the state at its start.
  \<^item> \<^verbatim>\<open>Sql_Ast\<close>, \<^verbatim>\<open>Sql_Lexer\<close>, \<^verbatim>\<open>Sql_Parser\<close>, \<^verbatim>\<open>Sql_Syntax\<close>, \<^verbatim>\<open>Sql_Grammar\<close> (\<^verbatim>\<open>ast.go\<close>, \<^verbatim>\<open>token.go\<close>, \<^verbatim>\<open>lexer.go\<close>, \<^verbatim>\<open>limits.go\<close>,
    \<^verbatim>\<open>parser.go\<close>): the statement grammar, its text and back. \<^verbatim>\<open>Sql_Schema\<close>, \<^verbatim>\<open>Sql_Plan\<close>, \<^verbatim>\<open>Sql_Exec\<close> (\<^verbatim>\<open>schema.go\<close>, \<^verbatim>\<open>row.go\<close>,
    \<^verbatim>\<open>plan.go\<close>, \<^verbatim>\<open>exec.go\<close>): storage formats, binding, and executors over the engine interface. \<^verbatim>\<open>Sql_Refine\<close>: tables as
    maps from keys to rows, and that the executors implement the meaning of a statement over any engine of the
    interface \<open>sql_engine\<close>. \<^verbatim>\<open>Sql_Engine\<close> (\<^verbatim>\<open>engine.go\<close>) interprets it on the standalone engine. \<^verbatim>\<open>Sql_Session\<close>, \<^verbatim>\<open>Sql_System\<close>:
    sessions with BEGIN, COMMIT, ROLLBACK, auto-commit and retried requests, any number of them on one
    database whose requests run one after the other: the tables stay typed, a statement outside a transaction does what it means,
    a retried mutation does not run again, and committed tables survive a crash.

  \<^bold>\<open>Bounds.\<close> Loops are structural recursions or have a termination proof; no definition uses fuel. Round trips assume encodings
  below 2^32 bytes, as the length fields do; runs over the log have fewer than 2^64 records. A crash keeps a prefix
  of every segment; blocks that are zeroed or written out of order are not considered.

  \<^bold>\<open>Not modelled.\<close> Goroutines, timers, TCP, TLS, HTTP and the command line; the driver loop of a node beyond the order of
  its outputs, and with it the replicated SQL engine; admission control, whose answer is an argument of the SQL
  session; authentication, audit, backup, the files around snapshots, scrubbing, metrics and test infrastructure.
\<close>

end
